(* ===== verification/PRR_Prelude.thy ===== *)
theory PRR_Prelude
  imports Main "HOL-Library.Word"
begin

text \<open>
  Shared vocabulary of the development: the machine integers of the 32-bit Cortex-M target,
  byte-addressed memory with little-endian multi-byte accesses, and the result type used for
  C code whose behaviour may be undefined.  The lemmas here are the generic facts on words,
  lists and memory that the component theories rely on.
\<close>

unbundle bit_operations_syntax

section \<open>Machine types\<close>

type_synonym u8 = "8 word"
type_synonym u16 = "16 word"
type_synonym u32 = "32 word"
type_synonym u64 = "64 word"

type_synonym memory = "u32 \<Rightarrow> u8"

named_theorems c_const "values of the numeric constants of the C headers"
named_theorems mem_simps "reading memory after a store"

section \<open>Fallible computations\<close>

text \<open>\<open>ebind\<close> sequences two computations of a sum type; \<open>Inl\<close> aborts.\<close>

definition ebind :: "'e + 'a \<Rightarrow> ('a \<Rightarrow> 'e + 'b) \<Rightarrow> 'e + 'b" where
  "ebind x f = (case x of Inl e \<Rightarrow> Inl e | Inr a \<Rightarrow> f a)"

lemma ebind_simps [simp]:
  "ebind (Inl e) f = Inl e"
  "ebind (Inr a) f = f a"
  by (simp_all add: ebind_def)

lemma ebind_eq_Inr [simp]:
  "ebind x f = Inr b \<longleftrightarrow> (\<exists>a. x = Inr a \<and> f a = Inr b)"
  by (cases x) auto

lemma Inr_eq_ebind [simp]:
  "Inr b = ebind x f \<longleftrightarrow> (\<exists>a. x = Inr a \<and> f a = Inr b)"
  by (cases x) auto

lemma ebind_eq_Inl:
  "ebind x f = Inl e \<longleftrightarrow> x = Inl e \<or> (\<exists>a. x = Inr a \<and> f a = Inl e)"
  by (cases x) auto

text \<open>
  A C \<open>switch\<close> is a list of cases, each of which is \<open>None\<close> when its label does not match;
  the first matching case is executed.
\<close>

fun first_some :: "'a option list \<Rightarrow> 'a option" where
  "first_some [] = None"
| "first_some (Some x # cs) = Some x"
| "first_some (None # cs) = first_some cs"

lemma first_some_mem: "first_some cs = Some x \<Longrightarrow> Some x \<in> set cs"
  by (induction cs rule: first_some.induct) auto

lemma first_some_None: "first_some cs = None \<longleftrightarrow> set cs \<subseteq> {None}"
  by (induction cs rule: first_some.induct) auto

section \<open>Little-endian bytes\<close>

fun le_word :: "u8 list \<Rightarrow> 'a::len word" where
  "le_word [] = 0"
| "le_word (b # bs) = ucast b OR push_bit 8 (le_word bs)"

fun le_bytes :: "nat \<Rightarrow> 'a::len word \<Rightarrow> u8 list" where
  "le_bytes 0 w = []"
| "le_bytes (Suc n) w = ucast w # le_bytes n (drop_bit 8 w)"

lemma length_le_bytes [simp]: "length (le_bytes n w) = n"
  by (induction n arbitrary: w) auto

lemma le_word_le_bytes: "le_word (le_bytes n w) = take_bit (8 * n) (w :: 'a::len word)"
proof (induction n arbitrary: w)
  case 0
  then show ?case by simp
next
  case (Suc n)
  show ?case
    by (rule bit_word_eqI)
       (auto simp: Suc bit_simps take_bit_drop_bit)
qed

section \<open>Memory\<close>

fun bytes_at :: "memory \<Rightarrow> u32 \<Rightarrow> nat \<Rightarrow> u8 list" where
  "bytes_at m a 0 = []"
| "bytes_at m a (Suc n) = m a # bytes_at m (a + 1) n"

fun store_bytes :: "memory \<Rightarrow> u32 \<Rightarrow> u8 list \<Rightarrow> memory" where
  "store_bytes m a [] = m"
| "store_bytes m a (b # bs) = store_bytes (m(a := b)) (a + 1) bs"

definition load32 :: "memory \<Rightarrow> u32 \<Rightarrow> u32" where
  "load32 m a = le_word (bytes_at m a 4)"

lemma length_bytes_at [simp]: "length (bytes_at m a n) = n"
  by (induction n arbitrary: a) auto

lemma bytes_at_nth: "i < n \<Longrightarrow> bytes_at m a n ! i = m (a + of_nat i)"
proof (induction n arbitrary: a i)
  case 0
  then show ?case by simp
next
  case (Suc n)
  then show ?case by (cases i) (auto simp: algebra_simps)
qed

lemma bytes_at_cong:
  "(\<And>i. i < n \<Longrightarrow> m (a + of_nat i) = m' (a + of_nat i)) \<Longrightarrow> bytes_at m a n = bytes_at m' a n"
  by (rule nth_equalityI) (auto simp: bytes_at_nth)

text \<open>
  A store of fewer than \<open>2^32\<close> bytes changes exactly the bytes at distance less than its length
  from its first address, with distances taken modulo \<open>2^32\<close>.
\<close>

lemma store_bytes_apply:
  "length bs \<le> 2 ^ 32 \<Longrightarrow>
   store_bytes m a bs x = (if unat (x - a) < length bs then bs ! unat (x - a) else m x)"
proof (induction bs arbitrary: m a)
  case Nil
  then show ?case by simp
next
  case (Cons b bs)
  have len: "length bs < 2 ^ 32" using Cons.prems by simp
  show ?case
  proof (cases "x = a")
    case True
    then have "x - (a + 1) = - 1" by simp
    then have "unat (x - (a + 1)) = 2 ^ 32 - 1"
      by (simp add: unsigned_minus_1_eq_mask mask_eq_exp_minus_1)
    with len have "store_bytes (m(a := b)) (a + 1) bs x = (m(a := b)) x"
      by (subst Cons.IH) simp_all
    with True show ?thesis by simp
  next
    case False
    then have "unat (x - a) \<noteq> 0" by (simp add: unsigned_eq_0_iff)
    moreover have "unat (x - a - 1) = unat (x - a) - 1"
      using False by (intro unat_minus_one) simp
    moreover have "x - a - 1 = x - (a + 1)" by simp
    ultimately have d: "unat (x - a) = Suc (unat (x - (a + 1)))" by simp
    from len have "store_bytes (m(a := b)) (a + 1) bs x =
        (if unat (x - (a + 1)) < length bs then bs ! unat (x - (a + 1)) else (m(a := b)) x)"
      by (subst Cons.IH) simp_all
    with False d show ?thesis by simp
  qed
qed

lemma unat_u32_less: "unat (w :: u32) < 2 ^ 32"
  by (rule order_less_le_trans [OF unsigned_less]) simp

lemma store_bytes_append: "store_bytes m a (xs @ ys) = store_bytes (store_bytes m a xs) (a + of_nat (length xs)) ys"
  by (induction xs arbitrary: m a) (auto simp: algebra_simps)

lemma bytes_at_append: "bytes_at m a (n + k) = bytes_at m a n @ bytes_at m (a + of_nat n) k"
  by (induction n arbitrary: a) (auto simp: algebra_simps)

lemma unat_add_u32: "unat (a :: u32) + unat b < 2 ^ 32 \<Longrightarrow> unat (a + b) = unat a + unat b"
  by (simp add: unat_word_ariths)

lemma store_bytes_frame [mem_simps]:
  "length bs \<le> unat (x - a) \<Longrightarrow> store_bytes m a bs x = m x"
  using store_bytes_apply [of bs m a x] unat_u32_less [of "x - a"] by simp

lemma bytes_at_store:
  assumes "length bs < 2 ^ 32"
  shows "bytes_at (store_bytes m a bs) a (length bs) = bs"
proof (rule nth_equalityI)
  fix i assume "i < length (bytes_at (store_bytes m a bs) a (length bs))"
  then have "i < length bs" "unat (of_nat i :: u32) = i"
    using assms by (auto simp: unat_of_nat)
  then show "bytes_at (store_bytes m a bs) a (length bs) ! i = bs ! i"
    using assms by (simp add: bytes_at_nth store_bytes_apply)
qed simp

text \<open>Unfolding at numerals, for the evaluation of concrete memories.\<close>

lemma bytes_at_numeral:
  "bytes_at m a (numeral n) = m a # bytes_at m (a + 1) (pred_numeral n)"
  by (simp add: numeral_eq_Suc)

lemma le_bytes_numeral:
  "le_bytes (numeral n) w = ucast w # le_bytes (pred_numeral n) (drop_bit 8 w)"
  by (simp add: numeral_eq_Suc)

lemma le_word_le_bytes_16: "le_word (le_bytes 2 w) = (w :: u16)"
  by (simp only: le_word_le_bytes) (simp add: take_bit_word_eq_self)

lemma le_word_le_bytes_32: "le_word (le_bytes 4 w) = (w :: u32)"
  by (simp only: le_word_le_bytes) (simp add: take_bit_word_eq_self)

text \<open>The bits of a word and of its bytes.\<close>

lemma nth_le_bytes: "i < n \<Longrightarrow> le_bytes n w ! i = ucast (drop_bit (8 * i) w)"
proof (induction n arbitrary: i w)
  case 0
  then show ?case by simp
next
  case (Suc n)
  then show ?case by (cases i) (auto simp: add.commute)
qed

lemma bit_le_word:
  "bit (le_word bs :: 'a::len word) k \<longleftrightarrow>
     k < LENGTH('a) \<and> k div 8 < length bs \<and> bit (bs ! (k div 8)) (k mod 8)"
proof (induction bs arbitrary: k)
  case Nil
  then show ?case by simp
next
  case (Cons b bs)
  show ?case
  proof (cases "k < 8")
    case True
    then show ?thesis by (auto simp: bit_simps dest: bit_imp_le_length)
  next
    case False
    then have "k div 8 = Suc ((k - 8) div 8)" "(k - 8) mod 8 = k mod 8" by (simp_all add: le_div_geq le_mod_geq)
    moreover have "\<not> bit b k" using False bit_imp_le_length [of b k] by auto
    ultimately show ?thesis using False Cons [of "k - 8"] by (auto simp: bit_simps)
  qed
qed

lemma le_bytes_le_word:
  assumes "8 * length bs \<le> LENGTH('a)"
  shows "le_bytes (length bs) (le_word bs :: 'a::len word) = bs"
proof (rule nth_equalityI)
  fix i assume i: "i < length (le_bytes (length bs) (le_word bs :: 'a word))"
  show "le_bytes (length bs) (le_word bs :: 'a word) ! i = bs ! i"
  proof (rule bit_word_eqI)
    fix j assume "j < LENGTH(8)"
    with i assms show "bit (le_bytes (length bs) (le_word bs :: 'a word) ! i) j = bit (bs ! i) j"
      by (simp add: nth_le_bytes bit_simps bit_le_word)
  qed
qed simp

lemma le_bytes_and:
  "i < n \<Longrightarrow> le_bytes n (v AND w) ! i = le_bytes n v ! i AND le_bytes n w ! i"
  by (simp add: nth_le_bytes) (rule bit_word_eqI, auto simp: bit_simps)

end
