(* ===== verification/Rbpf_Instruction.thy ===== *)
theory Rbpf_Instruction
  imports PRR_Prelude
begin

text \<open>
  The eBPF instruction set of \<open>sys/include/rbpf/instruction.h\<close>: the opcode constants under
  their C names, the packed eight-byte instruction format \<open>bpf_instruction_t\<close>, and how an
  instruction is read from memory (little endian; the bit-field \<open>dst\<close> occupies the low nibble
  of the second byte, \<open>src\<close> the high nibble).
\<close>

section \<open>Opcodes\<close>

named_theorems bpf_opcodes "numeric values of the opcode constants"

definition BPF_INSTRUCTION_CLS_MASK :: u8 where
  [bpf_opcodes]: "BPF_INSTRUCTION_CLS_MASK = 0x07"

definition BPF_INSTRUCTION_CLS_LD :: u8 where
  [bpf_opcodes]: "BPF_INSTRUCTION_CLS_LD = 0x00"

definition BPF_INSTRUCTION_CLS_LDX :: u8 where
  [bpf_opcodes]: "BPF_INSTRUCTION_CLS_LDX = 0x01"

definition BPF_INSTRUCTION_CLS_ST :: u8 where
  [bpf_opcodes]: "BPF_INSTRUCTION_CLS_ST = 0x02"

definition BPF_INSTRUCTION_CLS_STX :: u8 where
  [bpf_opcodes]: "BPF_INSTRUCTION_CLS_STX = 0x03"

definition BPF_INSTRUCTION_CLS_ALU32 :: u8 where
  [bpf_opcodes]: "BPF_INSTRUCTION_CLS_ALU32 = 0x04"

definition BPF_INSTRUCTION_CLS_BRANCH :: u8 where
  [bpf_opcodes]: "BPF_INSTRUCTION_CLS_BRANCH = 0x05"

definition BPF_INSTRUCTION_CLS_ALU64 :: u8 where
  [bpf_opcodes]: "BPF_INSTRUCTION_CLS_ALU64 = 0x07"

definition BPF_INSTRUCTION_MEM_CLS_MASK :: u8 where
  [bpf_opcodes]: "BPF_INSTRUCTION_MEM_CLS_MASK = 0x07"

definition BPF_INSTRUCTION_MEM_SZ_MASK :: u8 where
  [bpf_opcodes]: "BPF_INSTRUCTION_MEM_SZ_MASK = 0x18"

definition BPF_INSTRUCTION_MEM_MDE_MASK :: u8 where
  [bpf_opcodes]: "BPF_INSTRUCTION_MEM_MDE_MASK = 0xe0"

definition BPF_INSTRUCTION_ALU_CLS_MASK :: u8 where
  [bpf_opcodes]: "BPF_INSTRUCTION_ALU_CLS_MASK = 0x07"

definition BPF_INSTRUCTION_ALU_S_MASK :: u8 where
  [bpf_opcodes]: "BPF_INSTRUCTION_ALU_S_MASK = 0x08"

definition BPF_INSTRUCTION_ALU_OP_MASK :: u8 where
  [bpf_opcodes]: "BPF_INSTRUCTION_ALU_OP_MASK = 0xf0"

definition BPF_INSTRUCTION_LDX_LDX :: u8 where
  [bpf_opcodes]: "BPF_INSTRUCTION_LDX_LDX = 0x60"

definition BPF_INSTRUCTION_STX_ST :: u8 where
  [bpf_opcodes]: "BPF_INSTRUCTION_STX_ST = 0x60"

definition BPF_INSTRUCTION_STX_STX :: u8 where
  [bpf_opcodes]: "BPF_INSTRUCTION_STX_STX = 0x60"

definition BPF_INSTRUCTION_ALU_ADD :: u8 where
  [bpf_opcodes]: "BPF_INSTRUCTION_ALU_ADD = 0x00"

definition BPF_INSTRUCTION_ALU_SUB :: u8 where
  [bpf_opcodes]: "BPF_INSTRUCTION_ALU_SUB = 0x10"

definition BPF_INSTRUCTION_ALU_MUL :: u8 where
  [bpf_opcodes]: "BPF_INSTRUCTION_ALU_MUL = 0x20"

definition BPF_INSTRUCTION_ALU_DIV :: u8 where
  [bpf_opcodes]: "BPF_INSTRUCTION_ALU_DIV = 0x30"

definition BPF_INSTRUCTION_ALU_OR :: u8 where
  [bpf_opcodes]: "BPF_INSTRUCTION_ALU_OR = 0x40"

definition BPF_INSTRUCTION_ALU_AND :: u8 where
  [bpf_opcodes]: "BPF_INSTRUCTION_ALU_AND = 0x50"

definition BPF_INSTRUCTION_ALU_LSH :: u8 where
  [bpf_opcodes]: "BPF_INSTRUCTION_ALU_LSH = 0x60"

definition BPF_INSTRUCTION_ALU_RSH :: u8 where
  [bpf_opcodes]: "BPF_INSTRUCTION_ALU_RSH = 0x70"

definition BPF_INSTRUCTION_ALU_NEG :: u8 where
  [bpf_opcodes]: "BPF_INSTRUCTION_ALU_NEG = 0x80"

definition BPF_INSTRUCTION_ALU_MOD :: u8 where
  [bpf_opcodes]: "BPF_INSTRUCTION_ALU_MOD = 0x90"

definition BPF_INSTRUCTION_ALU_XOR :: u8 where
  [bpf_opcodes]: "BPF_INSTRUCTION_ALU_XOR = 0xa0"

definition BPF_INSTRUCTION_ALU_MOV :: u8 where
  [bpf_opcodes]: "BPF_INSTRUCTION_ALU_MOV = 0xb0"

definition BPF_INSTRUCTION_ALU_ARSH :: u8 where
  [bpf_opcodes]: "BPF_INSTRUCTION_ALU_ARSH = 0xc0"

definition BPF_INSTRUCTION_BRANCH_JA :: u8 where
  [bpf_opcodes]: "BPF_INSTRUCTION_BRANCH_JA = 0x00"

definition BPF_INSTRUCTION_BRANCH_JEQ :: u8 where
  [bpf_opcodes]: "BPF_INSTRUCTION_BRANCH_JEQ = 0x10"

definition BPF_INSTRUCTION_BRANCH_JGT :: u8 where
  [bpf_opcodes]: "BPF_INSTRUCTION_BRANCH_JGT = 0x20"

definition BPF_INSTRUCTION_BRANCH_JGE :: u8 where
  [bpf_opcodes]: "BPF_INSTRUCTION_BRANCH_JGE = 0x30"

definition BPF_INSTRUCTION_BRANCH_JLT :: u8 where
  [bpf_opcodes]: "BPF_INSTRUCTION_BRANCH_JLT = 0xa0"

definition BPF_INSTRUCTION_BRANCH_JLE :: u8 where
  [bpf_opcodes]: "BPF_INSTRUCTION_BRANCH_JLE = 0xb0"

definition BPF_INSTRUCTION_BRANCH_JSET :: u8 where
  [bpf_opcodes]: "BPF_INSTRUCTION_BRANCH_JSET = 0x40"

definition BPF_INSTRUCTION_BRANCH_JNE :: u8 where
  [bpf_opcodes]: "BPF_INSTRUCTION_BRANCH_JNE = 0x50"

definition BPF_INSTRUCTION_BRANCH_JSGT :: u8 where
  [bpf_opcodes]: "BPF_INSTRUCTION_BRANCH_JSGT = 0x60"

definition BPF_INSTRUCTION_BRANCH_JSGE :: u8 where
  [bpf_opcodes]: "BPF_INSTRUCTION_BRANCH_JSGE = 0x70"

definition BPF_INSTRUCTION_BRANCH_JSLT :: u8 where
  [bpf_opcodes]: "BPF_INSTRUCTION_BRANCH_JSLT = 0xc0"

definition BPF_INSTRUCTION_BRANCH_JSLE :: u8 where
  [bpf_opcodes]: "BPF_INSTRUCTION_BRANCH_JSLE = 0xd0"

definition BPF_INSTRUCTION_BRANCH_CALL :: u8 where
  [bpf_opcodes]: "BPF_INSTRUCTION_BRANCH_CALL = 0x80"

definition BPF_INSTRUCTION_BRANCH_EXIT :: u8 where
  [bpf_opcodes]: "BPF_INSTRUCTION_BRANCH_EXIT = 0x90"

definition BPF_INSTRUCTION_ALU_BYTESWAP :: u8 where
  [bpf_opcodes]: "BPF_INSTRUCTION_ALU_BYTESWAP = 0xd0"

definition BPF_INSTRUCTION_ALU64_ADD_REG :: u8 where
  [bpf_opcodes]: "BPF_INSTRUCTION_ALU64_ADD_REG = 0x0f"

definition BPF_INSTRUCTION_ALU64_SUB_REG :: u8 where
  [bpf_opcodes]: "BPF_INSTRUCTION_ALU64_SUB_REG = 0x1f"

definition BPF_INSTRUCTION_ALU64_MUL_REG :: u8 where
  [bpf_opcodes]: "BPF_INSTRUCTION_ALU64_MUL_REG = 0x2f"

definition BPF_INSTRUCTION_ALU64_DIV_REG :: u8 where
  [bpf_opcodes]: "BPF_INSTRUCTION_ALU64_DIV_REG = 0x3f"

definition BPF_INSTRUCTION_ALU64_OR_REG :: u8 where
  [bpf_opcodes]: "BPF_INSTRUCTION_ALU64_OR_REG = 0x4f"

definition BPF_INSTRUCTION_ALU64_AND_REG :: u8 where
  [bpf_opcodes]: "BPF_INSTRUCTION_ALU64_AND_REG = 0x5f"

definition BPF_INSTRUCTION_ALU64_LSH_REG :: u8 where
  [bpf_opcodes]: "BPF_INSTRUCTION_ALU64_LSH_REG = 0x6f"

definition BPF_INSTRUCTION_ALU64_RSH_REG :: u8 where
  [bpf_opcodes]: "BPF_INSTRUCTION_ALU64_RSH_REG = 0x7f"

definition BPF_INSTRUCTION_ALU64_MOD_REG :: u8 where
  [bpf_opcodes]: "BPF_INSTRUCTION_ALU64_MOD_REG = 0x9f"

definition BPF_INSTRUCTION_ALU64_XOR_REG :: u8 where
  [bpf_opcodes]: "BPF_INSTRUCTION_ALU64_XOR_REG = 0xaf"

definition BPF_INSTRUCTION_ALU64_MOV_REG :: u8 where
  [bpf_opcodes]: "BPF_INSTRUCTION_ALU64_MOV_REG = 0xbf"

definition BPF_INSTRUCTION_ALU64_ARSH_REG :: u8 where
  [bpf_opcodes]: "BPF_INSTRUCTION_ALU64_ARSH_REG = 0xcf"

definition BPF_INSTRUCTION_ALU64_ADD_IMM :: u8 where
  [bpf_opcodes]: "BPF_INSTRUCTION_ALU64_ADD_IMM = 0x07"

definition BPF_INSTRUCTION_ALU64_SUB_IMM :: u8 where
  [bpf_opcodes]: "BPF_INSTRUCTION_ALU64_SUB_IMM = 0x17"

definition BPF_INSTRUCTION_ALU64_MUL_IMM :: u8 where
  [bpf_opcodes]: "BPF_INSTRUCTION_ALU64_MUL_IMM = 0x27"

definition BPF_INSTRUCTION_ALU64_DIV_IMM :: u8 where
  [bpf_opcodes]: "BPF_INSTRUCTION_ALU64_DIV_IMM = 0x37"

definition BPF_INSTRUCTION_ALU64_OR_IMM :: u8 where
  [bpf_opcodes]: "BPF_INSTRUCTION_ALU64_OR_IMM = 0x47"

definition BPF_INSTRUCTION_ALU64_AND_IMM :: u8 where
  [bpf_opcodes]: "BPF_INSTRUCTION_ALU64_AND_IMM = 0x57"

definition BPF_INSTRUCTION_ALU64_LSH_IMM :: u8 where
  [bpf_opcodes]: "BPF_INSTRUCTION_ALU64_LSH_IMM = 0x67"

definition BPF_INSTRUCTION_ALU64_RSH_IMM :: u8 where
  [bpf_opcodes]: "BPF_INSTRUCTION_ALU64_RSH_IMM = 0x77"

definition BPF_INSTRUCTION_ALU64_NEG_IMM :: u8 where
  [bpf_opcodes]: "BPF_INSTRUCTION_ALU64_NEG_IMM = 0x87"

definition BPF_INSTRUCTION_ALU64_MOD_IMM :: u8 where
  [bpf_opcodes]: "BPF_INSTRUCTION_ALU64_MOD_IMM = 0x97"

definition BPF_INSTRUCTION_ALU64_XOR_IMM :: u8 where
  [bpf_opcodes]: "BPF_INSTRUCTION_ALU64_XOR_IMM = 0xa7"

definition BPF_INSTRUCTION_ALU64_MOV_IMM :: u8 where
  [bpf_opcodes]: "BPF_INSTRUCTION_ALU64_MOV_IMM = 0xb7"

definition BPF_INSTRUCTION_ALU64_ARSH_IMM :: u8 where
  [bpf_opcodes]: "BPF_INSTRUCTION_ALU64_ARSH_IMM = 0xc7"

definition BPF_INSTRUCTION_ALU32_ADD_REG :: u8 where
  [bpf_opcodes]: "BPF_INSTRUCTION_ALU32_ADD_REG = 0x0c"

definition BPF_INSTRUCTION_ALU32_SUB_REG :: u8 where
  [bpf_opcodes]: "BPF_INSTRUCTION_ALU32_SUB_REG = 0x1c"

definition BPF_INSTRUCTION_ALU32_MUL_REG :: u8 where
  [bpf_opcodes]: "BPF_INSTRUCTION_ALU32_MUL_REG = 0x2c"

definition BPF_INSTRUCTION_ALU32_DIV_REG :: u8 where
  [bpf_opcodes]: "BPF_INSTRUCTION_ALU32_DIV_REG = 0x3c"

definition BPF_INSTRUCTION_ALU32_OR_REG :: u8 where
  [bpf_opcodes]: "BPF_INSTRUCTION_ALU32_OR_REG = 0x4c"

definition BPF_INSTRUCTION_ALU32_AND_REG :: u8 where
  [bpf_opcodes]: "BPF_INSTRUCTION_ALU32_AND_REG = 0x5c"

definition BPF_INSTRUCTION_ALU32_LSH_REG :: u8 where
  [bpf_opcodes]: "BPF_INSTRUCTION_ALU32_LSH_REG = 0x6c"

definition BPF_INSTRUCTION_ALU32_RSH_REG :: u8 where
  [bpf_opcodes]: "BPF_INSTRUCTION_ALU32_RSH_REG = 0x7c"

definition BPF_INSTRUCTION_ALU32_MOD_REG :: u8 where
  [bpf_opcodes]: "BPF_INSTRUCTION_ALU32_MOD_REG = 0x9c"

definition BPF_INSTRUCTION_ALU32_XOR_REG :: u8 where
  [bpf_opcodes]: "BPF_INSTRUCTION_ALU32_XOR_REG = 0xac"

definition BPF_INSTRUCTION_ALU32_MOV_REG :: u8 where
  [bpf_opcodes]: "BPF_INSTRUCTION_ALU32_MOV_REG = 0xbc"

definition BPF_INSTRUCTION_ALU32_ARSH_REG :: u8 where
  [bpf_opcodes]: "BPF_INSTRUCTION_ALU32_ARSH_REG = 0xcc"

definition BPF_INSTRUCTION_ALU32_ADD_IMM :: u8 where
  [bpf_opcodes]: "BPF_INSTRUCTION_ALU32_ADD_IMM = 0x04"

definition BPF_INSTRUCTION_ALU32_SUB_IMM :: u8 where
  [bpf_opcodes]: "BPF_INSTRUCTION_ALU32_SUB_IMM = 0x14"

definition BPF_INSTRUCTION_ALU32_MUL_IMM :: u8 where
  [bpf_opcodes]: "BPF_INSTRUCTION_ALU32_MUL_IMM = 0x24"

definition BPF_INSTRUCTION_ALU32_DIV_IMM :: u8 where
  [bpf_opcodes]: "BPF_INSTRUCTION_ALU32_DIV_IMM = 0x34"

definition BPF_INSTRUCTION_ALU32_OR_IMM :: u8 where
  [bpf_opcodes]: "BPF_INSTRUCTION_ALU32_OR_IMM = 0x44"

definition BPF_INSTRUCTION_ALU32_AND_IMM :: u8 where
  [bpf_opcodes]: "BPF_INSTRUCTION_ALU32_AND_IMM = 0x54"

definition BPF_INSTRUCTION_ALU32_LSH_IMM :: u8 where
  [bpf_opcodes]: "BPF_INSTRUCTION_ALU32_LSH_IMM = 0x64"

definition BPF_INSTRUCTION_ALU32_RSH_IMM :: u8 where
  [bpf_opcodes]: "BPF_INSTRUCTION_ALU32_RSH_IMM = 0x74"

definition BPF_INSTRUCTION_ALU32_NEG_IMM :: u8 where
  [bpf_opcodes]: "BPF_INSTRUCTION_ALU32_NEG_IMM = 0x84"

definition BPF_INSTRUCTION_ALU32_MOD_IMM :: u8 where
  [bpf_opcodes]: "BPF_INSTRUCTION_ALU32_MOD_IMM = 0x94"

definition BPF_INSTRUCTION_ALU32_XOR_IMM :: u8 where
  [bpf_opcodes]: "BPF_INSTRUCTION_ALU32_XOR_IMM = 0xa4"

definition BPF_INSTRUCTION_ALU32_MOV_IMM :: u8 where
  [bpf_opcodes]: "BPF_INSTRUCTION_ALU32_MOV_IMM = 0xb4"

definition BPF_INSTRUCTION_ALU32_ARSH_IMM :: u8 where
  [bpf_opcodes]: "BPF_INSTRUCTION_ALU32_ARSH_IMM = 0xc4"

definition BPF_INSTRUCTION_JMP_ALWAYS :: u8 where
  [bpf_opcodes]: "BPF_INSTRUCTION_JMP_ALWAYS = 0x05"

definition BPF_INSTRUCTION_JMP_EQ_IMM :: u8 where
  [bpf_opcodes]: "BPF_INSTRUCTION_JMP_EQ_IMM = 0x15"

definition BPF_INSTRUCTION_JMP_GT_IMM :: u8 where
  [bpf_opcodes]: "BPF_INSTRUCTION_JMP_GT_IMM = 0x25"

definition BPF_INSTRUCTION_JMP_GE_IMM :: u8 where
  [bpf_opcodes]: "BPF_INSTRUCTION_JMP_GE_IMM = 0x35"

definition BPF_INSTRUCTION_JMP_SET_IMM :: u8 where
  [bpf_opcodes]: "BPF_INSTRUCTION_JMP_SET_IMM = 0x45"

definition BPF_INSTRUCTION_JMP_NE_IMM :: u8 where
  [bpf_opcodes]: "BPF_INSTRUCTION_JMP_NE_IMM = 0x55"

definition BPF_INSTRUCTION_JMP_SGT_IMM :: u8 where
  [bpf_opcodes]: "BPF_INSTRUCTION_JMP_SGT_IMM = 0x65"

definition BPF_INSTRUCTION_JMP_SGE_IMM :: u8 where
  [bpf_opcodes]: "BPF_INSTRUCTION_JMP_SGE_IMM = 0x75"

definition BPF_INSTRUCTION_JMP_LT_IMM :: u8 where
  [bpf_opcodes]: "BPF_INSTRUCTION_JMP_LT_IMM = 0xa5"

definition BPF_INSTRUCTION_JMP_LE_IMM :: u8 where
  [bpf_opcodes]: "BPF_INSTRUCTION_JMP_LE_IMM = 0xb5"

definition BPF_INSTRUCTION_JMP_SLT_IMM :: u8 where
  [bpf_opcodes]: "BPF_INSTRUCTION_JMP_SLT_IMM = 0xc5"

definition BPF_INSTRUCTION_JMP_SLE_IMM :: u8 where
  [bpf_opcodes]: "BPF_INSTRUCTION_JMP_SLE_IMM = 0xd5"

definition BPF_INSTRUCTION_JMP_EQ_REG :: u8 where
  [bpf_opcodes]: "BPF_INSTRUCTION_JMP_EQ_REG = 0x1d"

definition BPF_INSTRUCTION_JMP_GT_REG :: u8 where
  [bpf_opcodes]: "BPF_INSTRUCTION_JMP_GT_REG = 0x2d"

definition BPF_INSTRUCTION_JMP_GE_REG :: u8 where
  [bpf_opcodes]: "BPF_INSTRUCTION_JMP_GE_REG = 0x3d"

definition BPF_INSTRUCTION_JMP_SET_REG :: u8 where
  [bpf_opcodes]: "BPF_INSTRUCTION_JMP_SET_REG = 0x4d"

definition BPF_INSTRUCTION_JMP_NE_REG :: u8 where
  [bpf_opcodes]: "BPF_INSTRUCTION_JMP_NE_REG = 0x5d"

definition BPF_INSTRUCTION_JMP_SGT_REG :: u8 where
  [bpf_opcodes]: "BPF_INSTRUCTION_JMP_SGT_REG = 0x6d"

definition BPF_INSTRUCTION_JMP_SGE_REG :: u8 where
  [bpf_opcodes]: "BPF_INSTRUCTION_JMP_SGE_REG = 0x7d"

definition BPF_INSTRUCTION_JMP_LT_REG :: u8 where
  [bpf_opcodes]: "BPF_INSTRUCTION_JMP_LT_REG = 0xad"

definition BPF_INSTRUCTION_JMP_LE_REG :: u8 where
  [bpf_opcodes]: "BPF_INSTRUCTION_JMP_LE_REG = 0xbd"

definition BPF_INSTRUCTION_JMP_SLT_REG :: u8 where
  [bpf_opcodes]: "BPF_INSTRUCTION_JMP_SLT_REG = 0xcd"

definition BPF_INSTRUCTION_JMP_SLE_REG :: u8 where
  [bpf_opcodes]: "BPF_INSTRUCTION_JMP_SLE_REG = 0xdd"

definition BPF_INSTRUCTION_MEM_LDDW :: u8 where
  [bpf_opcodes]: "BPF_INSTRUCTION_MEM_LDDW = 0x18"

definition BPF_INSTRUCTION_MEM_LDDWD :: u8 where
  [bpf_opcodes]: "BPF_INSTRUCTION_MEM_LDDWD = 0xb8"

definition BPF_INSTRUCTION_MEM_LDDWR :: u8 where
  [bpf_opcodes]: "BPF_INSTRUCTION_MEM_LDDWR = 0xd8"

definition BPF_INSTRUCTION_MEM_STXW :: u8 where
  [bpf_opcodes]: "BPF_INSTRUCTION_MEM_STXW = 0x63"

definition BPF_INSTRUCTION_MEM_STXH :: u8 where
  [bpf_opcodes]: "BPF_INSTRUCTION_MEM_STXH = 0x6b"

definition BPF_INSTRUCTION_MEM_STXB :: u8 where
  [bpf_opcodes]: "BPF_INSTRUCTION_MEM_STXB = 0x73"

definition BPF_INSTRUCTION_MEM_STXDW :: u8 where
  [bpf_opcodes]: "BPF_INSTRUCTION_MEM_STXDW = 0x7b"

definition BPF_INSTRUCTION_MEM_STW :: u8 where
  [bpf_opcodes]: "BPF_INSTRUCTION_MEM_STW = 0x62"

definition BPF_INSTRUCTION_MEM_STH :: u8 where
  [bpf_opcodes]: "BPF_INSTRUCTION_MEM_STH = 0x6a"

definition BPF_INSTRUCTION_MEM_STB :: u8 where
  [bpf_opcodes]: "BPF_INSTRUCTION_MEM_STB = 0x72"

definition BPF_INSTRUCTION_MEM_STDW :: u8 where
  [bpf_opcodes]: "BPF_INSTRUCTION_MEM_STDW = 0x7a"

definition BPF_INSTRUCTION_MEM_LDXW :: u8 where
  [bpf_opcodes]: "BPF_INSTRUCTION_MEM_LDXW = 0x61"

definition BPF_INSTRUCTION_MEM_LDXH :: u8 where
  [bpf_opcodes]: "BPF_INSTRUCTION_MEM_LDXH = 0x69"

definition BPF_INSTRUCTION_MEM_LDXB :: u8 where
  [bpf_opcodes]: "BPF_INSTRUCTION_MEM_LDXB = 0x71"

definition BPF_INSTRUCTION_MEM_LDXDW :: u8 where
  [bpf_opcodes]: "BPF_INSTRUCTION_MEM_LDXDW = 0x79"

definition BPF_INSTRUCTION_CALL :: u8 where
  [bpf_opcodes]: "BPF_INSTRUCTION_CALL = 0x85"

definition BPF_INSTRUCTION_RETURN :: u8 where
  [bpf_opcodes]: "BPF_INSTRUCTION_RETURN = 0x95"

section \<open>Instruction format\<close>

record bpf_instruction_t =
  opcode :: u8
  dst :: "4 word"
  src :: "4 word"
  offset :: u16
  immediate :: u32

definition sizeof_bpf_instruction_t :: u32 where
  [c_const]: "sizeof_bpf_instruction_t = 8"

definition bpf_instruction_at :: "memory \<Rightarrow> u32 \<Rightarrow> bpf_instruction_t" where
  "bpf_instruction_at m a =
     \<lparr> opcode = m a,
       dst = ucast (m (a + 1)),
       src = ucast (drop_bit 4 (m (a + 1))),
       offset = le_word [m (a + 2), m (a + 3)],
       immediate = le_word [m (a + 4), m (a + 5), m (a + 6), m (a + 7)] \<rparr>"

lemma bpf_instruction_at_cong:
  assumes "\<And>i. i < 8 \<Longrightarrow> m (a + of_nat i) = m' (a + of_nat i)"
  shows "bpf_instruction_at m a = bpf_instruction_at m' a"
  using assms [of 0] assms [of 1] assms [of 2] assms [of 3]
        assms [of 4] assms [of 5] assms [of 6] assms [of 7]
  by (simp add: bpf_instruction_at_def)

end
