(* ===== verification/Rbpf_Application.thy ===== *)
theory Rbpf_Application
  imports Rbpf_Instruction
begin

text \<open>
  The application object of \<open>sys/include/rbpf.h\<close>, its set-up (\<open>sys/rbpf/rbpf.c\<close>) and the memory
  permission check of \<open>sys/rbpf/engine.c\<close>.

  A region's \<open>next\<close> pointer is not a field of the model: \<open>rbpf_application_setup\<close> links
  stack, data, rodata and argument region in that order, so a chain is those four followed by
  the list \<open>arg_next\<close> that hangs off \<open>arg_region.next\<close>.  Addresses are 32-bit words, the casts
  to \<open>intptr_t\<close> of the permission check are signed readings (\<open>sint\<close>) of them.
\<close>

section \<open>Constants and structures\<close>

definition RBPF_STACK_SIZE :: u32 where
  [c_const]: "RBPF_STACK_SIZE = 512"

definition RBPF_CONTINUE :: int where [c_const]: "RBPF_CONTINUE = 1"

definition RBPF_OK :: int where [c_const]: "RBPF_OK = 0"

definition RBPF_ILLEGAL_INSTRUCTION :: int where [c_const]: "RBPF_ILLEGAL_INSTRUCTION = - 1"

definition RBPF_ILLEGAL_MEM :: int where [c_const]: "RBPF_ILLEGAL_MEM = - 2"

definition RBPF_ILLEGAL_JUMP :: int where [c_const]: "RBPF_ILLEGAL_JUMP = - 3"

definition RBPF_ILLEGAL_CALL :: int where [c_const]: "RBPF_ILLEGAL_CALL = - 4"

definition RBPF_ILLEGAL_LEN :: int where [c_const]: "RBPF_ILLEGAL_LEN = - 5"

definition RBPF_ILLEGAL_REGISTER :: int where [c_const]: "RBPF_ILLEGAL_REGISTER = - 6"

definition RBPF_NO_RETURN :: int where [c_const]: "RBPF_NO_RETURN = - 7"

definition RBPF_OUT_OF_BRANCHES :: int where [c_const]: "RBPF_OUT_OF_BRANCHES = - 8"

definition RBPF_ILLEGAL_DIV :: int where [c_const]: "RBPF_ILLEGAL_DIV = - 9"

definition RBPF_MEM_REGION_READ :: u8 where [c_const]: "RBPF_MEM_REGION_READ = 0x01"

definition RBPF_MEM_REGION_WRITE :: u8 where [c_const]: "RBPF_MEM_REGION_WRITE = 0x02"

definition RBPF_FLAG_SETUP_DONE :: u16 where [c_const]: "RBPF_FLAG_SETUP_DONE = 0x01"

definition RBPF_FLAG_PREFLIGHT_DONE :: u16 where [c_const]: "RBPF_FLAG_PREFLIGHT_DONE = 0x02"

definition RBPF_CONFIG_NO_RETURN :: u16 where [c_const]: "RBPF_CONFIG_NO_RETURN = 0x0100"

definition RBPF_BRANCHES_ALLOWED :: u32 where [c_const]: "RBPF_BRANCHES_ALLOWED = 10000"

record rbpf_mem_region_t =
  start :: u32
  len :: u32
  region_flags :: u8

record rbpf_application_t =
  stack_region :: rbpf_mem_region_t
  rodata_region :: rbpf_mem_region_t
  data_region :: rbpf_mem_region_t
  arg_region :: rbpf_mem_region_t
  arg_next :: "rbpf_mem_region_t list"
  application :: u32
  application_len :: u32
  stack :: u32
  flags :: u16
  branches_remaining :: u32

text \<open>Sizes of the two structures on the 32-bit target (four-byte pointers and \<open>size_t\<close>).\<close>

definition sizeof_rbpf_header_t :: u32 where
  [c_const]: "sizeof_rbpf_header_t = 28"

definition sizeof_rbpf_application_t :: u32 where
  [c_const]: "sizeof_rbpf_application_t = 84"

section \<open>Header accessors\<close>

text \<open>The packed header fields, read from the memory that holds the application.\<close>

definition rbpf_header :: "rbpf_application_t \<Rightarrow> u32" where
  "rbpf_header rbpf = application rbpf"

definition header_data_len :: "memory \<Rightarrow> u32 \<Rightarrow> u32" where
  "header_data_len m header = load32 m (header + 12)"

definition header_rodata_len :: "memory \<Rightarrow> u32 \<Rightarrow> u32" where
  "header_rodata_len m header = load32 m (header + 16)"

definition header_text_len :: "memory \<Rightarrow> u32 \<Rightarrow> u32" where
  "header_text_len m header = load32 m (header + 20)"

definition rbpf_application_rodata :: "memory \<Rightarrow> rbpf_application_t \<Rightarrow> u32" where
  "rbpf_application_rodata m rbpf =
     (let header = rbpf_header rbpf
      in header + sizeof_rbpf_application_t + header_data_len m header)"

definition rbpf_application_rodata_len :: "memory \<Rightarrow> rbpf_application_t \<Rightarrow> u32" where
  "rbpf_application_rodata_len m rbpf = header_rodata_len m (rbpf_header rbpf)"

definition rbpf_application_data :: "memory \<Rightarrow> rbpf_application_t \<Rightarrow> u32" where
  "rbpf_application_data m rbpf = rbpf_header rbpf + sizeof_rbpf_application_t"

definition rbpf_application_data_len :: "memory \<Rightarrow> rbpf_application_t \<Rightarrow> u32" where
  "rbpf_application_data_len m rbpf = header_data_len m (rbpf_header rbpf)"

definition rbpf_application_text :: "memory \<Rightarrow> rbpf_application_t \<Rightarrow> u32" where
  "rbpf_application_text m rbpf =
     (let header = rbpf_header rbpf
      in header + sizeof_rbpf_header_t + header_data_len m header + header_rodata_len m header)"

definition rbpf_application_text_len :: "memory \<Rightarrow> rbpf_application_t \<Rightarrow> u32" where
  "rbpf_application_text_len m rbpf = header_text_len m (rbpf_header rbpf)"

section \<open>Regions and set-up\<close>

definition rbpf_memory_region_init ::
  "rbpf_mem_region_t \<Rightarrow> u32 \<Rightarrow> u32 \<Rightarrow> u8 \<Rightarrow> rbpf_mem_region_t" where
  "rbpf_memory_region_init region st ln fl =
     region\<lparr>start := st, len := ln, region_flags := fl\<rparr>"

definition rbpf_application_setup ::
  "memory \<Rightarrow> rbpf_application_t \<Rightarrow> u32 \<Rightarrow> u32 \<Rightarrow> u32 \<Rightarrow> rbpf_application_t" where
  "rbpf_application_setup m rbpf stk app app_len =
     (let rbpf1 = rbpf\<lparr>stack := stk, application := app, application_len := app_len\<rparr>;
          rbpf2 = rbpf1\<lparr>stack_region :=
            rbpf_memory_region_init (stack_region rbpf1) (stack rbpf1) RBPF_STACK_SIZE
              (RBPF_MEM_REGION_READ OR RBPF_MEM_REGION_WRITE)\<rparr>;
          rbpf3 = rbpf2\<lparr>data_region :=
            rbpf_memory_region_init (data_region rbpf2) (rbpf_application_data m rbpf2)
              (rbpf_application_data_len m rbpf2)
              (RBPF_MEM_REGION_READ OR RBPF_MEM_REGION_WRITE)\<rparr>;
          rbpf4 = rbpf3\<lparr>rodata_region :=
            rbpf_memory_region_init (rodata_region rbpf3) (rbpf_application_rodata m rbpf3)
              (rbpf_application_rodata_len m rbpf3) RBPF_MEM_REGION_READ\<rparr>
      in rbpf4\<lparr>flags := flags rbpf4 OR RBPF_FLAG_SETUP_DONE\<rparr>)"

definition rbpf_add_region ::
  "rbpf_application_t \<Rightarrow> rbpf_mem_region_t \<Rightarrow> rbpf_application_t" where
  "rbpf_add_region rbpf region = rbpf\<lparr>arg_next := region # arg_next rbpf\<rparr>"

definition region_chain :: "rbpf_application_t \<Rightarrow> rbpf_mem_region_t list" where
  "region_chain rbpf =
     stack_region rbpf # data_region rbpf # rodata_region rbpf # arg_region rbpf # arg_next rbpf"

section \<open>Permission check\<close>

fun check_mem_regions :: "rbpf_mem_region_t list \<Rightarrow> u32 \<Rightarrow> u32 \<Rightarrow> u8 \<Rightarrow> bool" where
  "check_mem_regions [] addr end_addr type = False"
| "check_mem_regions (region # rs) addr end_addr type =
     (if sint (start region) \<le> sint addr
         \<and> sint end_addr \<le> sint (start region + len region)
         \<and> region_flags region AND type \<noteq> 0
      then True else check_mem_regions rs addr end_addr type)"

definition check_mem :: "rbpf_application_t \<Rightarrow> u32 \<Rightarrow> u32 \<Rightarrow> u8 \<Rightarrow> bool" where
  "check_mem rbpf addr sz type =
     (let end_addr = addr + sz in check_mem_regions (region_chain rbpf) addr end_addr type)"

definition check_load :: "rbpf_application_t \<Rightarrow> u32 \<Rightarrow> u32 \<Rightarrow> bool" where
  "check_load rbpf addr sz = check_mem rbpf addr sz RBPF_MEM_REGION_READ"

definition check_store :: "rbpf_application_t \<Rightarrow> u32 \<Rightarrow> u32 \<Rightarrow> bool" where
  "check_store rbpf addr sz = check_mem rbpf addr sz RBPF_MEM_REGION_WRITE"

definition rbpf_store_allowed :: "rbpf_application_t \<Rightarrow> u32 \<Rightarrow> u32 \<Rightarrow> bool" where
  "rbpf_store_allowed rbpf addr sz = check_store rbpf addr sz"

definition rbpf_load_allowed :: "rbpf_application_t \<Rightarrow> u32 \<Rightarrow> u32 \<Rightarrow> bool" where
  "rbpf_load_allowed rbpf addr sz = check_load rbpf addr sz"

section \<open>What the permission check guarantees\<close>

text \<open>
  The specification of a grant: every byte of the access lies in one region that carries the
  permission.  \<open>region_ok\<close> says the end of a region is representable as \<open>intptr_t\<close>.
\<close>

definition region_ok :: "rbpf_mem_region_t \<Rightarrow> bool" where
  "region_ok r \<longleftrightarrow> sint (start r) + uint (len r) < 2 ^ 31"

definition in_region :: "rbpf_mem_region_t \<Rightarrow> u32 \<Rightarrow> bool" where
  "in_region r a \<longleftrightarrow> unat (a - start r) < unat (len r)"

definition granted :: "rbpf_application_t \<Rightarrow> u8 \<Rightarrow> u32 \<Rightarrow> bool" where
  "granted rbpf type a \<longleftrightarrow>
     (\<exists>r \<in> set (region_chain rbpf). region_flags r AND type \<noteq> 0 \<and> in_region r a)"

text \<open>An access whose end passes the top of the positive \<open>intptr_t\<close> range wraps.\<close>

definition access_wraps :: "u32 \<Rightarrow> nat \<Rightarrow> bool" where
  "access_wraps a n \<longleftrightarrow> sint a + int n \<ge> 2 ^ 31"

lemma check_mem_regions_iff:
  "check_mem_regions rs addr e type \<longleftrightarrow>
     (\<exists>r \<in> set rs. sint (start r) \<le> sint addr \<and> sint e \<le> sint (start r + len r)
        \<and> region_flags r AND type \<noteq> 0)"
  by (induction rs) auto

lemma sint_u32_bounds: "- (2 ^ 31) \<le> sint (w :: u32) \<and> sint w < 2 ^ 31"
  using sint_greater_eq [of w] sint_less [of w] by simp

lemma sint_add_nonneg_u32:
  assumes "sint (a :: u32) + uint (b :: u32) < 2 ^ 31"
  shows "sint (a + b) = sint a + uint b"
proof -
  have ge: "- (2 ^ 31) \<le> sint a + uint b"
    using sint_u32_bounds [of a] uint_ge_0 [of b] by linarith
  have "sint (a + b) = sint (word_of_int (sint a + uint b) :: u32)"
    by simp
  also have "\<dots> = signed_take_bit 31 (sint a + uint b)"
    by (simp only: signed_of_int) simp
  also have "\<dots> = sint a + uint b"
    using ge assms by (intro signed_take_bit_int_eq_self) auto
  finally show ?thesis .
qed

lemma sint_add_nat_u32:
  assumes "sint (a :: u32) + int i < 2 ^ 31"
  shows "sint (a + of_nat i) = sint a + int i"
proof -
  have "int i < 2 ^ 32" using assms sint_u32_bounds [of a] by simp
  then have "uint (of_nat i :: u32) = int i"
    by (simp add: uint_nat unat_of_nat)
  with assms sint_add_nonneg_u32 [of a "of_nat i"] show ?thesis by simp
qed

lemma uint_diff_sint_u32:
  assumes "sint (s :: u32) \<le> sint x"
  shows "uint (x - s) = sint x - sint s"
proof -
  have "uint (x - s) = uint (word_of_int (sint x - sint s) :: u32)" by simp
  also have "\<dots> = take_bit 32 (sint x - sint s)"
    by (simp only: unsigned_of_int) simp
  also have "\<dots> = sint x - sint s"
    using assms sint_u32_bounds [of x] sint_u32_bounds [of s]
    by (intro take_bit_int_eq_self) auto
  finally show ?thesis .
qed

lemma in_region_iff:
  assumes "region_ok r"
  shows "in_region r x \<longleftrightarrow>
    sint (start r) \<le> sint x \<and> sint x < sint (start r) + uint (len r)"
proof
  assume "in_region r x"
  then have lt: "uint (x - start r) < uint (len r)"
    by (simp add: in_region_def word_less_def flip: word_less_nat_alt)
  then have "sint (start r) + uint (x - start r) < 2 ^ 31"
    using assms by (simp add: region_ok_def)
  then have "sint (start r + (x - start r)) = sint (start r) + uint (x - start r)"
    by (rule sint_add_nonneg_u32)
  then have "sint x = sint (start r) + uint (x - start r)" by simp
  with lt show "sint (start r) \<le> sint x \<and> sint x < sint (start r) + uint (len r)" by simp
next
  assume "sint (start r) \<le> sint x \<and> sint x < sint (start r) + uint (len r)"
  then have "uint (x - start r) < uint (len r)"
    by (simp add: uint_diff_sint_u32)
  then show "in_region r x" 
    by (simp add: in_region_def word_less_def flip: word_less_nat_alt)
qed

text \<open>
  For an access that does not wrap, the check holds exactly when one region with the permission
  contains every byte of the access.
\<close>

lemma check_mem_exact:
  assumes ok: "\<forall>r \<in> set (region_chain rbpf). region_ok r"
    and nw: "\<not> access_wraps a n" and pos: "0 < n"
  shows "check_mem rbpf a (of_nat n) type \<longleftrightarrow>
    (\<exists>r \<in> set (region_chain rbpf). region_flags r AND type \<noteq> 0
       \<and> (\<forall>i < n. in_region r (a + of_nat i)))"
proof -
  have bound: "sint a + int n < 2 ^ 31" using nw by (simp add: access_wraps_def)
  have at: "sint (a + of_nat i) = sint a + int i" if "i \<le> n" for i
    using bound that by (intro sint_add_nat_u32) linarith
  have "sint (start r) \<le> sint a \<and> sint (a + of_nat n) \<le> sint (start r + len r)
      \<longleftrightarrow> (\<forall>i < n. in_region r (a + of_nat i))" if "r \<in> set (region_chain rbpf)" for r
  proof -
    have r: "region_ok r" using ok that by blast
    then have e: "sint (start r + len r) = sint (start r) + uint (len r)"
      by (intro sint_add_nonneg_u32) (simp add: region_ok_def)
    have "(\<forall>i < n. in_region r (a + of_nat i)) \<longleftrightarrow>
        (\<forall>i < n. sint (start r) \<le> sint a + int i \<and> sint a + int i < sint (start r) + uint (len r))"
      using in_region_iff [OF r] at by simp
    also have "\<dots> \<longleftrightarrow> sint (start r) \<le> sint a \<and> sint a + int n \<le> sint (start r) + uint (len r)"
    proof
      assume "\<forall>i < n. sint (start r) \<le> sint a + int i
        \<and> sint a + int i < sint (start r) + uint (len r)"
      from this [rule_format, of 0] this [rule_format, of "n - 1"] pos
      show "sint (start r) \<le> sint a \<and> sint a + int n \<le> sint (start r) + uint (len r)"
        by auto
    qed auto
    finally show ?thesis using at [of n] e by simp
  qed
  then show ?thesis
    by (auto simp: check_mem_def check_mem_regions_iff)
qed

lemma check_mem_granted:
  assumes "\<forall>r \<in> set (region_chain rbpf). region_ok r"
    and "check_mem rbpf a (of_nat n) type" and "\<not> access_wraps a n" and "i < n"
  shows "granted rbpf type (a + of_nat i)"
  using check_mem_exact [OF assms(1,3)] assms(2,4) by (auto simp: granted_def)

end
