(* ===== verification/Rbpf_Verify.thy ===== *)
theory Rbpf_Verify
  imports Rbpf_Application
begin

text \<open>
  The pre-flight verifier of \<open>sys/rbpf/verify.c\<close>.  The loop over the text section runs on
  the 32-bit instruction pointer and ends when the pointer is not below the end pointer; as the end
  pointer can wrap around, and a skip over the second slot of an \<open>LDDW\<close> can pass it, the loop need
  not end, and \<open>None\<close> is a check that does not.  \<open>verify_slots\<close> is the reference it is compared
  with: the scan by slot index.  The lemmas characterise exactly what a successful pre-flight check
  has established about the text.
\<close>

section \<open>External calls\<close>

text \<open>
  \<open>sys/include/rbpf/config.h\<close>: without \<open>RBPF_EXTERNAL_CALLS\<close> (the configuration of this tree) no
  call number is known.  A call receives the application, the registers and the memory.
\<close>

type_synonym rbpf_call_t =
  "rbpf_application_t \<times> u64 list \<times> memory \<Rightarrow> u32 \<times> rbpf_application_t \<times> u64 list \<times> memory"

definition rbpf_get_external_call :: "u32 \<Rightarrow> rbpf_call_t option" where
  "rbpf_get_external_call num = None"

definition rbpf_check_call :: "u32 \<Rightarrow> bool" where
  "rbpf_check_call num = (case rbpf_get_external_call num of None \<Rightarrow> False | Some _ \<Rightarrow> True)"

section \<open>The verifier\<close>

definition is_branch_class :: "bpf_instruction_t \<Rightarrow> bool" where
  "is_branch_class i \<longleftrightarrow>
     opcode i AND BPF_INSTRUCTION_CLS_MASK = BPF_INSTRUCTION_CLS_BRANCH"

text \<open>Pointer arithmetic \<open>i + i->offset\<close> on instructions of eight bytes, as a cast to \<open>intptr_t\<close>.\<close>

definition jump_target :: "u32 \<Rightarrow> bpf_instruction_t \<Rightarrow> u32" where
  "jump_target i_addr i = i_addr + sizeof_bpf_instruction_t * scast (offset i)"

definition target_out_of_bounds :: "u32 \<Rightarrow> u32 \<Rightarrow> u32 \<Rightarrow> bool" where
  "target_out_of_bounds text ln target \<longleftrightarrow>
     sint target \<ge> sint (text + ln) \<or> sint target < sint text"

text \<open>
  The loop \<open>for (i = application; i < application + length; i++)\<close> from the instruction pointer
  \<open>i_addr\<close>.  The comparison is one of 32-bit addresses, and the end pointer is computed modulo
  \<open>2 ^ 32\<close>.
\<close>

partial_function (option) verify_loop :: "memory \<Rightarrow> u32 \<Rightarrow> u32 \<Rightarrow> u32 \<Rightarrow> int option" where
  "verify_loop m text ln i_addr =
     (if i_addr < text + ln then
        (let i = bpf_instruction_at m i_addr
         in if unat (dst i) \<ge> 11 \<or> unat (src i) \<ge> 11 then Some RBPF_ILLEGAL_REGISTER
            else if opcode i = 0x18
            then verify_loop m text ln (i_addr + sizeof_bpf_instruction_t + sizeof_bpf_instruction_t)
            else if is_branch_class i \<and> target_out_of_bounds text ln (jump_target i_addr i)
            then Some RBPF_ILLEGAL_JUMP
            else if opcode i = (BPF_INSTRUCTION_BRANCH_CALL OR BPF_INSTRUCTION_CLS_BRANCH)
                    \<and> \<not> rbpf_check_call (immediate i)
            then Some RBPF_ILLEGAL_CALL
            else verify_loop m text ln (i_addr + sizeof_bpf_instruction_t))
      else Some RBPF_OK)"

definition rbpf_application_verify_preflight ::
  "memory \<Rightarrow> rbpf_application_t \<Rightarrow> (int \<times> rbpf_application_t) option" where
  "rbpf_application_verify_preflight m rbpf =
     (let text = rbpf_application_text m rbpf;
          length = rbpf_application_text_len m rbpf
      in if flags rbpf AND RBPF_FLAG_PREFLIGHT_DONE \<noteq> 0 then Some (RBPF_OK, rbpf)
         else if length AND 0x7 \<noteq> 0 then Some (RBPF_ILLEGAL_LEN, rbpf)
         else case verify_loop m text length text of
           None \<Rightarrow> None
         | Some res \<Rightarrow>
             if res \<noteq> RBPF_OK then Some (res, rbpf)
             else let num_instructions = length div sizeof_bpf_instruction_t;
                      last = bpf_instruction_at m
                        (text + sizeof_bpf_instruction_t * (num_instructions - 1))
             in if opcode last \<noteq> 0x95 \<and> flags rbpf AND RBPF_CONFIG_NO_RETURN = 0
                then Some (RBPF_NO_RETURN, rbpf)
                else Some (RBPF_OK, rbpf\<lparr>flags := flags rbpf OR RBPF_FLAG_PREFLIGHT_DONE\<rparr>))"

abbreviation preflight_status :: "memory \<Rightarrow> rbpf_application_t \<Rightarrow> int option" where
  "preflight_status m rbpf \<equiv> map_option fst (rbpf_application_verify_preflight m rbpf)"

section \<open>The scan by slot index\<close>

text \<open>The reference for the loop: slot \<open>k\<close> is at \<open>text + 8 * k\<close> and the scan ends with the slots.\<close>

function verify_slots :: "memory \<Rightarrow> u32 \<Rightarrow> u32 \<Rightarrow> nat \<Rightarrow> int" where
  "verify_slots m text ln k =
     (if 8 * k < unat ln then
        (let i_addr = text + of_nat (8 * k);
             i = bpf_instruction_at m i_addr
         in if unat (dst i) \<ge> 11 \<or> unat (src i) \<ge> 11 then RBPF_ILLEGAL_REGISTER
            else if opcode i = 0x18 then verify_slots m text ln (k + 2)
            else if is_branch_class i \<and> target_out_of_bounds text ln (jump_target i_addr i)
            then RBPF_ILLEGAL_JUMP
            else if opcode i = (BPF_INSTRUCTION_BRANCH_CALL OR BPF_INSTRUCTION_CLS_BRANCH)
                    \<and> \<not> rbpf_check_call (immediate i)
            then RBPF_ILLEGAL_CALL
            else verify_slots m text ln (k + 1))
      else RBPF_OK)"
  by pat_completeness auto
termination
  by (relation "measure (\<lambda>(m, text, ln, k). unat ln - 8 * k)") auto

declare verify_slots.simps [simp del]

text \<open>
  The loop is the scan when the text ends at least eight bytes before the top of the address space,
  so that no skip passes the end pointer, and it looks at nothing when the end pointer wraps.
\<close>

definition scan_in_range :: "u32 \<Rightarrow> u32 \<Rightarrow> bool" where
  "scan_in_range text ln \<longleftrightarrow> unat text + unat ln < 2 ^ 32 - 8"

lemma and_7_dvd: "(ln :: u32) AND 7 = 0 \<Longrightarrow> 8 dvd unat ln"
proof -
  assume "ln AND 7 = 0"
  moreover have "ln AND 7 = take_bit 3 ln"
    by (simp add: take_bit_eq_mask mask_eq_exp_minus_1)
  ultimately have "unat (take_bit 3 ln) = 0" by simp
  then have "unat ln mod 8 = 0"
    by (simp add: take_bit_eq_mod unat_mod)
  then show ?thesis by (simp add: dvd_eq_mod_eq_0)
qed

lemma slot_below_end:
  assumes "scan_in_range text ln" "8 * k \<le> unat ln + 8"
  shows "text + of_nat (8 * k) < text + ln \<longleftrightarrow> 8 * k < unat ln"
proof -
  have r: "unat text + unat ln < 2 ^ 32 - 8" using assms(1) by (simp add: scan_in_range_def)
  have k: "unat (of_nat (8 * k) :: u32) = 8 * k"
    using r assms(2) by (simp add: unat_of_nat take_bit_nat_eq_self del: of_nat_mult)
  have "unat (text + of_nat (8 * k)) = unat text + 8 * k"
    using r assms(2) k by (subst unat_add_lem [THEN iffD1]) simp_all
  moreover have "unat (text + ln) = unat text + unat ln"
    using r by (subst unat_add_lem [THEN iffD1]) simp_all
  ultimately show ?thesis by (simp only: word_less_nat_alt nat_add_left_cancel_less)
qed

lemma verify_loop_slots:
  assumes r: "scan_in_range text ln" and d: "8 dvd unat ln"
  shows "8 * k \<le> unat ln + 8 \<Longrightarrow>
    verify_loop m text ln (text + of_nat (8 * k)) = Some (verify_slots m text ln k)"
proof (induction "unat ln - 8 * k" arbitrary: k rule: less_induct)
  case less
  note below = slot_below_end [OF r less.prems]
  show ?case
  proof (cases "8 * k < unat ln")
    case False
    then show ?thesis
      by (simp add: verify_loop.simps [of m "text" ln "text + of_nat (8 * k)"]
          verify_slots.simps [of m "text" ln k] below del: of_nat_mult)
  next
    case True
    define a where "a = text + of_nat (8 * k)"
    have "8 * (k + 2) \<le> unat ln + 8" using True d by auto
    with True have "verify_loop m text ln (text + of_nat (8 * (k + 2))) = Some (verify_slots m text ln (k + 2))"
      and "verify_loop m text ln (text + of_nat (8 * (k + 1))) = Some (verify_slots m text ln (k + 1))"
      by (intro less.hyps; simp)+
    moreover have "text + of_nat (8 * (k + 2)) = a + 8 + 8" "text + of_nat (8 * (k + 1)) = a + 8"
      by (simp_all add: a_def algebra_simps)
    ultimately have "verify_loop m text ln (a + 8 + 8) = Some (verify_slots m text ln (k + 2))"
      "verify_loop m text ln (a + 8) = Some (verify_slots m text ln (k + 1))" by (simp_all only:)
    moreover have "a < text + ln" using below True by (simp add: a_def)
    ultimately show ?thesis
      unfolding verify_slots.simps [of m "text" ln k] Let_def a_def [symmetric]
      by (subst verify_loop.simps) (simp only: True sizeof_bpf_instruction_t_def Let_def if_True split: if_split, auto)
  qed
qed

lemma verify_loop_scan:
  assumes "scan_in_range text ln" "ln AND 7 = 0"
  shows "verify_loop m text ln text = Some (verify_slots m text ln 0)"
  using verify_loop_slots [OF assms(1) and_7_dvd [OF assms(2)], of 0] by simp

lemma verify_loop_wrapped:
  assumes "2 ^ 32 \<le> unat text + unat ln"
  shows "verify_loop m text ln text = Some RBPF_OK"
proof -
  have unat_ln: "unat ln < 2 ^ 32" by (rule order.strict_trans2 [OF unsigned_less]) simp
  have "unat (text + ln) = (unat text + unat ln) mod 2 ^ 32" by (simp add: unat_word_ariths)
  also have "\<dots> = (unat text + unat ln - 2 ^ 32) mod 2 ^ 32" by (rule le_mod_geq [OF assms])
  also have "\<dots> \<le> unat text + unat ln - 2 ^ 32" by (rule mod_less_eq_dividend)
  also have "\<dots> \<le> unat text" using unat_ln by simp
  finally have "\<not> text < text + ln" by (simp add: word_less_nat_alt)
  then show ?thesis by (simp add: verify_loop.simps)
qed

section \<open>What the verifier establishes\<close>

text \<open>
  The slots the loop looks at: the scan starts at slot 0 and steps over the second slot of an
  instruction with opcode \<open>0x18\<close>.
\<close>

definition next_slot :: "memory \<Rightarrow> u32 \<Rightarrow> nat \<Rightarrow> nat" where
  "next_slot m text k =
     (if opcode (bpf_instruction_at m (text + of_nat (8 * k))) = 0x18 then k + 2 else k + 1)"

inductive scanned_from :: "memory \<Rightarrow> u32 \<Rightarrow> nat \<Rightarrow> nat \<Rightarrow> bool"
  for m :: memory and base :: u32 where
  from_refl: "scanned_from m base k k"
| from_step: "scanned_from m base (next_slot m base k) j \<Longrightarrow> scanned_from m base k j"

abbreviation scanned :: "memory \<Rightarrow> u32 \<Rightarrow> nat \<Rightarrow> bool" where
  "scanned m text k \<equiv> scanned_from m text 0 k"

text \<open>The conditions the verifier imposes on a scanned slot.\<close>

definition slot_accepted :: "memory \<Rightarrow> u32 \<Rightarrow> u32 \<Rightarrow> nat \<Rightarrow> bool" where
  "slot_accepted m text ln k \<longleftrightarrow>
     (let i_addr = text + of_nat (8 * k);
          i = bpf_instruction_at m i_addr
      in unat (dst i) < 11 \<and> unat (src i) < 11
         \<and> (opcode i \<noteq> 0x18 \<longrightarrow>
              (is_branch_class i \<longrightarrow> \<not> target_out_of_bounds text ln (jump_target i_addr i))
            \<and> (opcode i = 0x85 \<longrightarrow> rbpf_check_call (immediate i))))"

lemma call_opcode: "BPF_INSTRUCTION_BRANCH_CALL OR BPF_INSTRUCTION_CLS_BRANCH = 0x85"
  by (simp add: bpf_opcodes)

lemma verify_slots_step:
  assumes "8 * k < unat ln"
  shows "verify_slots m text ln k = RBPF_OK \<longleftrightarrow>
    slot_accepted m text ln k \<and>
    verify_slots m text ln (next_slot m text k) = RBPF_OK"
  using assms
  by (subst verify_slots.simps)
     (auto simp: slot_accepted_def next_slot_def Let_def call_opcode c_const not_le)

lemma scanned_from_le: "scanned_from m text k j \<Longrightarrow> k \<le> j"
  by (induction rule: scanned_from.induct) (auto simp: next_slot_def split: if_splits)

text \<open>The scan from a slot accepts exactly when every slot it looks at is accepted.\<close>

lemma verify_slots_iff:
  "verify_slots m text ln k = RBPF_OK \<longleftrightarrow>
   (\<forall>j. scanned_from m text k j \<longrightarrow> 8 * j < unat ln \<longrightarrow> slot_accepted m text ln j)"
proof (induction "unat ln - 8 * k" arbitrary: k rule: less_induct)
  case less
  show ?case
  proof (cases "8 * k < unat ln")
    case False
    then have "\<not> 8 * j < unat ln" if "scanned_from m text k j" for j
      using scanned_from_le [OF that] by linarith
    with False show ?thesis
      by (subst verify_slots.simps) auto
  next
    case True
    have "unat ln - 8 * next_slot m text k < unat ln - 8 * k"
      using True by (auto simp: next_slot_def)
    note IH = less [OF this]
    have "scanned_from m text k j \<longleftrightarrow> j = k \<or> scanned_from m text (next_slot m text k) j" for j
      by (subst scanned_from.simps) auto
    with True show ?thesis
      unfolding verify_slots_step [OF True] IH by auto
  qed
qed

lemma scanned_from_trans:
  "scanned_from m text k j \<Longrightarrow> scanned_from m text j l \<Longrightarrow> scanned_from m text k l"
  by (induction rule: scanned_from.induct) (auto intro: from_step)

lemma scanned_next: "scanned m text k \<Longrightarrow> scanned m text (next_slot m text k)"
  by (erule scanned_from_trans) (rule from_step, rule from_refl)

text \<open>A slot that is not scanned is the second slot of a scanned \<open>0x18\<close> instruction.\<close>

lemma scanned_or_second:
  "scanned m text k \<or>
   (\<exists>j. k = j + 1 \<and> scanned m text j \<and> opcode (bpf_instruction_at m (text + of_nat (8 * j))) = 0x18)"
proof (induction k)
  case 0
  then show ?case by (simp add: from_refl)
next
  case (Suc k)
  then show ?case
    using scanned_next [of m "text"] unfolding next_slot_def by fastforce
qed

text \<open>
  On the target the application lies below \<open>0x80000000\<close>.  There the jump check says that the slot
  named by the offset, before the program counter is advanced, is a slot of the text.
\<close>

definition text_below_2G :: "u32 \<Rightarrow> u32 \<Rightarrow> bool" where
  "text_below_2G text ln \<longleftrightarrow> 0 \<le> sint text \<and> sint text + uint ln < 2 ^ 31"

lemma scan_below_2G:
  assumes "text_below_2G text ln"
  shows "scan_in_range text ln"
proof -
  have t: "0 \<le> sint text" "sint text + uint ln < 2 ^ 31"
    using assms by (simp_all add: text_below_2G_def)
  then have lt: "sint text < 2 ^ 31" using uint_ge_0 [of ln] by linarith
  have "uint text = uint (word_of_int (sint text) :: u32)" by simp
  also have "\<dots> = sint text mod 2 ^ 32" by (simp only: uint_word_of_int) simp
  also have "\<dots> = sint text"
    using t(1) lt by (intro mod_pos_pos_trivial) simp_all
  finally have "int (unat text + unat ln) < int (2 ^ 31)" using t(2) by simp
  then have "unat text + unat ln < 2 ^ 31" by (simp only: of_nat_less_iff)
  then show ?thesis by (simp add: scan_in_range_def)
qed

lemma sint_offset_bounds: "- (2 ^ 15) \<le> sint (w :: u16) \<and> sint w < 2 ^ 15"
  using sint_greater_eq [of w] sint_less [of w] by simp

lemma jump_target_word:
  "jump_target (text + of_nat (8 * k)) i =
     word_of_int (sint text + 8 * (int k + sint (offset i)))"
  by (simp add: jump_target_def c_const algebra_simps)

lemma target_in_bounds_iff:
  assumes "text_below_2G text ln" and k: "8 * k < unat ln"
  shows "\<not> target_out_of_bounds text ln (jump_target (text + of_nat (8 * k)) i) \<longleftrightarrow>
    0 \<le> int k + sint (offset i) \<and> 8 * (int k + sint (offset i)) < uint ln"
proof -
  define v where "v = sint text + 8 * (int k + sint (offset i))"
  have T: "0 \<le> sint text" "sint text + uint ln < 2 ^ 31"
    using assms(1) by (auto simp: text_below_2G_def)
  have e: "sint (text + ln) = sint text + uint ln"
    using T by (intro sint_add_nonneg_u32) simp
  have kl: "8 * int k < uint ln" 
  proof -
    have "int (8 * k) < int (unat ln)" using k by (simp only: of_nat_less_iff)
    then show ?thesis by simp
  qed
  have lo: "- (2 ^ 31) \<le> v" and hi: "v < 2 ^ 31 + 2 ^ 18"
    using T kl sint_offset_bounds [of "offset i"] by (auto simp: v_def)
  have s: "sint (word_of_int v :: u32) = signed_take_bit 31 v"
    by (simp only: signed_of_int) simp
  have "\<not> target_out_of_bounds text ln (word_of_int v) \<longleftrightarrow>
      sint text \<le> v \<and> v < sint text + uint ln"
  proof (cases "v < 2 ^ 31")
    case True
    then have "signed_take_bit 31 v = v"
      using lo by (intro signed_take_bit_int_eq_self) auto
    then show ?thesis by (auto simp: target_out_of_bounds_def s e)
  next
    case False
    have "signed_take_bit 31 v = signed_take_bit 31 (v - 2 ^ 32)"
      by (simp add: signed_take_bit_eq_iff_take_bit_eq take_bit_eq_mod)
    also have "\<dots> = v - 2 ^ 32"
      using False hi by (intro signed_take_bit_int_eq_self) auto
    finally show ?thesis
      using False hi T by (auto simp: target_out_of_bounds_def s e)
  qed
  moreover have "sint text \<le> v \<longleftrightarrow> 0 \<le> int k + sint (offset i)"
    "v < sint text + uint ln \<longleftrightarrow> 8 * (int k + sint (offset i)) < uint ln"
    by (auto simp: v_def)
  ultimately show ?thesis
    unfolding jump_target_word v_def [symmetric] by simp
qed

end
