(* ===== verification/Rbpf_Engine.thy ===== *)
theory Rbpf_Engine
  imports Rbpf_Verify
begin

text \<open>
  The interpreter of \<open>sys/rbpf/engine.c\<close>.  The state of a run is the application object, memory,
  the instruction pointer and the eleven registers.  Each macro that generates \<open>switch\<close> cases
  (\<open>ALU\<close>, \<open>COND_JMP\<close>, \<open>MEM\<close>) is a function returning \<open>None\<close> when no label it generates
  matches the opcode; \<open>rbpf_cases\<close> lists them in the order of the source.

  Where the C code has no defined behaviour the result is \<open>Inl\<close> with the reason: a register
  nibble outside \<open>regmap\<close>, a shift by at least the operand width, the negation of the least
  signed value, a 32-bit division by zero, an access through a pointer to a 16-, 32- or 64-bit integer
  that is not a multiple of its size.  \<open>AssertFailure\<close> is a failed \<open>assert\<close>, which never
  returns.
\<close>

section \<open>State\<close>

datatype ub = RegmapIndex | ShiftCount | SignedOverflow | DivideByZero | UnalignedAccess | AssertFailure

record vm_state =
  vm_app :: rbpf_application_t
  vm_mem :: memory
  vm_instr :: u32
  vm_regmap :: "u64 list"

type_synonym vm_result = "ub + (int \<times> vm_state)"
type_synonym vm_case = "bpf_instruction_t \<Rightarrow> vm_state \<Rightarrow> vm_result option"

section \<open>Register and immediate operands\<close>

definition regmap_get :: "vm_state \<Rightarrow> 4 word \<Rightarrow> ub + u64" where
  "regmap_get vm r = (if unat r < 11 then Inr (vm_regmap vm ! unat r) else Inl RegmapIndex)"

definition regmap_set :: "vm_state \<Rightarrow> 4 word \<Rightarrow> u64 \<Rightarrow> ub + vm_state" where
  "regmap_set vm r v =
     (if unat r < 11 then Inr (vm\<lparr>vm_regmap := (vm_regmap vm)[unat r := v]\<rparr>)
      else Inl RegmapIndex)"

definition DST :: "bpf_instruction_t \<Rightarrow> vm_state \<Rightarrow> ub + u64" where
  "DST i vm = regmap_get vm (dst i)"

definition SRC :: "bpf_instruction_t \<Rightarrow> vm_state \<Rightarrow> ub + u64" where
  "SRC i vm = regmap_get vm (src i)"

text \<open>\<open>IMM\<close> is a signed 32-bit value; mixed with a 64-bit operand it is sign extended.\<close>

definition IMM64 :: "bpf_instruction_t \<Rightarrow> u64" where
  "IMM64 i = scast (immediate i)"

text \<open>\<open>DST = v; break;\<close> followed by \<open>return RBPF_CONTINUE\<close> at the end of the switch.\<close>

definition assign_dst :: "bpf_instruction_t \<Rightarrow> vm_state \<Rightarrow> u64 \<Rightarrow> vm_result" where
  "assign_dst i vm v = ebind (regmap_set vm (dst i) v) (\<lambda>vm'. Inr (RBPF_CONTINUE, vm'))"

definition return_code :: "vm_state \<Rightarrow> int \<Rightarrow> vm_result" where
  "return_code vm code = Inr (code, vm)"

section \<open>Arithmetic\<close>

definition shl :: "'a::len word \<Rightarrow> 'a word \<Rightarrow> ub + 'a word" where
  "shl a n = (if unat n < LENGTH('a) then Inr (push_bit (unat n) a) else Inl ShiftCount)"

definition shr :: "'a::len word \<Rightarrow> 'a word \<Rightarrow> ub + 'a word" where
  "shr a n = (if unat n < LENGTH('a) then Inr (drop_bit (unat n) a) else Inl ShiftCount)"

definition ALU ::
  "u8 \<Rightarrow> u8 \<Rightarrow> u8 \<Rightarrow> u8 \<Rightarrow> (u64 \<Rightarrow> u64 \<Rightarrow> ub + u64) \<Rightarrow> (u32 \<Rightarrow> u32 \<Rightarrow> ub + u32) \<Rightarrow> vm_case" where
  "ALU alu64_reg alu64_imm alu32_reg alu32_imm op64 op32 i vm =
     (if opcode i = alu64_reg then Some
        (ebind (DST i vm) (\<lambda>d. ebind (SRC i vm) (\<lambda>s. ebind (op64 d s) (assign_dst i vm))))
      else if opcode i = alu64_imm then Some
        (ebind (DST i vm) (\<lambda>d. ebind (op64 d (IMM64 i)) (assign_dst i vm)))
      else if opcode i = alu32_reg then Some
        (ebind (DST i vm) (\<lambda>d. ebind (SRC i vm) (\<lambda>s.
           ebind (op32 (ucast d) (ucast s)) (\<lambda>v. assign_dst i vm (ucast v)))))
      else if opcode i = alu32_imm then Some
        (ebind (DST i vm) (\<lambda>d.
           ebind (op32 (ucast d) (immediate i)) (\<lambda>v. assign_dst i vm (ucast v))))
      else None)"

text \<open>
  The division and modulo cases.  The 32-bit register variants test the whole 64-bit source
  register for zero and then divide by its low half.
\<close>

definition div_u32 :: "(u32 \<Rightarrow> u32 \<Rightarrow> u32) \<Rightarrow> u32 \<Rightarrow> u32 \<Rightarrow> ub + u32" where
  "div_u32 f a b = (if b = 0 then Inl DivideByZero else Inr (f a b))"

definition ALU_DIV ::
  "u8 \<Rightarrow> u8 \<Rightarrow> u8 \<Rightarrow> u8 \<Rightarrow> (u64 \<Rightarrow> u64 \<Rightarrow> u64) \<Rightarrow> (u32 \<Rightarrow> u32 \<Rightarrow> u32) \<Rightarrow> vm_case" where
  "ALU_DIV alu64_reg alu64_imm alu32_reg alu32_imm op64 op32 i vm =
     (if opcode i = alu64_reg then Some
        (ebind (SRC i vm) (\<lambda>s.
           if s = 0 then return_code vm RBPF_ILLEGAL_DIV
           else ebind (DST i vm) (\<lambda>d. assign_dst i vm (op64 d s))))
      else if opcode i = alu64_imm then Some
        (if immediate i = 0 then return_code vm RBPF_ILLEGAL_DIV
         else ebind (DST i vm) (\<lambda>d. assign_dst i vm (op64 d (IMM64 i))))
      else if opcode i = alu32_reg then Some
        (ebind (SRC i vm) (\<lambda>s.
           if s = 0 then return_code vm RBPF_ILLEGAL_DIV
           else ebind (DST i vm) (\<lambda>d.
             ebind (div_u32 op32 (ucast d) (ucast s)) (\<lambda>v. assign_dst i vm (ucast v)))))
      else if opcode i = alu32_imm then Some
        (if immediate i = 0 then return_code vm RBPF_ILLEGAL_DIV
         else ebind (DST i vm) (\<lambda>d.
             ebind (div_u32 op32 (ucast d) (immediate i)) (\<lambda>v. assign_dst i vm (ucast v))))
      else None)"

text \<open>Negation of a signed value overflows on the least value of the type.\<close>

definition neg :: "'a::len word \<Rightarrow> ub + 'a word" where
  "neg a = (if a = push_bit (LENGTH('a) - 1) 1 then Inl SignedOverflow else Inr (- a))"

definition ALU_NEG :: vm_case where
  "ALU_NEG i vm =
     (if opcode i = BPF_INSTRUCTION_ALU64_NEG_IMM then Some
        (ebind (DST i vm) (\<lambda>d. ebind (neg d) (assign_dst i vm)))
      else if opcode i = BPF_INSTRUCTION_ALU32_NEG_IMM then Some
        (ebind (DST i vm) (\<lambda>d. ebind (neg (ucast d :: u32)) (\<lambda>v. assign_dst i vm (scast v))))
      else None)"

definition ALU_MOV :: vm_case where
  "ALU_MOV i vm =
     (if opcode i = BPF_INSTRUCTION_ALU32_MOV_IMM then Some
        (assign_dst i vm (ucast (immediate i)))
      else if opcode i = BPF_INSTRUCTION_ALU32_MOV_REG then Some
        (ebind (SRC i vm) (\<lambda>s. assign_dst i vm (ucast (ucast s :: u32))))
      else if opcode i = BPF_INSTRUCTION_ALU64_MOV_IMM then Some
        (assign_dst i vm (IMM64 i))
      else if opcode i = BPF_INSTRUCTION_ALU64_MOV_REG then Some
        (ebind (SRC i vm) (\<lambda>s. assign_dst i vm s))
      else None)"

text \<open>
  Right shift of a signed value by a 64-bit count.  The immediate count is an \<open>int\<close>; a negative
  count sign extends to a value above every width.
\<close>

definition sar :: "'a::len word \<Rightarrow> u64 \<Rightarrow> ub + 'a word" where
  "sar a n = (if unat n < LENGTH('a) then Inr (signed_drop_bit (unat n) a) else Inl ShiftCount)"

definition ALU_ARSH :: vm_case where
  "ALU_ARSH i vm =
     (if opcode i = BPF_INSTRUCTION_ALU64_ARSH_REG then Some
        (ebind (DST i vm) (\<lambda>d. ebind (SRC i vm) (\<lambda>s. ebind (sar d s) (assign_dst i vm))))
      else if opcode i = BPF_INSTRUCTION_ALU64_ARSH_IMM then Some
        (ebind (DST i vm) (\<lambda>d. ebind (sar d (IMM64 i)) (assign_dst i vm)))
      else if opcode i = BPF_INSTRUCTION_ALU32_ARSH_REG then Some
        (ebind (DST i vm) (\<lambda>d. ebind (SRC i vm) (\<lambda>s.
           ebind (sar (ucast d :: u32) s) (\<lambda>v. assign_dst i vm (scast v)))))
      else if opcode i = BPF_INSTRUCTION_ALU32_ARSH_IMM then Some
        (ebind (DST i vm) (\<lambda>d.
           ebind (sar (ucast d :: u32) (IMM64 i)) (\<lambda>v. assign_dst i vm (scast v))))
      else None)"

section \<open>Double word loads\<close>

text \<open>\<open>((*instr) + 1)->immediate\<close>, sign extended by the cast to \<open>uint64_t\<close>.\<close>

definition next_IMM64 :: "vm_state \<Rightarrow> u64" where
  "next_IMM64 vm = IMM64 (bpf_instruction_at (vm_mem vm) (vm_instr vm + sizeof_bpf_instruction_t))"

definition assign_dst_skip :: "bpf_instruction_t \<Rightarrow> vm_state \<Rightarrow> u64 \<Rightarrow> vm_result" where
  "assign_dst_skip i vm v =
     ebind (regmap_set vm (dst i) v) (\<lambda>vm'.
       Inr (RBPF_CONTINUE, vm'\<lparr>vm_instr := vm_instr vm' + sizeof_bpf_instruction_t\<rparr>))"

definition MEM_LDDW :: vm_case where
  "MEM_LDDW i vm =
     (if opcode i = BPF_INSTRUCTION_MEM_LDDW then Some
        (assign_dst_skip i vm (IMM64 i OR push_bit 32 (next_IMM64 vm)))
      else if opcode i = BPF_INSTRUCTION_MEM_LDDWD then Some
        (assign_dst_skip i vm
           (scast (rbpf_application_data (vm_mem vm) (vm_app vm))
            + IMM64 i + push_bit 32 (next_IMM64 vm)))
      else if opcode i = BPF_INSTRUCTION_MEM_LDDWR then Some
        (assign_dst_skip i vm
           (scast (rbpf_application_rodata (vm_mem vm) (vm_app vm))
            + IMM64 i + push_bit 32 (next_IMM64 vm)))
      else None)"

section \<open>Memory accesses\<close>

text \<open>\<open>DST + (*instr)->offset\<close>, computed in 64 bits and truncated by the cast to a pointer.\<close>

definition mem_addr :: "u64 \<Rightarrow> bpf_instruction_t \<Rightarrow> u32" where
  "mem_addr base i = ucast (base + scast (offset i))"

text \<open>
  The dereference of a pointer to an object of \<open>n\<close> bytes is defined at a multiple of \<open>n\<close> only; the
  permission check does not test this.
\<close>

definition access_aligned :: "u32 \<Rightarrow> nat \<Rightarrow> bool" where
  "access_aligned a n \<longleftrightarrow> unat a mod n = 0"

definition MEM :: "u8 \<Rightarrow> u8 \<Rightarrow> u8 \<Rightarrow> nat \<Rightarrow> vm_case" where
  "MEM stx st ldx sizeof_SIZE i vm =
     (if opcode i = stx then Some
        (ebind (DST i vm) (\<lambda>d.
           if \<not> check_store (vm_app vm) (mem_addr d i) (of_nat sizeof_SIZE)
           then return_code vm RBPF_ILLEGAL_MEM
           else ebind (SRC i vm) (\<lambda>s.
             if \<not> access_aligned (mem_addr d i) sizeof_SIZE then Inl UnalignedAccess
             else Inr (RBPF_CONTINUE,
               vm\<lparr>vm_mem := store_bytes (vm_mem vm) (mem_addr d i) (le_bytes sizeof_SIZE s)\<rparr>))))
      else if opcode i = st then Some
        (ebind (DST i vm) (\<lambda>d.
           if \<not> check_store (vm_app vm) (mem_addr d i) (of_nat sizeof_SIZE)
           then return_code vm RBPF_ILLEGAL_MEM
           else if \<not> access_aligned (mem_addr d i) sizeof_SIZE then Inl UnalignedAccess
           else Inr (RBPF_CONTINUE,
             vm\<lparr>vm_mem := store_bytes (vm_mem vm) (mem_addr d i) (le_bytes sizeof_SIZE (IMM64 i))\<rparr>)))
      else if opcode i = ldx then Some
        (ebind (SRC i vm) (\<lambda>s.
           if \<not> check_load (vm_app vm) (mem_addr s i) (of_nat sizeof_SIZE)
           then return_code vm RBPF_ILLEGAL_MEM
           else if \<not> access_aligned (mem_addr s i) sizeof_SIZE then Inl UnalignedAccess
           else assign_dst i vm (le_word (bytes_at (vm_mem vm) (mem_addr s i) sizeof_SIZE))))
      else None)"

section \<open>Jumps\<close>

definition rbpf_over_max_jumps :: "rbpf_application_t \<Rightarrow> bool" where
  "rbpf_over_max_jumps rbpf \<longleftrightarrow>
     flags rbpf AND RBPF_CONFIG_NO_RETURN = 0 \<and> branches_remaining rbpf = 0"

definition rbpf_jump :: "bpf_instruction_t \<Rightarrow> vm_state \<Rightarrow> vm_result" where
  "rbpf_jump i vm =
     (let vm1 = vm\<lparr>vm_instr := jump_target (vm_instr vm) i\<rparr>;
          vm2 = vm1\<lparr>vm_app := (vm_app vm1)
            \<lparr>branches_remaining := branches_remaining (vm_app vm1) - 1\<rparr>\<rparr>
      in if rbpf_over_max_jumps (vm_app vm2) then return_code vm2 RBPF_OUT_OF_BRANCHES
         else return_code vm2 RBPF_CONTINUE)"

definition CONT_JUMP :: "bool \<Rightarrow> bpf_instruction_t \<Rightarrow> vm_state \<Rightarrow> vm_result" where
  "CONT_JUMP jump_cond i vm =
     (if jump_cond then rbpf_jump i vm else return_code vm RBPF_CONTINUE)"

definition COND_JMP :: "u8 \<Rightarrow> u8 \<Rightarrow> (u64 \<Rightarrow> u64 \<Rightarrow> bool) \<Rightarrow> vm_case" where
  "COND_JMP jmp_reg jmp_imm cmp i vm =
     (if opcode i = jmp_reg then Some
        (ebind (DST i vm) (\<lambda>d. ebind (SRC i vm) (\<lambda>s. CONT_JUMP (cmp d s) i vm)))
      else if opcode i = jmp_imm then Some
        (ebind (DST i vm) (\<lambda>d. CONT_JUMP (cmp d (IMM64 i)) i vm))
      else None)"

definition JMP_ALWAYS :: vm_case where
  "JMP_ALWAYS i vm =
     (if opcode i = BPF_INSTRUCTION_JMP_ALWAYS then Some (rbpf_jump i vm) else None)"

section \<open>Calls and return\<close>

definition rbpf_get_call :: "u32 \<Rightarrow> rbpf_call_t option" where
  "rbpf_get_call num = rbpf_get_external_call num"

definition CALL :: vm_case where
  "CALL i vm =
     (if opcode i = BPF_INSTRUCTION_CALL then Some
        (case rbpf_get_call (immediate i) of
           Some call \<Rightarrow>
             (let (r, app, regs, m) = call (vm_app vm, vm_regmap vm, vm_mem vm)
              in return_code (vm\<lparr>vm_app := app, vm_mem := m, vm_regmap := regs[0 := ucast r]\<rparr>)
                   RBPF_CONTINUE)
         | None \<Rightarrow> return_code vm RBPF_ILLEGAL_CALL)
      else None)"

definition RETURN :: vm_case where
  "RETURN i vm =
     (if opcode i = BPF_INSTRUCTION_RETURN then Some (return_code vm RBPF_OK) else None)"

section \<open>The instruction switch and the run loop\<close>

definition rbpf_cases :: "bpf_instruction_t \<Rightarrow> vm_state \<Rightarrow> vm_result option list" where
  "rbpf_cases i vm =
    [ALU BPF_INSTRUCTION_ALU64_ADD_REG BPF_INSTRUCTION_ALU64_ADD_IMM
       BPF_INSTRUCTION_ALU32_ADD_REG BPF_INSTRUCTION_ALU32_ADD_IMM
       (\<lambda>a b. Inr (a + b)) (\<lambda>a b. Inr (a + b)) i vm,
     ALU BPF_INSTRUCTION_ALU64_SUB_REG BPF_INSTRUCTION_ALU64_SUB_IMM
       BPF_INSTRUCTION_ALU32_SUB_REG BPF_INSTRUCTION_ALU32_SUB_IMM
       (\<lambda>a b. Inr (a - b)) (\<lambda>a b. Inr (a - b)) i vm,
     ALU BPF_INSTRUCTION_ALU64_AND_REG BPF_INSTRUCTION_ALU64_AND_IMM
       BPF_INSTRUCTION_ALU32_AND_REG BPF_INSTRUCTION_ALU32_AND_IMM
       (\<lambda>a b. Inr (a AND b)) (\<lambda>a b. Inr (a AND b)) i vm,
     ALU BPF_INSTRUCTION_ALU64_OR_REG BPF_INSTRUCTION_ALU64_OR_IMM
       BPF_INSTRUCTION_ALU32_OR_REG BPF_INSTRUCTION_ALU32_OR_IMM
       (\<lambda>a b. Inr (a OR b)) (\<lambda>a b. Inr (a OR b)) i vm,
     ALU BPF_INSTRUCTION_ALU64_LSH_REG BPF_INSTRUCTION_ALU64_LSH_IMM
       BPF_INSTRUCTION_ALU32_LSH_REG BPF_INSTRUCTION_ALU32_LSH_IMM shl shl i vm,
     ALU BPF_INSTRUCTION_ALU64_RSH_REG BPF_INSTRUCTION_ALU64_RSH_IMM
       BPF_INSTRUCTION_ALU32_RSH_REG BPF_INSTRUCTION_ALU32_RSH_IMM shr shr i vm,
     ALU BPF_INSTRUCTION_ALU64_XOR_REG BPF_INSTRUCTION_ALU64_XOR_IMM
       BPF_INSTRUCTION_ALU32_XOR_REG BPF_INSTRUCTION_ALU32_XOR_IMM
       (\<lambda>a b. Inr (a XOR b)) (\<lambda>a b. Inr (a XOR b)) i vm,
     ALU BPF_INSTRUCTION_ALU64_MUL_REG BPF_INSTRUCTION_ALU64_MUL_IMM
       BPF_INSTRUCTION_ALU32_MUL_REG BPF_INSTRUCTION_ALU32_MUL_IMM
       (\<lambda>a b. Inr (a * b)) (\<lambda>a b. Inr (a * b)) i vm,
     ALU_DIV BPF_INSTRUCTION_ALU64_MOD_REG BPF_INSTRUCTION_ALU64_MOD_IMM
       BPF_INSTRUCTION_ALU32_MOD_REG BPF_INSTRUCTION_ALU32_MOD_IMM (mod) (mod) i vm,
     ALU_DIV BPF_INSTRUCTION_ALU64_DIV_REG BPF_INSTRUCTION_ALU64_DIV_IMM
       BPF_INSTRUCTION_ALU32_DIV_REG BPF_INSTRUCTION_ALU32_DIV_IMM (div) (div) i vm,
     ALU_NEG i vm,
     ALU_MOV i vm,
     ALU_ARSH i vm,
     MEM_LDDW i vm,
     MEM BPF_INSTRUCTION_MEM_STXB BPF_INSTRUCTION_MEM_STB BPF_INSTRUCTION_MEM_LDXB 1 i vm,
     MEM BPF_INSTRUCTION_MEM_STXH BPF_INSTRUCTION_MEM_STH BPF_INSTRUCTION_MEM_LDXH 2 i vm,
     MEM BPF_INSTRUCTION_MEM_STXW BPF_INSTRUCTION_MEM_STW BPF_INSTRUCTION_MEM_LDXW 4 i vm,
     MEM BPF_INSTRUCTION_MEM_STXDW BPF_INSTRUCTION_MEM_STDW BPF_INSTRUCTION_MEM_LDXDW 8 i vm,
     JMP_ALWAYS i vm,
     COND_JMP BPF_INSTRUCTION_JMP_EQ_REG BPF_INSTRUCTION_JMP_EQ_IMM (\<lambda>a b. a = b) i vm,
     COND_JMP BPF_INSTRUCTION_JMP_GT_REG BPF_INSTRUCTION_JMP_GT_IMM (\<lambda>a b. a > b) i vm,
     COND_JMP BPF_INSTRUCTION_JMP_GE_REG BPF_INSTRUCTION_JMP_GE_IMM (\<lambda>a b. a \<ge> b) i vm,
     COND_JMP BPF_INSTRUCTION_JMP_LT_REG BPF_INSTRUCTION_JMP_LT_IMM (\<lambda>a b. a < b) i vm,
     COND_JMP BPF_INSTRUCTION_JMP_LE_REG BPF_INSTRUCTION_JMP_LE_IMM (\<lambda>a b. a \<le> b) i vm,
     COND_JMP BPF_INSTRUCTION_JMP_SET_REG BPF_INSTRUCTION_JMP_SET_IMM (\<lambda>a b. a AND b \<noteq> 0) i vm,
     COND_JMP BPF_INSTRUCTION_JMP_NE_REG BPF_INSTRUCTION_JMP_NE_IMM (\<lambda>a b. a \<noteq> b) i vm,
     COND_JMP BPF_INSTRUCTION_JMP_SGT_REG BPF_INSTRUCTION_JMP_SGT_IMM (\<lambda>a b. sint a > sint b) i vm,
     COND_JMP BPF_INSTRUCTION_JMP_SGE_REG BPF_INSTRUCTION_JMP_SGE_IMM (\<lambda>a b. sint a \<ge> sint b) i vm,
     COND_JMP BPF_INSTRUCTION_JMP_SLT_REG BPF_INSTRUCTION_JMP_SLT_IMM (\<lambda>a b. sint a < sint b) i vm,
     COND_JMP BPF_INSTRUCTION_JMP_SLE_REG BPF_INSTRUCTION_JMP_SLE_IMM (\<lambda>a b. sint a \<le> sint b) i vm,
     CALL i vm,
     RETURN i vm]"

definition rbpf_instruction :: "vm_state \<Rightarrow> vm_result" where
  "rbpf_instruction vm =
     (let i = bpf_instruction_at (vm_mem vm) (vm_instr vm)
      in case first_some (rbpf_cases i vm) of
           Some r \<Rightarrow> r
         | None \<Rightarrow> return_code vm RBPF_ILLEGAL_INSTRUCTION)"

text \<open>
  The \<open>do ... while (res > 0)\<close> loop, with fuel: \<open>None\<close> means that the fuel was not enough.
\<close>

fun rbpf_run_loop :: "nat \<Rightarrow> vm_state \<Rightarrow> vm_result option" where
  "rbpf_run_loop 0 vm = None"
| "rbpf_run_loop (Suc n) vm =
     (case rbpf_instruction vm of
        Inl e \<Rightarrow> Some (Inl e)
      | Inr (res, vm1) \<Rightarrow>
          (let vm2 = vm1\<lparr>vm_instr := vm_instr vm1 + sizeof_bpf_instruction_t\<rparr>
           in if res > 0 then rbpf_run_loop n vm2 else Some (Inr (res, vm2))))"

text \<open>
  \<open>rbpf_engine_run\<close>: the returned triple is the status, the value stored through \<open>result\<close>
  (\<open>None\<close> when the pre-flight check fails, which leaves \<open>*result\<close> untouched), and the state.
  The outer \<open>None\<close> is a run that does not return: the pre-flight check does not end, or the fuel
  is used up.
\<close>

definition initial_regmap :: "u32 \<Rightarrow> rbpf_application_t \<Rightarrow> u64 list" where
  "initial_regmap ctx rbpf =
     ((replicate 11 (0 :: u64))[1 := ucast ctx])[10 := ucast (stack rbpf + RBPF_STACK_SIZE)]"

definition rbpf_engine_run ::
  "nat \<Rightarrow> memory \<Rightarrow> rbpf_application_t \<Rightarrow> u32 \<Rightarrow> (ub + (int \<times> u64 option \<times> vm_state)) option" where
  "rbpf_engine_run fuel m rbpf ctx =
     (let rbpf1 = rbpf\<lparr>branches_remaining := RBPF_BRANCHES_ALLOWED\<rparr>;
          regmap = initial_regmap ctx rbpf1;
          instr = rbpf_application_text m rbpf1
      in case rbpf_application_verify_preflight m rbpf1 of
           None \<Rightarrow> None
         | Some (res, rbpf2) \<Rightarrow>
             (let vm = \<lparr>vm_app = rbpf2, vm_mem = m, vm_instr = instr, vm_regmap = regmap\<rparr>
              in if res < 0 then Some (Inr (res, None, vm))
                 else map_option (\<lambda>r. ebind r (\<lambda>(res', vm'). Inr (res', Some (vm_regmap vm' ! 0), vm')))
                        (rbpf_run_loop fuel vm)))"

text \<open>\<open>rbpf_application_run_ctx\<close> of \<open>sys/rbpf/rbpf.c\<close>.\<close>

definition rbpf_application_run_ctx ::
  "nat \<Rightarrow> memory \<Rightarrow> rbpf_application_t \<Rightarrow> u32 \<Rightarrow> u32
     \<Rightarrow> (ub + (int \<times> u64 option \<times> vm_state)) option" where
  "rbpf_application_run_ctx fuel m rbpf ctx ctx_len =
     (let rbpf1 = rbpf\<lparr>arg_region := rbpf_memory_region_init (arg_region rbpf) ctx ctx_len
            (RBPF_MEM_REGION_READ OR RBPF_MEM_REGION_WRITE)\<rparr>
      in if flags rbpf1 AND RBPF_FLAG_SETUP_DONE = 0 then Some (Inl AssertFailure)
         else rbpf_engine_run fuel m rbpf1 ctx)"

end
