(* ===== verification/Rbpf_Safety.thy ===== *)
theory Rbpf_Safety
  imports Rbpf_Engine
begin

text \<open>
  What one instruction can do to the machine, summarised as the relation \<open>effect\<close>, and the
  isolation, termination and well-definedness properties of whole runs that follow from it.
\<close>

section \<open>The effect of one instruction\<close>

definition is_wide :: "bpf_instruction_t \<Rightarrow> bool" where
  "is_wide i \<longleftrightarrow> opcode i \<in> {BPF_INSTRUCTION_MEM_LDDW, BPF_INSTRUCTION_MEM_LDDWD,
     BPF_INSTRUCTION_MEM_LDDWR}"

inductive effect :: "bpf_instruction_t \<Rightarrow> vm_state \<Rightarrow> int \<Rightarrow> vm_state \<Rightarrow> bool"
  for i :: bpf_instruction_t and vm :: vm_state where
  stop: "r \<le> 0 \<Longrightarrow> effect i vm r vm"
| keep: "opcode i \<noteq> BPF_INSTRUCTION_RETURN \<Longrightarrow> effect i vm RBPF_CONTINUE vm"
| assign: "opcode i \<noteq> BPF_INSTRUCTION_RETURN \<Longrightarrow> length regs = length (vm_regmap vm) \<Longrightarrow>
    effect i vm RBPF_CONTINUE (vm\<lparr>vm_regmap := regs\<rparr>)"
| assign_skip: "is_wide i \<Longrightarrow> length regs = length (vm_regmap vm) \<Longrightarrow>
    effect i vm RBPF_CONTINUE (vm\<lparr>vm_regmap := regs, vm_instr := vm_instr vm + 8\<rparr>)"
| store: "opcode i \<noteq> BPF_INSTRUCTION_RETURN \<Longrightarrow> n \<in> {1, 2, 4, 8} \<Longrightarrow> length bs = n \<Longrightarrow>
    check_store (vm_app vm) a (of_nat n) \<Longrightarrow>
    effect i vm RBPF_CONTINUE (vm\<lparr>vm_mem := store_bytes (vm_mem vm) a bs\<rparr>)"
| jump: "is_branch_class i \<Longrightarrow> opcode i \<noteq> BPF_INSTRUCTION_RETURN \<Longrightarrow>
    rbpf_jump i vm = Inr (r, vm') \<Longrightarrow> effect i vm r vm'"

named_theorems case_effect "the effect of each group of switch cases"

lemma assign_dst_effect:
  assumes "assign_dst i vm v = Inr (r, vm')" "opcode i \<noteq> BPF_INSTRUCTION_RETURN"
  shows "effect i vm r vm'"
  using assms by (auto simp: assign_dst_def regmap_set_def split: if_splits intro: effect.assign)

lemma return_code_effect:
  assumes "return_code vm c = Inr (r, vm')" "c \<le> 0"
  shows "effect i vm r vm'"
  using assms by (auto simp: return_code_def intro: effect.stop)

lemma ALU_effect [case_effect]:
  assumes "Some (Inr (r, vm')) = ALU a b c d f g i vm"
    and "BPF_INSTRUCTION_RETURN \<notin> {a, b, c, d}"
  shows "effect i vm r vm'"
  using assms by (auto simp: ALU_def split: if_splits intro: assign_dst_effect)

lemma ALU_DIV_effect [case_effect]:
  assumes "Some (Inr (r, vm')) = ALU_DIV a b c d f g i vm"
    and "BPF_INSTRUCTION_RETURN \<notin> {a, b, c, d}"
  shows "effect i vm r vm'"
  using assms
  by (auto simp: ALU_DIV_def c_const split: if_splits intro: assign_dst_effect return_code_effect)

lemma ALU_NEG_effect [case_effect]:
  assumes "Some (Inr (r, vm')) = ALU_NEG i vm"
  shows "effect i vm r vm'"
  using assms
  by (auto simp: ALU_NEG_def bpf_opcodes split: if_splits intro: assign_dst_effect)

lemma ALU_MOV_effect [case_effect]:
  assumes "Some (Inr (r, vm')) = ALU_MOV i vm"
  shows "effect i vm r vm'"
  using assms
  by (auto simp: ALU_MOV_def bpf_opcodes split: if_splits intro: assign_dst_effect)

lemma ALU_ARSH_effect [case_effect]:
  assumes "Some (Inr (r, vm')) = ALU_ARSH i vm"
  shows "effect i vm r vm'"
  using assms
  by (auto simp: ALU_ARSH_def bpf_opcodes split: if_splits intro: assign_dst_effect)

lemma MEM_LDDW_effect [case_effect]:
  assumes "Some (Inr (r, vm')) = MEM_LDDW i vm"
  shows "effect i vm r vm'"
proof -
  from assms have "is_wide i"
    by (auto simp: MEM_LDDW_def is_wide_def split: if_splits)
  with assms show ?thesis
    by (auto simp: MEM_LDDW_def assign_dst_skip_def regmap_set_def sizeof_bpf_instruction_t_def
        split: if_splits intro!: effect.assign_skip)
qed

lemma MEM_effect [case_effect]:
  assumes "Some (Inr (r, vm')) = MEM a b c n i vm"
    and "BPF_INSTRUCTION_RETURN \<notin> {a, b, c}" and "n \<in> {1, 2, 4, 8}"
  shows "effect i vm r vm'"
proof -
  have codes: "RBPF_ILLEGAL_MEM \<noteq> RBPF_CONTINUE" "RBPF_ILLEGAL_MEM \<le> 0"
    by (simp_all add: c_const)
  have "opcode i \<in> {a, b, c}"
    using assms(1) by (auto simp: MEM_def split: if_splits)
  then have op: "opcode i \<noteq> BPF_INSTRUCTION_RETURN"
    using assms(2) by auto
  note st = effect.store [OF op assms(3)]
  show ?thesis
    using assms(1) op
    by (auto simp: MEM_def return_code_def codes split: if_splits
        intro: assign_dst_effect effect.stop intro!: st)
qed

lemma rbpf_jump_effect:
  assumes "rbpf_jump i vm = Inr (r, vm')" "is_branch_class i" "opcode i \<noteq> BPF_INSTRUCTION_RETURN"
  shows "effect i vm r vm'"
  using assms by (intro effect.jump)

lemma CONT_JUMP_effect:
  assumes "CONT_JUMP c i vm = Inr (r, vm')" "is_branch_class i" "opcode i \<noteq> BPF_INSTRUCTION_RETURN"
  shows "effect i vm r vm'"
  using assms
  by (auto simp: CONT_JUMP_def return_code_def split: if_splits intro: rbpf_jump_effect effect.keep)

lemma COND_JMP_effect [case_effect]:
  assumes "Some (Inr (r, vm')) = COND_JMP a b f i vm"
    and "BPF_INSTRUCTION_RETURN \<notin> {a, b}"
    and "a AND BPF_INSTRUCTION_CLS_MASK = BPF_INSTRUCTION_CLS_BRANCH"
    and "b AND BPF_INSTRUCTION_CLS_MASK = BPF_INSTRUCTION_CLS_BRANCH"
  shows "effect i vm r vm'"
  using assms
  by (auto simp: COND_JMP_def is_branch_class_def split: if_splits intro: CONT_JUMP_effect)

lemma JMP_ALWAYS_effect [case_effect]:
  assumes "Some (Inr (r, vm')) = JMP_ALWAYS i vm"
  shows "effect i vm r vm'"
  using assms
  by (auto simp: JMP_ALWAYS_def is_branch_class_def bpf_opcodes split: if_splits
      intro: rbpf_jump_effect)

lemma CALL_effect [case_effect]:
  assumes "Some (Inr (r, vm')) = CALL i vm"
  shows "effect i vm r vm'"
  using assms
  by (auto simp: CALL_def rbpf_get_call_def rbpf_get_external_call_def c_const
      split: if_splits intro: return_code_effect)

lemma RETURN_effect [case_effect]:
  assumes "Some (Inr (r, vm')) = RETURN i vm"
  shows "effect i vm r vm'"
  using assms by (auto simp: RETURN_def c_const split: if_splits intro: return_code_effect)

lemma rbpf_cases_effect:
  assumes "Some (Inr (r, vm')) \<in> set (rbpf_cases i vm)"
  shows "effect i vm r vm'"
  using assms unfolding rbpf_cases_def set_simps insert_iff empty_iff
  apply (elim disjE FalseE)
  apply (drule case_effect, simp_all add: bpf_opcodes)+
  done

lemma rbpf_instruction_effect:
  assumes "rbpf_instruction vm = Inr (r, vm')"
  shows "effect (bpf_instruction_at (vm_mem vm) (vm_instr vm)) vm r vm'"
  using assms
  by (auto simp: rbpf_instruction_def Let_def c_const split: option.splits
      dest!: first_some_mem intro: rbpf_cases_effect return_code_effect)

section \<open>What a run keeps\<close>

text \<open>An instruction changes nothing of the application object but the branch counter.\<close>

definition app_frame :: "rbpf_application_t \<Rightarrow> rbpf_application_t \<Rightarrow> bool" where
  "app_frame a b \<longleftrightarrow> (\<exists>n. b = a\<lparr>branches_remaining := n\<rparr>)"

lemma app_frame_refl [simp]: "app_frame a a"
  unfolding app_frame_def by (rule exI [of _ "branches_remaining a"]) simp

lemma app_frame_trans: "app_frame a b \<Longrightarrow> app_frame b c \<Longrightarrow> app_frame a c"
  by (auto simp: app_frame_def)

lemma app_frame_chain: "app_frame a b \<Longrightarrow> region_chain b = region_chain a"
  by (auto simp: app_frame_def region_chain_def)

lemma app_frame_flags: "app_frame a b \<Longrightarrow> flags b = flags a"
  by (auto simp: app_frame_def)

lemma app_frame_granted: "app_frame a b \<Longrightarrow> granted b t x \<longleftrightarrow> granted a t x"
  by (simp add: granted_def app_frame_chain)

lemma rbpf_jump_frame:
  "rbpf_jump i vm = Inr (r, vm') \<Longrightarrow>
   vm_mem vm' = vm_mem vm \<and> vm_regmap vm' = vm_regmap vm \<and> app_frame (vm_app vm) (vm_app vm')"
  by (auto simp: rbpf_jump_def return_code_def Let_def app_frame_def split: if_splits)

lemma effect_app: "effect i vm r vm' \<Longrightarrow> app_frame (vm_app vm) (vm_app vm')"
  by (induction rule: effect.induct) (auto dest: rbpf_jump_frame)

lemma effect_regmap: "effect i vm r vm' \<Longrightarrow> length (vm_regmap vm') = length (vm_regmap vm)"
  by (induction rule: effect.induct) (auto dest: rbpf_jump_frame)

text \<open>
  The addresses an access of at most eight bytes can touch when its end passes \<open>0x80000000\<close>,
  where the signed comparison of the permission check goes wrong.
\<close>

definition wrap_window :: "u32 \<Rightarrow> bool" where
  "wrap_window x \<longleftrightarrow> 0x7ffffff8 \<le> x \<and> x < 0x80000007"

lemma access_wraps_window:
  assumes "access_wraps a n" "n \<le> 8" "unat (x - a) < n"
  shows "wrap_window x"
proof -
  have "sint a < 2 ^ 31" "2 ^ 31 \<le> sint a + 8"
    using assms(1,2) sint_u32_bounds [of a] by (auto simp: access_wraps_def)
  moreover from this have "uint a = sint a"
    using uint_diff_sint_u32 [of 0 a] by simp
  ultimately have a: "0x7ffffff8 \<le> unat a" "unat a < 0x80000000"
    by (simp_all add: unat_eq_nat_uint)
  have "unat x = unat a + unat (x - a)"
  proof -
    have "unat (a + (x - a)) = unat a + unat (x - a)"
      using a assms by (intro unat_add_lem [THEN iffD1]) simp
    then show ?thesis by simp
  qed
  with a assms show ?thesis
    by (simp add: wrap_window_def word_le_nat_alt word_less_nat_alt)
qed

lemma store_frame:
  assumes ok: "\<forall>r \<in> set (region_chain app). region_ok r"
    and st: "check_store app a (of_nat n)" "length bs = n" "n \<in> {1, 2, 4, 8}"
    and x: "\<not> granted app RBPF_MEM_REGION_WRITE x" "\<not> wrap_window x"
  shows "store_bytes m a bs x = m x"
proof (rule store_bytes_frame, rule ccontr)
  assume "\<not> length bs \<le> unat (x - a)"
  then have d: "unat (x - a) < n" using st by simp
  then have "\<not> access_wraps a n"
    using access_wraps_window [of a n x] x st by auto
  then have "granted app RBPF_MEM_REGION_WRITE (a + of_nat (unat (x - a)))"
    using check_mem_granted [OF ok st(1) [unfolded check_store_def] _ d] by simp
  then show False using x by simp
qed

lemma effect_mem:
  assumes "effect i vm r vm'" and "\<forall>r \<in> set (region_chain (vm_app vm)). region_ok r"
    and "\<not> granted (vm_app vm) RBPF_MEM_REGION_WRITE x" "\<not> wrap_window x"
  shows "vm_mem vm' x = vm_mem vm x"
  using assms
proof (induction rule: effect.induct)
  case (store n bs a)
  then show ?case by (simp add: store_frame)
qed (auto dest: rbpf_jump_frame)

lemma rbpf_run_loop_frame:
  assumes "rbpf_run_loop fuel vm = Some (Inr (r, vm'))"
    and "\<forall>r \<in> set (region_chain (vm_app vm)). region_ok r"
    and "\<not> granted (vm_app vm) RBPF_MEM_REGION_WRITE x" "\<not> wrap_window x"
  shows "vm_mem vm' x = vm_mem vm x"
  using assms
proof (induction fuel arbitrary: vm)
  case 0
  then show ?case by simp
next
  case (Suc fuel)
  from Suc.prems(1) obtain res vm1 where st: "rbpf_instruction vm = Inr (res, vm1)"
    by (auto split: sum.splits)
  note eff = rbpf_instruction_effect [OF st]
  note app = effect_app [OF eff]
  have m1: "vm_mem vm1 x = vm_mem vm x"
    by (rule effect_mem [OF eff Suc.prems(2-4)])
  show ?case
  proof (cases "res > 0")
    case True
    with Suc.prems(1) st
    have "rbpf_run_loop fuel (vm1\<lparr>vm_instr := vm_instr vm1 + sizeof_bpf_instruction_t\<rparr>)
        = Some (Inr (r, vm'))" by (simp add: Let_def)
    from Suc.IH [OF this] show ?thesis
      using Suc.prems(2-4) app m1 by (simp add: app_frame_chain app_frame_granted)
  next
    case False
    with Suc.prems(1) st m1 show ?thesis by (auto simp: Let_def)
  qed
qed

section \<open>Undefined register accesses\<close>

text \<open>
  An instruction whose register nibbles are below eleven never indexes outside \<open>regmap\<close>.
\<close>

named_theorems case_regs "no group of switch cases leaves regmap when the nibbles are in range"

lemma valid_operands:
  assumes "unat (dst i) < 11" "unat (src i) < 11"
  shows "DST i vm = Inr (vm_regmap vm ! unat (dst i))"
    "SRC i vm = Inr (vm_regmap vm ! unat (src i))"
    "Inl e \<noteq> assign_dst i vm v" "Inl e \<noteq> assign_dst_skip i vm v"
  using assms
  by (simp_all add: DST_def SRC_def regmap_get_def assign_dst_def assign_dst_skip_def regmap_set_def)

lemma ALU_regs [case_regs]:
  assumes "Some (Inl RegmapIndex) = ALU a b c d f g i vm"
    and "unat (dst i) < 11" "unat (src i) < 11"
    and "\<And>x y. f x y \<noteq> Inl RegmapIndex" "\<And>x y. g x y \<noteq> Inl RegmapIndex"
  shows False
  using assms(1) valid_operands [OF assms(2,3)] assms(4,5)
  by (auto simp: ALU_def ebind_def split: if_splits sum.splits)

lemma ALU_DIV_regs [case_regs]:
  assumes "Some (Inl RegmapIndex) = ALU_DIV a b c d f g i vm"
    and "unat (dst i) < 11" "unat (src i) < 11"
  shows False
  using assms(1) valid_operands [OF assms(2,3)]
  by (auto simp: ALU_DIV_def div_u32_def return_code_def ebind_def split: if_splits sum.splits)

lemma ALU_NEG_regs [case_regs]:
  assumes "Some (Inl RegmapIndex) = ALU_NEG i vm" "unat (dst i) < 11" "unat (src i) < 11"
  shows False
  using assms(1) valid_operands [OF assms(2,3)]
  by (auto simp: ALU_NEG_def neg_def ebind_def split: if_splits sum.splits)

lemma ALU_MOV_regs [case_regs]:
  assumes "Some (Inl RegmapIndex) = ALU_MOV i vm" "unat (dst i) < 11" "unat (src i) < 11"
  shows False
  using assms(1) valid_operands [OF assms(2,3)]
  by (auto simp: ALU_MOV_def ebind_def split: if_splits sum.splits)

lemma ALU_ARSH_regs [case_regs]:
  assumes "Some (Inl RegmapIndex) = ALU_ARSH i vm" "unat (dst i) < 11" "unat (src i) < 11"
  shows False
  using assms(1) valid_operands [OF assms(2,3)]
  by (auto simp: ALU_ARSH_def sar_def ebind_def split: if_splits sum.splits)

lemma MEM_LDDW_regs [case_regs]:
  assumes "Some (Inl RegmapIndex) = MEM_LDDW i vm" "unat (dst i) < 11" "unat (src i) < 11"
  shows False
  using assms(1) valid_operands [OF assms(2,3)]
  by (auto simp: MEM_LDDW_def split: if_splits)

lemma MEM_regs [case_regs]:
  assumes "Some (Inl RegmapIndex) = MEM a b c n i vm" "unat (dst i) < 11" "unat (src i) < 11"
  shows False
  using assms(1) valid_operands [OF assms(2,3)]
  by (auto simp: MEM_def return_code_def ebind_def split: if_splits sum.splits)

lemma rbpf_jump_defined: "Inl e \<noteq> rbpf_jump i vm"
  by (simp add: rbpf_jump_def return_code_def Let_def)

lemma CONT_JUMP_defined: "Inl e \<noteq> CONT_JUMP c i vm"
  by (simp add: CONT_JUMP_def rbpf_jump_defined return_code_def)

lemma COND_JMP_regs [case_regs]:
  assumes "Some (Inl RegmapIndex) = COND_JMP a b f i vm" "unat (dst i) < 11" "unat (src i) < 11"
  shows False
  using assms(1) valid_operands [OF assms(2,3)]
  by (auto simp: COND_JMP_def CONT_JUMP_defined ebind_def split: if_splits sum.splits)

lemma JMP_ALWAYS_regs [case_regs]:
  assumes "Some (Inl RegmapIndex) = JMP_ALWAYS i vm"
  shows False
  using assms by (auto simp: JMP_ALWAYS_def rbpf_jump_defined split: if_splits)

lemma CALL_regs [case_regs]:
  assumes "Some (Inl RegmapIndex) = CALL i vm"
  shows False
  using assms
  by (auto simp: CALL_def rbpf_get_call_def rbpf_get_external_call_def return_code_def
      split: if_splits)

lemma RETURN_regs [case_regs]:
  assumes "Some (Inl RegmapIndex) = RETURN i vm"
  shows False
  using assms by (auto simp: RETURN_def return_code_def split: if_splits)

lemma rbpf_cases_regs:
  assumes "Some (Inl RegmapIndex) \<in> set (rbpf_cases i vm)"
    and "unat (dst i) < 11" "unat (src i) < 11"
  shows False
  using assms(1) unfolding rbpf_cases_def set_simps insert_iff empty_iff
  apply (elim disjE FalseE)
  apply (drule case_regs, simp_all add: assms(2,3) shl_def shr_def)+
  done

lemma rbpf_instruction_regs:
  assumes "i = bpf_instruction_at (vm_mem vm) (vm_instr vm)"
    and "unat (dst i) < 11" "unat (src i) < 11"
  shows "rbpf_instruction vm \<noteq> Inl RegmapIndex"
  using assms rbpf_cases_regs [of i vm]
  by (auto simp: rbpf_instruction_def Let_def return_code_def split: option.splits
      dest: first_some_mem)

end
