(* ===== verification/Rbpf_Termination.thy ===== *)
theory Rbpf_Termination
  imports Rbpf_Safety
begin

text \<open>
  The contract between the pre-flight verifier and the interpreter, as the locale
  \<open>text_verifier\<close>: what an accepted text must guarantee so that every run stays inside the text,
  never indexes outside the register file, and ends.  The pre-flight check alone does not give
  this contract; together with the format conditions \<open>lddw_format\<close> and \<open>jumps_closed\<close>, which it
  does not test, it does (the interpretation \<open>preflight\<close>).
\<close>

section \<open>States inside the text\<close>

abbreviation slot :: "memory \<Rightarrow> u32 \<Rightarrow> nat \<Rightarrow> bpf_instruction_t" where
  "slot m base k \<equiv> bpf_instruction_at m (base + of_nat (8 * k))"

abbreviation slots :: "u32 \<Rightarrow> nat" where
  "slots ln \<equiv> unat ln div 8"

text \<open>No byte of the text is writable by the virtual machine.\<close>

definition text_protected :: "rbpf_application_t \<Rightarrow> u32 \<Rightarrow> u32 \<Rightarrow> bool" where
  "text_protected app base ln \<longleftrightarrow>
     (\<forall>i < unat ln. \<not> granted app RBPF_MEM_REGION_WRITE (base + of_nat i)
                  \<and> \<not> wrap_window (base + of_nat i))"

definition inside ::
  "memory \<Rightarrow> u32 \<Rightarrow> u32 \<Rightarrow> rbpf_application_t \<Rightarrow> nat \<Rightarrow> vm_state \<Rightarrow> bool" where
  "inside m base ln app k vm \<longleftrightarrow>
     app_frame app (vm_app vm) \<and> length (vm_regmap vm) = 11
     \<and> vm_instr vm = base + of_nat (8 * k) \<and> k < slots ln
     \<and> (\<forall>i < unat ln. vm_mem vm (base + of_nat i) = m (base + of_nat i))
     \<and> branches_remaining (vm_app vm) \<noteq> 0"

lemma inside_fetch:
  assumes "inside m base ln app k vm"
  shows "bpf_instruction_at (vm_mem vm) (vm_instr vm) = slot m base k"
proof -
  have vm: "vm_instr vm = base + of_nat (8 * k)"
    "\<forall>i < unat ln. vm_mem vm (base + of_nat i) = m (base + of_nat i)"
    and k: "k < slots ln"
    using assms by (auto simp: inside_def)
  have "vm_mem vm (base + of_nat (8 * k) + of_nat j) = m (base + of_nat (8 * k) + of_nat j)"
    if "j < 8" for j
  proof -
    have "8 * k + j < unat ln" using k that by linarith
    then have "vm_mem vm (base + of_nat (8 * k + j)) = m (base + of_nat (8 * k + j))"
      using vm(2) by blast
    then show ?thesis by (simp add: add.assoc)
  qed
  then show ?thesis
    unfolding vm(1) by (rule bpf_instruction_at_cong)
qed

text \<open>
  A bound on the instructions still to be executed: every taken branch consumes one of the
  remaining branches, and between two branches the program counter only grows.
\<close>

definition budget :: "u32 \<Rightarrow> nat \<Rightarrow> vm_state \<Rightarrow> nat" where
  "budget ln k vm = unat (branches_remaining (vm_app vm)) * (slots ln + 1) + (slots ln - k)"

definition advance :: "vm_state \<Rightarrow> vm_state" where
  "advance vm = vm\<lparr>vm_instr := vm_instr vm + sizeof_bpf_instruction_t\<rparr>"

lemma advance_simps [simp]:
  "vm_app (advance vm) = vm_app vm" "vm_mem (advance vm) = vm_mem vm"
  "vm_regmap (advance vm) = vm_regmap vm" "vm_instr (advance vm) = vm_instr vm + 8"
  by (simp_all add: advance_def sizeof_bpf_instruction_t_def)

lemma rbpf_run_loop_Suc:
  "rbpf_run_loop (Suc n) vm =
     (case rbpf_instruction vm of
        Inl e \<Rightarrow> Some (Inl e)
      | Inr (res, vm1) \<Rightarrow> if res > 0 then rbpf_run_loop n (advance vm1)
                        else Some (Inr (res, advance vm1)))"
  by (simp add: advance_def Let_def split: sum.splits prod.splits)

declare rbpf_run_loop.simps(2) [simp del]

lemma jump_lands:
  assumes "0 \<le> int k + 1 + sint (offset i)"
  shows "jump_target (base + of_nat (8 * k)) i + 8 =
    base + of_nat (8 * nat (int k + 1 + sint (offset i)))"
proof -
  have "(of_nat (8 * nat (int k + 1 + sint (offset i))) :: u32)
      = word_of_int (8 * (int k + 1 + sint (offset i)))"
    using assms by (simp add: of_nat_nat)
  then show ?thesis
    unfolding jump_target_word by (simp add: algebra_simps)
qed

section \<open>The contract\<close>

locale text_verifier =
  fixes accepts :: "memory \<Rightarrow> u32 \<Rightarrow> u32 \<Rightarrow> bool"
  assumes regs: "accepts m base ln \<Longrightarrow> k < slots ln \<Longrightarrow>
      unat (dst (slot m base k)) < 11 \<and> unat (src (slot m base k)) < 11"
    and jumps: "accepts m base ln \<Longrightarrow> k < slots ln \<Longrightarrow> is_branch_class (slot m base k) \<Longrightarrow>
      opcode (slot m base k) \<noteq> BPF_INSTRUCTION_RETURN \<Longrightarrow>
      0 \<le> int k + 1 + sint (offset (slot m base k))
      \<and> int k + 1 + sint (offset (slot m base k)) < int (slots ln)"
    and wide: "accepts m base ln \<Longrightarrow> k < slots ln \<Longrightarrow> is_wide (slot m base k) \<Longrightarrow>
      k + 2 < slots ln"
    and last_returns: "accepts m base ln \<Longrightarrow>
      opcode (slot m base (slots ln - 1)) = BPF_INSTRUCTION_RETURN"
begin

lemma not_last:
  assumes "accepts m base ln" "k < slots ln" "opcode (slot m base k) \<noteq> BPF_INSTRUCTION_RETURN"
  shows "k + 1 < slots ln"
proof (rule ccontr)
  assume "\<not> k + 1 < slots ln"
  then have "k = slots ln - 1" using assms(2) by linarith
  with last_returns [OF assms(1)] assms(3) show False by simp
qed

lemma step_inside:
  assumes acc: "accepts m base ln" and ins: "inside m base ln app k vm"
    and prot: "text_protected app base ln"
    and ok: "\<forall>r \<in> set (region_chain app). region_ok r"
    and nr: "flags app AND RBPF_CONFIG_NO_RETURN = 0"
    and st: "rbpf_instruction vm = Inr (res, vm1)" and pos: "res > 0"
  shows "\<exists>k'. inside m base ln app k' (advance vm1) \<and> budget ln k' (advance vm1) < budget ln k vm"
proof -
  let ?i = "slot m base k"
  have vm: "app_frame app (vm_app vm)" "length (vm_regmap vm) = 11"
    "vm_instr vm = base + of_nat (8 * k)" "k < slots ln" "branches_remaining (vm_app vm) \<noteq> 0"
    and intact: "\<forall>i < unat ln. vm_mem vm (base + of_nat i) = m (base + of_nat i)"
    using ins by (auto simp: inside_def)
  have eff: "effect ?i vm res vm1"
    using rbpf_instruction_effect [OF st] inside_fetch [OF ins] by simp
  have app1: "app_frame app (vm_app vm1)"
    using app_frame_trans [OF vm(1) effect_app [OF eff]] .
  have mem1: "\<forall>i < unat ln. vm_mem vm1 (base + of_nat i) = m (base + of_nat i)"
    using effect_mem [OF eff] vm(1) ok prot intact
    by (auto simp: text_protected_def app_frame_chain app_frame_granted)
  note base = app1 mem1 effect_regmap [OF eff] vm(2,4)
  have fwd: ?thesis
    if "vm_app vm1 = vm_app vm" "k < k'" "k' < slots ln"
       "vm_instr vm1 + 8 = base + of_nat (8 * k')" for k'
    using that base vm(5) by (intro exI [of _ k']) (auto simp: inside_def budget_def)
  from eff show ?thesis
  proof cases
    case stop
    with pos show ?thesis by simp
  next
    case keep
    with not_last [OF acc vm(4)] vm(3) show ?thesis
      by (intro fwd [of "k + 1"]) (auto simp: algebra_simps)
  next
    case (assign regs)
    with not_last [OF acc vm(4)] vm(3) show ?thesis
      by (intro fwd [of "k + 1"]) (auto simp: algebra_simps)
  next
    case (assign_skip regs)
    with wide [OF acc vm(4)] vm(3) show ?thesis
      by (intro fwd [of "k + 2"]) (auto simp: algebra_simps)
  next
    case (store n bs a)
    with not_last [OF acc vm(4)] vm(3) show ?thesis
      by (intro fwd [of "k + 1"]) (auto simp: algebra_simps)
  next
    case jump
    let ?k = "nat (int k + 1 + sint (offset ?i))"
    have land: "0 \<le> int k + 1 + sint (offset ?i)" "int k + 1 + sint (offset ?i) < int (slots ln)"
      using jumps [OF acc vm(4) jump(1,2)] by auto
    have fl: "flags (vm_app vm) AND RBPF_CONFIG_NO_RETURN = 0"
      using nr app_frame_flags [OF vm(1)] by simp
    have b: "branches_remaining (vm_app vm1) = branches_remaining (vm_app vm) - 1"
      and ip: "vm_instr vm1 = jump_target (vm_instr vm) ?i"
      and nz: "branches_remaining (vm_app vm1) \<noteq> 0"
      using jump(3) pos fl
      by (auto simp: rbpf_jump_def return_code_def Let_def rbpf_over_max_jumps_def c_const
          split: if_splits)
    have "unat (branches_remaining (vm_app vm1)) + 1 = unat (branches_remaining (vm_app vm))"
      using b vm(5) unat_minus_one [OF vm(5)] unat_gt_0 [of "branches_remaining (vm_app vm)"]
      by simp
    then have "budget ln ?k (advance vm1) < budget ln k vm"
      using land by (simp add: budget_def flip: \<open>_ = unat (branches_remaining (vm_app vm))\<close>)
    moreover have "inside m base ln app ?k (advance vm1)"
      using base land nz ip vm(3) jump_lands [OF land(1), of base]
      by (auto simp: inside_def)
    ultimately show ?thesis by blast
  qed
qed

lemma run_terminates:
  assumes "accepts m base ln" "inside m base ln app k vm" "text_protected app base ln"
    "\<forall>r \<in> set (region_chain app). region_ok r" "flags app AND RBPF_CONFIG_NO_RETURN = 0"
    and "budget ln k vm < fuel"
  shows "\<exists>out. rbpf_run_loop fuel vm = Some out \<and> out \<noteq> Inl RegmapIndex"
  using assms(2,6)
proof (induction fuel arbitrary: k vm)
  case 0
  then show ?case by simp
next
  case (Suc fuel)
  have kl: "k < slots ln" using Suc.prems(1) by (simp add: inside_def)
  have nr: "rbpf_instruction vm \<noteq> Inl RegmapIndex"
    using regs [OF assms(1) kl] inside_fetch [OF Suc.prems(1)]
    by (intro rbpf_instruction_regs [OF refl]) simp_all
  show ?case
  proof (cases "rbpf_instruction vm")
    case (Inl e)
    with nr show ?thesis by (simp add: rbpf_run_loop_Suc)
  next
    case (Inr p)
    then obtain res vm1 where st: "rbpf_instruction vm = Inr (res, vm1)" by (cases p) auto
    show ?thesis
    proof (cases "res > 0")
      case False
      with st show ?thesis by (simp add: rbpf_run_loop_Suc)
    next
      case True
      obtain k' where "inside m base ln app k' (advance vm1)"
        and "budget ln k' (advance vm1) < budget ln k vm"
        using step_inside [OF assms(1) Suc.prems(1) assms(3-5) st True] by blast
      with Suc.IH [of k' "advance vm1"] Suc.prems(2) st True show ?thesis
        by (simp add: rbpf_run_loop_Suc)
    qed
  qed
qed

end

section \<open>The pre-flight check as a provider of the contract\<close>

text \<open>
  Two conditions on the text that the verifier does not test.  The format of double word
  instructions: they do not occupy the end of the text, and the second slot of an \<open>LDDW\<close> (opcode
  \<open>0x18\<close>), which the verifier skips, is a plain data slot.  And no jump names the last slot, from
  which the program counter would advance past the text.
\<close>

definition lddw_format :: "memory \<Rightarrow> u32 \<Rightarrow> u32 \<Rightarrow> bool" where
  "lddw_format m base ln \<longleftrightarrow>
     (\<forall>k < slots ln.
        (is_wide (slot m base k) \<longrightarrow> k + 2 < slots ln)
      \<and> (opcode (slot m base k) = BPF_INSTRUCTION_MEM_LDDW \<longrightarrow>
           opcode (slot m base (k + 1)) = 0 \<and> dst (slot m base (k + 1)) = 0
           \<and> src (slot m base (k + 1)) = 0))"

definition jumps_closed :: "memory \<Rightarrow> u32 \<Rightarrow> u32 \<Rightarrow> bool" where
  "jumps_closed m base ln \<longleftrightarrow>
     (\<forall>k < slots ln. is_branch_class (slot m base k) \<longrightarrow>
        opcode (slot m base k) \<noteq> BPF_INSTRUCTION_RETURN \<longrightarrow>
        int k + sint (offset (slot m base k)) \<noteq> int (slots ln) - 1)"

definition preflight_closed :: "memory \<Rightarrow> u32 \<Rightarrow> u32 \<Rightarrow> bool" where
  "preflight_closed m base ln \<longleftrightarrow>
     text_below_2G base ln \<and> ln AND 7 = 0 \<and> verify_loop m base ln base = Some RBPF_OK
     \<and> opcode (slot m base (slots ln - 1)) = BPF_INSTRUCTION_RETURN
     \<and> lddw_format m base ln \<and> jumps_closed m base ln"

lemma unscanned_slot:
  assumes "lddw_format m base ln" "k < slots ln" "\<not> scanned m base k"
  shows "opcode (slot m base k) = 0 \<and> dst (slot m base k) = 0 \<and> src (slot m base k) = 0"
proof -
  obtain j where "k = j + 1" "opcode (slot m base j) = 0x18"
    using scanned_or_second [of m base k] assms(3) by auto
  moreover from this have "j < slots ln" using assms(2) by simp
  ultimately show ?thesis
    using assms(1) by (simp add: lddw_format_def bpf_opcodes)
qed

lemma slot_in_text: "k < slots ln \<Longrightarrow> 8 * k < unat ln"
  by linarith

lemma scanned_slot:
  assumes "preflight_closed m base ln" "k < slots ln" "scanned m base k"
  shows "slot_accepted m base ln k"
  using assms slot_in_text [OF assms(2)]
  by (auto simp: preflight_closed_def verify_loop_scan scan_below_2G verify_slots_iff)

interpretation preflight: text_verifier preflight_closed
proof
  fix m base ln k
  assume acc: "preflight_closed m base ln" and k: "k < slots ln"
  have f: "lddw_format m base ln" and c: "jumps_closed m base ln"
    and b: "text_below_2G base ln" and d: "8 dvd unat ln"
    using acc and_7_dvd by (auto simp: preflight_closed_def)
  show "unat (dst (slot m base k)) < 11 \<and> unat (src (slot m base k)) < 11"
    using scanned_slot [OF acc k] unscanned_slot [OF f k]
    by (cases "scanned m base k") (auto simp: slot_accepted_def Let_def)
  show "k + 2 < slots ln" if "is_wide (slot m base k)"
    using f k that by (auto simp: lddw_format_def)
  show "0 \<le> int k + 1 + sint (offset (slot m base k))
      \<and> int k + 1 + sint (offset (slot m base k)) < int (slots ln)"
    if br: "is_branch_class (slot m base k)"
      and nr: "opcode (slot m base k) \<noteq> BPF_INSTRUCTION_RETURN"
  proof -
    have op: "opcode (slot m base k) AND 7 = 5"
      using br by (simp add: is_branch_class_def bpf_opcodes)
    have n18: "opcode (slot m base k) \<noteq> 0x18"
    proof
      assume "opcode (slot m base k) = 0x18"
      with op show False by simp
    qed
    have sc: "scanned m base k"
    proof (rule ccontr)
      assume "\<not> scanned m base k"
      with unscanned_slot [OF f k] op show False by simp
    qed
    have "\<not> target_out_of_bounds base ln (jump_target (base + of_nat (8 * k)) (slot m base k))"
      using scanned_slot [OF acc k sc] n18 br by (simp add: slot_accepted_def Let_def)
    then have "0 \<le> int k + sint (offset (slot m base k))"
      "8 * (int k + sint (offset (slot m base k))) < uint ln"
      using target_in_bounds_iff [OF b slot_in_text [OF k]] by auto
    moreover have "int (8 * slots ln) = int (unat ln)"
      using d by (simp only: dvd_mult_div_cancel)
    moreover have "int k + sint (offset (slot m base k)) \<noteq> int (slots ln) - 1"
      using c k br nr by (auto simp: jumps_closed_def)
    ultimately show ?thesis by simp
  qed
next
  fix m base ln
  assume "preflight_closed m base ln"
  then show "opcode (slot m base (slots ln - 1)) = BPF_INSTRUCTION_RETURN"
    by (simp add: preflight_closed_def)
qed

end
