(* ===== verification/Rbpf_Noninterference.thy ===== *)
theory Rbpf_Noninterference
  imports Rbpf_Termination
begin

text \<open>
  Confidentiality of a run: what a program computes depends only on the memory it may access.
  Two runs that start from memories which agree on the visible bytes proceed in lock step.
\<close>

section \<open>Related states\<close>

text \<open>
  The bytes a run may depend on: those in a region with a permission, the window in which the
  permission check is wrong, the header of the application and its text.
\<close>

definition visible :: "rbpf_application_t \<Rightarrow> u32 \<Rightarrow> u32 \<Rightarrow> u32 \<Rightarrow> bool" where
  "visible app base ln x \<longleftrightarrow>
     granted app RBPF_MEM_REGION_READ x \<or> granted app RBPF_MEM_REGION_WRITE x
     \<or> wrap_window x \<or> unat (x - application app) < unat sizeof_rbpf_header_t
     \<or> unat (x - base) < unat ln"

definition agree :: "(u32 \<Rightarrow> bool) \<Rightarrow> memory \<Rightarrow> memory \<Rightarrow> bool" where
  "agree V m m' \<longleftrightarrow> (\<forall>x. V x \<longrightarrow> m x = m' x)"

definition alike :: "(u32 \<Rightarrow> bool) \<Rightarrow> vm_state \<Rightarrow> vm_state \<Rightarrow> bool" where
  "alike V s t \<longleftrightarrow>
     vm_app t = vm_app s \<and> vm_instr t = vm_instr s \<and> vm_regmap t = vm_regmap s
     \<and> agree V (vm_mem s) (vm_mem t)"

abbreviation alike_result :: "(u32 \<Rightarrow> bool) \<Rightarrow> vm_result \<Rightarrow> vm_result \<Rightarrow> bool" where
  "alike_result V \<equiv> rel_sum (=) (rel_prod (=) (alike V))"

lemma first_some_rel:
  "list_all2 (rel_option R) xs ys \<Longrightarrow> rel_option R (first_some xs) (first_some ys)"
proof (induction xs arbitrary: ys)
  case Nil
  then show ?case by simp
next
  case (Cons x xs)
  then obtain y ys' where "ys = y # ys'" "rel_option R x y" "list_all2 (rel_option R) xs ys'"
    by (auto simp: list_all2_Cons1)
  with Cons.IH show ?case by (cases x; cases y) auto
qed

lemma agree_store:
  assumes "agree V m m'" "length bs \<le> 2 ^ 32"
  shows "agree V (store_bytes m a bs) (store_bytes m' a bs)"
  using assms by (simp add: agree_def store_bytes_apply)

section \<open>One instruction in two memories\<close>

named_theorems case_alike "each group of switch cases maps alike states to alike results"

lemma operands_alike:
  assumes "alike V s t"
  shows "DST i t = DST i s" "SRC i t = SRC i s"
    "alike_result V (assign_dst i s v) (assign_dst i t v)"
    "alike_result V (assign_dst_skip i s v) (assign_dst_skip i t v)"
    "alike_result V (return_code s c) (return_code t c)"
  using assms
  by (auto simp: alike_def DST_def SRC_def regmap_get_def assign_dst_def assign_dst_skip_def
      regmap_set_def return_code_def)

lemma ebind_rel:
  assumes "\<And>a. x = Inr a \<Longrightarrow> rel_sum (=) R (f a) (g a)"
  shows "rel_sum (=) R (ebind x f) (ebind x g)"
  using assms by (cases x) auto

lemma ALU_alike [case_alike]:
  "alike V s t \<Longrightarrow> rel_option (alike_result V) (ALU a b c d f g i s) (ALU a b c d f g i t)"
  by (simp add: ALU_def operands_alike ebind_rel)

lemma ALU_DIV_alike [case_alike]:
  "alike V s t \<Longrightarrow> rel_option (alike_result V) (ALU_DIV a b c d f g i s) (ALU_DIV a b c d f g i t)"
  by (simp add: ALU_DIV_def operands_alike ebind_rel)

lemma ALU_NEG_alike [case_alike]:
  "alike V s t \<Longrightarrow> rel_option (alike_result V) (ALU_NEG i s) (ALU_NEG i t)"
  by (simp add: ALU_NEG_def operands_alike ebind_rel)

lemma ALU_MOV_alike [case_alike]:
  "alike V s t \<Longrightarrow> rel_option (alike_result V) (ALU_MOV i s) (ALU_MOV i t)"
  by (simp add: ALU_MOV_def operands_alike ebind_rel)

lemma ALU_ARSH_alike [case_alike]:
  "alike V s t \<Longrightarrow> rel_option (alike_result V) (ALU_ARSH i s) (ALU_ARSH i t)"
  by (simp add: ALU_ARSH_def operands_alike ebind_rel)

lemma jump_alike:
  "alike V s t \<Longrightarrow> alike_result V (rbpf_jump i s) (rbpf_jump i t)"
  by (auto simp: rbpf_jump_def Let_def return_code_def alike_def)

lemma CONT_JUMP_alike:
  "alike V s t \<Longrightarrow> alike_result V (CONT_JUMP c i s) (CONT_JUMP c i t)"
  by (simp add: CONT_JUMP_def jump_alike operands_alike)

lemma COND_JMP_alike [case_alike]:
  "alike V s t \<Longrightarrow> rel_option (alike_result V) (COND_JMP a b f i s) (COND_JMP a b f i t)"
  by (simp add: COND_JMP_def operands_alike ebind_rel CONT_JUMP_alike)

lemma JMP_ALWAYS_alike [case_alike]:
  "alike V s t \<Longrightarrow> rel_option (alike_result V) (JMP_ALWAYS i s) (JMP_ALWAYS i t)"
  by (simp add: JMP_ALWAYS_def jump_alike)

lemma CALL_alike [case_alike]:
  "alike V s t \<Longrightarrow> rel_option (alike_result V) (CALL i s) (CALL i t)"
  by (simp add: CALL_def rbpf_get_call_def rbpf_get_external_call_def operands_alike)

lemma RETURN_alike [case_alike]:
  "alike V s t \<Longrightarrow> rel_option (alike_result V) (RETURN i s) (RETURN i t)"
  by (simp add: RETURN_def operands_alike)

text \<open>The state from which a double word instruction reads besides the registers.\<close>

definition wide_alike :: "bpf_instruction_t \<Rightarrow> vm_state \<Rightarrow> vm_state \<Rightarrow> bool" where
  "wide_alike i s t \<longleftrightarrow>
     (is_wide i \<longrightarrow> next_IMM64 t = next_IMM64 s
        \<and> rbpf_application_data (vm_mem t) (vm_app t) = rbpf_application_data (vm_mem s) (vm_app s)
        \<and> rbpf_application_rodata (vm_mem t) (vm_app t)
            = rbpf_application_rodata (vm_mem s) (vm_app s))"

lemma MEM_LDDW_alike:
  assumes "alike V s t" "wide_alike i s t"
  shows "rel_option (alike_result V) (MEM_LDDW i s) (MEM_LDDW i t)"
  using assms by (auto simp: MEM_LDDW_def wide_alike_def is_wide_def operands_alike)

text \<open>A load that the check permits reads visible bytes only.\<close>

lemma load_alike:
  assumes ok: "\<forall>r \<in> set (region_chain app). region_ok r" and ld: "check_load app a (of_nat n)"
    and n: "n \<in> {1, 2, 4, 8}" and ag: "agree (visible app base ln) m m'"
  shows "bytes_at m' a n = bytes_at m a n"
proof (rule bytes_at_cong)
  fix i assume i: "i < n"
  have "visible app base ln (a + of_nat i)"
  proof (cases "access_wraps a n")
    case True
    have "unat (a + of_nat i - a) < n"
      using i n by (auto simp: unat_of_nat intro: le_less_trans [OF mod_less_eq_dividend])
    with True n have "wrap_window (a + of_nat i)"
      by (intro access_wraps_window [of a n]) auto
    then show ?thesis by (simp add: visible_def)
  next
    case False
    with check_mem_granted [OF ok ld [unfolded check_load_def] _ i] show ?thesis
      by (simp add: visible_def)
  qed
  with ag show "m' (a + of_nat i) = m (a + of_nat i)" by (simp add: agree_def)
qed

lemma MEM_alike:
  assumes al: "alike (visible app base ln) s t"
    and ok: "\<forall>r \<in> set (region_chain (vm_app s)). region_ok r"
    and fr: "app_frame app (vm_app s)" and n: "n \<in> {1, 2, 4, 8}"
  shows "rel_option (alike_result (visible app base ln)) (MEM a b c n i s) (MEM a b c n i t)"
proof -
  have s: "vm_app t = vm_app s" "agree (visible app base ln) (vm_mem s) (vm_mem t)"
    using al by (auto simp: alike_def)
  have ch: "check_load (vm_app s) = check_load app"
    using app_frame_chain [OF fr] by (intro ext) (simp add: check_load_def check_mem_def)
  have ld: "bytes_at (vm_mem t) x n = bytes_at (vm_mem s) x n" if "check_load app x (of_nat n)" for x
    using load_alike [OF _ that n s(2)] ok app_frame_chain [OF fr] by simp
  have st: "alike (visible app base ln) (s\<lparr>vm_mem := store_bytes (vm_mem s) x bs\<rparr>)
      (t\<lparr>vm_mem := store_bytes (vm_mem t) x bs\<rparr>)" if "length bs = n" for x bs
    using al agree_store [OF s(2), of bs x] that n by (auto simp: alike_def)
  show ?thesis
    using operands_alike [OF al] s(1) ld st
    by (auto simp: MEM_def ch intro!: ebind_rel)
qed

lemma rbpf_cases_alike:
  assumes al: "alike (visible app base ln) s t" and w: "wide_alike i s t"
    and ok: "\<forall>r \<in> set (region_chain (vm_app s)). region_ok r"
    and fr: "app_frame app (vm_app s)"
  shows "list_all2 (rel_option (alike_result (visible app base ln))) (rbpf_cases i s) (rbpf_cases i t)"
  by (simp add: rbpf_cases_def case_alike [OF al] MEM_LDDW_alike [OF al w] MEM_alike [OF al ok fr])

lemma rbpf_instruction_alike:
  assumes al: "alike (visible app base ln) s t"
    and i: "i = bpf_instruction_at (vm_mem s) (vm_instr s)"
      "i = bpf_instruction_at (vm_mem t) (vm_instr t)"
    and w: "wide_alike i s t"
    and ok: "\<forall>r \<in> set (region_chain (vm_app s)). region_ok r"
    and fr: "app_frame app (vm_app s)"
  shows "alike_result (visible app base ln) (rbpf_instruction s) (rbpf_instruction t)"
  using first_some_rel [OF rbpf_cases_alike [OF al w ok fr]] operands_alike(5) [OF al] i
  by (auto simp: rbpf_instruction_def Let_def elim: option.rel_cases
      split: option.splits)

section \<open>Lock-step runs\<close>

lemma visible_frame: "app_frame app app' \<Longrightarrow> visible app' base ln = visible app base ln"
  by (auto simp: fun_eq_iff visible_def app_frame_granted) (auto simp: app_frame_def)

lemma text_visible: "i < unat ln \<Longrightarrow> visible app base ln (base + of_nat i)"
  using unat_of_nat [of i, where ?'a = 32]
  by (auto simp: visible_def intro: le_less_trans [OF mod_less_eq_dividend])

lemma agree_slot:
  assumes "agree (visible app base ln) m m'" "k < slots ln"
  shows "slot m' base k = slot m base k"
proof (rule bpf_instruction_at_cong)
  fix j :: nat assume "j < 8"
  then have "8 * k + j < unat ln" using assms(2) by linarith
  from text_visible [OF this] have "m (base + of_nat (8 * k + j)) = m' (base + of_nat (8 * k + j))"
    using assms(1) unfolding agree_def by blast
  then show "m' (base + of_nat (8 * k) + of_nat j) = m (base + of_nat (8 * k) + of_nat j)"
    by (simp add: add.assoc)
qed

lemma agree_header:
  assumes "agree (visible app base ln) m m'" "j + 4 \<le> 28"
  shows "load32 m' (application app + of_nat j) = load32 m (application app + of_nat j)"
proof -
  have "m' (application app + of_nat j + of_nat i) = m (application app + of_nat j + of_nat i)"
    if "i < 4" for i
  proof -
    have "unat (of_nat (j + i) :: u32) < 28"
      using assms(2) that
      by (simp add: unat_of_nat del: of_nat_add)
    then have "visible app base ln (application app + of_nat (j + i))"
      by (simp add: visible_def c_const del: of_nat_add)
    with assms(1) show ?thesis by (simp add: agree_def add.assoc)
  qed
  then show ?thesis
    unfolding load32_def by (intro arg_cong [where f = le_word] bytes_at_cong)
qed

lemma agree_data_len:
  assumes "agree (visible app base ln) m m'"
  shows "header_data_len m' (application app) = header_data_len m (application app)"
    "header_rodata_len m' (application app) = header_rodata_len m (application app)"
    "header_text_len m' (application app) = header_text_len m (application app)"
  using agree_header [OF assms, of 12] agree_header [OF assms, of 16] agree_header [OF assms, of 20]
  by (simp_all add: header_data_len_def header_rodata_len_def header_text_len_def)

lemma wide_alikeI:
  assumes "alike (visible app base ln) s t" "app_frame app (vm_app s)"
    and "vm_instr s = base + of_nat (8 * k)" and w: "is_wide i \<Longrightarrow> k + 1 < slots ln"
  shows "wide_alike i s t"
proof -
  have al: "vm_app t = vm_app s" "vm_instr t = vm_instr s"
    "agree (visible app base ln) (vm_mem s) (vm_mem t)"
    using assms(1) by (auto simp: alike_def)
  have "application (vm_app s) = application app"
    using assms(2) by (auto simp: app_frame_def)
  then have "rbpf_application_data (vm_mem t) (vm_app s) = rbpf_application_data (vm_mem s) (vm_app s)"
    "rbpf_application_rodata (vm_mem t) (vm_app s) = rbpf_application_rodata (vm_mem s) (vm_app s)"
    using agree_data_len [OF al(3)]
    by (simp_all add: rbpf_application_data_def rbpf_application_rodata_def rbpf_header_def)
  moreover have "next_IMM64 t = next_IMM64 s" if "is_wide i"
    using agree_slot [OF al(3) w [OF that]] al(2) assms(3)
    by (simp add: next_IMM64_def c_const algebra_simps)
  ultimately show ?thesis using al(1) by (simp add: wide_alike_def)
qed

context text_verifier
begin

lemma step_alike:
  assumes acc: "accepts m base ln" and ins: "inside m base ln app k s"
    and al: "alike (visible app base ln) s t"
    and ok: "\<forall>r \<in> set (region_chain app). region_ok r"
  shows "alike_result (visible app base ln) (rbpf_instruction s) (rbpf_instruction t)"
proof -
  have k: "k < slots ln" and fr: "app_frame app (vm_app s)"
    and ip: "vm_instr s = base + of_nat (8 * k)" 
    using ins by (auto simp: inside_def)
  have t: "vm_instr t = vm_instr s" "agree (visible app base ln) (vm_mem s) (vm_mem t)"
    using al by (auto simp: alike_def)
  note i = inside_fetch [OF ins]
  have "slot m base k = bpf_instruction_at (vm_mem t) (vm_instr t)"
    using agree_slot [OF t(2) k] i ip t(1) by simp
  moreover have "wide_alike (slot m base k) s t"
    using wide [OF acc k] by (intro wide_alikeI [OF al fr ip]) simp
  ultimately show ?thesis
    using rbpf_instruction_alike [OF al i [symmetric]] ok fr by (simp add: app_frame_chain)
qed

lemma run_alike:
  assumes acc: "accepts m base ln" and prot: "text_protected app base ln"
    and ok: "\<forall>r \<in> set (region_chain app). region_ok r" "flags app AND RBPF_CONFIG_NO_RETURN = 0"
    and "inside m base ln app k s" "alike (visible app base ln) s t"
  shows "rel_option (alike_result (visible app base ln)) (rbpf_run_loop fuel s) (rbpf_run_loop fuel t)"
  using assms(5,6)
proof (induction fuel arbitrary: k s t)
  case 0
  then show ?case by simp
next
  case (Suc fuel)
  note step = step_alike [OF acc Suc.prems ok(1)]
  show ?case
  proof (cases "rbpf_instruction s")
    case (Inl e)
    with step show ?thesis by (cases "rbpf_instruction t") (auto simp: rbpf_run_loop_Suc)
  next
    case (Inr p)
    with step obtain res s1 t1 where st: "rbpf_instruction s = Inr (res, s1)"
        "rbpf_instruction t = Inr (res, t1)" and al1: "alike (visible app base ln) s1 t1"
      by (cases p; cases "rbpf_instruction t") auto
    then have adv: "alike (visible app base ln) (advance s1) (advance t1)"
      by (simp add: alike_def)
    show ?thesis
    proof (cases "res > 0")
      case False
      with st adv show ?thesis by (simp add: rbpf_run_loop_Suc)
    next
      case True
      obtain k' where "inside m base ln app k' (advance s1)"
        using step_inside [OF acc Suc.prems(1) prot ok st(1) True] by blast
      from Suc.IH [OF this adv] True st show ?thesis by (simp add: rbpf_run_loop_Suc)
    qed
  qed
qed

end

section \<open>The pre-flight check in two memories\<close>

lemma verify_slots_cong:
  assumes d: "8 dvd unat ln" and sl: "\<And>k. k < slots ln \<Longrightarrow> slot m' base k = slot m base k"
  shows "verify_slots m' base ln k = verify_slots m base ln k"
proof (induction "unat ln - 8 * k" arbitrary: k rule: less_induct)
  case less
  show ?case
  proof (cases "8 * k < unat ln")
    case True
    then have "slot m' base k = slot m base k" using d by (intro sl) auto
    moreover have "verify_slots m' base ln (k + 1) = verify_slots m base ln (k + 1)"
      "verify_slots m' base ln (k + 2) = verify_slots m base ln (k + 2)"
      using True by (intro less; simp)+
    ultimately show ?thesis
      by (simp only: verify_slots.simps [of m' base ln k] verify_slots.simps [of m base ln k] Let_def)
  next
    case False
    then show ?thesis by (simp add: verify_slots.simps)
  qed
qed

end
