(* ===== verification/Rbpf_Run.thy ===== *)
theory Rbpf_Run
  imports Rbpf_Noninterference
begin

text \<open>
  A run from its entry point \<open>rbpf_application_run_ctx\<close>: how the pre-flight result decides
  whether the loop starts and in which state, and the lemmas that carry the step and loop facts
  of the earlier theories up to the entry point.
\<close>

section \<open>A run from its entry point\<close>

text \<open>The application object the engine works on, after the argument region is initialised.\<close>

definition with_context :: "rbpf_application_t \<Rightarrow> u32 \<Rightarrow> u32 \<Rightarrow> rbpf_application_t" where
  "with_context rbpf ctx ctx_len =
     rbpf\<lparr>arg_region := rbpf_memory_region_init (arg_region rbpf) ctx ctx_len
            (RBPF_MEM_REGION_READ OR RBPF_MEM_REGION_WRITE)\<rparr>"

text \<open>
  The states the engine starts the loop in, and the conditions on the application under which a
  run is well defined: it is set up and not yet verified, every region ends below \<open>0x80000000\<close>,
  the text is not writable, and the text satisfies the conditions the verifier does not test.
\<close>

definition start_state :: "memory \<Rightarrow> rbpf_application_t \<Rightarrow> u32 \<Rightarrow> u32 \<Rightarrow> vm_state" where
  "start_state m rbpf ctx ctx_len =
     (let app = (with_context rbpf ctx ctx_len)\<lparr>branches_remaining := RBPF_BRANCHES_ALLOWED,
                  flags := flags rbpf OR RBPF_FLAG_PREFLIGHT_DONE\<rparr>
      in \<lparr>vm_app = app, vm_mem = m, vm_instr = rbpf_application_text m app,
          vm_regmap = initial_regmap ctx app\<rparr>)"

definition closed_application :: "memory \<Rightarrow> rbpf_application_t \<Rightarrow> u32 \<Rightarrow> u32 \<Rightarrow> bool" where
  "closed_application m rbpf ctx ctx_len \<longleftrightarrow>
     (let base = rbpf_application_text m rbpf; ln = rbpf_application_text_len m rbpf;
          app = with_context rbpf ctx ctx_len
      in flags rbpf AND RBPF_FLAG_SETUP_DONE \<noteq> 0
         \<and> flags rbpf AND RBPF_FLAG_PREFLIGHT_DONE = 0
         \<and> flags rbpf AND RBPF_CONFIG_NO_RETURN = 0
         \<and> (\<forall>r \<in> set (region_chain app). region_ok r)
         \<and> text_protected app base ln \<and> text_below_2G base ln \<and> ln \<noteq> 0
         \<and> lddw_format m base ln \<and> jumps_closed m base ln)"

lemma with_context_simps [simp]:
  "flags (with_context rbpf ctx n) = flags rbpf"
  "application (with_context rbpf ctx n) = application rbpf"
  "stack (with_context rbpf ctx n) = stack rbpf"
  by (simp_all add: with_context_def)

lemma text_of_application:
  "application a = application b \<Longrightarrow> rbpf_application_text m a = rbpf_application_text m b"
  "application a = application b \<Longrightarrow> rbpf_application_text_len m a = rbpf_application_text_len m b"
  by (simp_all add: rbpf_application_text_def rbpf_application_text_len_def rbpf_header_def)

lemma region_chain_update [simp]:
  "region_chain (a\<lparr>branches_remaining := n\<rparr>) = region_chain a"
  "region_chain (a\<lparr>flags := f\<rparr>) = region_chain a"
  by (simp_all add: region_chain_def)

lemma granted_update [simp]:
  "granted (a\<lparr>branches_remaining := n\<rparr>) = granted a"
  "granted (a\<lparr>flags := f\<rparr>) = granted a"
  by (simp_all add: granted_def fun_eq_iff)

lemma preflight_frame:
  assumes "rbpf_application_verify_preflight m a = Some (res, b)"
  shows "b = a \<or> b = a\<lparr>flags := flags a OR RBPF_FLAG_PREFLIGHT_DONE\<rparr>"
  using assms
  by (auto simp: rbpf_application_verify_preflight_def Let_def split: if_splits option.splits)

text \<open>
  The pre-flight result for an application that is not marked as verified: the length, every
  scanned slot, and the opcode of the last slot decide it.
\<close>

lemma preflight_result:
  assumes "flags rbpf AND RBPF_FLAG_PREFLIGHT_DONE = 0"
    and t: "base = rbpf_application_text m rbpf" "ln = rbpf_application_text_len m rbpf"
  shows "preflight_status m rbpf = Some RBPF_OK \<longleftrightarrow>
    ln AND 7 = 0 \<and> verify_loop m base ln base = Some RBPF_OK
    \<and> (opcode (bpf_instruction_at m (base + 8 * (ln div 8 - 1))) = BPF_INSTRUCTION_RETURN
       \<or> flags rbpf AND RBPF_CONFIG_NO_RETURN \<noteq> 0)"
  using assms(1)
  by (auto simp: rbpf_application_verify_preflight_def Let_def t c_const bpf_opcodes split: option.splits)

text \<open>
  The check ends for a text whose scan stays in range, and for one whose end pointer wraps.
\<close>

lemma preflight_ends:
  assumes t: "base = rbpf_application_text m rbpf" "ln = rbpf_application_text_len m rbpf"
    and r: "scan_in_range base ln \<or> 2 ^ 32 \<le> unat base + unat ln"
  shows "\<exists>res rbpf'. rbpf_application_verify_preflight m rbpf = Some (res, rbpf')"
proof -
  have "\<exists>res. verify_loop m base ln base = Some res" if "ln AND 7 = 0"
    using r verify_loop_scan [OF _ that] verify_loop_wrapped by blast
  then show ?thesis
    by (auto simp: rbpf_application_verify_preflight_def Let_def t)
qed

lemma slots_pos:
  assumes "ln AND 7 = 0" "ln \<noteq> (0 :: u32)"
  shows "0 < slots ln"
proof -
  have "8 dvd unat ln" by (rule and_7_dvd [OF assms(1)])
  moreover have "unat ln \<noteq> 0" using assms(2) by (simp add: unsigned_eq_0_iff)
  ultimately show ?thesis by auto
qed

lemma last_slot_address:
  assumes "ln AND 7 = 0" "ln \<noteq> (0 :: u32)"
  shows "base + 8 * (ln div 8 - 1) = base + of_nat (8 * (slots ln - 1))"
proof -
  note slots_pos [OF assms]
  moreover have u: "unat (ln div 8) = slots ln" by (simp add: unat_div)
  have "ln div 8 = of_nat (slots ln)" by (simp flip: u)
  ultimately show ?thesis by (simp add: Suc_leI)
qed


lemma verify_loop_nonpos: "verify_loop m base ln a = Some res \<Longrightarrow> res \<le> RBPF_OK"
proof (rule verify_loop.raw_induct [where P = "\<lambda>_ _ _ _ res. res \<le> RBPF_OK"])
  fix loop m base ln a res
  assume "\<And>m base ln a res. loop m base ln a = Some res \<Longrightarrow> res \<le> RBPF_OK"
    and "(if a < base + ln then
        (let i = bpf_instruction_at m a
         in if unat (dst i) \<ge> 11 \<or> unat (src i) \<ge> 11 then Some RBPF_ILLEGAL_REGISTER
            else if opcode i = 0x18
            then loop m base ln (a + sizeof_bpf_instruction_t + sizeof_bpf_instruction_t)
            else if is_branch_class i \<and> target_out_of_bounds base ln (jump_target a i)
            then Some RBPF_ILLEGAL_JUMP
            else if opcode i = (BPF_INSTRUCTION_BRANCH_CALL OR BPF_INSTRUCTION_CLS_BRANCH)
                    \<and> \<not> rbpf_check_call (immediate i)
            then Some RBPF_ILLEGAL_CALL
            else loop m base ln (a + sizeof_bpf_instruction_t))
      else Some RBPF_OK) = Some res"
  then show "res \<le> RBPF_OK"
    by (auto simp: Let_def c_const split: if_splits)
qed

lemma preflight_negative:
  "preflight_status m a = Some res \<Longrightarrow> res \<le> RBPF_OK"
  by (auto simp: rbpf_application_verify_preflight_def Let_def
      dest: verify_loop_nonpos split: if_splits option.splits) (simp_all add: c_const)

lemma preflight_cong:
  assumes "application a = application b" "flags a = flags b"
  shows "preflight_status m a = preflight_status m b"
  using assms
  by (simp add: rbpf_application_verify_preflight_def Let_def text_of_application [OF assms(1)]
      split: option.split)

lemma done_flag:
  assumes "flags a AND RBPF_FLAG_PREFLIGHT_DONE \<noteq> 0"
  shows "flags a OR RBPF_FLAG_PREFLIGHT_DONE = flags a"
proof -
  have d: "RBPF_FLAG_PREFLIGHT_DONE = 2 ^ 1" by (simp add: c_const)
  have "bit (flags a) 1" using assms unfolding d and_exp_eq_0_iff_not_bit by simp
  then show ?thesis unfolding d by (intro bit_word_eqI) (auto simp: bit_or_iff bit_2_iff)
qed

lemma preflight_sets_flag:
  assumes "preflight_status m a = Some RBPF_OK"
  shows "rbpf_application_verify_preflight m a
    = Some (RBPF_OK, a\<lparr>flags := flags a OR RBPF_FLAG_PREFLIGHT_DONE\<rparr>)"
  using assms done_flag [of a]
  by (auto simp: rbpf_application_verify_preflight_def Let_def c_const split: if_splits option.splits)

lemma preflight_rejects:
  assumes "preflight_status m a = Some res" "res \<noteq> RBPF_OK"
  shows "rbpf_application_verify_preflight m a = Some (res, a)"
  using assms
  by (auto simp: rbpf_application_verify_preflight_def Let_def split: if_splits option.splits)

definition read_result :: "vm_result \<Rightarrow> ub + (int \<times> u64 option \<times> vm_state)" where
  "read_result r = ebind r (\<lambda>(res, vm). Inr (res, Some (vm_regmap vm ! 0), vm))"

lemma run_ctx_accepted:
  assumes "flags rbpf AND RBPF_FLAG_SETUP_DONE \<noteq> 0"
    and ok: "preflight_status m rbpf = Some RBPF_OK"
  shows "rbpf_application_run_ctx fuel m rbpf ctx n =
    map_option read_result (rbpf_run_loop fuel (start_state m rbpf ctx n))"
proof -
  let ?a = "(with_context rbpf ctx n)\<lparr>branches_remaining := RBPF_BRANCHES_ALLOWED\<rparr>"
  have "preflight_status m ?a = Some RBPF_OK"
    using ok preflight_cong [of ?a rbpf m] by simp
  then have pf: "rbpf_application_verify_preflight m ?a =
      Some (RBPF_OK, ?a\<lparr>flags := flags rbpf OR RBPF_FLAG_PREFLIGHT_DONE\<rparr>)"
    using preflight_sets_flag [of m ?a] by simp
  have "rbpf_application_text m ?a =
      rbpf_application_text m (?a\<lparr>flags := flags rbpf OR RBPF_FLAG_PREFLIGHT_DONE\<rparr>)"
    by (rule text_of_application) simp
  then show ?thesis
    using assms(1)
    by (simp add: rbpf_application_run_ctx_def rbpf_engine_run_def Let_def pf start_state_def
        read_result_def [abs_def] initial_regmap_def RBPF_OK_def flip: with_context_def)
qed

lemma run_ctx_rejected:
  assumes "flags rbpf AND RBPF_FLAG_SETUP_DONE \<noteq> 0"
    and bad: "preflight_status m rbpf = Some res" "res \<noteq> RBPF_OK"
  shows "\<exists>vm. rbpf_application_run_ctx fuel m rbpf ctx n = Some (Inr (res, None, vm)) \<and> vm_mem vm = m
      \<and> vm_app vm = (with_context rbpf ctx n)\<lparr>branches_remaining := RBPF_BRANCHES_ALLOWED\<rparr>"
proof -
  let ?a = "(with_context rbpf ctx n)\<lparr>branches_remaining := RBPF_BRANCHES_ALLOWED\<rparr>"
  have "preflight_status m ?a = Some res"
    using bad preflight_cong [of ?a rbpf m] by simp
  then have "rbpf_application_verify_preflight m ?a = Some (res, ?a)"
    using bad(2) by (rule preflight_rejects)
  moreover have "res < 0"
    using preflight_negative [OF bad(1)] bad(2) by (simp add: RBPF_OK_def)
  ultimately show ?thesis
    using assms(1)
    by (simp add: rbpf_application_run_ctx_def rbpf_engine_run_def Let_def flip: with_context_def)
qed

section \<open>The states of a run\<close>

text \<open>
  The states the run loop passes through from \<open>s\<close>, each with the status of the instruction that led
  to it.  A state is reached after any number of instructions; the relation does not depend on
  whether the run returns.  An instruction whose C code is undefined has no successor.
\<close>

inductive passes_through :: "vm_state \<Rightarrow> int \<Rightarrow> vm_state \<Rightarrow> bool" for s where
  at_start: "passes_through s RBPF_CONTINUE s"
| at_step: "passes_through s res t \<Longrightarrow> 0 < res \<Longrightarrow> rbpf_instruction t = Inr (res', t')
    \<Longrightarrow> passes_through s res' (advance t')"

lemma passes_through_frame:
  assumes "passes_through s res t" and ok: "\<forall>r \<in> set (region_chain (vm_app s)). region_ok r"
    and x: "\<not> granted (vm_app s) RBPF_MEM_REGION_WRITE x" "\<not> wrap_window x"
  shows "vm_mem t x = vm_mem s x \<and> region_chain (vm_app t) = region_chain (vm_app s)
    \<and> granted (vm_app t) = granted (vm_app s)"
  using assms(1)
proof induction
  case at_start
  then show ?case by simp
next
  case (at_step res t res' t')
  note eff = rbpf_instruction_effect [OF at_step.hyps(3)]
  have "vm_mem t' x = vm_mem t x"
    using at_step.IH ok x by (intro effect_mem [OF eff]) simp_all
  with at_step.IH effect_app [OF eff] show ?case
    by (simp add: app_frame_chain app_frame_granted fun_eq_iff)
qed

text \<open>A state the loop returns is one it passes through, with a status that is not positive.\<close>

lemma run_loop_passes:
  assumes "rbpf_run_loop fuel t = Some (Inr (res, vm))" "passes_through s r t" "0 < r"
  shows "passes_through s res vm \<and> res \<le> 0"
  using assms
proof (induction fuel arbitrary: r t)
  case 0
  then show ?case by simp
next
  case (Suc fuel)
  then obtain r' t' where st: "rbpf_instruction t = Inr (r', t')"
    by (auto simp: rbpf_run_loop_Suc split: sum.splits)
  note ps = passes_through.at_step [OF Suc.prems(2,3) st]
  show ?case
  proof (cases "0 < r'")
    case True
    with Suc.IH [OF _ ps] Suc.prems(1) st show ?thesis by (simp add: rbpf_run_loop_Suc)
  next
    case False
    with Suc.prems(1) st ps show ?thesis by (auto simp: rbpf_run_loop_Suc)
  qed
qed

section \<open>From the loop to the entry point\<close>

lemma start_chain:
  "region_chain (vm_app (start_state m rbpf ctx n)) = region_chain (with_context rbpf ctx n)"
  "granted (vm_app (start_state m rbpf ctx n)) = granted (with_context rbpf ctx n)"
  "vm_mem (start_state m rbpf ctx n) = m"
  by (simp_all add: start_state_def Let_def)

lemma run_ctx_passes:
  assumes "rbpf_application_run_ctx fuel m rbpf ctx n = Some (Inr (res, result, vm))"
  shows "vm_mem vm = m \<or> passes_through (start_state m rbpf ctx n) res vm"
proof -
  have fl: "flags rbpf AND RBPF_FLAG_SETUP_DONE \<noteq> 0"
    using assms by (auto simp: rbpf_application_run_ctx_def Let_def)
  consider "preflight_status m rbpf = None" | "preflight_status m rbpf = Some RBPF_OK"
    | pf where "preflight_status m rbpf = Some pf" "pf \<noteq> RBPF_OK"
    by (cases "preflight_status m rbpf") auto
  then show ?thesis
  proof cases
    case 1
    then have "preflight_status m
        ((with_context rbpf ctx n)\<lparr>branches_remaining := RBPF_BRANCHES_ALLOWED\<rparr>) = None"
      by (subst preflight_cong [where b = rbpf]) simp_all
    then show ?thesis
      using assms by (simp add: rbpf_application_run_ctx_def rbpf_engine_run_def Let_def
          flip: with_context_def split: if_splits)
  next
    case 2
    then obtain z where z: "rbpf_run_loop fuel (start_state m rbpf ctx n) = Some z"
      "read_result z = Inr (res, result, vm)"
      using assms run_ctx_accepted [OF fl 2, of fuel ctx n] by auto
    then have "rbpf_run_loop fuel (start_state m rbpf ctx n) = Some (Inr (res, vm))"
      by (cases z) (auto simp: read_result_def)
    from run_loop_passes [OF this passes_through.at_start] show ?thesis by (simp add: c_const)
  next
    case 3
    then show ?thesis
      using assms run_ctx_rejected [OF fl 3, of fuel ctx n] by auto
  qed
qed

lemma start_state_simps:
  "vm_mem (start_state m rbpf ctx n) = m" "length (vm_regmap (start_state m rbpf ctx n)) = 11"
  "vm_instr (start_state m rbpf ctx n) = rbpf_application_text m rbpf"
  "branches_remaining (vm_app (start_state m rbpf ctx n)) = RBPF_BRANCHES_ALLOWED"
  by (simp_all add: start_state_def Let_def initial_regmap_def
      text_of_application(1) [of "with_context rbpf ctx n\<lparr>branches_remaining := _, flags := _\<rparr>" rbpf])

lemma start_inside:
  assumes cl: "closed_application m rbpf ctx n"
    and ok: "preflight_status m rbpf = Some RBPF_OK"
    and t: "base = rbpf_application_text m rbpf" "ln = rbpf_application_text_len m rbpf"
  shows "preflight_closed m base ln"
    and "inside m base ln (vm_app (start_state m rbpf ctx n)) 0 (start_state m rbpf ctx n)"
proof -
  have fl: "flags rbpf AND RBPF_FLAG_PREFLIGHT_DONE = 0" "flags rbpf AND RBPF_CONFIG_NO_RETURN = 0"
    using cl by (simp_all add: closed_application_def Let_def)
  have pf: "ln AND 7 = 0" "verify_loop m base ln base = Some RBPF_OK"
    "opcode (bpf_instruction_at m (base + 8 * (ln div 8 - 1))) = BPF_INSTRUCTION_RETURN"
    using preflight_result [OF fl(1) t, THEN iffD1, OF ok] fl(2) by simp_all
  have ln: "ln \<noteq> 0" using cl t by (simp add: closed_application_def Let_def)
  have "text_below_2G base ln" "lddw_format m base ln" "jumps_closed m base ln"
    using cl unfolding closed_application_def Let_def t by blast+
  then show "preflight_closed m base ln"
    unfolding preflight_closed_def
    using pf(1,2) pf(3) [unfolded last_slot_address [OF pf(1) ln]] by blast
  show "inside m base ln (vm_app (start_state m rbpf ctx n)) 0 (start_state m rbpf ctx n)"
    using slots_pos [OF pf(1) ln]
    by (simp add: inside_def start_state_simps t RBPF_BRANCHES_ALLOWED_def)
qed

lemma start_protected:
  assumes "closed_application m rbpf ctx n"
  shows "text_protected (vm_app (start_state m rbpf ctx n)) (rbpf_application_text m rbpf)
      (rbpf_application_text_len m rbpf)"
    "\<forall>r \<in> set (region_chain (vm_app (start_state m rbpf ctx n))). region_ok r"
    "flags (vm_app (start_state m rbpf ctx n)) AND RBPF_CONFIG_NO_RETURN = 0"
  using assms
  by (simp_all add: closed_application_def start_state_def Let_def text_protected_def
      bit.conj_disj_distrib2 RBPF_FLAG_PREFLIGHT_DONE_def RBPF_CONFIG_NO_RETURN_def)

section \<open>Two memories at the entry point\<close>

lemma agree_text:
  assumes "agree (visible a base ln) m m'" "application a = application rbpf"
  shows "rbpf_application_text m' rbpf = rbpf_application_text m rbpf"
    "rbpf_application_text_len m' rbpf = rbpf_application_text_len m rbpf"
  using agree_data_len [OF assms(1)] assms(2)
  by (simp_all add: rbpf_application_text_def rbpf_application_text_len_def rbpf_header_def Let_def)

lemma start_alike:
  assumes "agree (visible (with_context rbpf ctx n) base ln) m m'"
  shows "alike (visible (with_context rbpf ctx n) base ln)
    (start_state m rbpf ctx n) (start_state m' rbpf ctx n)"
proof -
  have "vm_app (start_state m' rbpf ctx n) = vm_app (start_state m rbpf ctx n)"
    "vm_regmap (start_state m' rbpf ctx n) = vm_regmap (start_state m rbpf ctx n)"
    by (simp_all add: start_state_def Let_def)
  with agree_text(1) [OF assms, of rbpf] assms show ?thesis
    by (simp add: alike_def start_state_simps)
qed

lemma preflight_agree:
  assumes ag: "agree (visible (with_context rbpf ctx n) base ln) m m'"
    and t: "base = rbpf_application_text m rbpf" "ln = rbpf_application_text_len m rbpf" "ln \<noteq> 0"
    and fl: "flags rbpf AND RBPF_FLAG_PREFLIGHT_DONE = 0"
    and b: "text_below_2G base ln"
    and ok: "preflight_status m rbpf = Some RBPF_OK"
  shows "preflight_status m' rbpf = Some RBPF_OK"
proof -
  have t': "base = rbpf_application_text m' rbpf" "ln = rbpf_application_text_len m' rbpf"
    using agree_text [OF ag, of rbpf] t by simp_all
  note r = preflight_result [OF fl t(1,2), THEN iffD1, OF ok]
  have d: "8 dvd unat ln" using r by (intro and_7_dvd) simp
  have "0 < slots ln" using r t(3) by (intro slots_pos) simp_all
  then have "slot m' base (slots ln - 1) = slot m base (slots ln - 1)"
    by (intro agree_slot [OF ag]) simp
  moreover have "verify_slots m' base ln 0 = verify_slots m base ln 0"
    by (intro verify_slots_cong d agree_slot [OF ag])
  then have "verify_loop m' base ln base = verify_loop m base ln base"
    by (simp only: verify_loop_scan [OF scan_below_2G [OF b] conjunct1 [OF r]])
  ultimately show ?thesis
    using r last_slot_address [OF conjunct1 [OF r] t(3), of base]
    by (subst preflight_result [OF fl t']) simp
qed

lemma read_result_rel:
  "alike_result V r r' \<Longrightarrow>
   rel_sum (=) (rel_prod (=) (rel_prod (=) (alike V))) (read_result r) (read_result r')"
  by (cases r; cases r') (auto simp: read_result_def alike_def)

end
