(* ===== verification/Rbpf_Properties.thy ===== *)
theory Rbpf_Properties
  imports Rbpf_Run
begin

text \<open>
  The correctness theorems of the rBPF virtual machine, and the concrete applications that show
  their hypotheses can hold and where the code falls short of them.
\<close>

section \<open>Evaluating concrete programs\<close>

named_theorems rbpf_eval "equations that evaluate a concrete rBPF program"

lemmas [rbpf_eval] = bytes_at_numeral le_bytes_numeral

lemma rbpf_run_loop_numeral [rbpf_eval]:
  "rbpf_run_loop (numeral n) vm =
     (case rbpf_instruction vm of
        Inl e \<Rightarrow> Some (Inl e)
      | Inr (res, vm1) \<Rightarrow> if res > 0 then rbpf_run_loop (pred_numeral n) (advance vm1)
                        else Some (Inr (res, advance vm1)))"
  by (simp add: numeral_eq_Suc rbpf_run_loop_Suc)

lemma all_less_numeral [rbpf_eval]:
  "(\<forall>i < numeral n. P i) \<longleftrightarrow> P (pred_numeral n) \<and> (\<forall>i < pred_numeral n. P i)"
  by (auto simp: numeral_eq_Suc less_Suc_eq)

lemma all_less_One [rbpf_eval]: "(\<forall>i < Suc 0. P i) \<longleftrightarrow> P 0"
  by simp

lemmas rbpf_layout [rbpf_eval] =
  load32_def header_text_len_def header_data_len_def header_rodata_len_def rbpf_header_def
  rbpf_application_text_def rbpf_application_text_len_def rbpf_application_data_def
  rbpf_application_data_len_def rbpf_application_rodata_def rbpf_application_rodata_len_def
  rbpf_memory_region_init_def Let_def c_const bpf_opcodes

lemmas rbpf_switch [rbpf_eval] =
  rbpf_instruction_def rbpf_cases_def ALU_def ALU_DIV_def ALU_NEG_def ALU_MOV_def ALU_ARSH_def
  MEM_LDDW_def MEM_def JMP_ALWAYS_def COND_JMP_def CALL_def RETURN_def DST_def SRC_def IMM64_def
  regmap_get_def regmap_set_def assign_dst_def return_code_def mem_addr_def access_aligned_def rbpf_jump_def
  jump_target_def rbpf_over_max_jumps_def CONT_JUMP_def check_store_def check_load_def check_mem_def
  region_chain_def advance_def Let_def

lemma initial_regmap_eq:
  "initial_regmap ctx rbpf = [0, ucast ctx, 0, 0, 0, 0, 0, 0, 0, 0, ucast (stack rbpf + 512)]"
proof -
  have "replicate 11 (0 :: u64) = [0, 0, 0, 0, 0, 0, 0, 0, 0, 0, 0]" by (simp add: numeral_eq_Suc)
  moreover have "xs[10 := v] = take 10 xs @ v # drop 11 xs" if "length xs = 11" for xs :: "u64 list" and v
    using that by (simp add: upd_conv_take_nth_drop)
  ultimately show ?thesis by (simp add: initial_regmap_def RBPF_STACK_SIZE_def)
qed

text \<open>
  A sample application at \<open>0x1000\<close>, with its stack at \<open>0x2000\<close> and no data: it stores the context
  pointer on the stack, and returns 42.
\<close>

definition zero_region :: rbpf_mem_region_t where
  "zero_region = \<lparr>start = 0, len = 0, region_flags = 0\<rparr>"

definition zero_app :: rbpf_application_t where
  "zero_app = \<lparr>stack_region = zero_region, rodata_region = zero_region, data_region = zero_region,
     arg_region = zero_region, arg_next = [], application = 0, application_len = 0, stack = 0,
     flags = 0, branches_remaining = 0\<rparr>"

definition sample_mem :: memory where
  "sample_mem = (\<lambda>_. 0)(0x1014 := 24,
     0x101c := 0x7b, 0x101d := 0x1a, 0x101e := 0xf8, 0x101f := 0xff,
     0x1024 := 0xb7, 0x1028 := 0x2a, 0x102c := 0x95)"

definition sample_app :: rbpf_application_t where
  "sample_app = rbpf_application_setup sample_mem zero_app 0x2000 0x1000 52"

lemma sample_app_eq:
  "sample_app =
     \<lparr>stack_region = \<lparr>start = 0x2000, len = 512, region_flags = 3\<rparr>,
      rodata_region = \<lparr>start = 0x1054, len = 0, region_flags = 1\<rparr>,
      data_region = \<lparr>start = 0x1054, len = 0, region_flags = 3\<rparr>, arg_region = zero_region,
      arg_next = [], application = 0x1000, application_len = 52, stack = 0x2000, flags = 1,
      branches_remaining = 0\<rparr>"
  by (simp add: sample_app_def rbpf_application_setup_def rbpf_layout bytes_at_numeral
      sample_mem_def zero_app_def zero_region_def)

lemma sample_text:
  "rbpf_application_text sample_mem sample_app = 0x101c"
  "rbpf_application_text_len sample_mem sample_app = 24"
  by (simp_all add: rbpf_layout bytes_at_numeral sample_mem_def sample_app_eq)

lemma sample_slots:
  "bpf_instruction_at sample_mem 0x101c =
     \<lparr>opcode = 0x7b, dst = 10, src = 1, offset = 0xfff8, immediate = 0\<rparr>"
  "bpf_instruction_at sample_mem 0x1024 =
     \<lparr>opcode = 0xb7, dst = 0, src = 0, offset = 0, immediate = 42\<rparr>"
  "bpf_instruction_at sample_mem 0x102c =
     \<lparr>opcode = 0x95, dst = 0, src = 0, offset = 0, immediate = 0\<rparr>"
  by (simp_all add: bpf_instruction_at_def sample_mem_def)

lemma sample_preflight:
  "preflight_status sample_mem sample_app = Some RBPF_OK"
proof -
  have "verify_loop sample_mem 0x101c 24 0x101c = Some RBPF_OK"
    by (simp add: verify_loop.simps sample_slots is_branch_class_def target_out_of_bounds_def
        jump_target_def c_const bpf_opcodes)
  then show ?thesis
    unfolding rbpf_application_verify_preflight_def Let_def sample_text
    by (simp add: sample_slots c_const)
qed

lemma sample_closed: "closed_application sample_mem sample_app 0x3000 0"
proof -
  have "text_protected (with_context sample_app 0x3000 0) 0x101c 24"
    by (simp add: text_protected_def rbpf_eval granted_def in_region_def wrap_window_def
        with_context_def sample_app_eq)
  moreover have "lddw_format sample_mem 0x101c 24" "jumps_closed sample_mem 0x101c 24"
    by (simp_all add: lddw_format_def jumps_closed_def all_less_numeral all_less_One sample_slots
        is_wide_def is_branch_class_def bpf_opcodes)
  moreover have "\<forall>r \<in> set (region_chain (with_context sample_app 0x3000 0)). region_ok r"
    by (simp add: region_chain_def with_context_def sample_app_eq rbpf_memory_region_init_def
        region_ok_def)
  moreover have "text_below_2G 0x101c 24" by (simp add: text_below_2G_def)
  ultimately show ?thesis
    unfolding closed_application_def Let_def sample_text
    by (simp add: sample_app_eq c_const)
qed

text \<open>The state in which the sample run ends.\<close>

definition sample_final :: vm_state where
  "sample_final =
     (start_state sample_mem sample_app 0x3000 0)
       \<lparr>vm_mem := store_bytes sample_mem 0x21f8 (le_bytes 8 (0x3000 :: u64)),
        vm_instr := 0x1034,
        vm_regmap := [42, 0x3000, 0, 0, 0, 0, 0, 0, 0, 0, 0x2200]\<rparr>"

lemma sample_start:
  "start_state sample_mem sample_app 0x3000 0 =
     \<lparr>vm_app = sample_app\<lparr>arg_region := \<lparr>start = 0x3000, len = 0, region_flags = 3\<rparr>,
        branches_remaining := 10000, flags := 3\<rparr>,
      vm_mem = sample_mem, vm_instr = 0x101c,
      vm_regmap = [0, 0x3000, 0, 0, 0, 0, 0, 0, 0, 0, 0x2200]\<rparr>"
  by (simp add: start_state_def with_context_def initial_regmap_eq rbpf_layout bytes_at_numeral
      sample_mem_def sample_app_eq)

lemma sample_slots_after:
  "bpf_instruction_at (vm_mem sample_final) 0x1024 = bpf_instruction_at sample_mem 0x1024"
  "bpf_instruction_at (vm_mem sample_final) 0x102c = bpf_instruction_at sample_mem 0x102c"
  by (simp_all add: sample_final_def bpf_instruction_at_def le_bytes_numeral)

lemma sample_run:
  "rbpf_application_run_ctx 3 sample_mem sample_app 0x3000 0
     = Some (Inr (RBPF_OK, Some 42, sample_final))"
proof -
  let ?m = "store_bytes sample_mem 0x21f8 (le_bytes 8 (0x3000 :: u64))"
  have mem: "bpf_instruction_at ?m 0x1024 = bpf_instruction_at sample_mem 0x1024"
    "bpf_instruction_at ?m 0x102c = bpf_instruction_at sample_mem 0x102c"
    using sample_slots_after by (simp_all add: sample_final_def)
  have "rbpf_run_loop 3 (start_state sample_mem sample_app 0x3000 0)
      = Some (Inr (RBPF_OK, sample_final))"
    unfolding sample_final_def sample_start
    by (simp add: rbpf_run_loop_numeral rbpf_run_loop_Suc rbpf_switch mem sample_slots sample_app_eq c_const bpf_opcodes)
  then show ?thesis
    using run_ctx_accepted [OF _ sample_preflight]
    by (simp add: sample_app_eq c_const read_result_def sample_final_def)
qed

section \<open>Isolation and termination\<close>

text \<open>
  C1: memory isolation.  Whatever program is run, with or without pre-flight verification, a byte of
  memory that no region of the application grants for writing keeps its value in every state the
  run passes through, after any number of instructions and whether or not the run returns, and in
  the final state of a run that returns; excepted is the fifteen byte window around \<open>0x80000000\<close>
  where the permission check wraps.  Nothing is stated about the effect of an instruction whose C
  code is undefined, as the write outside the register array of C8 or an access at an address that is
  not a multiple of its size: such an instruction has no successor state.
\<close>

theorem rbpf_memory_isolation:
  assumes ok: "\<forall>r \<in> set (region_chain (with_context rbpf ctx ctx_len)). region_ok r"
    and x: "\<not> granted (with_context rbpf ctx ctx_len) RBPF_MEM_REGION_WRITE x" "\<not> wrap_window x"
  shows "(\<forall>res vm. passes_through (start_state m rbpf ctx ctx_len) res vm \<longrightarrow> vm_mem vm x = m x)
    \<and> (\<forall>fuel res result vm. rbpf_application_run_ctx fuel m rbpf ctx ctx_len
          = Some (Inr (res, result, vm)) \<longrightarrow> vm_mem vm x = m x)"
proof -
  have "vm_mem vm x = m x" if "passes_through (start_state m rbpf ctx ctx_len) res vm" for res vm
    using passes_through_frame [OF that _ _ x(2)] ok x(1) by (simp add: start_chain)
  then show ?thesis using run_ctx_passes by metis
qed

lemma sample_with_context:
  "region_chain (with_context sample_app 0x3000 0) =
     [\<lparr>start = 0x2000, len = 512, region_flags = 3\<rparr>, \<lparr>start = 0x1054, len = 0, region_flags = 3\<rparr>,
      \<lparr>start = 0x1054, len = 0, region_flags = 1\<rparr>, \<lparr>start = 0x3000, len = 0, region_flags = 3\<rparr>]"
  by (simp add: region_chain_def with_context_def sample_app_eq rbpf_memory_region_init_def c_const)

theorem rbpf_memory_isolation_witness:
  "rbpf_application_run_ctx 3 sample_mem sample_app 0x3000 0
     = Some (Inr (RBPF_OK, Some 42, sample_final))
   \<and> vm_mem sample_final 0x21f9 = 0x30 \<and> vm_mem sample_final 0x101c = sample_mem 0x101c
   \<and> vm_mem (start_state sample_mem sample_app 0x3000 0) 0x101c = sample_mem 0x101c"
proof (intro conjI)
  show "rbpf_application_run_ctx 3 sample_mem sample_app 0x3000 0
     = Some (Inr (RBPF_OK, Some 42, sample_final))" by (rule sample_run)
  show "vm_mem sample_final 0x21f9 = 0x30"
    by (simp add: sample_final_def le_bytes_numeral)
  have "\<forall>r \<in> set (region_chain (with_context sample_app 0x3000 0)). region_ok r"
    "\<not> granted (with_context sample_app 0x3000 0) RBPF_MEM_REGION_WRITE 0x101c"
    "\<not> wrap_window 0x101c"
    by (simp_all add: sample_with_context region_ok_def granted_def in_region_def c_const
        wrap_window_def)
  note iso = rbpf_memory_isolation [OF this, of sample_mem]
  show "vm_mem sample_final 0x101c = sample_mem 0x101c" using iso sample_run by blast
  show "vm_mem (start_state sample_mem sample_app 0x3000 0) 0x101c = sample_mem 0x101c"
    using iso passes_through.at_start by blast
qed

text \<open>
  C2: a closed application returns.  If the application is set up, its regions end below
  \<open>0x80000000\<close>, its text is not writable and satisfies the format conditions the verifier leaves
  to the tool chain, then the pre-flight check ends and the entry point ends within
  \<open>10000 * (n + 1) + n + 1\<close> instructions for a text of \<open>n\<close> slots, and never indexes outside the
  register file.  It ends with a status, or at an instruction whose C code is undefined for
  its operands: a shift by the width or more, the negation of the least signed value, a 32-bit
  division by zero as in C12, or an access at an address that is not a multiple of its size.
\<close>

theorem rbpf_run_terminates:
  assumes "closed_application m rbpf ctx ctx_len"
    and "n = slots (rbpf_application_text_len m rbpf)"
    and "10000 * (n + 1) + n < fuel"
  shows "\<exists>out. rbpf_application_run_ctx fuel m rbpf ctx ctx_len = Some out \<and> out \<noteq> Inl RegmapIndex"
proof -
  have fl: "flags rbpf AND RBPF_FLAG_SETUP_DONE \<noteq> 0"
    using assms(1) by (auto simp: closed_application_def Let_def)
  have "text_below_2G (rbpf_application_text m rbpf) (rbpf_application_text_len m rbpf)"
    using assms(1) by (simp add: closed_application_def Let_def)
  then obtain res where res: "preflight_status m rbpf = Some res"
    using preflight_ends [OF refl refl] scan_below_2G by fastforce
  show ?thesis
  proof (cases "res = RBPF_OK")
    case False
    with run_ctx_rejected [OF fl res] show ?thesis by fastforce
  next
    case True
    note ok = res [unfolded True]
    note ins = start_inside [OF assms(1) ok refl refl]
    have "\<exists>out. rbpf_run_loop fuel (start_state m rbpf ctx ctx_len) = Some out \<and> out \<noteq> Inl RegmapIndex"
      using assms(2,3)
      by (intro preflight.run_terminates [OF ins start_protected [OF assms(1)]])
         (simp add: budget_def start_state_simps RBPF_BRANCHES_ALLOWED_def)
    then show ?thesis
      using run_ctx_accepted [OF fl ok]
      by (auto simp: read_result_def ebind_eq_Inl split: prod.splits)
  qed
qed

theorem rbpf_run_terminates_witness:
  "closed_application sample_mem sample_app 0x3000 0
   \<and> (\<exists>out. rbpf_application_run_ctx 40004 sample_mem sample_app 0x3000 0 = Some out
        \<and> out \<noteq> Inl RegmapIndex)"
  using sample_closed rbpf_run_terminates [OF sample_closed refl, of 40004]
  by (simp add: sample_text)

text \<open>
  C3: confidentiality of a closed application.  The application is one the pre-flight check accepts
  and that is closed in the sense of C2: its regions and its text lie below \<open>0x80000000\<close>, the text is
  not writable, the two slots of an \<open>LDDW\<close> are in the documented format and no jump continues past
  the last slot, conditions the check does not test.  Then two runs from memories that agree on the
  bytes it may access, its header and its text proceed in lock step: same status, same result, same
  registers, and final memories that agree on those bytes.
\<close>

theorem rbpf_run_noninterference:
  assumes cl: "closed_application m rbpf ctx ctx_len"
    and ok: "preflight_status m rbpf = Some RBPF_OK"
    and V: "V = visible (with_context rbpf ctx ctx_len) (rbpf_application_text m rbpf)
                  (rbpf_application_text_len m rbpf)"
    and ag: "agree V m m'"
  shows "rel_option (rel_sum (=) (rel_prod (=) (rel_prod (=) (alike V))))
           (rbpf_application_run_ctx fuel m rbpf ctx ctx_len)
           (rbpf_application_run_ctx fuel m' rbpf ctx ctx_len)"
proof -
  let ?s = "start_state m rbpf ctx ctx_len" and ?s' = "start_state m' rbpf ctx ctx_len"
  let ?b = "rbpf_application_text m rbpf" and ?n = "rbpf_application_text_len m rbpf"
  have fl: "flags rbpf AND RBPF_FLAG_SETUP_DONE \<noteq> 0" "flags rbpf AND RBPF_FLAG_PREFLIGHT_DONE = 0"
    using cl by (auto simp: closed_application_def Let_def)
  note ins = start_inside [OF cl ok refl refl]
  have V': "V = visible (vm_app ?s) ?b ?n"
    by (auto simp: V fun_eq_iff visible_def start_state_def Let_def)
  have start: "alike V ?s ?s'"
    using ag start_alike [OF ag [unfolded V]] by (simp add: V)
  have "rel_option (alike_result V) (rbpf_run_loop fuel ?s) (rbpf_run_loop fuel ?s')"
    unfolding V'
    by (rule preflight.run_alike [OF ins(1) start_protected [OF cl] ins(2) start [unfolded V']])
  moreover have "preflight_status m' rbpf = Some RBPF_OK"
    using preflight_agree [OF ag [unfolded V] refl refl] cl ok fl
    by (simp add: closed_application_def Let_def)
  ultimately show ?thesis
    by (simp add: run_ctx_accepted [OF fl(1) ok] run_ctx_accepted [OF fl(1)] option.rel_map read_result_rel option.rel_mono_strong)
qed

lemma sample_agree:
  "agree (visible (with_context sample_app 0x3000 0) 0x101c 24) sample_mem (sample_mem(0x5000 := 7))"
proof -
  have "\<not> visible (with_context sample_app 0x3000 0) 0x101c 24 0x5000"
    unfolding visible_def granted_def sample_with_context
    by (simp add: in_region_def wrap_window_def c_const sample_app_eq)
  then show ?thesis by (auto simp: agree_def)
qed

theorem rbpf_run_noninterference_witness:
  "\<exists>vm. rbpf_application_run_ctx 3 (sample_mem(0x5000 := 7)) sample_app 0x3000 0
     = Some (Inr (RBPF_OK, Some 42, vm)) \<and> vm_regmap vm = vm_regmap sample_final"
proof -
  have "rel_option (rel_sum (=) (rel_prod (=) (rel_prod (=)
          (alike (visible (with_context sample_app 0x3000 0) 0x101c 24)))))
          (Some (Inr (RBPF_OK, Some 42, sample_final)))
          (rbpf_application_run_ctx 3 (sample_mem(0x5000 := 7)) sample_app 0x3000 0)"
    using rbpf_run_noninterference [OF sample_closed sample_preflight refl, where fuel = 3] sample_agree
    by (simp add: sample_text sample_run)
  then show ?thesis
    by (auto simp: option_rel_Some1 alike_def elim!: rel_sum.cases)
qed

section \<open>The permission check\<close>






section \<open>The verifier against the interpreter\<close>

text \<open>
  C6: exactness of the pre-flight check.  For an application that is not marked as verified, whose
  text either ends more than eight bytes below the top of the address space or runs past it, the
  check ends.  It passes, and the application is then marked, exactly when its text length is a
  multiple of eight, every slot the scan looks at has valid registers, in-bounds jump offset and
  known call, and the last slot is a return unless the application is configured not to return.  In
  every other case the application object is unchanged and the status is negative.  When the text
  runs past the top of the address space the end pointer wraps below the first instruction and no
  slot is looked at: length and last opcode alone decide.
\<close>

theorem rbpf_preflight_exact:
  assumes fl: "flags rbpf AND RBPF_FLAG_PREFLIGHT_DONE = 0"
    and t: "base = rbpf_application_text m rbpf" "ln = rbpf_application_text_len m rbpf"
    and fit: "unat base + unat ln < 2 ^ 32 - 8 \<or> 2 ^ 32 \<le> unat base + unat ln"
  shows "\<exists>res rbpf'. rbpf_application_verify_preflight m rbpf = Some (res, rbpf') \<and>
    (if ln AND 7 = 0
        \<and> (unat base + unat ln < 2 ^ 32 \<longrightarrow>
             (\<forall>k. scanned m base k \<longrightarrow> 8 * k < unat ln \<longrightarrow> slot_accepted m base ln k))
        \<and> (opcode (bpf_instruction_at m (base + 8 * (ln div 8 - 1))) = BPF_INSTRUCTION_RETURN
           \<or> flags rbpf AND RBPF_CONFIG_NO_RETURN \<noteq> 0)
     then res = RBPF_OK \<and> rbpf' = rbpf\<lparr>flags := flags rbpf OR RBPF_FLAG_PREFLIGHT_DONE\<rparr>
     else res < 0 \<and> rbpf' = rbpf)"
proof -
  obtain res rbpf' where p: "rbpf_application_verify_preflight m rbpf = Some (res, rbpf')"
    using preflight_ends [OF t] fit by (auto simp: scan_in_range_def)
  have "verify_loop m base ln base = Some RBPF_OK \<longleftrightarrow> (unat base + unat ln < 2 ^ 32 \<longrightarrow>
      (\<forall>k. scanned m base k \<longrightarrow> 8 * k < unat ln \<longrightarrow> slot_accepted m base ln k))" if "ln AND 7 = 0"
    using fit
  proof
    assume "unat base + unat ln < 2 ^ 32 - 8"
    then show ?thesis
      using verify_loop_scan [OF _ that, of base m]
      by (simp add: scan_in_range_def flip: verify_slots_iff)
  next
    assume "2 ^ 32 \<le> unat base + unat ln"
    then show ?thesis using verify_loop_wrapped [of base ln m] by simp
  qed
  then have c: "res = RBPF_OK \<longleftrightarrow> ln AND 7 = 0
        \<and> (unat base + unat ln < 2 ^ 32 \<longrightarrow>
             (\<forall>k. scanned m base k \<longrightarrow> 8 * k < unat ln \<longrightarrow> slot_accepted m base ln k))
        \<and> (opcode (bpf_instruction_at m (base + 8 * (ln div 8 - 1))) = BPF_INSTRUCTION_RETURN
           \<or> flags rbpf AND RBPF_CONFIG_NO_RETURN \<noteq> 0)"
    using preflight_result [OF fl t] by (simp add: p) blast
  show ?thesis
    unfolding c [symmetric]
    using p preflight_sets_flag [of m rbpf] preflight_rejects [of m rbpf] preflight_negative [of m rbpf]
    by (auto simp: RBPF_OK_def)
qed

theorem rbpf_preflight_exact_witness:
  "preflight_status sample_mem sample_app = Some RBPF_OK \<and> slot_accepted sample_mem 0x101c 24 0"
proof -
  have "flags sample_app AND RBPF_FLAG_PREFLIGHT_DONE = 0"
    by (simp add: sample_app_eq c_const)
  from rbpf_preflight_exact [OF this sample_text [symmetric]] show ?thesis
    using sample_preflight from_refl [of sample_mem _ 0]
    by (auto simp: sample_text RBPF_OK_def split: if_splits)
qed

text \<open>
  C7: the jump check is off by one.  For a text below \<open>0x80000000\<close> the verifier accepts the offset
  of a branch in slot \<open>k\<close> exactly when the slot at which the interpreter continues, \<open>k + 1 + offset\<close>,
  is one of \<open>1, ..., n\<close> for a text of \<open>n\<close> slots: slot \<open>n\<close>, past the end, is accepted, and slot
  0 is not.
\<close>

theorem rbpf_jump_check_off_by_one:
  assumes b: "text_below_2G base ln" "ln AND 7 = 0" and k: "k < slots ln"
    and vm: "vm_instr vm = base + of_nat (8 * k)" "rbpf_jump i vm = Inr (res, vm')"
    and j: "j = int k + 1 + sint (offset i)"
  shows "(\<not> target_out_of_bounds base ln (jump_target (vm_instr vm) i) \<longleftrightarrow> 1 \<le> j \<and> j \<le> int (slots ln))
    \<and> vm_instr (advance vm') = base + word_of_int (8 * j)"
proof
  have ln: "int (8 * slots ln) = int (unat ln)"
    using and_7_dvd [OF b(2)] by (simp only: dvd_mult_div_cancel)
  show "\<not> target_out_of_bounds base ln (jump_target (vm_instr vm) i) \<longleftrightarrow> 1 \<le> j \<and> j \<le> int (slots ln)"
    using target_in_bounds_iff [OF b(1) slot_in_text [OF k], of i] ln by (auto simp: vm(1) j)
  have "vm_instr vm' = jump_target (base + of_nat (8 * k)) i"
    using vm by (auto simp: rbpf_jump_def return_code_def Let_def split: if_splits)
  then show "vm_instr (advance vm') = base + word_of_int (8 * j)"
    unfolding jump_target_word by (simp add: j algebra_simps)
qed

theorem rbpf_jump_check_off_by_one_witness:
  "let i = \<lparr>opcode = BPF_INSTRUCTION_JMP_ALWAYS, dst = 0, src = 0, offset = 0, immediate = 0\<rparr>;
       vm = sample_final\<lparr>vm_instr := 0x102c\<rparr>
   in \<not> target_out_of_bounds 0x101c 24 (jump_target (vm_instr vm) i)
      \<and> (\<exists>res vm'. rbpf_jump i vm = Inr (res, vm') \<and> vm_instr (advance vm') = 0x101c + 24)"
proof -
  let ?i = "\<lparr>opcode = BPF_INSTRUCTION_JMP_ALWAYS, dst = 0, src = 0, offset = 0, immediate = 0\<rparr>
    :: bpf_instruction_t"
  let ?vm = "sample_final\<lparr>vm_instr := 0x102c\<rparr>"
  obtain res vm' where j: "rbpf_jump ?i ?vm = Inr (res, vm')"
    using rbpf_jump_defined [of _ ?i ?vm] by (cases "rbpf_jump ?i ?vm") auto
  have "text_below_2G 0x101c 24" by (simp add: text_below_2G_def)
  from rbpf_jump_check_off_by_one [OF this _ _ _ j refl, of 2] j
  show ?thesis by (simp add: Let_def)
qed

definition gap_mem :: memory where
  "gap_mem = (\<lambda>_. 0)(0x1014 := 32,
     0x101c := 0x05, 0x101e := 1,
     0x1024 := 0x18,
     0x102c := 0xbf, 0x102d := 0x0f,
     0x1034 := 0x95)"

definition gap_app :: rbpf_application_t where
  "gap_app = rbpf_application_setup gap_mem zero_app 0x2000 0x1000 60"

lemma gap_app_flags: "flags gap_app = 1"
  by (simp add: gap_app_def rbpf_application_setup_def zero_app_def Let_def c_const)

lemma gap_text:
  "rbpf_application_text gap_mem gap_app = 0x101c" "rbpf_application_text_len gap_mem gap_app = 32"
  by (simp_all add: rbpf_layout bytes_at_numeral gap_mem_def gap_app_def rbpf_application_setup_def)

lemma gap_slots:
  "bpf_instruction_at gap_mem 0x101c = \<lparr>opcode = 0x05, dst = 0, src = 0, offset = 1, immediate = 0\<rparr>"
  "bpf_instruction_at gap_mem 0x1024 = \<lparr>opcode = 0x18, dst = 0, src = 0, offset = 0, immediate = 0\<rparr>"
  "bpf_instruction_at gap_mem 0x102c = \<lparr>opcode = 0xbf, dst = 15, src = 0, offset = 0, immediate = 0\<rparr>"
  "bpf_instruction_at gap_mem 0x1034 = \<lparr>opcode = 0x95, dst = 0, src = 0, offset = 0, immediate = 0\<rparr>"
  by (simp_all add: bpf_instruction_at_def gap_mem_def)

lemma gap_preflight: "preflight_status gap_mem gap_app = Some RBPF_OK"
proof -
  have "verify_loop gap_mem 0x101c 32 0x101c = Some RBPF_OK"
    by (simp add: verify_loop.simps gap_slots is_branch_class_def target_out_of_bounds_def
        jump_target_def c_const bpf_opcodes)
  then show ?thesis
    unfolding rbpf_application_verify_preflight_def Let_def gap_text
    by (simp add: gap_slots gap_app_flags c_const)
qed

text \<open>
  C8: the slot the verifier skips is reachable.  The four-slot text jumps over the first half of
  an \<open>LDDW\<close> into its second half, which names register 15; the pre-flight check accepts it and
  the interpreter writes outside its register array in the second step.
\<close>

theorem rbpf_verifier_gap:
  "preflight_status gap_mem gap_app = Some RBPF_OK
   \<and> rbpf_application_run_ctx 2 gap_mem gap_app 0x3000 0 = Some (Inl RegmapIndex)"
proof
  show "preflight_status gap_mem gap_app = Some RBPF_OK" by (rule gap_preflight)
  let ?s = "start_state gap_mem gap_app 0x3000 0"
  have s: "vm_instr ?s = 0x101c" "vm_mem ?s = gap_mem" "branches_remaining (vm_app ?s) = 10000"
    by (simp_all add: start_state_simps gap_text c_const)
  have "rbpf_instruction ?s = rbpf_jump (bpf_instruction_at gap_mem 0x101c) ?s"
    by (simp add: rbpf_switch s gap_slots bpf_opcodes)
  then obtain vm where step1: "rbpf_instruction ?s = Inr (RBPF_CONTINUE, vm)"
      and vm: "vm_instr vm = 0x1024" "vm_mem vm = gap_mem"
    by (auto simp: rbpf_jump_def Let_def return_code_def rbpf_over_max_jumps_def s gap_slots jump_target_def c_const)
  have "rbpf_instruction (advance vm) = Inl RegmapIndex"
    by (simp add: rbpf_switch vm gap_slots bpf_opcodes c_const)
  then have "rbpf_run_loop 2 ?s = Some (Inl RegmapIndex)"
    by (simp add: rbpf_run_loop_numeral rbpf_run_loop_Suc step1 c_const)
  then show "rbpf_application_run_ctx 2 gap_mem gap_app 0x3000 0 = Some (Inl RegmapIndex)"
    using run_ctx_accepted [OF _ gap_preflight] gap_app_flags
    by (simp add: read_result_def c_const)
qed

text \<open>
  C9: a rejected application is not run.  When the pre-flight check of a set-up application ends
  and does not succeed, the entry point returns its status at once, stores no result and leaves memory
  as it was.
\<close>

theorem rbpf_rejected_not_run:
  assumes "flags rbpf AND RBPF_FLAG_SETUP_DONE \<noteq> 0"
    and "preflight_status m rbpf = Some res" "res \<noteq> RBPF_OK"
  shows "\<exists>vm. rbpf_application_run_ctx fuel m rbpf ctx ctx_len = Some (Inr (res, None, vm))
    \<and> vm_mem vm = m"
  using run_ctx_rejected [OF assms] by blast

text \<open>The sample text with its last slot overwritten: no return instruction.\<close>

definition no_return_mem :: memory where
  "no_return_mem = sample_mem(0x102c := 0xb7)"

lemma no_return_preflight:
  "preflight_status no_return_mem sample_app = Some RBPF_NO_RETURN"
proof -
  have t: "rbpf_application_text no_return_mem sample_app = 0x101c"
    "rbpf_application_text_len no_return_mem sample_app = 24"
    by (simp_all add: rbpf_layout bytes_at_numeral sample_mem_def sample_app_eq no_return_mem_def)
  have sl: "bpf_instruction_at no_return_mem 0x101c = bpf_instruction_at sample_mem 0x101c"
    "bpf_instruction_at no_return_mem 0x1024 = bpf_instruction_at sample_mem 0x1024"
    "bpf_instruction_at no_return_mem 0x102c =
       \<lparr>opcode = 0xb7, dst = 0, src = 0, offset = 0, immediate = 0\<rparr>"
    by (simp_all add: bpf_instruction_at_def sample_mem_def no_return_mem_def)
  have "verify_loop no_return_mem 0x101c 24 0x101c = Some RBPF_OK"
    by (simp add: verify_loop.simps sl sample_slots is_branch_class_def c_const bpf_opcodes)
  then show ?thesis
    unfolding rbpf_application_verify_preflight_def Let_def t
    by (simp add: sl sample_app_eq c_const)
qed

theorem rbpf_rejected_not_run_witness:
  "\<exists>vm. rbpf_application_run_ctx 1 no_return_mem sample_app 0 0 = Some (Inr (RBPF_NO_RETURN, None, vm))
      \<and> vm_mem vm = no_return_mem"
  using rbpf_rejected_not_run [OF _ no_return_preflight, of 1 0 0]
  by (simp add: sample_app_eq c_const)

section \<open>Instructions\<close>

lemma lddw_halves:
  "(scast lo OR push_bit 32 (scast hi) :: u64) = ucast (lo :: u32) OR push_bit 32 (ucast (hi :: u32))
   \<longleftrightarrow> \<not> bit lo 31 \<or> hi = - 1"
proof
  assume eq: "(scast lo OR push_bit 32 (scast hi) :: u64) = ucast lo OR push_bit 32 (ucast hi)"
  show "\<not> bit lo 31 \<or> hi = - 1"
  proof (rule disjCI)
    assume "hi \<noteq> - 1"
    then obtain n where n: "n < 32" "\<not> bit hi n"
      using bit_word_eqI [of hi "- 1"] by auto
    from eq have "bit (scast lo OR push_bit 32 (scast hi) :: u64) (n + 32)
        = bit (ucast lo OR push_bit 32 (ucast hi) :: u64) (n + 32)" by simp
    moreover have "\<not> bit lo (n + 32)"
      using bit_imp_le_length [of lo "n + 32"] by auto
    ultimately show "\<not> bit lo 31"
      using n by (simp add: bit_simps min_def)
  qed
next
  assume a: "\<not> bit lo 31 \<or> hi = - 1"
  show "(scast lo OR push_bit 32 (scast hi) :: u64) = ucast lo OR push_bit 32 (ucast hi)"
  proof (rule bit_word_eqI)
    fix n assume n: "n < LENGTH(64)"
    then have m: "min 31 (n - 32) = n - 32" by simp
    have h: "\<not> bit lo n" if "32 \<le> n"
      using that bit_imp_le_length [of lo n] by auto
    show "bit (scast lo OR push_bit 32 (scast hi) :: u64) n
        = bit (ucast lo OR push_bit 32 (ucast hi) :: u64) n"
    proof (cases "n < 32")
      case True
      then have "min 31 n = n" by simp
      with True n show ?thesis by (simp add: bit_simps)
    next
      case False
      then have "min 31 n = 31" by simp
      with False n a h m show ?thesis by (auto simp: bit_simps)
    qed
  qed
qed

text \<open>
  C10: store and load round trip.  A register stored by \<open>STX\<close> and loaded back by \<open>LDX\<close> of the same
  size from the same address, with both accesses permitted, is the stored register truncated to
  the access size.
\<close>

theorem rbpf_store_load_roundtrip:
  assumes n: "n \<in> {1, 2, 4, 8}" and ops: "stx \<noteq> ldx" "st \<noteq> ldx"
    and i: "opcode i = stx" and s1: "MEM stx st ldx n i vm = Some (Inr (RBPF_CONTINUE, vm1))"
    and j: "opcode j = ldx" and s2: "MEM stx st ldx n j vm1 = Some (Inr (RBPF_CONTINUE, vm2))"
    and addr: "mem_addr (vm_regmap vm ! unat (src j)) j = mem_addr (vm_regmap vm ! unat (dst i)) i"
    and regs: "length (vm_regmap vm) = 11"
  shows "vm_regmap vm2 ! unat (dst j) = take_bit (8 * n) (vm_regmap vm ! unat (src i))"
proof -
  let ?a = "mem_addr (vm_regmap vm ! unat (dst i)) i" and ?v = "vm_regmap vm ! unat (src i)"
  have codes: "RBPF_ILLEGAL_MEM \<noteq> RBPF_CONTINUE" by (simp add: c_const)
  have vm1: "vm1 = vm\<lparr>vm_mem := store_bytes (vm_mem vm) ?a (le_bytes n ?v)\<rparr>"
    using s1 i codes
    by (auto simp: MEM_def DST_def SRC_def regmap_get_def return_code_def split: if_splits)
  have "vm2 = vm1\<lparr>vm_regmap := (vm_regmap vm1)[unat (dst j) := le_word (bytes_at (vm_mem vm1) ?a n)]\<rparr>"
    and "unat (dst j) < 11"
    using s2 j codes ops addr
    by (auto simp: MEM_def SRC_def regmap_get_def regmap_set_def return_code_def assign_dst_def vm1
        split: if_splits)
  moreover have "bytes_at (vm_mem vm1) ?a n = le_bytes n ?v"
    using bytes_at_store [of "le_bytes n ?v" "vm_mem vm" ?a] n by (auto simp: vm1)
  ultimately show ?thesis
    using regs by (simp add: vm1 le_word_le_bytes)
qed

text \<open>A store of register 0 to the stack and the load that reads it back into register 2.\<close>

definition sample_regs :: vm_state where
  "sample_regs = sample_final\<lparr>vm_regmap := [0x12345, 0, 0, 0, 0, 0, 0, 0, 0, 0, 0x2200]\<rparr>"

theorem rbpf_store_load_roundtrip_witness:
  "\<exists>vm1 vm2.
     MEM BPF_INSTRUCTION_MEM_STXH BPF_INSTRUCTION_MEM_STH BPF_INSTRUCTION_MEM_LDXH 2
       \<lparr>opcode = BPF_INSTRUCTION_MEM_STXH, dst = 10, src = 0, offset = 0xfff8, immediate = 0\<rparr>
       sample_regs = Some (Inr (RBPF_CONTINUE, vm1))
   \<and> MEM BPF_INSTRUCTION_MEM_STXH BPF_INSTRUCTION_MEM_STH BPF_INSTRUCTION_MEM_LDXH 2
       \<lparr>opcode = BPF_INSTRUCTION_MEM_LDXH, dst = 2, src = 10, offset = 0xfff8, immediate = 0\<rparr>
       vm1 = Some (Inr (RBPF_CONTINUE, vm2))
   \<and> vm_regmap vm2 ! 2 = 0x2345"
proof -
  let ?i = "\<lparr>opcode = BPF_INSTRUCTION_MEM_STXH, dst = 10, src = 0, offset = 0xfff8, immediate = 0\<rparr>
    :: bpf_instruction_t"
  let ?j = "\<lparr>opcode = BPF_INSTRUCTION_MEM_LDXH, dst = 2, src = 10, offset = 0xfff8, immediate = 0\<rparr>
    :: bpf_instruction_t"
  let ?M = "MEM BPF_INSTRUCTION_MEM_STXH BPF_INSTRUCTION_MEM_STH BPF_INSTRUCTION_MEM_LDXH 2"
  have app: "vm_app sample_regs = sample_app\<lparr>arg_region := \<lparr>start = 0x3000, len = 0, region_flags = 3\<rparr>,
      branches_remaining := 10000, flags := 3\<rparr>"
    by (simp add: sample_regs_def sample_final_def sample_start)
  have regs: "vm_regmap sample_regs = [0x12345, 0, 0, 0, 0, 0, 0, 0, 0, 0, 0x2200]"
    by (simp add: sample_regs_def)
  obtain vm1 where s1: "?M ?i sample_regs = Some (Inr (RBPF_CONTINUE, vm1))"
    and vm1: "vm_app vm1 = vm_app sample_regs" "vm_regmap vm1 = vm_regmap sample_regs"
    by (simp add: rbpf_switch app regs sample_app_eq bpf_opcodes c_const)
  obtain vm2 where s2: "?M ?j vm1 = Some (Inr (RBPF_CONTINUE, vm2))"
    by (simp add: rbpf_switch vm1 app regs sample_app_eq bpf_opcodes c_const)
  have "vm_regmap vm2 ! unat (dst ?j) = take_bit (8 * 2) (vm_regmap sample_regs ! unat (src ?i))"
    by (rule rbpf_store_load_roundtrip [OF _ _ _ _ s1 _ s2])
       (simp_all add: bpf_opcodes mem_addr_def regs)
  then have "vm_regmap vm2 ! 2 = 0x2345" by (simp add: regs)
  with s1 s2 show ?thesis by blast
qed

text \<open>
  C11: what \<open>LDDW\<close> loads.  The instruction is documented to load the 64-bit constant whose halves
  are the two immediates.  It does so exactly when the low half is not negative or the high half
  has all bits set: the low half is sign extended before the high half is merged in.
\<close>

theorem rbpf_lddw_value:
  assumes op: "opcode i = BPF_INSTRUCTION_MEM_LDDW" and d: "unat (dst i) < 11"
    and regs: "length (vm_regmap vm) = 11"
    and lo: "lo = immediate i" and hi: "hi = immediate (bpf_instruction_at (vm_mem vm) (vm_instr vm + 8))"
  shows "\<exists>vm'. MEM_LDDW i vm = Some (Inr (RBPF_CONTINUE, vm')) \<and> vm_instr vm' = vm_instr vm + 8
    \<and> (vm_regmap vm' ! unat (dst i) = ucast lo OR push_bit 32 (ucast hi)
       \<longleftrightarrow> \<not> bit lo 31 \<or> hi = - 1)"
proof -
  let ?v = "scast lo OR push_bit 32 (scast hi) :: u64"
  have "MEM_LDDW i vm = Some (Inr (RBPF_CONTINUE,
      vm\<lparr>vm_regmap := (vm_regmap vm)[unat (dst i) := ?v], vm_instr := vm_instr vm + 8\<rparr>))"
    using op d
    by (simp add: MEM_LDDW_def assign_dst_skip_def regmap_set_def IMM64_def next_IMM64_def lo hi
        sizeof_bpf_instruction_t_def)
  moreover have "?v = ucast lo OR push_bit 32 (ucast hi) \<longleftrightarrow> \<not> bit lo 31 \<or> hi = - 1"
    by (rule lddw_halves)
  ultimately show ?thesis using d regs by simp
qed

theorem rbpf_lddw_value_witness:
  "let i = \<lparr>opcode = BPF_INSTRUCTION_MEM_LDDW, dst = 0, src = 0, offset = 0, immediate = 0x80000000\<rparr>;
       vm = sample_final\<lparr>vm_mem := (\<lambda>_. 0)(0x100c := 1), vm_instr := 0x1000\<rparr>
   in \<exists>vm'. MEM_LDDW i vm = Some (Inr (RBPF_CONTINUE, vm')) \<and> vm_regmap vm' ! 0 \<noteq> 0x180000000"
proof -
  let ?i = "\<lparr>opcode = BPF_INSTRUCTION_MEM_LDDW, dst = 0, src = 0, offset = 0, immediate = 0x80000000\<rparr>
    :: bpf_instruction_t"
  let ?vm = "sample_final\<lparr>vm_mem := (\<lambda>_. 0)(0x100c := 1), vm_instr := 0x1000\<rparr>"
  have hi: "immediate (bpf_instruction_at (vm_mem ?vm) (vm_instr ?vm + 8)) = 1"
    by (simp add: bpf_instruction_at_def)
  have "length (vm_regmap ?vm) = 11" by (simp add: sample_final_def)
  then obtain vm' where "MEM_LDDW ?i ?vm = Some (Inr (RBPF_CONTINUE, vm'))"
    "vm_regmap vm' ! 0 = ucast (0x80000000 :: u32) OR push_bit 32 (ucast (1 :: u32))
       \<longleftrightarrow> \<not> bit (0x80000000 :: u32) 31 \<or> (1 :: u32) = - 1"
    using rbpf_lddw_value [of ?i ?vm, OF _ _ _ refl hi [symmetric]] by auto
  then show ?thesis by (auto simp: Let_def)
qed

text \<open>
  C12: division by a register in the 32-bit class.  The status is \<open>RBPF_ILLEGAL_DIV\<close> only for a
  source register that is zero in all 64 bits; a source whose low half alone is zero reaches the
  32-bit division and divides by zero, and otherwise the zero extended quotient is stored.
\<close>

theorem rbpf_div32_reg:
  assumes i: "i = bpf_instruction_at (vm_mem vm) (vm_instr vm)"
    and op: "opcode i = BPF_INSTRUCTION_ALU32_DIV_REG"
    and regs: "unat (dst i) < 11" "unat (src i) < 11"
    and s: "s = vm_regmap vm ! unat (src i)" and d: "d = vm_regmap vm ! unat (dst i)"
  shows "rbpf_instruction vm =
    (if s = 0 then Inr (RBPF_ILLEGAL_DIV, vm)
     else if (ucast s :: u32) = 0 then Inl DivideByZero
     else Inr (RBPF_CONTINUE, vm\<lparr>vm_regmap :=
            (vm_regmap vm)[unat (dst i) := ucast (ucast d div ucast s :: u32)]\<rparr>))"
  using op regs unfolding rbpf_instruction_def Let_def i [symmetric]
  by (simp add: rbpf_cases_def ALU_def ALU_DIV_def bpf_opcodes SRC_def DST_def regmap_get_def
      return_code_def div_u32_def assign_dst_def regmap_set_def s d)

theorem rbpf_div32_reg_witness:
  "rbpf_instruction (sample_final\<lparr>vm_mem := (\<lambda>_. 0)(0x1000 := 0x3c, 0x1001 := 0x10), vm_instr := 0x1000,
       vm_regmap := [7, 0x100000000, 0, 0, 0, 0, 0, 0, 0, 0, 0]\<rparr>) = Inl DivideByZero"
proof -
  let ?vm = "sample_final\<lparr>vm_mem := (\<lambda>_. 0)(0x1000 := 0x3c, 0x1001 := 0x10), vm_instr := 0x1000,
       vm_regmap := [7, 0x100000000, 0, 0, 0, 0, 0, 0, 0, 0, 0]\<rparr>"
  have i: "bpf_instruction_at (vm_mem ?vm) (vm_instr ?vm) =
      \<lparr>opcode = 0x3c, dst = 0, src = 1, offset = 0, immediate = 0\<rparr>"
    by (simp add: bpf_instruction_at_def)
  show ?thesis
    using rbpf_div32_reg [OF i [symmetric] _ _ _ refl refl] by (simp add: bpf_opcodes)
qed

section \<open>Layout\<close>

text \<open>
  C13: the data region covers the text.  The header accessors place the data \<open>84\<close> bytes into the
  application (the size of the application object) and the text after the data and the read-only
  data counted from byte \<open>28\<close> (the size of the header).  So with at least 56 bytes of data and
  fewer than 56 bytes of read-only data the set-up makes the first byte of the text, the opcode of
  its first instruction, writable.
\<close>

theorem rbpf_setup_grants_text:
  assumes h: "d = header_data_len m app" "r = header_rodata_len m app"
    and b: "56 \<le> unat d" "unat r < 56" "unat d + unat r < 2 ^ 32"
  shows "granted (rbpf_application_setup m rbpf stk app n) RBPF_MEM_REGION_WRITE
           (rbpf_application_text m (rbpf_application_setup m rbpf stk app n))"
proof -
  let ?a = "rbpf_application_setup m rbpf stk app n"
  have a: "start (data_region ?a) = app + 84" "len (data_region ?a) = d"
    "region_flags (data_region ?a) = 3" "rbpf_application_text m ?a = app + 28 + d + r"
    by (simp_all add: rbpf_application_setup_def Let_def rbpf_memory_region_init_def h c_const
        rbpf_application_data_def rbpf_application_data_len_def rbpf_application_text_def rbpf_header_def)
  have "unat (d + r) = unat d + unat r" using b by (intro unat_add_lem [THEN iffD1]) simp
  then have "unat (d + r - 56) = unat d + unat r - 56"
    using b by (subst unat_sub) (simp_all add: word_le_nat_alt)
  then have "in_region (data_region ?a) (rbpf_application_text m ?a)"
    using b by (simp add: in_region_def a algebra_simps)
  then show ?thesis
    by (auto simp: granted_def region_chain_def a c_const)
qed

theorem rbpf_setup_grants_text_witness:
  "granted (rbpf_application_setup ((\<lambda>_. 0)(0x100c := 64, 0x1014 := 8)) zero_app 0x2000 0x1000 100)
     RBPF_MEM_REGION_WRITE (0x1000 + 28 + 64)"
proof -
  let ?m = "(\<lambda>_. 0)(0x100c := 64, 0x1014 := 8) :: memory"
  have h: "header_data_len ?m 0x1000 = 64" "header_rodata_len ?m 0x1000 = 0"
    by (simp_all add: header_data_len_def header_rodata_len_def load32_def bytes_at_numeral)
  have "rbpf_application_text ?m (rbpf_application_setup ?m zero_app 0x2000 0x1000 100) = 0x1000 + 28 + 64"
    by (simp add: rbpf_application_text_def rbpf_application_setup_def Let_def rbpf_header_def h c_const)
  then show ?thesis
    using rbpf_setup_grants_text [OF h(1) [symmetric] h(2) [symmetric], of zero_app "0x2000" 100]
    by simp
qed

end
