(* ===== verification/Fletcher32.thy ===== *)
theory Fletcher32
  imports PRR_Prelude
begin

text \<open>
  The checksum program \<open>08-fletcher32/fletcher32.c\<close> that is compiled to rBPF.  The sums are 32-bit
  words that are folded to 16 bits after at most 359 data words; the theorem shows that this
  bound is small enough for the additions never to wrap, and that the result is the Fletcher
  checksum modulo 65535.
\<close>

section \<open>The program\<close>

record fletcher32_ctx_t =
  data :: u32
  words :: u32

definition unaligned_get_u16 :: "memory \<Rightarrow> u32 \<Rightarrow> u16" where
  "unaligned_get_u16 m ptr = le_word (bytes_at m ptr 2)"

text \<open>
  The inner \<open>do ... while (--tlen)\<close>, for \<open>tlen > 0\<close>: the result is the advanced data pointer and
  the two sums.
\<close>

fun fletcher32_inner :: "memory \<Rightarrow> nat \<Rightarrow> u32 \<Rightarrow> u32 \<Rightarrow> u32 \<Rightarrow> u32 \<times> u32 \<times> u32" where
  "fletcher32_inner m 0 dat sum1 sum2 = (dat, sum1, sum2)"
| "fletcher32_inner m (Suc tlen) dat sum1 sum2 =
     (let sum1' = sum1 + ucast (unaligned_get_u16 m dat);
          sum2' = sum2 + sum1'
      in fletcher32_inner m tlen (dat + 2) sum1' sum2')"

definition fold16 :: "u32 \<Rightarrow> u32" where
  "fold16 s = (s AND 0xffff) + drop_bit 16 s"

definition block_len :: "u32 \<Rightarrow> u32" where
  "block_len ws = (if ws > 359 then 359 else ws)"

lemma block_len_bounds:
  "ws \<noteq> 0 \<Longrightarrow> 0 < unat (block_len ws) \<and> unat (block_len ws) \<le> unat ws \<and> unat (block_len ws) \<le> 359"
  by (auto simp: block_len_def word_less_nat_alt word_not_simps unat_gt_0)

function fletcher32_loop :: "memory \<Rightarrow> u32 \<Rightarrow> u32 \<Rightarrow> u32 \<Rightarrow> u32 \<Rightarrow> u32 \<times> u32" where
  "fletcher32_loop m ws dat sum1 sum2 =
     (if ws = 0 then (sum1, sum2)
      else let tlen = block_len ws;
               (dat', s1, s2) = fletcher32_inner m (unat tlen) dat sum1 sum2
           in fletcher32_loop m (ws - tlen) dat' (fold16 s1) (fold16 s2))"
  by pat_completeness auto
termination
proof (relation "measure (\<lambda>(m, ws, dat, sum1, sum2). unat ws)")
  fix m ws dat sum1 sum2 tlen x dat' y s1 s2
  assume "(ws :: u32) \<noteq> 0" "tlen = block_len ws"
  then show "((m, ws - tlen, dat', fold16 s1, fold16 s2), (m, ws, dat, sum1, sum2))
    \<in> measure (\<lambda>(m, ws, dat, sum1, sum2). unat ws)"
    using block_len_bounds [of ws] by (simp add: unat_sub word_le_nat_alt)
qed simp

declare fletcher32_loop.simps [simp del]

definition fletcher32 :: "memory \<Rightarrow> fletcher32_ctx_t \<Rightarrow> u32" where
  "fletcher32 m ctx =
     (let (sum1, sum2) = fletcher32_loop m (words ctx) (data ctx) 0xffff 0xffff;
          sum1' = fold16 sum1;
          sum2' = fold16 sum2
      in push_bit 16 sum2' OR sum1')"

section \<open>The checksum\<close>

text \<open>The data words, the plain sum and the sum in which the first of \<open>n\<close> words counts \<open>n\<close> times.\<close>

fun data_words :: "memory \<Rightarrow> u32 \<Rightarrow> nat \<Rightarrow> nat list" where
  "data_words m dat 0 = []"
| "data_words m dat (Suc n) = unat (unaligned_get_u16 m dat) # data_words m (dat + 2) n"

fun weighted_sum :: "nat list \<Rightarrow> nat" where
  "weighted_sum [] = 0"
| "weighted_sum (w # ws) = (length ws + 1) * w + weighted_sum ws"

text \<open>Sums are kept modulo 65535 with representatives \<open>1, ..., 65535\<close>.\<close>

definition ones_complement :: "nat \<Rightarrow> nat" where
  "ones_complement x = (if x mod 65535 = 0 then 65535 else x mod 65535)"

definition fletcher_spec :: "nat list \<Rightarrow> nat" where
  "fletcher_spec ws = 65536 * ones_complement (weighted_sum ws) + ones_complement (sum_list ws)"

lemma length_data_words [simp]: "length (data_words m dat n) = n"
  by (induction n arbitrary: dat) auto

lemma data_words_add:
  "data_words m dat (n + k) = data_words m dat n @ data_words m (dat + of_nat (2 * n)) k"
  by (induction n arbitrary: dat) (auto simp: algebra_simps)

lemma weighted_sum_append:
  "weighted_sum (xs @ ys) = weighted_sum xs + length ys * sum_list xs + weighted_sum ys"
  by (induction xs) (auto simp: algebra_simps)

lemma unat_u16_less: "unat (w :: u16) < 65536"
  using unsigned_less [of w] by simp

lemma data_words_bounds:
  "sum_list (data_words m dat n) \<le> 65535 * n"
  "2 * weighted_sum (data_words m dat n) \<le> 65535 * (n * (n + 1))"
proof (induction n arbitrary: dat)
  case (Suc n)
  have w: "unat (unaligned_get_u16 m a) \<le> 65535" for a
    using unat_u16_less [of "unaligned_get_u16 m a"] by simp
  { case 1 then show ?case using Suc(1) [of "dat + 2"] w [of dat] by simp }
  { case 2
    have "2 * ((n + 1) * unat (unaligned_get_u16 m dat)) \<le> 2 * ((n + 1) * 65535)"
      using w by (intro mult_le_mono) simp_all
    then show ?case using Suc(2) [of "dat + 2"] by (simp add: algebra_simps) }
qed simp_all

text \<open>While the exact sums fit in 32 bits the inner loop computes them.\<close>

lemma fletcher32_inner_exact:
  assumes "unat sum1 + sum_list (data_words m dat n) < 2 ^ 32"
    and "unat sum2 + n * unat sum1 + weighted_sum (data_words m dat n) < 2 ^ 32"
  shows "\<exists>s1 s2. fletcher32_inner m n dat sum1 sum2 = (dat + of_nat (2 * n), s1, s2)
    \<and> unat s1 = unat sum1 + sum_list (data_words m dat n)
    \<and> unat s2 = unat sum2 + n * unat sum1 + weighted_sum (data_words m dat n)"
  using assms
proof (induction n arbitrary: dat sum1 sum2)
  case 0
  then show ?case by simp
next
  case (Suc n)
  let ?w = "unaligned_get_u16 m dat"
  have w: "unat (ucast ?w :: u32) = unat ?w" 
    using unat_u16_less [of ?w] by (simp add: unsigned_ucast_eq take_bit_nat_eq_self)
  have 1: "unat (sum1 + ucast ?w) = unat sum1 + unat ?w"
    using Suc.prems(1) w by (subst unat_add_u32) simp_all
  have 2: "unat (sum2 + (sum1 + ucast ?w)) = unat sum2 + unat sum1 + unat ?w"
    using Suc.prems(2) 1 by (subst unat_add_u32) simp_all
  have "\<exists>s1 s2. fletcher32_inner m n (dat + 2) (sum1 + ucast ?w) (sum2 + (sum1 + ucast ?w))
      = (dat + 2 + of_nat (2 * n), s1, s2)
    \<and> unat s1 = unat (sum1 + ucast ?w) + sum_list (data_words m (dat + 2) n)
    \<and> unat s2 = unat (sum2 + (sum1 + ucast ?w)) + n * unat (sum1 + ucast ?w)
        + weighted_sum (data_words m (dat + 2) n)"
    using Suc.prems 1 2 by (intro Suc.IH) (simp_all add: algebra_simps)
  then obtain s1 s2 where "fletcher32_inner m (Suc n) dat sum1 sum2 = (dat + 2 + of_nat (2 * n), s1, s2)"
    "unat s1 = unat sum1 + unat ?w + sum_list (data_words m (dat + 2) n)"
    "unat s2 = unat sum2 + unat sum1 + unat ?w + n * (unat sum1 + unat ?w)
       + weighted_sum (data_words m (dat + 2) n)"
    by (auto simp: 1 2 Let_def)
  then show ?case by (auto simp: algebra_simps)
qed

lemma unat_fold16: "unat (fold16 s) = unat s mod 65536 + unat s div 65536"
proof -
  have "s AND 0xffff = take_bit 16 s" by (simp add: take_bit_eq_mask mask_eq_exp_minus_1)
  then have "unat (s AND 0xffff) = unat s mod 65536"
    by (simp add: take_bit_eq_mod unat_mod)
  moreover have "unat (drop_bit 16 s) = unat s div 65536"
    by (simp add: drop_bit_eq_div unat_div)
  moreover have "unat s div 65536 < 65536" using unat_u32_less [of s] by simp
  ultimately show ?thesis unfolding fold16_def by (subst unat_add_u32) simp_all
qed

lemma fold_nat:
  fixes n :: nat
  defines "f \<equiv> n mod 65536 + n div 65536"
  shows "f mod 65535 = n mod 65535" "0 < n \<Longrightarrow> 0 < f" "n \<le> 131070 \<Longrightarrow> f \<le> 65535"
    "n < 2 ^ 32 \<Longrightarrow> f \<le> 131070"
proof -
  define q r where "q = n div 65536" and "r = n mod 65536"
  have n: "n = 65536 * q + r" "r < 65536" by (simp_all add: q_def r_def)
  have f: "f = r + q" by (simp add: f_def q_def r_def)
  have "n = f + 65535 * q" using n f by simp
  then show "f mod 65535 = n mod 65535" by simp
  show "0 < n \<Longrightarrow> 0 < f" "n \<le> 131070 \<Longrightarrow> f \<le> 65535" "n < 2 ^ 32 \<Longrightarrow> f \<le> 131070"
    using n f by auto
qed

lemma fold16_props:
  shows "unat (fold16 s) mod 65535 = unat s mod 65535"
    and "unat (fold16 s) \<le> 131070"
    and "0 < unat s \<Longrightarrow> 0 < unat (fold16 s)"
    and "unat s \<le> 131070 \<Longrightarrow> unat (fold16 s) \<le> 65535"
  unfolding unat_fold16 using fold_nat [of "unat s"] unat_u32_less [of s] by simp_all

definition sum_ok :: "u32 \<Rightarrow> bool" where
  "sum_ok s \<longleftrightarrow> 0 < unat s \<and> unat s \<le> 131070"


lemma fold16_ok: "0 < unat s \<Longrightarrow> sum_ok (fold16 s)"
  using fold16_props [of s] by (simp add: sum_ok_def)

text \<open>From folded sums, a block of at most 359 words does not wrap.\<close>

lemma block_exact:
  assumes "sum_ok sum1" "sum_ok sum2" "n \<le> 359"
  shows "\<exists>s1 s2. fletcher32_inner m n dat sum1 sum2 = (dat + of_nat (2 * n), s1, s2)
    \<and> unat s1 = unat sum1 + sum_list (data_words m dat n)
    \<and> unat s2 = unat sum2 + n * unat sum1 + weighted_sum (data_words m dat n)"
proof (rule fletcher32_inner_exact)
  have b: "unat sum1 \<le> 131070" "unat sum2 \<le> 131070"
    using assms by (simp_all add: sum_ok_def)
  show "unat sum1 + sum_list (data_words m dat n) < 2 ^ 32"
    using b(1) data_words_bounds(1) [of m dat n] assms(3) by simp
  have "n * (n + 1) \<le> 359 * 360" using assms(3) by (intro mult_le_mono) simp_all
  moreover have "n * unat sum1 \<le> 359 * 131070"
    using assms(3) b(1) by (intro mult_le_mono) simp_all
  ultimately show "unat sum2 + n * unat sum1 + weighted_sum (data_words m dat n) < 2 ^ 32"
    using b(2) data_words_bounds(2) [of m dat n] by simp
qed

lemma fletcher32_loop_correct:
  assumes "sum_ok sum1" "sum_ok sum2"
  shows "\<exists>t1 t2. fletcher32_loop m ws dat sum1 sum2 = (t1, t2) \<and> sum_ok t1 \<and> sum_ok t2
    \<and> unat t1 mod 65535 = (unat sum1 + sum_list (data_words m dat (unat ws))) mod 65535
    \<and> unat t2 mod 65535 = (unat sum2 + unat ws * unat sum1
         + weighted_sum (data_words m dat (unat ws))) mod 65535"
  using assms
proof (induction m ws dat sum1 sum2 rule: fletcher32_loop.induct)
  case (1 m ws dat sum1 sum2)
  show ?case
  proof (cases "ws = 0")
    case True
    with 1(2,3) show ?thesis by (simp add: fletcher32_loop.simps)
  next
    case False
    define n k where "n = unat (block_len ws)" and "k = unat (ws - block_len ws)"
    have bl: "block_len ws \<le> ws" "n \<le> 359"
      using block_len_bounds [OF False] by (simp_all add: word_le_nat_alt n_def)
    then have nk: "unat ws = n + k" by (simp add: n_def k_def unat_sub word_le_nat_alt)
    let ?xs = "data_words m dat n" and ?ys = "data_words m (dat + of_nat (2 * n)) k"
    obtain s1 s2 where blk: "fletcher32_inner m n dat sum1 sum2 = (dat + of_nat (2 * n), s1, s2)"
      "unat s1 = unat sum1 + sum_list ?xs" "unat s2 = unat sum2 + n * unat sum1 + weighted_sum ?xs"
      using block_exact [OF 1(2,3) bl(2)] by blast
    have "0 < unat s1" "0 < unat s2" using blk 1(2,3) by (simp_all add: sum_ok_def)
    note ok = this [THEN fold16_ok]
    have "\<exists>t1 t2. fletcher32_loop m (ws - block_len ws) (dat + of_nat (2 * n)) (fold16 s1) (fold16 s2)
          = (t1, t2) \<and> sum_ok t1 \<and> sum_ok t2
        \<and> unat t1 mod 65535 = (unat (fold16 s1) + sum_list ?ys) mod 65535
        \<and> unat t2 mod 65535 = (unat (fold16 s2) + k * unat (fold16 s1) + weighted_sum ?ys) mod 65535"
      unfolding k_def by (rule 1(1) [OF False refl refl _ _ ok]) (simp_all add: blk n_def [symmetric])
    then obtain t1 t2 where t: "fletcher32_loop m ws dat sum1 sum2 = (t1, t2)" "sum_ok t1" "sum_ok t2"
        "unat t1 mod 65535 = (unat (fold16 s1) + sum_list ?ys) mod 65535"
        "unat t2 mod 65535 = (unat (fold16 s2) + k * unat (fold16 s1) + weighted_sum ?ys) mod 65535"
      using False blk(1) by (subst (asm) (2) eq_commute)
        (auto simp: fletcher32_loop.simps [of m ws] n_def [symmetric])
    have "unat t1 mod 65535 = (unat s1 + sum_list ?ys) mod 65535"
      unfolding t(4) using fold16_props(1) by (rule mod_add_cong) simp
    moreover have "unat t2 mod 65535 = (unat s2 + k * unat s1 + weighted_sum ?ys) mod 65535"
      unfolding t(5) using fold16_props(1) by (intro mod_add_cong mod_mult_cong) simp_all
    moreover have "data_words m dat (unat ws) = ?xs @ ?ys" by (simp add: nk data_words_add)
    ultimately show ?thesis
      using t(1-3) by (simp add: blk nk weighted_sum_append algebra_simps)
  qed
qed

lemma join16:
  assumes "unat (a :: u32) \<le> 65535" "unat (b :: u32) \<le> 65535"
  shows "unat (push_bit 16 a OR b) = 65536 * unat a + unat b"
proof -
  have "\<not> bit b n" if "16 \<le> n" for n
  proof -
    have "unat (take_bit 16 b) = unat b"
      using assms(2) by (simp only: unsigned_take_bit_eq) (simp add: take_bit_nat_eq_self)
    then have "take_bit 16 b = b" by (simp only: unsigned_word_eqI)
    then show ?thesis using that by (metis bit_take_bit_iff not_le)
  qed
  then have "push_bit 16 a AND b = 0" by (intro bit_word_eqI) (auto simp: bit_simps)
  then have "push_bit 16 a OR b = push_bit 16 a + b" by (simp add: disjunctive_add_eq_or)
  moreover have "unat (push_bit 16 a) = 65536 * unat a"
    using assms(1) by (simp add: push_bit_eq_mult unat_word_ariths)
  ultimately show ?thesis using assms by (simp add: unat_add_u32)
qed

lemma ones_complementI:
  assumes "0 < r" "r \<le> 65535" "r mod 65535 = x mod 65535"
  shows "r = ones_complement x"
proof (cases "r = 65535")
  case True
  with assms(3) show ?thesis by (simp add: ones_complement_def)
next
  case False
  with assms show ?thesis by (auto simp: ones_complement_def)
qed

lemma final_fold:
  assumes "sum_ok t" "unat t mod 65535 = x mod 65535"
  shows "unat (fold16 t) = ones_complement x"
  using assms fold16_props [of t] by (intro ones_complementI) (simp_all add: sum_ok_def)

text \<open>
  C15: the checksum is exact.  For every memory and every number of data words, \<open>fletcher32\<close>
  returns the Fletcher-32 checksum of those words: the 16-bit one's complement sum in the low
  half and the one's complement sum of the partial sums in the high half.
\<close>

theorem fletcher32_correct:
  "unat (fletcher32 m ctx) = fletcher_spec (data_words m (data ctx) (unat (words ctx)))"
proof -
  let ?ws = "data_words m (data ctx) (unat (words ctx))"
  have "sum_ok 0xffff" by (simp add: sum_ok_def)
  from fletcher32_loop_correct [OF this this, of m "words ctx" "data ctx"]
  obtain t1 t2 where t: "fletcher32_loop m (words ctx) (data ctx) 0xffff 0xffff = (t1, t2)"
    "sum_ok t1" "sum_ok t2"
    "unat t1 mod 65535 = (65535 + sum_list ?ws) mod 65535"
    "unat t2 mod 65535 = (65535 + unat (words ctx) * 65535 + weighted_sum ?ws) mod 65535" by auto
  have "unat t1 mod 65535 = sum_list ?ws mod 65535" "unat t2 mod 65535 = weighted_sum ?ws mod 65535"
    unfolding t(4,5) using mod_mult_self3 [of "unat (words ctx) + 1" "65535 :: nat"] by simp_all
  then have "unat (fold16 t1) = ones_complement (sum_list ?ws)"
    "unat (fold16 t2) = ones_complement (weighted_sum ?ws)"
    using t(2,3) by (simp_all add: final_fold)
  moreover have "unat (push_bit 16 (fold16 t2) OR fold16 t1)
      = 65536 * unat (fold16 t2) + unat (fold16 t1)"
    by (rule join16) (use t fold16_props in \<open>simp_all add: sum_ok_def\<close>)
  ultimately show ?thesis
    by (simp add: fletcher32_def t(1) fletcher_spec_def)
qed

end
