(* ===== verification/Xipfs_Flash.thy ===== *)
theory Xipfs_Flash
  imports PRR_Prelude
begin

text \<open>
  The flash page driver below XiPFS: \<open>drivers/include/periph/flashpage.h\<close> and
  \<open>cpu/nrf5x_common_pip/periph/flashpage.c\<close>, for the nRF52832 (\<open>cpu_conf.h\<close>: 128 pages of 4096
  bytes from address 0, write blocks of four bytes).

  The non-volatile memory controller is hardware, reached through \<open>Pip_out\<close> and plain stores.
  It is the parameter \<open>nvmc\<close> of the operations: what a page erase makes of the memory and what a
  word holds after a word has been programmed over an old value.  \<open>nvmc_spec\<close> states its
  documented behaviour: an erase sets every byte of the page to \<open>0xFF\<close>, and programming can only
  clear bits.  The loop that polls the controller's ready bit has no effect on the memory and is
  left out.
\<close>

section \<open>Configuration and hardware\<close>

definition FLASHPAGE_SIZE :: u32 where [c_const]: "FLASHPAGE_SIZE = 4096"

definition FLASHPAGE_NUMOF :: u32 where [c_const]: "FLASHPAGE_NUMOF = 128"

definition CPU_FLASH_BASE :: u32 where [c_const]: "CPU_FLASH_BASE = 0"

definition FLASHPAGE_WRITE_BLOCK_SIZE :: u32 where [c_const]: "FLASHPAGE_WRITE_BLOCK_SIZE = 4"

definition FLASHPAGE_WRITE_BLOCK_ALIGNMENT :: u32 where
  [c_const]: "FLASHPAGE_WRITE_BLOCK_ALIGNMENT = 4"

definition FLASHPAGE_ERASE_STATE :: u32 where [c_const]: "FLASHPAGE_ERASE_STATE = 0xFF"

record nvmc =
  nvmc_program :: "u32 \<Rightarrow> u32 \<Rightarrow> u32"
  nvmc_erase :: "memory \<Rightarrow> u32 \<Rightarrow> memory"

definition nvmc_spec :: "nvmc \<Rightarrow> bool" where
  "nvmc_spec hw \<longleftrightarrow>
     (\<forall>old w. nvmc_program hw old w = old AND w)
     \<and> (\<forall>fl a x. nvmc_erase hw fl a x = (if x div FLASHPAGE_SIZE = a div FLASHPAGE_SIZE then 0xFF else fl x))"

text \<open>
  A failed \<open>assert\<close> does not return.  \<open>OutOfFuel\<close> is the value of a walk over the file chain that
  has not ended within the given number of steps, and \<open>NullPointer\<close> that of a computation with a null pointer.
\<close>

datatype xip_err = AssertFailed | OutOfFuel | NullPointer

section \<open>Pages\<close>

definition flashpage_addr :: "u32 \<Rightarrow> u32" where
  "flashpage_addr page = CPU_FLASH_BASE + page * FLASHPAGE_SIZE"

definition flashpage_page :: "u32 \<Rightarrow> u32" where
  "flashpage_page addr = (addr - CPU_FLASH_BASE) div FLASHPAGE_SIZE"

definition flashpage_erase :: "nvmc \<Rightarrow> u32 \<Rightarrow> memory \<Rightarrow> xip_err + memory" where
  "flashpage_erase hw page fl =
     (if \<not> page < FLASHPAGE_NUMOF then Inl AssertFailed
      else Inr (nvmc_erase hw fl (flashpage_addr page)))"

text \<open>
  Data to be written comes from a local object, which the compiler aligns, or from flash itself,
  in which case it is read while the loop runs.
\<close>

datatype wsource = Local "u8 list" | Flash u32

definition source_byte :: "memory \<Rightarrow> wsource \<Rightarrow> nat \<Rightarrow> u8" where
  "source_byte fl src i = (case src of Local bs \<Rightarrow> bs ! i | Flash a \<Rightarrow> fl (a + of_nat i))"

definition source_word :: "memory \<Rightarrow> wsource \<Rightarrow> nat \<Rightarrow> u32" where
  "source_word fl src i =
     le_word [source_byte fl src (4 * i), source_byte fl src (4 * i + 1),
              source_byte fl src (4 * i + 2), source_byte fl src (4 * i + 3)]"

definition source_aligned :: "wsource \<Rightarrow> bool" where
  "source_aligned src =
     (case src of Local bs \<Rightarrow> True | Flash a \<Rightarrow> a mod FLASHPAGE_WRITE_BLOCK_ALIGNMENT = 0)"

fun write_words :: "nvmc \<Rightarrow> wsource \<Rightarrow> nat \<Rightarrow> u32 \<Rightarrow> nat \<Rightarrow> memory \<Rightarrow> memory" where
  "write_words hw src i page_addr 0 fl = fl"
| "write_words hw src i page_addr (Suc n) fl =
     write_words hw src (i + 1) (page_addr + 4) n
       (store_bytes fl page_addr
          (le_bytes 4 (nvmc_program hw (load32 fl page_addr) (source_word fl src i))))"

definition flashpage_write :: "nvmc \<Rightarrow> u32 \<Rightarrow> wsource \<Rightarrow> u32 \<Rightarrow> memory \<Rightarrow> xip_err + memory" where
  "flashpage_write hw target_addr src ln fl =
     (if ln mod FLASHPAGE_WRITE_BLOCK_SIZE \<noteq> 0 then Inl AssertFailed
      else if target_addr mod FLASHPAGE_WRITE_BLOCK_ALIGNMENT \<noteq> 0 \<or> \<not> source_aligned src
      then Inl AssertFailed
      else if \<not> target_addr + ln < CPU_FLASH_BASE + FLASHPAGE_SIZE * FLASHPAGE_NUMOF + 1
      then Inl AssertFailed
      else Inr (write_words hw src 0 target_addr (unat (ln div FLASHPAGE_WRITE_BLOCK_SIZE)) fl))"

section \<open>What the driver does to memory\<close>

lemma program_word:
  assumes "nvmc_spec hw"
  shows "store_bytes fl a (le_bytes 4 (nvmc_program hw (load32 fl a) w)) x =
    (if unat (x - a) < 4 then fl x AND le_bytes 4 w ! unat (x - a) else fl x)"
proof -
  have "le_bytes 4 (load32 fl a) = bytes_at fl a 4"
    using le_bytes_le_word [of "bytes_at fl a 4", where ?'a = 32] by (simp add: load32_def)
  then have "le_bytes 4 (load32 fl a AND w) ! unat (x - a) = fl x AND le_bytes 4 w ! unat (x - a)"
    if "unat (x - a) < 4"
    using that by (simp add: le_bytes_and bytes_at_nth)
  then show ?thesis
    using assms by (simp add: nvmc_spec_def store_bytes_apply)
qed

lemma le_bytes_source_word:
  "k < 4 \<Longrightarrow> le_bytes 4 (source_word fl src i) ! k = source_byte fl src (4 * i + k)"
proof -
  let ?bs = "[source_byte fl src (4 * i), source_byte fl src (4 * i + 1),
              source_byte fl src (4 * i + 2), source_byte fl src (4 * i + 3)]"
  assume k: "k < 4"
  have "le_bytes 4 (source_word fl src i) = ?bs"
    using le_bytes_le_word [of ?bs, where ?'a = 32] by (simp add: source_word_def numeral_eq_Suc)
  moreover have "?bs ! k = source_byte fl src (4 * i + k)"
    using k by (auto simp: less_Suc_eq numeral_eq_Suc)
  ultimately show ?thesis by simp
qed

text \<open>
  The source is steady while \<open>n\<close> bytes from \<open>a\<close> are written: its bytes do not change when only
  those bytes change.
\<close>

definition steady :: "wsource \<Rightarrow> nat \<Rightarrow> (nat \<Rightarrow> u8) \<Rightarrow> u32 \<Rightarrow> nat \<Rightarrow> memory \<Rightarrow> bool" where
  "steady src k f a n fl \<longleftrightarrow>
     (\<forall>fl'. (\<forall>x. n \<le> unat (x - a) \<longrightarrow> fl' x = fl x) \<longrightarrow> (\<forall>j < n. source_byte fl' src (k + j) = f j))"

lemma unat_minus_add4:
  fixes x a :: u32
  shows "unat (x - a) < 4 \<Longrightarrow> unat (x - (a + 4)) = 2 ^ 32 - 4 + unat (x - a)"
    and "4 \<le> unat (x - a) \<Longrightarrow> unat (x - (a + 4)) = unat (x - a) - 4"
proof -
  have eq: "x - (a + 4) = (x - a) - 4" by simp
  show "unat (x - a) < 4 \<Longrightarrow> unat (x - (a + 4)) = 2 ^ 32 - 4 + unat (x - a)"
    unfolding eq by (simp add: unat_sub_if' [of "x - a"] word_le_nat_alt)
  show "4 \<le> unat (x - a) \<Longrightarrow> unat (x - (a + 4)) = unat (x - a) - 4"
    unfolding eq by (subst unat_sub) (simp_all add: word_le_nat_alt)
qed

lemma write_words_effect:
  assumes hw: "nvmc_spec hw" and "steady src (4 * i) f a (4 * n) fl" and "4 * n \<le> 2 ^ 32"
  shows "write_words hw src i a n fl x =
    (if unat (x - a) < 4 * n then fl x AND f (unat (x - a)) else fl x)"
  using assms(2,3)
proof (induction n arbitrary: i a fl f)
  case 0
  then show ?case by simp
next
  case (Suc n)
  let ?w = "source_word fl src i"
  define fl1 where "fl1 = store_bytes fl a (le_bytes 4 (nvmc_program hw (load32 fl a) ?w))"
  have src: "source_byte fl src (4 * i + j) = f j" if "j < 4 * Suc n" for j
    using Suc.prems(1) that by (simp add: steady_def)
  have fl1: "fl1 y = (if unat (y - a) < 4 then fl y AND f (unat (y - a)) else fl y)" for y
    using program_word [OF hw, of fl a ?w y] src
    by (simp add: fl1_def le_bytes_source_word)
  have "steady src (4 * (i + 1)) (\<lambda>j. f (j + 4)) (a + 4) (4 * n) fl1"
    unfolding steady_def
  proof (intro allI impI)
    fix fl' j
    assume fr: "\<forall>x. 4 * n \<le> unat (x - (a + 4)) \<longrightarrow> fl' x = fl1 x" and j: "j < 4 * n"
    have "fl' y = fl y" if "4 * Suc n \<le> unat (y - a)" for y
      using fr [rule_format, of y] fl1 [of y] that unat_minus_add4(2) [of y a] by simp
    then have "source_byte fl' src (4 * i + (j + 4)) = f (j + 4)"
      using Suc.prems(1) j unfolding steady_def by fastforce
    then show "source_byte fl' src (4 * (i + 1) + j) = f (j + 4)" by (simp add: algebra_simps)
  qed
  from Suc.IH [OF this]
  have "write_words hw src i a (Suc n) fl x =
      (if unat (x - (a + 4)) < 4 * n then fl1 x AND f (unat (x - (a + 4)) + 4) else fl1 x)"
    using Suc.prems(2) by (simp add: fl1_def)
  then show ?case
    using Suc.prems(2) fl1 [of x] unat_minus_add4 [of x a] by (cases "unat (x - a) < 4") auto
qed

lemma flashpage_write_effect:
  assumes "nvmc_spec hw" and "steady src 0 f a (unat ln) fl"
    and "flashpage_write hw a src ln fl = Inr fl'"
  shows "fl' x = (if unat (x - a) < unat ln then fl x AND f (unat (x - a)) else fl x)"
proof -
  have "ln mod 4 = 0" and fl': "fl' = write_words hw src 0 a (unat (ln div 4)) fl"
    using assms(3) by (auto simp: flashpage_write_def c_const split: if_splits)
  then have "unat (ln mod 4) = 0" by simp
  then have "unat ln mod 4 = 0" by (simp only: unat_mod) simp
  then have "4 * (unat ln div 4) = unat ln" by presburger
  then have "4 * unat (ln div 4) = unat ln" by (simp add: unat_div)
  then show ?thesis
    using write_words_effect [OF assms(1), of src 0 f a "unat (ln div 4)" fl x] assms(2) unat_u32_less [of ln]
    by (simp add: fl')
qed

end
