(* ===== verification/Xipfs.thy ===== *)
theory Xipfs
  imports Xipfs_Flash
begin

text \<open>
  The execute-in-place file system \<open>sys/gnrc_xipfs/gnrc_xipfs.c\<close>.  Its state is the flash memory
  and the three static variables of the module.  Files are structures in flash (\<open>file_t\<close>), chained
  by their \<open>next\<close> pointers; a pointer to a file is its address and \<open>NULL\<close> is \<open>None\<close>.  The loops
  that follow the chain take a number of steps, since nothing in the code bounds them.
\<close>

section \<open>Constants and state\<close>

definition FREE_PAGE :: u32 where [c_const]: "FREE_PAGE = 0xffffffff"

definition FILESIZE_MAX :: u32 where [c_const]: "FILESIZE_MAX = push_bit 29 1 - 1"

definition TINYFS_INITIALIZED :: int where [c_const]: "TINYFS_INITIALIZED = 1"

definition TINYFS_NAME_MAX :: nat where [c_const]: "TINYFS_NAME_MAX = 32"

definition TINYFS_STATUS_LOADED :: u32 where [c_const]: "TINYFS_STATUS_LOADED = 0"

definition TINYFS_STATUS_LOADING :: u32 where [c_const]: "TINYFS_STATUS_LOADING = 1"

definition TINYFS_STATUS_CREATED :: u32 where [c_const]: "TINYFS_STATUS_CREATED = 3"

definition TINYFS_STATUS_FREE :: u32 where [c_const]: "TINYFS_STATUS_FREE = 0xffffffff"

definition FLASHPAGE_ALIGNED :: "u32 \<Rightarrow> bool" where
  "FLASHPAGE_ALIGNED x \<longleftrightarrow> x AND (FLASHPAGE_SIZE - 1) = 0"

definition ROUND :: "u32 \<Rightarrow> u32 \<Rightarrow> u32" where
  "ROUND x y = (x + y - 1) AND NOT (y - 1)"

definition TRUNC :: "u32 \<Rightarrow> u32 \<Rightarrow> u32" where
  "TRUNC x y = x AND NOT (y - 1)"

record xipfs =
  flash :: memory
  first_page :: u32
  last_page :: u32
  module_init :: int

text \<open>The layout of \<open>file_t\<close>: a name of 32 bytes, size, next, status and exec.\<close>

definition sizeof_file_t :: u32 where [c_const]: "sizeof_file_t = 48"

definition file_name :: "memory \<Rightarrow> u32 \<Rightarrow> u8 list" where
  "file_name fl p = bytes_at fl p TINYFS_NAME_MAX"

definition file_size :: "memory \<Rightarrow> u32 \<Rightarrow> u32" where
  "file_size fl p = load32 fl (p + 32)"

definition file_next :: "memory \<Rightarrow> u32 \<Rightarrow> u32" where
  "file_next fl p = load32 fl (p + 36)"

definition file_status :: "memory \<Rightarrow> u32 \<Rightarrow> u32" where
  "file_status fl p = load32 fl (p + 40)"

definition file_exec :: "memory \<Rightarrow> u32 \<Rightarrow> u32" where
  "file_exec fl p = load32 fl (p + 44)"

definition file_bytes :: "u8 list \<Rightarrow> u32 \<Rightarrow> u32 \<Rightarrow> u32 \<Rightarrow> u32 \<Rightarrow> u8 list" where
  "file_bytes name sz nxt status exec =
     name @ le_bytes 4 sz @ le_bytes 4 nxt @ le_bytes 4 status @ le_bytes 4 exec"

text \<open>
  C strings are lists of bytes without the terminating zero.  \<open>c_string\<close> reads one from a
  buffer, \<open>c_strncpy\<close> writes one into a zeroed buffer of \<open>bufsz\<close> bytes, copying at most \<open>n\<close>.
\<close>

definition c_string :: "u8 list \<Rightarrow> u8 list" where
  "c_string bs = takeWhile (\<lambda>b. b \<noteq> 0) bs"

definition c_strncpy :: "nat \<Rightarrow> u8 list \<Rightarrow> nat \<Rightarrow> u8 list" where
  "c_strncpy bufsz name n = take bufsz (take n (c_string name) @ replicate bufsz 0)"

definition strncmp_eq :: "u8 list \<Rightarrow> u8 list \<Rightarrow> nat \<Rightarrow> bool" where
  "strncmp_eq a b n \<longleftrightarrow> c_string (take n a) = c_string (take n b)"

section \<open>Internals\<close>

fun flashpage_write_unaligned ::
  "nvmc \<Rightarrow> u32 \<Rightarrow> wsource \<Rightarrow> nat \<Rightarrow> nat \<Rightarrow> memory \<Rightarrow> xip_err + memory" where
  "flashpage_write_unaligned hw target_addr src i 0 fl = Inr fl"
| "flashpage_write_unaligned hw target_addr src i (Suc n) fl =
     (let address = target_addr + of_nat i;
          val = source_byte fl src i;
          byte_shift = address AND (FLASHPAGE_WRITE_BLOCK_ALIGNMENT - 1);
          address32 = address AND NOT byte_shift;
          value32 = load32 fl address32 AND
            NOT (push_bit (unat (push_bit (unat (FLASHPAGE_WRITE_BLOCK_SIZE - 1)) byte_shift))
                   FLASHPAGE_ERASE_STATE);
          value32' = value32 + push_bit (unat (push_bit 3 byte_shift)) (ucast val)
      in ebind (flashpage_write hw address32 (Local (le_bytes 4 value32')) FLASHPAGE_WRITE_BLOCK_SIZE fl)
           (flashpage_write_unaligned hw target_addr src (i + 1) n))"

fun free_page_loop :: "nat \<Rightarrow> memory \<Rightarrow> u32 \<Rightarrow> u32 \<Rightarrow> xip_err + u32 option" where
  "free_page_loop 0 fl first p = Inl OutOfFuel"
| "free_page_loop (Suc n) fl first p =
     (if file_next fl p = first then Inr None
      else if file_next fl p = FREE_PAGE then Inr (Some p)
      else if \<not> FLASHPAGE_ALIGNED (file_next fl p) then Inl AssertFailed
      else free_page_loop n fl first (file_next fl p))"

definition get_first_free_page_addr :: "nat \<Rightarrow> xipfs \<Rightarrow> xip_err + u32 option" where
  "get_first_free_page_addr fuel s =
     (if \<not> FLASHPAGE_ALIGNED (first_page s) then Inl AssertFailed
      else free_page_loop fuel (flash s) (first_page s) (first_page s))"

definition tinyfs_flash_needed :: "memory \<Rightarrow> u32 \<Rightarrow> bool" where
  "tinyfs_flash_needed fl page \<longleftrightarrow>
     (\<exists>i \<in> set [0..<unat (FLASHPAGE_SIZE div 4)]. load32 fl (flashpage_addr page + of_nat (4 * i)) \<noteq> FREE_PAGE)"

fun tinyfs_flash_pages :: "nvmc \<Rightarrow> u32 \<Rightarrow> nat \<Rightarrow> memory \<Rightarrow> xip_err + memory" where
  "tinyfs_flash_pages hw page 0 fl = Inr fl"
| "tinyfs_flash_pages hw page (Suc n) fl =
     ebind (if tinyfs_flash_needed fl page then flashpage_erase hw page fl else Inr fl)
       (tinyfs_flash_pages hw (page + 1) n)"

definition tinyfs_flash_file :: "nvmc \<Rightarrow> u32 \<Rightarrow> memory \<Rightarrow> xip_err + memory" where
  "tinyfs_flash_file hw file fl =
     (let page = flashpage_page file;
          number = ROUND (file_size fl file) FLASHPAGE_SIZE div FLASHPAGE_SIZE
      in tinyfs_flash_pages hw page (unat number) fl)"

definition tinyfs_flash_file_content :: "nvmc \<Rightarrow> u32 \<Rightarrow> memory \<Rightarrow> xip_err + memory" where
  "tinyfs_flash_file_content hw file fl =
     (let backup = file_bytes (file_name fl file) (file_size fl file) (file_next fl file)
            TINYFS_STATUS_CREATED (file_exec fl file)
      in ebind (tinyfs_flash_file hw file fl)
           (flashpage_write hw file (Local backup) sizeof_file_t))"

section \<open>Public interface\<close>

definition tinyfs_get_first_file :: "xipfs \<Rightarrow> u32 option" where
  "tinyfs_get_first_file s =
     (let file = first_page s
      in if module_init s \<noteq> TINYFS_INITIALIZED then None
         else if file_next (flash s) file = FREE_PAGE then None
         else Some file)"

definition tinyfs_get_next_file :: "xipfs \<Rightarrow> u32 \<Rightarrow> u32 option" where
  "tinyfs_get_next_file s file0 =
     (let file = file_next (flash s) file0
      in if module_init s \<noteq> TINYFS_INITIALIZED then None
         else if file_next (flash s) file = FREE_PAGE then None
         else if file_next (flash s) file = first_page s then None
         else Some file)"

text \<open>The pattern \<open>while ((file = tinyfs_get_next_file(file)) != NULL)\<close> of the clean-up.\<close>

definition cleanup_file :: "nvmc \<Rightarrow> u32 \<Rightarrow> xipfs \<Rightarrow> xip_err + xipfs" where
  "cleanup_file hw file s =
     (if file_status (flash s) file = TINYFS_STATUS_LOADING
      then ebind (tinyfs_flash_file_content hw file (flash s)) (\<lambda>fl. Inr (s\<lparr>flash := fl\<rparr>))
      else Inr s)"

fun cleanup_loop :: "nat \<Rightarrow> nvmc \<Rightarrow> u32 \<Rightarrow> xipfs \<Rightarrow> xip_err + xipfs" where
  "cleanup_loop 0 hw file s = Inl OutOfFuel"
| "cleanup_loop (Suc n) hw file s =
     (case tinyfs_get_next_file s file of
        None \<Rightarrow> Inr s
      | Some file' \<Rightarrow> ebind (cleanup_file hw file' s) (cleanup_loop n hw file'))"

definition tinyfs_cleanup :: "nat \<Rightarrow> nvmc \<Rightarrow> xipfs \<Rightarrow> xip_err + xipfs" where
  "tinyfs_cleanup fuel hw s =
     (case tinyfs_get_first_file s of
        None \<Rightarrow> Inr s
      | Some file \<Rightarrow> ebind (cleanup_file hw file s) (cleanup_loop fuel hw file))"

definition tinyfs_format :: "nvmc \<Rightarrow> xipfs \<Rightarrow> xip_err + xipfs" where
  "tinyfs_format hw s =
     (if module_init s \<noteq> TINYFS_INITIALIZED then Inr s
      else let start = flashpage_page (first_page s); end_page = flashpage_page (last_page s)
           in ebind (tinyfs_flash_pages hw start (unat (end_page - start)) (flash s))
                (\<lambda>fl. Inr (s\<lparr>flash := fl\<rparr>)))"

definition tinyfs_init :: "nat \<Rightarrow> nvmc \<Rightarrow> u32 \<Rightarrow> u32 \<Rightarrow> xipfs \<Rightarrow> xip_err + int \<times> xipfs" where
  "tinyfs_init fuel hw flash_start flash_end s =
     (let s1 = s\<lparr>first_page := ROUND flash_start FLASHPAGE_SIZE,
                 last_page := TRUNC flash_end FLASHPAGE_SIZE\<rparr>;
          s2 = s1\<lparr>last_page := last_page s1 - FLASHPAGE_SIZE\<rparr>
      in if \<not> first_page s2 < last_page s2 then Inl AssertFailed
         else ebind (tinyfs_cleanup fuel hw s2)
                (\<lambda>s3. Inr (0, s3\<lparr>module_init := TINYFS_INITIALIZED\<rparr>)))"

definition tinyfs_create_file ::
  "nat \<Rightarrow> nvmc \<Rightarrow> u8 list \<Rightarrow> u32 \<Rightarrow> u32 \<Rightarrow> u32 \<Rightarrow> xipfs \<Rightarrow> xip_err + u32 option \<times> xipfs" where
  "tinyfs_create_file fuel hw name sz exec status s =
     (if module_init s \<noteq> TINYFS_INITIALIZED then Inr (None, s)
      else if sz = 0 then Inr (None, s)
      else if sz > FILESIZE_MAX then Inr (None, s)
      else if exec \<noteq> 0 \<and> exec \<noteq> 1 then Inr (None, s)
      else ebind (get_first_free_page_addr fuel s) (\<lambda>r. case r of
          None \<Rightarrow> Inr (None, s)
        | Some ffp \<Rightarrow>
            (let page_size = ROUND sz FLASHPAGE_SIZE;
                 nxt = ffp + page_size;
                 nxt' = (if nxt = last_page s then first_page s else nxt);
                 file = file_bytes (c_strncpy TINYFS_NAME_MAX name (TINYFS_NAME_MAX - 1)) sz nxt' status exec
             in ebind (flashpage_write hw ffp (Local file) sizeof_file_t (flash s))
                  (\<lambda>fl. Inr (Some ffp, s\<lparr>flash := fl\<rparr>)))))"

text \<open>
  \<open>tinyfs_file_status\<close>: after the write in the \<open>CREATED\<close> branch the code goes on and tests the
  status again.
\<close>

definition write_status :: "nvmc \<Rightarrow> u32 \<Rightarrow> u32 \<Rightarrow> xipfs \<Rightarrow> xip_err + xipfs" where
  "write_status hw file status s =
     ebind (flashpage_write hw (file + 40) (Local (le_bytes 4 status)) 4 (flash s))
       (\<lambda>fl. Inr (s\<lparr>flash := fl\<rparr>))"

definition tinyfs_file_status :: "nvmc \<Rightarrow> u32 \<Rightarrow> u32 \<Rightarrow> xipfs \<Rightarrow> xip_err + int \<times> xipfs" where
  "tinyfs_file_status hw file status s =
     (if file_status (flash s) file = TINYFS_STATUS_FREE
      then ebind (write_status hw file status s) (\<lambda>s'. Inr (0, s'))
      else if file_status (flash s) file = TINYFS_STATUS_CREATED \<and> status = TINYFS_STATUS_FREE
      then Inr (- 1, s)
      else ebind (if file_status (flash s) file = TINYFS_STATUS_CREATED
                  then write_status hw file status s else Inr s)
        (\<lambda>s1. if file_status (flash s1) file = TINYFS_STATUS_LOADING
          then if status = TINYFS_STATUS_FREE then Inr (- 1, s1)
               else if status = TINYFS_STATUS_CREATED then Inr (- 1, s1)
               else ebind (write_status hw file status s1) (\<lambda>s2. Inr (0, s2))
          else Inr (- 1, s1)))"

definition tinyfs_file_write ::
  "nvmc \<Rightarrow> u32 \<Rightarrow> u32 \<Rightarrow> wsource \<Rightarrow> u32 \<Rightarrow> xipfs \<Rightarrow> xip_err + int \<times> xipfs" where
  "tinyfs_file_write hw file offset src n s =
     (if n = 0 then Inr (0, s)
      else if file_size (flash s) file < offset then Inr (- 1, s)
      else if file_size (flash s) file < offset + n then Inr (- 1, s)
      else let dst = file + sizeof_file_t + offset
           in ebind (flashpage_write_unaligned hw dst src 0 (unat n) (flash s))
                (\<lambda>fl. Inr (0, s\<lparr>flash := fl\<rparr>)))"

fun search_loop :: "nat \<Rightarrow> xipfs \<Rightarrow> u8 list \<Rightarrow> u32 \<Rightarrow> xip_err + u32 option" where
  "search_loop 0 s name file = Inl OutOfFuel"
| "search_loop (Suc n) s name file =
     (case tinyfs_get_next_file s file of
        None \<Rightarrow> Inr None
      | Some file' \<Rightarrow>
          if strncmp_eq (file_name (flash s) file') name TINYFS_NAME_MAX then Inr (Some file')
          else search_loop n s name file')"

definition tinyfs_file_search :: "nat \<Rightarrow> xipfs \<Rightarrow> u8 list \<Rightarrow> xip_err + u32 option" where
  "tinyfs_file_search fuel s name =
     (if module_init s \<noteq> TINYFS_INITIALIZED then Inr None
      else case tinyfs_get_first_file s of
          None \<Rightarrow> Inr None
        | Some file \<Rightarrow>
            if strncmp_eq (file_name (flash s) file) name TINYFS_NAME_MAX then Inr (Some file)
            else search_loop fuel s name file)"

text \<open>
  \<open>tinyfs_remove\<close>: the pages of a file after its first, then the loop over the files after the
  removed one.
\<close>

fun move_pages :: "nvmc \<Rightarrow> nat \<Rightarrow> u32 \<Rightarrow> u32 \<Rightarrow> memory \<Rightarrow> xip_err + (u32 \<times> u32 \<times> memory)" where
  "move_pages hw 0 dst src fl = Inr (dst, src, fl)"
| "move_pages hw (Suc n) dst src fl =
     (let num = flashpage_page src
      in ebind (if tinyfs_flash_needed fl num
                then ebind (flashpage_write hw dst (Flash src) FLASHPAGE_SIZE fl) (flashpage_erase hw num)
                else Inr fl)
           (move_pages hw n (dst + FLASHPAGE_SIZE) (src + FLASHPAGE_SIZE)))"

definition move_file :: "nvmc \<Rightarrow> u32 \<Rightarrow> u32 \<Rightarrow> memory \<Rightarrow> xip_err + (u32 \<times> memory)" where
  "move_file hw dst src fl =
     (let sz = ROUND (file_size fl src) FLASHPAGE_SIZE;
          file = file_bytes (file_name fl src) (file_size fl src) (dst + sz) (file_status fl src)
            (file_exec fl src)
      in ebind (flashpage_write hw dst (Local file) sizeof_file_t fl) (\<lambda>fl1.
         ebind (flashpage_write hw (dst + sizeof_file_t) (Flash (src + sizeof_file_t))
                  (FLASHPAGE_SIZE - sizeof_file_t) fl1) (\<lambda>fl2.
         ebind (flashpage_erase hw (flashpage_page src) fl2) (\<lambda>fl3.
         ebind (move_pages hw (unat (sz div FLASHPAGE_SIZE) - 1) (dst + FLASHPAGE_SIZE)
                  (src + FLASHPAGE_SIZE) fl3) (\<lambda>(dst', src', fl4). Inr (dst', fl4))))))"

fun consolidate :: "nat \<Rightarrow> nvmc \<Rightarrow> u32 \<Rightarrow> u32 option \<Rightarrow> xipfs \<Rightarrow> xip_err + xipfs" where
  "consolidate n hw dst None s = Inr s"
| "consolidate 0 hw dst (Some src) s = Inl OutOfFuel"
| "consolidate (Suc n) hw dst (Some src) s =
     (let nxt = tinyfs_get_next_file s src
      in ebind (move_file hw dst src (flash s))
           (\<lambda>(dst', fl). consolidate n hw dst' nxt (s\<lparr>flash := fl\<rparr>)))"

definition tinyfs_remove :: "nat \<Rightarrow> nvmc \<Rightarrow> u8 list \<Rightarrow> xipfs \<Rightarrow> xip_err + int \<times> xipfs" where
  "tinyfs_remove fuel hw name s =
     (if module_init s \<noteq> TINYFS_INITIALIZED then Inr (- 1, s)
      else ebind (tinyfs_file_search fuel s name) (\<lambda>r. case r of
          None \<Rightarrow> Inr (- 1, s)
        | Some dst \<Rightarrow>
            (let nxt = tinyfs_get_next_file s dst
             in ebind (tinyfs_flash_file hw dst (flash s)) (\<lambda>fl.
                ebind (consolidate fuel hw dst nxt (s\<lparr>flash := fl\<rparr>)) (\<lambda>s'. Inr (0, s'))))))"

end
