(* ===== verification/Xipfs_Write.thy ===== *)
theory Xipfs_Write
  imports Xipfs
begin

text \<open>
  What the byte-wise flash write of XiPFS does: every byte of the target range is combined with
  the data by conjunction, as programming can only clear bits, and no other byte changes.
\<close>

section \<open>Unaligned writes\<close>

lemma and_3_bounds: "unat (a AND 3 :: u32) < 4" "unat (a AND 3) = unat a mod 4"
proof -
  have "a AND 3 = take_bit 2 a" by (simp add: take_bit_eq_mask mask_eq_exp_minus_1)
  then show "unat (a AND 3) = unat a mod 4" by (simp add: take_bit_eq_mod unat_mod)
  then show "unat (a AND 3) < 4" by simp
qed

lemma byte_mask: "(0xFF :: u32) = mask 8"
  by (simp add: mask_eq_exp_minus_1)

text \<open>The merged word differs from the old one in the selected byte only.\<close>

lemma merged_word_bytes:
  assumes "b < 4" "k < 4"
  shows "le_bytes 4 ((w AND NOT (push_bit (8 * b) 0xFF)) + push_bit (8 * b) (ucast (v :: u8)) :: u32) ! k
    = (if k = b then v else le_bytes 4 w ! k)"
proof -
  let ?o = "w AND NOT (push_bit (8 * b) (mask 8)) :: u32" and ?n = "push_bit (8 * b) (ucast v) :: u32"
  have nb: "bit v i \<Longrightarrow> i < 8" for i using bit_imp_le_length [of v i] by simp
  have "?o AND ?n = 0"
    by (rule bit_word_eqI) (auto simp: bit_simps bit_mask_iff dest: nb)
  then have sum: "?o + ?n = ?o OR ?n" by (simp add: disjunctive_add_eq_or)
  show ?thesis
    unfolding byte_mask sum nth_le_bytes [OF assms(2)]
  proof (rule bit_word_eqI)
    fix j assume j: "j < LENGTH(8)"
    have "8 * b \<le> 8 * k + j \<and> 8 * k + j - 8 * b < 8 \<longleftrightarrow> k = b" using j by auto
    moreover have "8 * k + j < 32" using j assms by simp
    ultimately show "bit (ucast (drop_bit (8 * k) (?o OR ?n)) :: u8) j
        = bit (if k = b then v else ucast (drop_bit (8 * k) w)) j"
      using j assms(2) nb [of "8 * k + j - 8 * b"]
      by (auto simp: bit_simps bit_mask_iff nth_le_bytes)
  qed
qed

lemma align_down:
  fixes a x :: u32
  defines "b \<equiv> a AND 3"
  shows "a AND NOT b = a - b" "unat (x - (a - b)) < 4 \<Longrightarrow> unat (x - (a - b)) = unat b \<longleftrightarrow> x = a"
    "(a - b) mod 4 = 0"
proof -
  have "(a AND NOT b) AND b = 0" by (rule bit_word_eqI) (auto simp: bit_simps)
  then have "(a AND NOT b) + b = (a AND NOT b) OR b" by (rule disjunctive_add_eq_or)
  also have "\<dots> = a" by (rule bit_word_eqI) (auto simp: b_def bit_simps)
  finally show "a AND NOT b = a - b" by (simp add: eq_diff_eq)
  show "unat (x - (a - b)) = unat b \<longleftrightarrow> x = a" by (auto dest: unsigned_word_eqI)
  have "unat b \<le> unat a" using and_3_bounds [of a] by (simp add: b_def)
  then have "unat (a - b) = unat a - unat b" by (subst unat_sub) (simp_all add: word_le_nat_alt)
  then have "unat (a - b) mod 4 = 0"
    using and_3_bounds(2) [of a] by (simp add: b_def)
  then have "unat ((a - b) mod 4) = 0" by (simp add: unat_mod)
  then show "(a - b) mod 4 = 0" by (simp add: unsigned_eq_0_iff)
qed

text \<open>One step of the byte-wise write programs one byte and no other.\<close>

definition in_flash :: "u32 \<Rightarrow> bool" where
  "in_flash a \<longleftrightarrow> a < FLASHPAGE_SIZE * FLASHPAGE_NUMOF"

lemma write_unaligned_step:
  assumes hw: "nvmc_spec hw" and a: "in_flash (target + of_nat i)"
  shows "\<exists>fl'. flashpage_write_unaligned hw target src i (Suc n) fl
      = flashpage_write_unaligned hw target src (i + 1) n fl'
    \<and> (\<forall>x. fl' x = (if x = target + of_nat i then fl x AND source_byte fl src i else fl x))"
proof -
  define a b where "a = target + of_nat i" and "b = a AND 3"
  define v where "v = source_byte fl src i"
  define w where "w = (load32 fl (a - b) AND NOT (push_bit (8 * unat b) 0xFF))
    + push_bit (8 * unat b) (ucast v)"
  have b4: "unat b < 4" unfolding b_def by (rule and_3_bounds)
  have sh: "unat (push_bit 3 b) = 8 * unat b"
    using b4 by (simp add: push_bit_eq_mult unat_word_ariths)
  note al = align_down [where a = a, folded b_def]
  have "unat (a - b) = unat a - unat b"
    using and_3_bounds [of a] by (subst unat_sub) (simp_all add: word_le_nat_alt b_def)
  moreover have "unat a < 524288" "unat (a - b) mod 4 = 0"
    using assms(2) al(3) unat_mod [of "a - b" 4]
    by (simp_all add: in_flash_def a_def c_const word_less_nat_alt)
  ultimately obtain k where "unat (a - b) = 4 * k" "k < 131072" by (auto elim!: dvdE)
  then have "unat (a - b) + 4 \<le> 524288" by linarith
  then have "a - b + 4 < 524289" by (simp add: word_less_nat_alt unat_word_ariths)
  then obtain fl' where fl': "flashpage_write hw (a - b) (Local (le_bytes 4 w)) 4 fl = Inr fl'"
    using al(3) by (simp add: flashpage_write_def c_const source_aligned_def)
  have "fl' x = (if x = a then fl x AND v else fl x)" for x
  proof -
    have "steady (Local (le_bytes 4 w)) 0 (\<lambda>k. le_bytes 4 w ! k) (a - b) (unat 4) fl"
      by (simp add: steady_def source_byte_def)
    from flashpage_write_effect [OF hw this fl']
    have eff: "fl' x = (if unat (x - (a - b)) < 4
        then fl x AND le_bytes 4 w ! unat (x - (a - b)) else fl x)" by simp
    have "le_bytes 4 w ! k = (if k = unat b then v else bytes_at fl (a - b) 4 ! k)" if "k < 4" for k
      using le_bytes_le_word [of "bytes_at fl (a - b) 4", where ?'a = 32] merged_word_bytes [OF b4 that]
      by (simp add: w_def load32_def)
    then show ?thesis
      using eff al(2) [where x = x] b4 by (auto simp: bytes_at_nth)
  qed
  moreover have "flashpage_write_unaligned hw target src i (Suc n) fl
      = flashpage_write_unaligned hw target src (i + 1) n fl'"
  proof -
    have c: "FLASHPAGE_WRITE_BLOCK_ALIGNMENT - 1 = 3" "unat (4 - 1 :: u32) = 3"
      "FLASHPAGE_WRITE_BLOCK_SIZE = 4" "FLASHPAGE_ERASE_STATE = 0xFF"
      by (simp_all add: c_const)
    show ?thesis
      unfolding flashpage_write_unaligned.simps Let_def c a_def [symmetric] b_def [symmetric]
        v_def [symmetric] sh al(1) w_def [symmetric] fl' by simp
  qed
  ultimately show ?thesis unfolding a_def v_def by blast
qed

lemma unat_minus_add1:
  fixes x a :: u32
  shows "unat (a - (a + 1)) = 2 ^ 32 - 1" and "x \<noteq> a \<Longrightarrow> unat (x - a) = Suc (unat (x - (a + 1)))"
proof -
  have "a - (a + 1) = - 1" by simp
  then show "unat (a - (a + 1)) = 2 ^ 32 - 1"
    by (simp add: unsigned_minus_1_eq_mask mask_eq_exp_minus_1)
  assume "x \<noteq> a"
  then have "x - a \<noteq> 0" by simp
  then have "unat (x - a - 1) = unat (x - a) - 1" "unat (x - a) \<noteq> 0"
    by (rule unat_minus_one, simp add: unsigned_eq_0_iff)
  moreover have "x - a - 1 = x - (a + 1)" by simp
  ultimately show "unat (x - a) = Suc (unat (x - (a + 1)))" by simp
qed

lemma write_unaligned_effect:
  assumes hw: "nvmc_spec hw" and "steady src i f (target + of_nat i) n fl"
    and "unat target + i + n \<le> 524288"
  shows "\<exists>fl'. flashpage_write_unaligned hw target src i n fl = Inr fl'
    \<and> (\<forall>x. fl' x = (if unat (x - (target + of_nat i)) < n
                  then fl x AND f (unat (x - (target + of_nat i))) else fl x))"
  using assms(2,3)
proof (induction n arbitrary: i f fl)
  case 0
  then show ?case by simp
next
  case (Suc n)
  let ?a = "target + of_nat i"
  have "unat ?a = unat target + i"
    using Suc.prems(2) by (simp add: unat_word_ariths unat_of_nat)
  then have "in_flash ?a"
    using Suc.prems(2) by (simp add: in_flash_def c_const word_less_nat_alt)
  from write_unaligned_step [OF hw this, of src n fl]
  obtain fl1 where st: "flashpage_write_unaligned hw target src i (Suc n) fl
      = flashpage_write_unaligned hw target src (i + 1) n fl1"
    and fl1: "\<And>x. fl1 x = (if x = ?a then fl x AND source_byte fl src i else fl x)" by blast
  have f0: "source_byte fl src i = f 0"
    using Suc.prems(1) unfolding steady_def by (metis add.right_neutral zero_less_Suc)
  have "steady src (i + 1) (\<lambda>j. f (j + 1)) (target + of_nat (i + 1)) n fl1"
    unfolding steady_def
  proof (intro allI impI)
    fix fl' j
    assume fr: "\<forall>x. n \<le> unat (x - (target + of_nat (i + 1))) \<longrightarrow> fl' x = fl1 x" and j: "j < n"
    have "fl' y = fl y" if "Suc n \<le> unat (y - ?a)" for y
      using fr [rule_format, of y] fl1 [of y] that unat_minus_add1(2) [of y ?a]
      by (cases "y = ?a") (simp_all add: algebra_simps)
    then have "source_byte fl' src (i + (j + 1)) = f (j + 1)"
      using Suc.prems(1) j unfolding steady_def by (metis Suc_eq_plus1 Suc_mono)
    then show "source_byte fl' src (i + 1 + j) = f (j + 1)" by (simp add: algebra_simps)
  qed
  from Suc.IH [OF this]
  obtain fl' where "flashpage_write_unaligned hw target src (i + 1) n fl1 = Inr fl'"
    "\<And>x. fl' x = (if unat (x - (?a + 1)) < n then fl1 x AND f (unat (x - (?a + 1)) + 1) else fl1 x)"
    using Suc.prems(2) by (auto simp: algebra_simps)
  moreover have "unat (x - ?a) = (if x = ?a then 0 else Suc (unat (x - (?a + 1))))" for x
    using unat_minus_add1(2) [of x ?a] by simp
  moreover have "\<not> unat (?a - (?a + 1)) < n"
    using unat_minus_add1(1) [of ?a] Suc.prems(2) by simp
  ultimately show ?case
    using st fl1 f0 by auto
qed

text \<open>A write that runs past the flash ends in the assertion of the driver.\<close>

lemma write_unaligned_overrun:
  assumes hw: "nvmc_spec hw" and "unat target + i \<le> 524288" "524288 < unat target + i + n"
  shows "flashpage_write_unaligned hw target src i n fl = Inl AssertFailed"
  using assms(2,3)
proof (induction n arbitrary: i fl)
  case 0
  then show ?case by simp
next
  case (Suc n)
  let ?a = "target + of_nat i"
  have u: "unat ?a = unat target + i"
    using Suc.prems(1) by (simp add: unat_word_ariths unat_of_nat)
  show ?case
  proof (cases "unat target + i = 524288")
    case True
    then have "?a = 524288" using u by (intro unsigned_word_eqI [where 'a = nat]) simp
    then show ?thesis
      by (simp add: flashpage_write_def c_const source_aligned_def Let_def)
  next
    case False
    then have "in_flash ?a"
      using u Suc.prems(1) by (simp add: in_flash_def c_const word_less_nat_alt)
    from write_unaligned_step [OF hw this, of src n fl] show ?thesis
      using Suc.IH [of "i + 1"] False Suc.prems by (auto simp del: flashpage_write_unaligned.simps)
  qed
qed

end
