(* ===== verification/Xipfs_Chain.thy ===== *)
theory Xipfs_Chain
  imports Xipfs_Write
begin

text \<open>
  The abstract view of the file system: the list of the files in its chain.  The lemmas relate
  the walks of the code over the \<open>next\<close> pointers to this list, and the writes of the code to the
  headers of the files in it.
\<close>

section \<open>Page arithmetic\<close>

lemma and_4095: "unat (a AND 4095 :: u32) = unat a mod 4096"
proof -
  have "a AND 4095 = take_bit 12 a" by (simp add: take_bit_eq_mask mask_eq_exp_minus_1)
  then show ?thesis by (simp add: take_bit_eq_mod unat_mod)
qed

lemma aligned_iff: "FLASHPAGE_ALIGNED x \<longleftrightarrow> unat x mod 4096 = 0"
  using and_4095 [of x] by (auto simp: FLASHPAGE_ALIGNED_def c_const unsigned_eq_0_iff)

lemma and_not_4095: "unat (x AND NOT 4095 :: u32) = unat x - unat x mod 4096"
proof -
  have "(x AND NOT 4095) AND (x AND 4095) = 0" by (rule bit_word_eqI) (auto simp: bit_simps)
  then have "(x AND NOT 4095) + (x AND 4095) = (x AND NOT 4095) OR (x AND 4095)"
    by (rule disjunctive_add_eq_or)
  also have "\<dots> = x" by (rule bit_word_eqI) (auto simp: bit_simps)
  finally have "x AND NOT 4095 = x - (x AND 4095)" by (simp add: eq_diff_eq)
  then show ?thesis
    using and_4095 [of x] by (simp add: unat_sub word_le_nat_alt)
qed

lemma unat_ROUND:
  assumes "unat x + 4095 < 2 ^ 32"
  shows "unat (ROUND x FLASHPAGE_SIZE) = (unat x + 4095) div 4096 * 4096"
proof -
  have "unat (x + 4095) = unat x + 4095" using assms by (simp add: unat_word_ariths)
  moreover have "ROUND x FLASHPAGE_SIZE = (x + 4095) AND NOT 4095"
    by (simp add: ROUND_def c_const add.commute)
  ultimately show ?thesis
    using and_not_4095 [of "x + 4095"] by (simp only: minus_mod_eq_div_mult)
qed

lemma unat_TRUNC: "unat (TRUNC x FLASHPAGE_SIZE) = unat x div 4096 * 4096"
  using and_not_4095 [of x] by (simp add: TRUNC_def c_const minus_mod_eq_div_mult)

section \<open>Headers\<close>

text \<open>A structure written by the code is read back field by field.\<close>

lemma header_fields:
  assumes "bytes_at fl p 48 = file_bytes name sz nxt st ex" "length name = 32"
  shows "file_name fl p = name" "file_size fl p = sz" "file_next fl p = nxt"
    "file_status fl p = st" "file_exec fl p = ex"
proof -
  have "bytes_at fl p 48 = bytes_at fl p 32 @ bytes_at fl (p + 32) 4 @ bytes_at fl (p + 36) 4
      @ bytes_at fl (p + 40) 4 @ bytes_at fl (p + 44) 4"
    using bytes_at_append [of fl p 32 16] bytes_at_append [of fl "p + 32" 4 12]
      bytes_at_append [of fl "p + 36" 4 8] bytes_at_append [of fl "p + 40" 4 4]
    by (simp add: add.assoc)
  with assms have "bytes_at fl p 32 = name" "bytes_at fl (p + 32) 4 = le_bytes 4 sz"
    "bytes_at fl (p + 36) 4 = le_bytes 4 nxt" "bytes_at fl (p + 40) 4 = le_bytes 4 st"
    "bytes_at fl (p + 44) 4 = le_bytes 4 ex"
    by (simp_all add: file_bytes_def append_eq_append_conv)
  then show "file_name fl p = name" "file_size fl p = sz" "file_next fl p = nxt"
    "file_status fl p = st" "file_exec fl p = ex"
    by (simp_all add: file_name_def file_size_def file_next_def file_status_def file_exec_def
        load32_def le_word_le_bytes_32 c_const)
qed

lemma header_cong:
  assumes "\<And>i. i < 48 \<Longrightarrow> fl' (p + of_nat i) = fl (p + of_nat i)"
  shows "file_name fl' p = file_name fl p" "file_size fl' p = file_size fl p"
    "file_next fl' p = file_next fl p" "file_status fl' p = file_status fl p"
    "file_exec fl' p = file_exec fl p"
proof -
  have f: "load32 fl' (p + of_nat k) = load32 fl (p + of_nat k)" if "k + 4 \<le> 48" for k
    unfolding load32_def using that assms [of "k + _"]
    by (intro arg_cong [where f = le_word] bytes_at_cong) (simp add: add.assoc)
  show "file_size fl' p = file_size fl p"
    "file_next fl' p = file_next fl p" "file_status fl' p = file_status fl p"
    "file_exec fl' p = file_exec fl p"
    using f [of 32] f [of 36] f [of 40] f [of 44]
    by (simp_all add: file_size_def file_next_def file_status_def file_exec_def)
  show "file_name fl' p = file_name fl p"
    unfolding file_name_def c_const using assms by (intro bytes_at_cong) simp
qed

lemma erased_header:
  assumes "\<And>i. i < 48 \<Longrightarrow> fl (p + of_nat i) = 0xFF"
  shows "file_next fl p = FREE_PAGE"
proof -
  have "bytes_at fl (p + 36) 4 = [0xFF, 0xFF, 0xFF, 0xFF]"
    using assms [of 36] assms [of 37] assms [of 38] assms [of 39]
    by (simp add: bytes_at_numeral add.assoc)
  then show ?thesis by (simp add: file_next_def load32_def c_const)
qed

section \<open>The file chain\<close>

text \<open>
  \<open>xip_chain fl first p ps e\<close>: starting at \<open>p\<close> the files are the page-aligned addresses \<open>ps\<close>, each
  followed by the next one after its size rounded up to pages, and \<open>e\<close> is the address after the
  last.  The chain is open when the page at \<open>e\<close> is free.
\<close>

fun xip_chain :: "memory \<Rightarrow> u32 \<Rightarrow> u32 \<Rightarrow> u32 list \<Rightarrow> u32 \<Rightarrow> bool" where
  "xip_chain fl first p [] e \<longleftrightarrow> e = p"
| "xip_chain fl first p (q # qs) e \<longleftrightarrow>
     q = p \<and> file_next fl p = p + ROUND (file_size fl p) FLASHPAGE_SIZE \<and> p < file_next fl p
     \<and> first < file_next fl p \<and> file_next fl p \<noteq> FREE_PAGE \<and> FLASHPAGE_ALIGNED (file_next fl p)
     \<and> xip_chain fl first (file_next fl p) qs e"

definition fs_open :: "xipfs \<Rightarrow> u32 list \<Rightarrow> u32 \<Rightarrow> bool" where
  "fs_open s ps e \<longleftrightarrow>
     module_init s = TINYFS_INITIALIZED \<and> FLASHPAGE_ALIGNED (first_page s)
     \<and> xip_chain (flash s) (first_page s) (first_page s) ps e
     \<and> file_next (flash s) e = FREE_PAGE"

lemma aligned_not_free: "FLASHPAGE_ALIGNED p \<Longrightarrow> p \<noteq> FREE_PAGE"
  by (auto simp: aligned_iff c_const)

lemma free_page_loop_chain:
  assumes "xip_chain fl first p ps e" "file_next fl e = FREE_PAGE" "first \<noteq> FREE_PAGE" "length ps < n"
  shows "free_page_loop n fl first p = Inr (Some e)"
  using assms
proof (induction ps arbitrary: p n)
  case Nil
  then show ?case by (cases n) auto
next
  case (Cons q ps)
  then obtain k where "n = Suc k" by (cases n) auto
  with Cons show ?case by auto
qed

lemma get_first_free_page_open:
  assumes "fs_open s ps e" "length ps < fuel"
  shows "get_first_free_page_addr fuel s = Inr (Some e)"
  using assms free_page_loop_chain [of "flash s" "first_page s" "first_page s" ps e fuel]
  by (simp add: fs_open_def get_first_free_page_addr_def aligned_not_free)

lemma chain_le: "xip_chain fl first p ps e \<Longrightarrow> p \<le> e \<and> (\<forall>q \<in> set ps. q < e)"
  by (induction ps arbitrary: p) fastforce+

lemma chain_aligned:
  "xip_chain fl first p ps e \<Longrightarrow> FLASHPAGE_ALIGNED p \<Longrightarrow>
   FLASHPAGE_ALIGNED e \<and> (\<forall>q \<in> set ps. FLASHPAGE_ALIGNED q)"
  by (induction ps arbitrary: p) auto

text \<open>The chain depends on the headers of its files only.\<close>

lemma chain_cong:
  assumes "\<And>q. q \<in> set ps \<Longrightarrow> file_next fl' q = file_next fl q \<and> file_size fl' q = file_size fl q"
  shows "xip_chain fl' first p ps e \<longleftrightarrow> xip_chain fl first p ps e"
  using assms by (induction ps arbitrary: p) auto

lemma chain_append:
  "xip_chain fl first p (ps @ [e]) e' \<longleftrightarrow> xip_chain fl first p ps e \<and> xip_chain fl first e [e] e'"
  by (induction ps arbitrary: p) auto

section \<open>Looking files up\<close>

definition has_name :: "xipfs \<Rightarrow> u8 list \<Rightarrow> u32 \<Rightarrow> bool" where
  "has_name s name p \<longleftrightarrow> strncmp_eq (file_name (flash s) p) name TINYFS_NAME_MAX"

text \<open>
  Enumeration stops at \<open>e\<close> when the page there is free, and also when the structure there points
  back to the first page, as the last file of a full file system does.
\<close>

definition stops_at :: "xipfs \<Rightarrow> u32 \<Rightarrow> bool" where
  "stops_at s e \<longleftrightarrow> file_next (flash s) e = FREE_PAGE \<or> file_next (flash s) e = first_page s"

lemma get_next_chain:
  assumes "module_init s = TINYFS_INITIALIZED" "stops_at s e"
    and "xip_chain (flash s) (first_page s) (file_next (flash s) p) qs e"
  shows "tinyfs_get_next_file s p = (case qs of [] \<Rightarrow> None | q # _ \<Rightarrow> Some q)"
  using assms by (cases qs) (auto simp: tinyfs_get_next_file_def Let_def stops_at_def)

lemma search_loop_chain:
  assumes "module_init s = TINYFS_INITIALIZED" "stops_at s e"
    and "xip_chain (flash s) (first_page s) (file_next (flash s) p) qs e" "length qs < n"
  shows "search_loop n s name p = Inr (find (has_name s name) qs)"
  using assms(3,4)
proof (induction qs arbitrary: p n)
  case Nil
  then show ?case
    using get_next_chain [OF assms(1,2), of p "[]"] by (cases n) auto
next
  case (Cons q qs)
  from Cons.prems obtain k where n: "n = Suc k" "length qs < k" by (cases n) auto
  have "tinyfs_get_next_file s p = Some q"
    using get_next_chain [OF assms(1,2) Cons.prems(1)] by simp
  moreover have "xip_chain (flash s) (first_page s) (file_next (flash s) q) qs e"
    using Cons.prems(1) by auto
  ultimately show ?case
    using Cons.IH [of q k] n by (simp add: has_name_def)
qed

lemma file_search_chain:
  assumes "module_init s = TINYFS_INITIALIZED" "stops_at s e"
    and "xip_chain (flash s) (first_page s) (first_page s) (p # qs) e" "length qs < n"
  shows "tinyfs_file_search n s name = Inr (find (has_name s name) (p # qs))"
proof -
  have "tinyfs_get_first_file s = Some p"
    using assms(1,3) by (auto simp: tinyfs_get_first_file_def Let_def)
  moreover have "search_loop n s name p = Inr (find (has_name s name) qs)"
    using assms by (intro search_loop_chain [of s e]) auto
  ultimately show ?thesis
    using assms(1) by (simp add: tinyfs_file_search_def has_name_def)
qed

lemma get_first_open:
  "fs_open s ps e \<Longrightarrow> tinyfs_get_first_file s = (case ps of [] \<Rightarrow> None | p # _ \<Rightarrow> Some p)"
  by (cases ps) (auto simp: tinyfs_get_first_file_def fs_open_def Let_def)

lemma file_search_open:
  assumes "fs_open s ps e" "length ps < fuel"
  shows "tinyfs_file_search fuel s name = Inr (find (has_name s name) ps)"
proof (cases ps)
  case Nil
  with get_first_open [OF assms(1)] show ?thesis
    by (simp add: tinyfs_file_search_def)
next
  case (Cons p qs)
  have "tinyfs_file_search fuel s name = Inr (find (has_name s name) (p # qs))"
    by (rule file_search_chain [of s e])
       (use assms Cons in \<open>auto simp: fs_open_def stops_at_def simp del: xip_chain.simps\<close>)
  with Cons show ?thesis by (simp only:)
qed

section \<open>Creating files\<close>

lemma aligned_diff:
  assumes "FLASHPAGE_ALIGNED p" "FLASHPAGE_ALIGNED q"
  shows "FLASHPAGE_ALIGNED (q - p)"
proof -
  obtain a b where ab: "unat p = 4096 * a" "unat q = 4096 * b"
    using assms by (auto simp: aligned_iff elim!: dvdE)
  then have "unat (q - p) = (if p \<le> q then 4096 * (b - a) else 4096 * (b + 1048576 - a))"
    unfolding unat_sub_if' by (simp add: word_le_nat_alt right_diff_distrib')
  then show ?thesis by (simp add: aligned_iff split: if_splits)
qed

lemma other_header:
  assumes "FLASHPAGE_ALIGNED p" "FLASHPAGE_ALIGNED q" "q \<noteq> p" "i < 48"
  shows "48 \<le> unat (q + of_nat i - p)"
proof -
  define d where "d = q - p"
  have "unat d mod 4096 = 0" "unat d \<noteq> 0" "unat d < 4294967296"
    using aligned_diff [OF assms(1,2)] assms(3) unat_u32_less [of d]
    by (simp_all add: d_def aligned_iff unsigned_eq_0_iff)
  then obtain k where "unat d = 4096 * k" "k \<noteq> 0" "k < 1048576" by (auto elim!: dvdE)
  then have "4096 \<le> unat d" "unat d \<le> 4294963200" by linarith+
  then have "48 \<le> unat (d + of_nat i)"
    using assms(4) by (simp add: unat_word_ariths unat_of_nat)
  moreover have "d + of_nat i = q + of_nat i - p" by (simp add: d_def)
  ultimately show ?thesis by simp
qed

lemma and_FF: "(0xFF :: u8) AND b = b"
proof -
  have "(0xFF :: u8) = - 1" by simp
  then show ?thesis by (simp only: and.left_neutral)
qed

lemma header_other:
  assumes "FLASHPAGE_ALIGNED p" "FLASHPAGE_ALIGNED q" "q \<noteq> p"
    and "\<And>x. 48 \<le> unat (x - p) \<Longrightarrow> fl' x = fl x"
  shows "file_next fl' q = file_next fl q" "file_size fl' q = file_size fl q"
    "file_name fl' q = file_name fl q"
  using header_cong [of fl' q fl] other_header [OF assms(1-3)] assms(4) by simp_all

lemma length_c_strncpy [simp]: "length (c_strncpy b name n) = b"
  by (simp add: c_strncpy_def)

lemma c_string_strncpy: "c_string (c_strncpy 32 name 31) = take 31 (c_string name)"
proof -
  let ?t = "take 31 (c_string name)"
  have nz: "\<forall>b \<in> set ?t. b \<noteq> 0"
    by (auto simp: c_string_def dest!: in_set_takeD set_takeWhileD)
  define zs :: "u8 list" where "zs = replicate (31 - length ?t) 0"
  have "c_strncpy 32 name 31 = ?t @ replicate (32 - length ?t) 0"
    by (simp add: c_strncpy_def)
  also have "32 - length ?t = Suc (31 - length ?t)" by simp
  finally have "c_strncpy 32 name 31 = ?t @ 0 # zs" by (simp only: replicate_Suc zs_def)
  moreover have "takeWhile (\<lambda>b. b \<noteq> 0) (?t @ 0 # zs) = ?t @ takeWhile (\<lambda>b. b \<noteq> 0) (0 # zs)"
    by (rule takeWhile_append2) (use nz in blast)
  ultimately show ?thesis by (simp only: c_string_def) simp
qed

text \<open>Writing a fresh header into an erased page.\<close>

lemma header_write:
  assumes hw: "nvmc_spec hw" and al: "FLASHPAGE_ALIGNED e" "unat e + 48 \<le> 524288"
    and er: "\<And>i. i < 48 \<Longrightarrow> fl (e + of_nat i) = 0xFF"
    and bs: "bs = file_bytes nm sz nxt st ex" "length nm = 32"
  shows "\<exists>fl'. flashpage_write hw e (Local bs) sizeof_file_t fl = Inr fl'
    \<and> bytes_at fl' e 48 = bs \<and> (\<forall>x. 48 \<le> unat (x - e) \<longrightarrow> fl' x = fl x)"
proof -
  have len: "length bs = 48" by (simp add: bs file_bytes_def)
  obtain k where "unat e = 4 * (1024 * k)" using al(1) by (auto simp: aligned_iff elim!: dvdE)
  then have "unat (e mod 4) = 0" by (simp only: unat_mod) simp
  then have "e mod 4 = 0" by (simp add: unsigned_eq_0_iff)
  moreover have "e + 48 < 524289" using al(2) by (simp add: word_less_nat_alt unat_word_ariths)
  ultimately obtain fl' where w: "flashpage_write hw e (Local bs) 48 fl = Inr fl'"
    by (simp add: flashpage_write_def c_const source_aligned_def)
  have "steady (Local bs) 0 (\<lambda>i. bs ! i) e (unat 48) fl" by (simp add: steady_def source_byte_def)
  note eff = flashpage_write_effect [OF hw this w]
  have "bytes_at fl' e 48 = bs"
  proof (rule nth_equalityI)
    fix i assume "i < length (bytes_at fl' e 48)"
    then have "i < 48" "unat (of_nat i :: u32) = i" by (simp_all add: unat_of_nat)
    with er [of i] eff [of "e + of_nat i"] show "bytes_at fl' e 48 ! i = bs ! i"
      by (simp add: bytes_at_nth and_FF)
  qed (simp add: len)
  with w eff show ?thesis by (auto simp: c_const)
qed

end
