(* ===== verification/Xipfs_Erase.thy ===== *)
theory Xipfs_Erase
  imports Xipfs_Chain
begin

text \<open>
  Erasing pages: skipping the erase of a page that is already blank does not change the outcome,
  so a run over pages leaves exactly the bytes of those pages at the erased value.
\<close>

section \<open>Erasing pages\<close>

lemma erased_word: "load32 fl a = FREE_PAGE \<Longrightarrow> j < 4 \<Longrightarrow> fl (a + of_nat j) = 0xFF"
proof -
  assume w: "load32 fl a = FREE_PAGE" and j: "j < 4"
  have "bytes_at fl a 4 = le_bytes 4 (load32 fl a)"
    using le_bytes_le_word [of "bytes_at fl a 4", where ?'a = 32] by (simp add: load32_def)
  also have "\<dots> = [0xFF, 0xFF, 0xFF, 0xFF]" by (simp add: w c_const le_bytes_numeral)
  finally show ?thesis
    using j bytes_at_nth [of j 4 fl a] by (auto simp: less_Suc_eq numeral_eq_Suc)
qed

lemma flash_not_needed:
  assumes "\<not> tinyfs_flash_needed fl page" "unat x div 4096 = unat page" "unat page < 128"
  shows "fl x = 0xFF"
proof -
  define i j where "i = unat x mod 4096 div 4" and "j = unat x mod 4"
  have "unat x mod 4096 = 4 * i + j"
    using mod_mod_cancel [of 4 4096 "unat x"] mult_div_mod_eq [of 4 "unat x mod 4096"]
    by (simp add: i_def j_def)
  then have u: "unat x = 4096 * unat page + 4 * i + j"
    using mult_div_mod_eq [of 4096 "unat x"] by (simp add: assms(2))
  have "x = of_nat (unat x)" by simp
  also have "\<dots> = of_nat (4096 * unat page + 4 * i + j)" by (simp only: u)
  finally have x': "x = of_nat (4096 * unat page + 4 * i + j)" .
  have x: "x = flashpage_addr page + of_nat (4 * i) + of_nat j"
    unfolding x' by (simp add: flashpage_addr_def c_const algebra_simps)
  have "i < 1024" "j < 4" by (simp_all add: i_def j_def less_mult_imp_div_less)
  then have "load32 fl (flashpage_addr page + of_nat (4 * i)) = FREE_PAGE"
    using assms(1) by (auto simp: tinyfs_flash_needed_def c_const)
  from erased_word [OF this \<open>j < 4\<close>] show ?thesis by (simp add: x)
qed

lemma erase_page_effect:
  assumes hw: "nvmc_spec hw" and pg: "unat page < 128"
  shows "\<exists>fl'. (if tinyfs_flash_needed fl page then flashpage_erase hw page fl else Inr fl) = Inr fl'
    \<and> (\<forall>x. fl' x = (if unat x div 4096 = unat page then 0xFF else fl x))"
proof (cases "tinyfs_flash_needed fl page")
  case False
  with flash_not_needed [OF False _ pg] show ?thesis by auto
next
  case True
  have "unat (flashpage_addr page) = unat page * 4096"
    using pg by (simp add: flashpage_addr_def c_const unat_word_ariths)
  then have "unat (flashpage_addr page div 4096) = unat page" by (simp add: unat_div)
  moreover have "x div 4096 = y \<longleftrightarrow> unat x div 4096 = unat y" for x y :: u32
    using unat_div [of x 4096] by (auto intro: unsigned_word_eqI)
  ultimately have "x div 4096 = flashpage_addr page div 4096 \<longleftrightarrow> unat x div 4096 = unat page" for x
    by simp
  then show ?thesis
    using True hw pg
    by (simp add: flashpage_erase_def nvmc_spec_def c_const word_less_nat_alt)
qed

lemma flash_pages_effect:
  assumes hw: "nvmc_spec hw" and "unat page + n \<le> 128"
  shows "\<exists>fl'. tinyfs_flash_pages hw page n fl = Inr fl'
    \<and> (\<forall>x. fl' x = (if unat page \<le> unat x div 4096 \<and> unat x div 4096 < unat page + n
                  then 0xFF else fl x))"
  using assms(2)
proof (induction n arbitrary: page fl)
  case 0
  then show ?case by auto
next
  case (Suc n)
  then have "unat page < 128" by simp
  from erase_page_effect [OF hw this, of fl]
  obtain fl1 where fl1: "(if tinyfs_flash_needed fl page then flashpage_erase hw page fl else Inr fl)
      = Inr fl1" "\<And>x. fl1 x = (if unat x div 4096 = unat page then 0xFF else fl x)" by blast
  have "unat (page + 1) = unat page + 1"
    using Suc.prems by (simp add: unat_word_ariths)
  with Suc.IH [of "page + 1" fl1] Suc.prems
  obtain fl' where "tinyfs_flash_pages hw (page + 1) n fl1 = Inr fl'"
    "\<And>x. fl' x = (if unat page + 1 \<le> unat x div 4096 \<and> unat x div 4096 < unat page + 1 + n
                  then 0xFF else fl1 x)" by auto
  then show ?case using fl1 by (auto simp: not_less_eq_eq)
qed

lemma flashpage_page_unat: "unat (flashpage_page a) = unat a div 4096"
  by (simp add: flashpage_page_def c_const unat_div)

end
