(* ===== verification/Xipfs_Properties.thy ===== *)
theory Xipfs_Properties
  imports Xipfs_Erase
begin

text \<open>
  The theorems about XiPFS, each with a concrete file system that satisfies its hypotheses.  The
  sample file systems use \<open>nrf52_nvmc\<close>, a controller with the documented behaviour, and the flash
  pages 32 to 63.
\<close>

section \<open>Sample file systems\<close>

definition nrf52_nvmc :: nvmc where
  "nrf52_nvmc =
     \<lparr>nvmc_program = (\<lambda>old w. old AND w),
      nvmc_erase = (\<lambda>fl a x. if x div FLASHPAGE_SIZE = a div FLASHPAGE_SIZE then 0xFF else fl x)\<rparr>"

lemma nrf52_nvmc_spec: "nvmc_spec nrf52_nvmc"
  by (simp add: nvmc_spec_def nrf52_nvmc_def)

definition blank_fs :: xipfs where
  "blank_fs = \<lparr>flash = (\<lambda>_. 0xFF), first_page = 0x20000, last_page = 0x40000,
     module_init = TINYFS_INITIALIZED\<rparr>"

lemma blank_load32: "load32 (\<lambda>_. 0xFF) a = 0xffffffff"
  by (simp add: load32_def bytes_at_numeral)

lemma blank_open: "fs_open blank_fs [] 0x20000"
  by (simp add: fs_open_def blank_fs_def FLASHPAGE_ALIGNED_def file_next_def blank_load32 c_const)

section \<open>Creating and finding files\<close>

lemma aligned_add: "FLASHPAGE_ALIGNED p \<Longrightarrow> FLASHPAGE_ALIGNED q \<Longrightarrow> FLASHPAGE_ALIGNED (p + q)"
  using aligned_diff [of "p + q" p] aligned_diff [of p 0] aligned_diff [of "0 - q" p]
    aligned_diff [of q 0]
  by (simp add: FLASHPAGE_ALIGNED_def)

lemma aligned_ROUND: "sz \<le> FILESIZE_MAX \<Longrightarrow> FLASHPAGE_ALIGNED (ROUND sz FLASHPAGE_SIZE)"
proof -
  assume "sz \<le> FILESIZE_MAX"
  then have "unat sz + 4095 < 2 ^ 32" by (simp add: word_le_nat_alt c_const)
  from unat_ROUND [OF this] show ?thesis by (simp add: aligned_iff)
qed

lemma aligned_room:
  assumes "unat nxt \<le> 524288" "e < nxt" "FLASHPAGE_ALIGNED e" "FLASHPAGE_ALIGNED nxt"
  shows "unat e + 4096 \<le> unat nxt" "unat e + 48 \<le> 524288"
proof -
  obtain a b where "unat e = 4096 * a" "unat nxt = 4096 * b"
    using assms(3,4) by (auto simp: aligned_iff elim!: dvdE)
  moreover from this have "a < b" using assms(2) by (simp add: word_less_nat_alt)
  ultimately show "unat e + 4096 \<le> unat nxt" by simp
  with assms(1) show "unat e + 48 \<le> 524288" by simp
qed


lemma create_open:
  assumes hw: "nvmc_spec hw" and fs: "fs_open s ps e" and fuel: "length ps < fuel"
    and sz: "sz \<noteq> 0" "sz \<le> FILESIZE_MAX" and ex: "exec = 0 \<or> exec = 1"
    and er: "\<forall>i < 48. flash s (e + of_nat i) = 0xFF"
    and nx: "nxt = e + ROUND sz FLASHPAGE_SIZE" "unat nxt \<le> 524288" "e < nxt" "nxt \<noteq> last_page s"
    and fr: "file_next (flash s) nxt = FREE_PAGE"
  shows "\<exists>s'. tinyfs_create_file fuel hw name sz exec status s = Inr (Some e, s')
    \<and> fs_open s' (ps @ [e]) nxt
    \<and> c_string (file_name (flash s') e) = take 31 (c_string name)
    \<and> file_size (flash s') e = sz \<and> file_status (flash s') e = status \<and> file_exec (flash s') e = exec
    \<and> (\<forall>x. 48 \<le> unat (x - e) \<longrightarrow> flash s' x = flash s x)
    \<and> last_page s' = last_page s"
proof -
  let ?n = "c_strncpy 32 name 31" and ?first = "first_page s"
  let ?bs = "file_bytes ?n sz nxt status exec"
  have fs': "module_init s = TINYFS_INITIALIZED" "FLASHPAGE_ALIGNED ?first"
    "xip_chain (flash s) ?first ?first ps e"
    using fs by (auto simp: fs_open_def)
  have al: "FLASHPAGE_ALIGNED e" "\<forall>q \<in> set ps. FLASHPAGE_ALIGNED q"
    using chain_aligned [OF fs'(3,2)] by auto
  have alx: "FLASHPAGE_ALIGNED nxt"
    using aligned_add [OF al(1) aligned_ROUND [OF sz(2)]] by (simp add: nx(1))
  have "unat e + 48 \<le> 524288"
    using nx(2,3) al(1) alx by (rule aligned_room(2))
  from header_write [OF hw al(1) this, of "flash s" ?bs ?n sz nxt status exec] er
  obtain fl' where w: "flashpage_write hw e (Local ?bs) sizeof_file_t (flash s) = Inr fl'"
    and b: "bytes_at fl' e 48 = ?bs" and frame: "\<And>x. 48 \<le> unat (x - e) \<Longrightarrow> fl' x = flash s x"
    by auto
  note hf = header_fields [OF b]
  have other: "file_next fl' q = file_next (flash s) q \<and> file_size fl' q = file_size (flash s) q"
    if "FLASHPAGE_ALIGNED q" "q \<noteq> e" for q
    using header_other [OF al(1) that frame] by simp
  have "xip_chain fl' ?first ?first ps e"
    using chain_le [OF fs'(3)] al(2) other fs'(3)
    by (subst chain_cong [of ps fl' "flash s"]) auto
  moreover have "?first < nxt"
    using chain_le [OF fs'(3)] nx(3) by auto
  moreover have "file_next fl' nxt = FREE_PAGE"
    using other [OF alx] nx(3) fr by auto
  ultimately have "fs_open (s\<lparr>flash := fl'\<rparr>) (ps @ [e]) nxt"
    using fs'(1,2) hf alx nx aligned_not_free [OF alx]
    by (simp add: fs_open_def chain_append)
  moreover have "tinyfs_create_file fuel hw name sz exec status s = Inr (Some e, s\<lparr>flash := fl'\<rparr>)"
    using get_first_free_page_open [OF fs fuel] fs'(1) sz ex nx w
    by (auto simp: tinyfs_create_file_def Let_def TINYFS_NAME_MAX_def)
  ultimately show ?thesis
    using hf frame c_string_strncpy by auto
qed

text \<open>
  C16: creating a file appends it to the chain.  On an initialised file system with an open chain,
  valid arguments, an erased header in the first free page, and a file that does not end exactly at
  the last page and is followed by a free page, \<open>tinyfs_create_file\<close> returns the page after
  the last file, the chain then is the old one followed by that file and is open again, the fields of the
  new file are the arguments (the name cut to 31 bytes), and nothing but its header has changed.
\<close>

theorem tinyfs_create_appends:
  assumes hw: "nvmc_spec hw" and fs: "fs_open s ps e" and fuel: "length ps < fuel"
    and sz: "sz \<noteq> 0" "sz \<le> FILESIZE_MAX" and ex: "exec = 0 \<or> exec = 1"
    and er: "\<forall>i < 48. flash s (e + of_nat i) = 0xFF"
    and nx: "nxt = e + ROUND sz FLASHPAGE_SIZE" "unat nxt \<le> 524288" "e < nxt" "nxt \<noteq> last_page s"
    and fr: "file_next (flash s) nxt = FREE_PAGE"
  shows "\<exists>s'. tinyfs_create_file fuel hw name sz exec status s = Inr (Some e, s')
    \<and> fs_open s' (ps @ [e]) nxt
    \<and> c_string (file_name (flash s') e) = take 31 (c_string name)
    \<and> file_size (flash s') e = sz \<and> file_status (flash s') e = status \<and> file_exec (flash s') e = exec
    \<and> (\<forall>x. 48 \<le> unat (x - e) \<longrightarrow> flash s' x = flash s x)"
  using create_open [OF assms] by blast

theorem tinyfs_create_appends_witness:
  "\<exists>s'. tinyfs_create_file 1 nrf52_nvmc [0x61] 100 1 TINYFS_STATUS_CREATED blank_fs
      = Inr (Some 0x20000, s')
    \<and> fs_open s' [0x20000] 0x21000 \<and> c_string (file_name (flash s') 0x20000) = [0x61]"
proof -
  have r: "0x20000 + ROUND 100 FLASHPAGE_SIZE = 0x21000" by (simp add: ROUND_def c_const)
  show ?thesis
    using tinyfs_create_appends [OF nrf52_nvmc_spec blank_open, of 1 100 1 "0x21000" "[0x61]"
        TINYFS_STATUS_CREATED] r
    by (auto simp: blank_fs_def c_const file_next_def blank_load32 c_string_def word_le_nat_alt)
qed

text \<open>
  C17: looking a file up is exact.  On an open chain \<open>tinyfs_file_search\<close> ends within as many steps
  as there are files and returns the first file of the chain whose name equals the given one in
  the first 32 bytes, or \<open>NULL\<close> when there is none.
\<close>

theorem tinyfs_search_exact:
  assumes "fs_open s ps e" "length ps < fuel"
  shows "tinyfs_file_search fuel s name =
    Inr (find (\<lambda>p. strncmp_eq (file_name (flash s) p) name TINYFS_NAME_MAX) ps)"
  using file_search_open [OF assms] by (simp add: has_name_def [abs_def])

text \<open>A file system with one file, named \<open>a\<close>, of 4096 bytes.\<close>

definition named_fs :: xipfs where
  "named_fs = blank_fs\<lparr>flash := (\<lambda>_. 0xFF)
     (0x20000 := 0x61, 0x20001 := 0,
      0x20020 := 0, 0x20021 := 0x10, 0x20022 := 0, 0x20023 := 0,
      0x20024 := 0, 0x20025 := 0x10, 0x20026 := 0x02, 0x20027 := 0)\<rparr>"

lemma named_open: "fs_open named_fs [0x20000] 0x21000"
  by (simp add: fs_open_def named_fs_def blank_fs_def FLASHPAGE_ALIGNED_def file_next_def
      file_size_def ROUND_def load32_def bytes_at_numeral c_const)

theorem tinyfs_search_exact_witness:
  "tinyfs_file_search 2 named_fs [0x61] = Inr (Some 0x20000)
   \<and> tinyfs_file_search 2 named_fs [0x62] = Inr None"
  using tinyfs_search_exact [OF named_open, of 2 "[0x61]"] tinyfs_search_exact [OF named_open, of 2 "[0x62]"]
  by (simp add: strncmp_eq_def file_name_def c_string_def c_const bytes_at_numeral named_fs_def)

lemma find_snoc:
  "find P (xs @ [x]) = (case find P xs of None \<Rightarrow> if P x then Some x else None | Some y \<Rightarrow> Some y)"
  by (induction xs) auto

lemma c_string_take: "c_string (take n xs) = take n (c_string xs)"
  unfolding c_string_def
proof (induction xs arbitrary: n)
  case (Cons x xs)
  then show ?case by (cases n) auto
qed simp

lemma has_name_created:
  assumes "c_string (file_name (flash s) e) = take 31 (c_string name)" "length (c_string name) \<le> 31"
  shows "has_name s name e"
  using assms by (simp add: has_name_def strncmp_eq_def TINYFS_NAME_MAX_def c_string_take)

text \<open>A created file is found under its name.\<close>

lemma create_found:
  assumes hw: "nvmc_spec hw" and fs: "fs_open s ps e" and fuel: "length ps + 1 < fuel"
    and sz: "sz \<noteq> 0" "sz \<le> FILESIZE_MAX" and ex: "exec = 0 \<or> exec = 1"
    and er: "\<forall>i < 48. flash s (e + of_nat i) = 0xFF"
    and nx: "nxt = e + ROUND sz FLASHPAGE_SIZE" "unat nxt \<le> 524288" "e < nxt" "nxt \<noteq> last_page s"
    and fr: "file_next (flash s) nxt = FREE_PAGE"
    and nm: "tinyfs_file_search fuel s name = Inr None" "length (c_string name) \<le> 31"
  shows "\<exists>s'. tinyfs_create_file fuel hw name sz exec status s = Inr (Some e, s')
    \<and> fs_open s' (ps @ [e]) nxt \<and> tinyfs_file_search fuel s' name = Inr (Some e)
    \<and> file_size (flash s') e = sz \<and> file_status (flash s') e = status \<and> file_exec (flash s') e = exec
    \<and> (\<forall>x. 48 \<le> unat (x - e) \<longrightarrow> flash s' x = flash s x) \<and> last_page s' = last_page s"
proof -
  from create_open [OF hw fs _ sz ex er nx fr, of fuel name status] fuel
  obtain s' where cr: "tinyfs_create_file fuel hw name sz exec status s = Inr (Some e, s')"
    and fs': "fs_open s' (ps @ [e]) nxt" and n: "c_string (file_name (flash s') e) = take 31 (c_string name)"
    and hd: "file_size (flash s') e = sz" "file_status (flash s') e = status" "file_exec (flash s') e = exec"
    and frame: "\<And>x. 48 \<le> unat (x - e) \<Longrightarrow> flash s' x = flash s x" and l: "last_page s' = last_page s" by auto
  have ch: "xip_chain (flash s) (first_page s) (first_page s) ps e" "FLASHPAGE_ALIGNED (first_page s)"
    using fs by (auto simp: fs_open_def)
  note al = chain_aligned [OF ch]
  have "find (has_name s name) ps = None"
    using file_search_open [OF fs, of fuel name] nm(1) fuel by simp
  then have "\<forall>q \<in> set ps. \<not> has_name s' name q"
    using chain_le [OF ch(1)] al header_other(3) [OF conjunct1 [OF al] _ _ frame]
    by (auto simp: find_None_iff has_name_def)
  then have "find (has_name s' name) ps = None" by (simp add: find_None_iff)
  then have "find (has_name s' name) (ps @ [e]) = Some e"
    using has_name_created [OF n nm(2)] by (simp add: find_snoc)
  with file_search_open [OF fs', of fuel name] fs' cr fuel hd frame l show ?thesis by auto
qed

text \<open>
  C19: the file that fills the file system is lost.  When a created file ends exactly at the last
  page, its \<open>next\<close> pointer is set back to the first page, and every enumeration stops before it:
  if there was a file before, the new file is not found although its creation succeeded.
\<close>

theorem tinyfs_full_hides_last:
  assumes hw: "nvmc_spec hw" and fs: "fs_open s ps e" and ps: "ps \<noteq> []" "length ps < fuel"
    and sz: "sz \<noteq> 0" "sz \<le> FILESIZE_MAX" and ex: "exec = 0 \<or> exec = 1"
    and er: "\<forall>i < 48. flash s (e + of_nat i) = 0xFF"
    and nx: "last_page s = e + ROUND sz FLASHPAGE_SIZE" "unat (last_page s) \<le> 524288" "e < last_page s"
    and nm: "tinyfs_file_search fuel s name = Inr None"
  shows "\<exists>s'. tinyfs_create_file fuel hw name sz exec status s = Inr (Some e, s')
    \<and> tinyfs_file_search fuel s' name = Inr None"
proof -
  let ?n = "c_strncpy 32 name 31" and ?first = "first_page s"
  let ?bs = "file_bytes ?n sz ?first status exec"
  have fs': "module_init s = TINYFS_INITIALIZED" "FLASHPAGE_ALIGNED ?first"
    "xip_chain (flash s) ?first ?first ps e"
    using fs by (auto simp: fs_open_def)
  note al = chain_aligned [OF fs'(3,2)]
  have "FLASHPAGE_ALIGNED (last_page s)"
    using aligned_add [OF conjunct1 [OF al] aligned_ROUND [OF sz(2)]] by (simp add: nx(1))
  then have "unat e + 48 \<le> 524288"
    using nx(2,3) conjunct1 [OF al] by (intro aligned_room(2))
  from header_write [OF hw conjunct1 [OF al] this, of "flash s" ?bs ?n sz ?first status exec] er
  obtain fl' where w: "flashpage_write hw e (Local ?bs) sizeof_file_t (flash s) = Inr fl'"
    and b: "bytes_at fl' e 48 = ?bs" and frame: "\<And>x. 48 \<le> unat (x - e) \<Longrightarrow> fl' x = flash s x"
    by auto
  let ?s = "s\<lparr>flash := fl'\<rparr>"
  note hf = header_fields [OF b]
  note other = header_other [OF conjunct1 [OF al] _ _ frame]
  have same: "q \<in> set ps \<Longrightarrow> FLASHPAGE_ALIGNED q \<and> q \<noteq> e" for q
    using chain_le [OF fs'(3)] al by auto
  have ch: "xip_chain fl' ?first ?first ps e"
    using same other fs'(3) by (subst chain_cong [of ps fl' "flash s"]) auto
  have "find (has_name s name) ps = None"
    using file_search_open [OF fs ps(2), of name] nm by simp
  then have none: "find (has_name ?s name) ps = None"
    using same other(3) by (auto simp: find_None_iff has_name_def)
  obtain p qs where pq: "ps = p # qs" using ps(1) by (cases ps) auto
  have "tinyfs_file_search fuel ?s name = Inr (find (has_name ?s name) (p # qs))"
    using ch pq fs'(1) hf(3) ps(2)
    by (intro file_search_chain [of ?s e]) (simp_all add: stops_at_def del: xip_chain.simps)
  moreover have "tinyfs_create_file fuel hw name sz exec status s = Inr (Some e, ?s)"
    using get_first_free_page_open [OF fs ps(2)] fs'(1) sz ex nx w
    by (auto simp: tinyfs_create_file_def Let_def TINYFS_NAME_MAX_def)
  ultimately show ?thesis using none pq by auto
qed

text \<open>Two pages: a file \<open>b\<close> in the first, then a file \<open>a\<close> that fills the second.\<close>

definition small_fs :: xipfs where
  "small_fs = blank_fs\<lparr>last_page := 0x22000\<rparr>"

theorem tinyfs_full_hides_last_witness:
  "\<exists>s1 s2. tinyfs_create_file 2 nrf52_nvmc [0x62] 100 1 TINYFS_STATUS_CREATED small_fs
      = Inr (Some 0x20000, s1)
    \<and> tinyfs_create_file 2 nrf52_nvmc [0x61] 100 1 TINYFS_STATUS_CREATED s1 = Inr (Some 0x21000, s2)
    \<and> tinyfs_file_search 2 s2 [0x61] = Inr None"
proof -
  have fs: "fs_open small_fs [] 0x20000"
    by (simp add: small_fs_def fs_open_def blank_fs_def FLASHPAGE_ALIGNED_def file_next_def
        blank_load32 c_const)
  have r: "ROUND 100 FLASHPAGE_SIZE = 0x1000" by (simp add: ROUND_def c_const)
  obtain s1 where s1: "tinyfs_create_file 2 nrf52_nvmc [0x62] 100 1 TINYFS_STATUS_CREATED small_fs
      = Inr (Some 0x20000, s1)" "fs_open s1 [0x20000] 0x21000"
    "c_string (file_name (flash s1) 0x20000) = [0x62]"
    and frame: "\<And>x. 48 \<le> unat (x - 0x20000) \<Longrightarrow> flash s1 x = flash small_fs x"
    and pages: "last_page s1 = 0x22000"
    using create_open [OF nrf52_nvmc_spec fs, of 2 100 1 "0x21000" "[0x62]" TINYFS_STATUS_CREATED] r
    by (auto simp: small_fs_def blank_fs_def c_const file_next_def blank_load32 c_string_def
        word_le_nat_alt)
  have er: "\<forall>i < 48. flash s1 (0x21000 + of_nat i) = 0xFF"
  proof (intro allI impI)
    fix i :: nat assume i: "i < 48"
    have "0x21000 + of_nat i - 0x20000 = (0x1000 + of_nat i :: u32)" by simp
    then have "48 \<le> unat (0x21000 + of_nat i - 0x20000 :: u32)"
      using i by (simp add: unat_word_ariths unat_of_nat)
    then show "flash s1 (0x21000 + of_nat i) = 0xFF"
      by (simp only: frame) (simp add: small_fs_def blank_fs_def)
  qed
  have "tinyfs_file_search 2 s1 [0x61] = Inr None"
    using file_search_open [OF s1(2), of 2 "[0x61]"] s1(3)
    by (simp add: has_name_def strncmp_eq_def c_string_take TINYFS_NAME_MAX_def) (simp add: c_string_def)
  from tinyfs_full_hides_last [OF nrf52_nvmc_spec s1(2) _ _ _ _ _ er _ _ _ this, of 100 1] s1(1) r pages
  show ?thesis by (auto simp: c_const word_le_nat_alt)
qed

section \<open>Writing, status and formatting\<close>


text \<open>A file of 4096 bytes in the first page, followed by an empty one.\<close>

definition full_page_fs :: xipfs where
  "full_page_fs = blank_fs\<lparr>flash := (\<lambda>_. 0xFF)
     (0x20020 := 0, 0x20021 := 0x10, 0x20022 := 0, 0x20023 := 0,
      0x20024 := 0, 0x20025 := 0x10, 0x20026 := 0x02, 0x20027 := 0)\<rparr>"

lemma full_page_size: "file_size (flash full_page_fs) 0x20000 = 4096"
  by (simp add: full_page_fs_def file_size_def load32_def bytes_at_numeral)


lemma write_status_effect:
  assumes hw: "nvmc_spec hw" and al: "FLASHPAGE_ALIGNED file" "unat file + 48 \<le> 524288"
  shows "\<exists>fl'. write_status hw file status s = Inr (s\<lparr>flash := fl'\<rparr>)
    \<and> file_status fl' file = file_status (flash s) file AND status
    \<and> (\<forall>x. 4 \<le> unat (x - (file + 40)) \<longrightarrow> fl' x = flash s x)"
proof -
  obtain k where k: "unat file = 4 * (1024 * k)" using al(1) by (auto simp: aligned_iff elim!: dvdE)
  have u: "unat (file + 40) = unat file + 40" using al(2) by (simp add: unat_word_ariths)
  have "unat ((file + 40) mod 4) = 0" unfolding unat_mod u k by simp
  then have "(file + 40) mod 4 = 0" by (simp add: unsigned_eq_0_iff)
  moreover have "file + 40 + 4 < 524289"
    using al(2) by (simp add: word_less_nat_alt unat_word_ariths)
  ultimately obtain fl' where w: "flashpage_write hw (file + 40) (Local (le_bytes 4 status)) 4 (flash s) = Inr fl'"
    by (simp add: flashpage_write_def c_const source_aligned_def)
  have "steady (Local (le_bytes 4 status)) 0 (\<lambda>i. le_bytes 4 status ! i) (file + 40) (unat 4) (flash s)"
    by (simp add: steady_def source_byte_def)
  note eff = flashpage_write_effect [OF hw this w]
  have "bytes_at fl' (file + 40) 4 = le_bytes 4 (file_status (flash s) file AND status)"
  proof (rule nth_equalityI)
    fix i assume "i < length (bytes_at fl' (file + 40) 4)"
    then have i: "i < 4" "unat (of_nat i :: u32) = i" by (simp_all add: unat_of_nat)
    have "le_bytes 4 (file_status (flash s) file) = bytes_at (flash s) (file + 40) 4"
      using le_bytes_le_word [of "bytes_at (flash s) (file + 40) 4", where ?'a = 32]
      by (simp add: file_status_def load32_def)
    with i eff [of "file + 40 + of_nat i"]
    show "bytes_at fl' (file + 40) 4 ! i = le_bytes 4 (file_status (flash s) file AND status) ! i"
      by (simp add: bytes_at_nth le_bytes_and)
  qed simp
  then have "file_status fl' file = file_status (flash s) file AND status"
    unfolding file_status_def [of fl'] load32_def by (simp only: le_word_le_bytes_32)
  with w eff show ?thesis by (auto simp: write_status_def)
qed

definition status_table :: "u32 \<Rightarrow> u32 \<Rightarrow> int \<times> u32" where
  "status_table old new =
     (if old = TINYFS_STATUS_FREE then (0, new)
      else if old = TINYFS_STATUS_CREATED
      then if new = TINYFS_STATUS_FREE then (- 1, old)
           else if new = TINYFS_STATUS_LOADING then (0, new) else (- 1, new)
      else if old = TINYFS_STATUS_LOADING
      then if new = TINYFS_STATUS_LOADING \<or> new = TINYFS_STATUS_LOADED then (0, new) else (- 1, old)
      else (- 1, old))"

text \<open>
  C21: the status of a file only moves forward.  The table of \<open>tinyfs_file_status\<close> on a file in
  flash: which requests are refused (result \<open>- 1\<close>), and the status afterwards.  A request that
  takes a created file to \<open>LOADED\<close> or leaves it \<open>CREATED\<close> is carried out although the result is
  the error code.
\<close>

theorem tinyfs_file_status_table:
  assumes hw: "nvmc_spec hw" and al: "FLASHPAGE_ALIGNED file" "unat file + 48 \<le> 524288"
    and st: "status \<in> {TINYFS_STATUS_FREE, TINYFS_STATUS_CREATED, TINYFS_STATUS_LOADING, TINYFS_STATUS_LOADED}"
    and old: "old = file_status (flash s) file"
      "old \<in> {TINYFS_STATUS_FREE, TINYFS_STATUS_CREATED, TINYFS_STATUS_LOADING, TINYFS_STATUS_LOADED}"
  shows "\<exists>res s'. tinyfs_file_status hw file status s = Inr (res, s')
    \<and> (res, file_status (flash s') file) = status_table old status"
proof -
  obtain fl1 where w1: "write_status hw file status s = Inr (s\<lparr>flash := fl1\<rparr>)"
    "file_status fl1 file = old AND status"
    using write_status_effect [OF hw al, of status s] old(1) by auto
  obtain fl2 where w2: "write_status hw file status (s\<lparr>flash := fl1\<rparr>) = Inr (s\<lparr>flash := fl2\<rparr>)"
    "file_status fl2 file = (old AND status) AND status"
    using write_status_effect [OF hw al, of status "s\<lparr>flash := fl1\<rparr>"] w1(2) by auto
  show ?thesis
    using old(2) st w1 w2 unfolding insert_iff empty_iff
    by (elim disjE FalseE)
       (simp_all add: tinyfs_file_status_def status_table_def c_const flip: old(1))
qed

theorem tinyfs_file_status_table_witness:
  "\<exists>s'. tinyfs_file_status nrf52_nvmc 0x20000 TINYFS_STATUS_LOADED
      (full_page_fs\<lparr>flash := (flash full_page_fs)(0x20028 := 3, 0x20029 := 0, 0x2002a := 0, 0x2002b := 0)\<rparr>)
      = Inr (- 1, s') \<and> file_status (flash s') 0x20000 = TINYFS_STATUS_LOADED"
proof -
  let ?s = "full_page_fs\<lparr>flash := (flash full_page_fs)(0x20028 := 3, 0x20029 := 0, 0x2002a := 0, 0x2002b := 0)\<rparr>"
  have "file_status (flash ?s) 0x20000 = 3"
    by (simp add: file_status_def load32_def bytes_at_numeral)
  from tinyfs_file_status_table [OF nrf52_nvmc_spec _ _ _ this [symmetric], of TINYFS_STATUS_LOADED]
  show ?thesis
    by (auto simp: FLASHPAGE_ALIGNED_def status_table_def c_const)
qed

text \<open>
  C22: formatting.  On an initialised file system whose pages lie in flash, \<open>tinyfs_format\<close> leaves
  the erased value in every byte from the first page up to the last page, changes no other byte,
  and the file system is then open and empty.
\<close>

theorem tinyfs_format_erases:
  assumes hw: "nvmc_spec hw" and ini: "module_init s = TINYFS_INITIALIZED"
    and al: "FLASHPAGE_ALIGNED (first_page s)" "FLASHPAGE_ALIGNED (last_page s)"
    and b: "first_page s < last_page s" "unat (last_page s) \<le> 524288"
  shows "\<exists>fl'. tinyfs_format hw s = Inr (s\<lparr>flash := fl'\<rparr>)
    \<and> (\<forall>x. fl' x = (if first_page s \<le> x \<and> x < last_page s then 0xFF else flash s x))
    \<and> fs_open (s\<lparr>flash := fl'\<rparr>) [] (first_page s)"
proof -
  obtain f l where fl: "unat (first_page s) = 4096 * f" "unat (last_page s) = 4096 * l"
    using al by (auto simp: aligned_iff elim!: dvdE)
  have lt: "f < l" "l \<le> 128" using b fl by (simp_all add: word_less_nat_alt)
  have pg: "unat (flashpage_page (first_page s)) = f" "unat (flashpage_page (last_page s)) = l"
    by (simp_all add: flashpage_page_unat fl)
  then have num: "unat (flashpage_page (last_page s) - flashpage_page (first_page s)) = l - f"
    using lt by (subst unat_sub) (simp_all add: word_le_nat_alt)
  have "unat (flashpage_page (first_page s)) + (l - f) \<le> 128" using pg(1) lt by simp
  from flash_pages_effect [OF hw this, of "flash s"]
  obtain fl' where e: "tinyfs_flash_pages hw (flashpage_page (first_page s)) (l - f) (flash s) = Inr fl'"
    "\<And>x. fl' x = (if f \<le> unat x div 4096 \<and> unat x div 4096 < l then 0xFF else flash s x)"
    using lt(1) by (auto simp: pg(1))
  have "f \<le> unat x div 4096 \<and> unat x div 4096 < l \<longleftrightarrow> first_page s \<le> x \<and> x < last_page s" for x
    using fl less_eq_div_iff_mult_less_eq [of 4096 f "unat x"] div_less_iff_less_mult [of 4096 "unat x" l]
    by (simp add: word_le_nat_alt word_less_nat_alt mult.commute)
  then have eff: "fl' x = (if first_page s \<le> x \<and> x < last_page s then 0xFF else flash s x)" for x
    using e(2) by simp
  have "fl' (first_page s + of_nat i) = 0xFF" if "i < 48" for i
  proof -
    have "unat (first_page s + of_nat i) = 4096 * f + i"
      using that fl(1) lt by (simp add: unat_word_ariths unat_of_nat)
    then show ?thesis
      using that fl lt by (simp add: eff word_le_nat_alt word_less_nat_alt)
  qed
  then have "file_next fl' (first_page s) = FREE_PAGE" by (rule erased_header)
  then have "fs_open (s\<lparr>flash := fl'\<rparr>) [] (first_page s)"
    using ini al(1) by (simp add: fs_open_def)
  with e(1) eff ini num show ?thesis by (auto simp: tinyfs_format_def Let_def)
qed

theorem tinyfs_format_erases_witness:
  "\<exists>fl'. tinyfs_format nrf52_nvmc full_page_fs = Inr (full_page_fs\<lparr>flash := fl'\<rparr>) \<and> fl' 0x20025 = 0xFF
     \<and> fs_open (full_page_fs\<lparr>flash := fl'\<rparr>) [] 0x20000"
proof -
  have s: "first_page full_page_fs = 0x20000" "last_page full_page_fs = 0x40000"
    "module_init full_page_fs = TINYFS_INITIALIZED"
    by (simp_all add: full_page_fs_def blank_fs_def)
  have "FLASHPAGE_ALIGNED (first_page full_page_fs)" "FLASHPAGE_ALIGNED (last_page full_page_fs)"
    by (simp_all add: s FLASHPAGE_ALIGNED_def c_const)
  from tinyfs_format_erases [OF nrf52_nvmc_spec s(3) this] show ?thesis by (auto simp: s)
qed

text \<open>
  C23: the end of a file overlaps the header of the next one.  The pages of a file are counted from
  its content size alone, but the content starts after the 48-byte header.  For a file whose size
  is within 48 bytes of the next page boundary, a write that is inside the size of the file is
  accepted and changes the first byte of the structure that follows it in the chain.
\<close>

theorem tinyfs_write_hits_next_file:
  assumes hw: "nvmc_spec hw" and q: "file_next (flash s) p = p + ROUND (file_size (flash s) p) FLASHPAGE_SIZE"
    and sz: "off = ROUND (file_size (flash s) p) FLASHPAGE_SIZE - 48"
      "48 \<le> unat (ROUND (file_size (flash s) p) FLASHPAGE_SIZE)" "off < file_size (flash s) p"
    and b: "unat (file_next (flash s) p) < 524288"
  shows "\<exists>fl'. tinyfs_file_write hw p off (Local [v]) 1 s = Inr (0, s\<lparr>flash := fl'\<rparr>)
    \<and> fl' (file_next (flash s) p) = flash s (file_next (flash s) p) AND v"
proof -
  let ?q = "file_next (flash s) p"
  have d: "p + 48 + off = ?q" by (simp add: q sz(1))
  have "steady (Local [v]) 0 (\<lambda>_. v) ?q (unat 1) (flash s)"
    by (simp add: steady_def source_byte_def)
  with write_unaligned_effect [OF hw, of "Local [v]" 0 "\<lambda>_. v" ?q 1 "flash s"] b
  obtain fl' where w: "flashpage_write_unaligned hw ?q (Local [v]) 0 1 (flash s) = Inr fl'"
    "fl' ?q = flash s ?q AND v" by auto
  have "\<not> file_size (flash s) p < off + 1"
    using sz(3) by (simp add: word_less_nat_alt unat_word_ariths)
  with w d sz(3) show ?thesis
    by (intro exI [of _ fl'])
       (simp add: tinyfs_file_write_def Let_def sizeof_file_t_def less_not_sym
        del: flashpage_write_unaligned.simps)
qed

theorem tinyfs_write_hits_next_file_witness:
  "\<exists>fl'. tinyfs_file_write nrf52_nvmc 0x20000 4048 (Local [0x41]) 1 full_page_fs
      = Inr (0, full_page_fs\<lparr>flash := fl'\<rparr>) \<and> fl' 0x21000 = 0x41"
proof -
  have nx: "file_next (flash full_page_fs) 0x20000 = 0x21000"
    by (simp add: full_page_fs_def file_next_def load32_def bytes_at_numeral)
  have r: "ROUND 4096 FLASHPAGE_SIZE = 4096" by (simp add: ROUND_def c_const)
  have "flash full_page_fs 0x21000 = 0xFF" by (simp add: full_page_fs_def)
  with tinyfs_write_hits_next_file [OF nrf52_nvmc_spec, of full_page_fs "0x20000" 4048 "0x41"]
  show ?thesis by (simp add: nx full_page_size r)
qed

end
