(* ===== verification/Xipfs_Shell.thy ===== *)
theory Xipfs_Shell
  imports Xipfs_Properties
begin

text \<open>
  The shell commands that work on the file system (\<open>sys/shell/cmds\<close>: \<open>mkbin.c\<close>, \<open>ldbin.c\<close>, \<open>rm.c\<close>, \<open>cp.c\<close>, \<open>ls.c\<close>,
  \<open>df.c\<close>, \<open>cat.c\<close>, \<open>fmtbin.c\<close>) and the two system calls that read files (\<open>exec.c\<close>).  A command gets its arguments as
  C strings, its own name first, and returns its exit status; messages are not modelled.  A file is
  uploaded as a sequence of chunks in base 64.
\<close>

section \<open>Arguments\<close>

definition ascii :: "string \<Rightarrow> u8 list" where
  "ascii s = map of_char s"

definition is_digit :: "u8 \<Rightarrow> bool" where
  "is_digit b \<longleftrightarrow> 48 \<le> b \<and> b \<le> 57"

text \<open>\<open>strtol\<close> in base 10 with a \<open>long\<close> of 32 bits: the value, the number of characters read and whether \<open>errno\<close> is set.\<close>

definition strtol10 :: "u8 list \<Rightarrow> int \<times> nat \<times> bool" where
  "strtol10 str =
     (let blanks = takeWhile (\<lambda>b. b \<in> {9, 10, 11, 12, 13, 32}) str;
          rest = drop (length blanks) str;
          sign = (case rest of c # _ \<Rightarrow> if c = 43 \<or> c = 45 then [c] else [] | [] \<Rightarrow> []);
          digits = takeWhile is_digit (drop (length sign) rest);
          n = foldl (\<lambda>v b. 10 * v + (uint b - 48)) 0 digits;
          v = (if sign = [45] then - n else n)
      in if digits = [] then (0, 0, False)
         else (max (- (2 ^ 31)) (min (2 ^ 31 - 1) v), length blanks + length sign + length digits,
               v < - (2 ^ 31) \<or> 2 ^ 31 - 1 < v))"

definition convert :: "u8 list \<Rightarrow> u32 option" where
  "convert str0 =
     (let str = c_string str0
      in case strtol10 str of (l, endptr, errno) \<Rightarrow>
        if l = - (2 ^ 31) \<and> errno then None
        else if l = 2 ^ 31 - 1 \<and> errno then None
        else if endptr = 0 then None
        else if uint (word_of_int l :: u32) > 2 ^ 32 - 1 then None
        else if l < 0 then None
        else if endptr \<noteq> length str then None
        else Some (word_of_int l))"

section \<open>Creating, removing, copying and listing files\<close>

definition mkbin :: "nat \<Rightarrow> nvmc \<Rightarrow> u8 list list \<Rightarrow> xipfs \<Rightarrow> xip_err + int \<times> xipfs" where
  "mkbin fuel hw argv s =
     (if length argv < 4 then Inr (1, s)
      else ebind (tinyfs_file_search fuel s (argv ! 1)) (\<lambda>file.
        if file \<noteq> None then Inr (1, s)
        else case convert (argv ! 2) of None \<Rightarrow> Inr (1, s)
        | Some sz \<Rightarrow> (case convert (argv ! 3) of None \<Rightarrow> Inr (1, s)
          | Some exec \<Rightarrow>
              if exec \<noteq> 0 \<and> exec \<noteq> 1 then Inr (1, s)
              else ebind (tinyfs_create_file fuel hw (argv ! 1) sz exec TINYFS_STATUS_CREATED s)
                     (\<lambda>(file, s). Inr (if file = None then 1 else 0, s)))))"

fun rm_loop :: "nat \<Rightarrow> nvmc \<Rightarrow> u8 list list \<Rightarrow> xipfs \<Rightarrow> xip_err + xipfs" where
  "rm_loop fuel hw [] s = Inr s"
| "rm_loop fuel hw (name # names) s = ebind (tinyfs_remove fuel hw name s) (\<lambda>(_, s). rm_loop fuel hw names s)"

definition rm :: "nat \<Rightarrow> nvmc \<Rightarrow> u8 list list \<Rightarrow> xipfs \<Rightarrow> xip_err + int \<times> xipfs" where
  "rm fuel hw argv s =
     (if length argv < 2 then Inr (1, s) else ebind (rm_loop fuel hw (drop 1 argv) s) (\<lambda>s. Inr (0, s)))"

definition cp :: "nat \<Rightarrow> nvmc \<Rightarrow> u8 list list \<Rightarrow> xipfs \<Rightarrow> xip_err + int \<times> xipfs" where
  "cp fuel hw argv s =
     (if length argv < 3 then Inr (1, s)
      else ebind (tinyfs_file_search fuel s (argv ! 1)) (\<lambda>r. case r of
        None \<Rightarrow> Inr (1, s)
      | Some file \<Rightarrow>
          if file_status (flash s) file \<noteq> TINYFS_STATUS_LOADED then Inr (1, s)
          else if strncmp_eq (file_name (flash s) file) (argv ! 2) TINYFS_NAME_MAX then Inr (1, s)
          else ebind (tinyfs_create_file fuel hw (argv ! 2) (file_size (flash s) file) (file_exec (flash s) file)
                        TINYFS_STATUS_LOADED s) (\<lambda>(r, s). case r of
            None \<Rightarrow> Inr (1, s)
          | Some new \<Rightarrow>
              ebind (tinyfs_file_write hw new 0 (Flash (file + sizeof_file_t)) (file_size (flash s) file) s)
                (\<lambda>(res, s). Inr (if res \<noteq> 0 then 1 else 0, s)))))"

definition fmtbin :: "nvmc \<Rightarrow> xipfs \<Rightarrow> xip_err + int \<times> xipfs" where
  "fmtbin hw s = ebind (tinyfs_format hw s) (\<lambda>s. Inr (0, s))"

text \<open>The loop \<open>while ((file = tinyfs_get_next_file(file)) != NULL)\<close> with the effect of its body on a value.\<close>

fun each_next :: "nat \<Rightarrow> xipfs \<Rightarrow> ('a \<Rightarrow> u32 \<Rightarrow> 'a) \<Rightarrow> u32 \<Rightarrow> 'a \<Rightarrow> xip_err + 'a" where
  "each_next 0 s f file v = Inl OutOfFuel"
| "each_next (Suc n) s f file v =
     (case tinyfs_get_next_file s file of None \<Rightarrow> Inr v | Some file' \<Rightarrow> each_next n s f file' (f v file'))"

definition count_files :: "nat \<Rightarrow> xipfs \<Rightarrow> xip_err + int" where
  "count_files fuel s =
     (case tinyfs_get_first_file s of None \<Rightarrow> Inr 0 | Some file \<Rightarrow> each_next fuel s (\<lambda>i _. i + 1) file 1)"

text \<open>What \<open>ls\<close> prints about a file: its status, its rights, its address, its size and its name.\<close>

definition print_file_infos :: "memory \<Rightarrow> u32 \<Rightarrow> string \<times> string \<times> u32 \<times> u32 \<times> u8 list" where
  "print_file_infos fl file =
     (if file_status fl file = TINYFS_STATUS_LOADED then ''loaded''
      else if file_status fl file = TINYFS_STATUS_LOADING then ''loading''
      else if file_status fl file = TINYFS_STATUS_CREATED then ''created'' else ''???'',
      if file_exec fl file = 0 then ''-'' else if file_exec fl file = 1 then ''x'' else ''???'',
      file + sizeof_file_t, file_size fl file, c_string (file_name fl file))"

definition ls :: "nat \<Rightarrow> xipfs \<Rightarrow> xip_err + (string \<times> string \<times> u32 \<times> u32 \<times> u8 list) list" where
  "ls fuel s =
     (case tinyfs_get_first_file s of None \<Rightarrow> Inr []
      | Some file \<Rightarrow> each_next fuel s (\<lambda>out file. out @ [print_file_infos (flash s) file]) file
                       [print_file_infos (flash s) file])"

text \<open>\<open>cat\<close> and the system calls \<open>copy_file\<close> and \<open>get_file_size\<close>: the result and the bytes that are printed or copied.\<close>

definition cat :: "nat \<Rightarrow> u8 list list \<Rightarrow> xipfs \<Rightarrow> xip_err + int \<times> u8 list" where
  "cat fuel argv s =
     (if length argv < 2 then Inr (1, [])
      else ebind (tinyfs_file_search fuel s (argv ! 1)) (\<lambda>r. case r of
        None \<Rightarrow> Inr (1, [])
      | Some file \<Rightarrow> Inr (0, bytes_at (flash s) (file + sizeof_file_t) (unat (file_size (flash s) file)) @ [10])))"

definition copy_file :: "nat \<Rightarrow> u8 list \<Rightarrow> u32 \<Rightarrow> xipfs \<Rightarrow> xip_err + int \<times> u8 list" where
  "copy_file fuel name nbyte s =
     ebind (tinyfs_file_search fuel s name) (\<lambda>r. case r of
        None \<Rightarrow> Inr (- 1, [])
      | Some file \<Rightarrow>
          let i = min (unat nbyte) (unat (file_size (flash s) file))
          in Inr (int i, bytes_at (flash s) (file + sizeof_file_t) i))"

definition get_file_size :: "nat \<Rightarrow> u8 list \<Rightarrow> xipfs \<Rightarrow> xip_err + u32 option" where
  "get_file_size fuel name s =
     ebind (tinyfs_file_search fuel s name) (\<lambda>r. case r of
        None \<Rightarrow> Inr None | Some file \<Rightarrow> Inr (Some (file_size (flash s) file)))"

section \<open>Uploading a file\<close>

text \<open>The state of \<open>ldbin\<close>: the file system and the static variable \<open>offset\<close>.\<close>

record ldbin_state =
  ld_fs :: xipfs
  ld_offset :: u32

definition b64 :: "u8 list" where
  "b64 = ascii ''ABCDEFGHIJKLMNOPQRSTUVWXYZabcdefghijklmnopqrstuvwxyz0123456789+/''"

definition count_loading :: "nat \<Rightarrow> xipfs \<Rightarrow> xip_err + int" where
  "count_loading fuel s =
     (let count = (\<lambda>n file. if file_status (flash s) file = TINYFS_STATUS_LOADING then n + 1 else n)
      in case tinyfs_get_first_file s of None \<Rightarrow> Inr 0
         | Some file \<Rightarrow> each_next fuel s count file (count 0 file))"

definition valid_b64 :: "u8 \<Rightarrow> bool" where
  "valid_b64 c \<longleftrightarrow> 65 \<le> c \<and> c \<le> 90 \<or> 97 \<le> c \<and> c \<le> 122 \<or> 48 \<le> c \<and> c \<le> 57 \<or> c = 43 \<or> c = 47 \<or> c = 61"

definition check_chunk :: "u8 list \<Rightarrow> bool" where
  "check_chunk chunk \<longleftrightarrow> chunk \<noteq> [] \<and> length chunk mod 4 = 0 \<and> list_all valid_b64 chunk"

text \<open>\<open>strchr(b64, c) - b64\<close>; the terminating zero is part of the string.\<close>

definition strchr_b64 :: "u8 \<Rightarrow> u32 option" where
  "strchr_b64 c = map_option of_nat (find (\<lambda>i. (b64 @ [0]) ! i = c) [0..<65])"

text \<open>The four characters of a group: the buffer and the number of bytes in it.  The first two must be found.\<close>

definition b64_group :: "u8 \<Rightarrow> u8 \<Rightarrow> u8 \<Rightarrow> u8 \<Rightarrow> xip_err + u8 list \<times> u32" where
  "b64_group c0 c1 c2 c3 =
     (case (strchr_b64 c0, strchr_b64 c1) of
        (Some p0, Some p1) \<Rightarrow>
          (let bytes = push_bit 18 p0 OR push_bit 12 p1;
               (bytes, r) = (case strchr_b64 c2 of Some p2 \<Rightarrow> (bytes OR push_bit 6 p2, 3) | None \<Rightarrow> (bytes, 3 - 1));
               (bytes, r) = (case strchr_b64 c3 of Some p3 \<Rightarrow> (bytes OR p3, r) | None \<Rightarrow> (bytes, r - 1))
           in Inr ([ucast (drop_bit 16 bytes AND 0xff), ucast (drop_bit 8 bytes AND 0xff), ucast (bytes AND 0xff)], r))
      | _ \<Rightarrow> Inl NullPointer)"

text \<open>The chunk is a multiple of four characters long.\<close>

fun b64decode :: "nvmc \<Rightarrow> u32 \<Rightarrow> u8 list \<Rightarrow> ldbin_state \<Rightarrow> xip_err + ldbin_state" where
  "b64decode hw file (c0 # c1 # c2 # c3 # chunk) st =
     (if ld_offset st < file_size (flash (ld_fs st)) file then
        ebind (b64_group c0 c1 c2 c3) (\<lambda>(buf, r).
          ebind (tinyfs_file_write hw file (ld_offset st) (Local buf) r (ld_fs st)) (\<lambda>(_, s).
            b64decode hw file chunk (st\<lparr>ld_fs := s, ld_offset := ld_offset st + r\<rparr>)))
      else Inr st)"
| "b64decode hw file _ st = Inr st"

text \<open>\<open>assert(tinyfs_file_status(file, status) == 0)\<close>\<close>

definition assert_status :: "nvmc \<Rightarrow> u32 \<Rightarrow> u32 \<Rightarrow> ldbin_state \<Rightarrow> xip_err + ldbin_state" where
  "assert_status hw file status st =
     ebind (tinyfs_file_status hw file status (ld_fs st)) (\<lambda>(res, s).
       if res = 0 then Inr (st\<lparr>ld_fs := s\<rparr>) else Inl AssertFailed)"

definition ldbin :: "nat \<Rightarrow> nvmc \<Rightarrow> u8 list list \<Rightarrow> ldbin_state \<Rightarrow> xip_err + int \<times> ldbin_state" where
  "ldbin fuel hw argv st =
     (if length argv < 3 then Inr (1, st)
      else ebind (tinyfs_file_search fuel (ld_fs st) (argv ! 1)) (\<lambda>r. case r of
        None \<Rightarrow> Inr (1, st)
      | Some file \<Rightarrow>
          if \<not> check_chunk (c_string (argv ! 2)) then Inr (1, st)
          else ebind (count_loading fuel (ld_fs st)) (\<lambda>loading.
            if loading > 1 then Inl AssertFailed
            else if loading = 1 \<and> file_status (flash (ld_fs st)) file \<noteq> TINYFS_STATUS_LOADING then Inr (1, st)
            else
              ebind (if file_status (flash (ld_fs st)) file = TINYFS_STATUS_CREATED
                     then assert_status hw file TINYFS_STATUS_LOADING st else Inr st) (\<lambda>st.
              ebind (b64decode hw file (c_string (argv ! 2)) st) (\<lambda>st.
                if file_size (flash (ld_fs st)) file = ld_offset st
                then ebind (assert_status hw file TINYFS_STATUS_LOADED st) (\<lambda>st. Inr (0, st\<lparr>ld_offset := 0\<rparr>))
                else Inr (0, st))))))"

section \<open>Base 64\<close>

text \<open>The encoding of bytes, three at a time.\<close>

definition b64_char :: "u32 \<Rightarrow> nat \<Rightarrow> u8" where
  "b64_char n k = b64 ! unat (drop_bit (18 - 6 * k) n AND 63)"

definition join_bytes :: "u8 \<Rightarrow> u8 \<Rightarrow> u8 \<Rightarrow> u32" where
  "join_bytes a b c = push_bit 16 (ucast a) OR push_bit 8 (ucast b) OR ucast c"

fun b64_encode :: "u8 list \<Rightarrow> u8 list" where
  "b64_encode [] = []"
| "b64_encode [a] = (let n = join_bytes a 0 0 in [b64_char n 0, b64_char n 1, 61, 61])"
| "b64_encode [a, b] = (let n = join_bytes a b 0 in [b64_char n 0, b64_char n 1, b64_char n 2, 61])"
| "b64_encode (a # b # c # bs) =
     (let n = join_bytes a b c in b64_char n 0 # b64_char n 1 # b64_char n 2 # b64_char n 3 # b64_encode bs)"

lemma b64_bytes:
  "b64 = [65, 66, 67, 68, 69, 70, 71, 72, 73, 74, 75, 76, 77, 78, 79, 80, 81, 82, 83, 84, 85, 86, 87, 88, 89, 90,
     97, 98, 99, 100, 101, 102, 103, 104, 105, 106, 107, 108, 109, 110, 111, 112, 113, 114, 115, 116, 117, 118, 119, 120, 121, 122,
     48, 49, 50, 51, 52, 53, 54, 55, 56, 57, 43, 47]"
  by (simp add: b64_def ascii_def)

lemma b64_table: "length b64 = 64" "distinct b64" "list_all valid_b64 b64" "0 \<notin> set b64" "61 \<notin> set b64"
  by (simp_all add: b64_bytes valid_b64_def)

lemma find_index:
  assumes "distinct xs" "i < length xs"
  shows "find (\<lambda>j. (xs @ ys) ! j = xs ! i) [0..<length xs + k] = Some i"
proof -
  have "(xs @ ys) ! j \<noteq> xs ! i" if "j < i" for j using assms that by (simp add: nth_append nth_eq_iff_index_eq)
  then show ?thesis using assms(2) by (auto simp: find_Some_iff nth_append intro!: exI [of _ i])
qed

lemma b64_nth:
  assumes "i < 64"
  shows "strchr_b64 (b64 ! i) = Some (of_nat i)" "valid_b64 (b64 ! i)" "b64 ! i \<noteq> 0"
proof -
  show "strchr_b64 (b64 ! i) = Some (of_nat i)"
    using find_index [OF b64_table(2), of i "[0]" 1] assms by (simp add: strchr_b64_def b64_table(1))
  have "b64 ! i \<in> set b64" using assms b64_table(1) by simp
  with b64_table(3,4) show "valid_b64 (b64 ! i)" "b64 ! i \<noteq> 0" unfolding list_all_iff by metis+
qed

lemma b64_pad: "strchr_b64 61 = None" "valid_b64 61"
proof -
  have "(b64 @ [0]) ! i \<noteq> 61" if "i < 65" for i
    using b64_table(1,5) that nth_mem [of i "b64 @ [0]"] by (auto simp del: nth_mem)
  then show "strchr_b64 61 = None" by (auto simp: strchr_b64_def find_None_iff)
  show "valid_b64 61" by (simp add: valid_b64_def)
qed

lemma and_63: "w AND 63 = take_bit 6 (w :: u32)" and and_255: "w AND 0xff = take_bit 8 (w :: u32)"
  by (simp_all add: take_bit_eq_mask mask_eq_exp_minus_1)

lemma unat_and_63: "unat (w AND 63 :: u32) < 64"
proof -
  have "unat (w AND 63) = unat w mod 2 ^ 6" unfolding and_63 by (metis unsigned_take_bit_eq take_bit_eq_mod)
  then show ?thesis by simp
qed

lemma strchr_char: "strchr_b64 (b64_char n k) = Some (drop_bit (18 - 6 * k) n AND 63)"
  unfolding b64_char_def b64_nth(1) [OF unat_and_63] by simp

lemma strchr_chars:
  "strchr_b64 (b64_char n 0) = Some (drop_bit 18 n AND 63)" "strchr_b64 (b64_char n 1) = Some (drop_bit 12 n AND 63)"
  "strchr_b64 (b64_char n 2) = Some (drop_bit 6 n AND 63)" "strchr_b64 (b64_char n 3) = Some (n AND 63)"
  using strchr_char [of n 0] strchr_char [of n 1] strchr_char [of n 2] strchr_char [of n 3] by simp_all

lemma char_valid: "valid_b64 (b64_char n k)" "b64_char n k \<noteq> 0"
  unfolding b64_char_def by (rule b64_nth, rule unat_and_63)+

lemma group_digits:
  "push_bit 18 (drop_bit 18 n AND 63) OR push_bit 12 (drop_bit 12 n AND 63) OR push_bit 6 (drop_bit 6 n AND 63) OR (n AND 63)
     = take_bit 24 (n :: u32)"
proof (rule bit_word_eqI)
  fix i assume "i < LENGTH(32)"
  consider "i < 6" | "6 \<le> i" "i < 12" | "12 \<le> i" "i < 18" | "18 \<le> i" "i < 24" | "24 \<le> i" by linarith
  then show "bit (push_bit 18 (drop_bit 18 n AND 63) OR push_bit 12 (drop_bit 12 n AND 63) OR push_bit 6 (drop_bit 6 n AND 63) OR (n AND 63)) i
      = bit (take_bit 24 n) i"
    unfolding and_63 bit_or_iff bit_push_bit_iff bit_take_bit_iff bit_drop_bit_eq comp_def using \<open>i < LENGTH(32)\<close> by cases auto
qed

lemmas join_bit_simps = join_bytes_def bit_or_iff bit_push_bit_iff bit_drop_bit_eq bit_ucast_iff bit_take_bit_iff comp_def

lemma join_bits:
  "take_bit 24 (join_bytes a b c) = join_bytes a b c"
  "ucast (drop_bit 16 (join_bytes a b c) AND 0xff) = a" "ucast (drop_bit 8 (join_bytes a b c) AND 0xff) = b"
  "ucast (join_bytes a b c AND 0xff) = c"
proof -
  have hi: "\<not> bit x i" if "8 \<le> i" for x :: u8 and i using that bit_imp_le_length [of x i] by auto
  show "take_bit 24 (join_bytes a b c) = join_bytes a b c"
    unfolding join_bit_simps by (rule bit_word_eqI) (use hi in \<open>auto simp: join_bit_simps\<close>)
  show "ucast (drop_bit 16 (join_bytes a b c) AND 0xff) = a"
    unfolding and_255 by (rule bit_word_eqI) (unfold join_bit_simps, use hi in auto)
  show "ucast (drop_bit 8 (join_bytes a b c) AND 0xff) = b"
    unfolding and_255 by (rule bit_word_eqI) (unfold join_bit_simps, use hi in auto)
  show "ucast (join_bytes a b c AND 0xff) = c"
    unfolding and_255 by (rule bit_word_eqI) (unfold join_bit_simps, use hi in auto)
qed

lemma join_empty_digit:
  "join_bytes a b 0 AND 63 = 0" "drop_bit 6 (join_bytes a 0 0) AND 63 = 0" "join_bytes a 0 0 AND 63 = 0"
  unfolding and_63 by (rule bit_word_eqI, unfold join_bit_simps, auto)+

lemma group_encoded:
  "b64_group (b64_char (join_bytes a b c) 0) (b64_char (join_bytes a b c) 1) (b64_char (join_bytes a b c) 2) (b64_char (join_bytes a b c) 3)
     = Inr ([a, b, c], 3)"
  "b64_group (b64_char (join_bytes a b 0) 0) (b64_char (join_bytes a b 0) 1) (b64_char (join_bytes a b 0) 2) 61 = Inr ([a, b, 0], 2)"
  "b64_group (b64_char (join_bytes a 0 0) 0) (b64_char (join_bytes a 0 0) 1) 61 61 = Inr ([a, 0, 0], 1)"
proof -
  have n: "push_bit 18 (drop_bit 18 (join_bytes a b c) AND 63) OR push_bit 12 (drop_bit 12 (join_bytes a b c) AND 63)
      OR push_bit 6 (drop_bit 6 (join_bytes a b c) AND 63) OR (join_bytes a b c AND 63) = join_bytes a b c" for a b c
    unfolding group_digits join_bits(1) ..
  have 3: "[ucast (drop_bit 16 (join_bytes a b c) AND 0xff), ucast (drop_bit 8 (join_bytes a b c) AND 0xff), ucast (join_bytes a b c AND 0xff)]
      = [a, b, c]" for a b c unfolding join_bits ..
  note g = b64_group_def strchr_chars b64_pad(1) prod.case option.case Let_def or.assoc
  show "b64_group (b64_char (join_bytes a b c) 0) (b64_char (join_bytes a b c) 1) (b64_char (join_bytes a b c) 2) (b64_char (join_bytes a b c) 3)
     = Inr ([a, b, c], 3)"
    by (simp only: g n 3)
  have "(3 - 1 :: u32) = 2" "(2 - 1 :: u32) = 1" "push_bit 6 (0 :: u32) = 0" by simp_all
  note g = g this
  show "b64_group (b64_char (join_bytes a b 0) 0) (b64_char (join_bytes a b 0) 1) (b64_char (join_bytes a b 0) 2) 61 = Inr ([a, b, 0], 2)"
    using n [of a b 0, unfolded join_empty_digit or.right_neutral] by (simp only: g 3)
  show "b64_group (b64_char (join_bytes a 0 0) 0) (b64_char (join_bytes a 0 0) 1) 61 61 = Inr ([a, 0, 0], 1)"
    using n [of a 0 0, unfolded join_empty_digit g or.right_neutral] by (simp only: g 3)
qed

section \<open>A file while it is uploaded\<close>

text \<open>
  The last file \<open>e\<close> of a chain whose content fits before the next page, and the file systems in which the bytes \<open>w\<close> of
  its content are written and its status is \<open>st\<close>.
\<close>

definition upload_base :: "xipfs \<Rightarrow> u32 list \<Rightarrow> u32 \<Rightarrow> u32 \<Rightarrow> bool" where
  "upload_base s1 ps e nxt \<longleftrightarrow>
     fs_open s1 (ps @ [e]) nxt \<and> unat nxt \<le> 524288 \<and> unat e + 48 + unat (file_size (flash s1) e) \<le> unat nxt"

definition upload_at :: "xipfs \<Rightarrow> u32 \<Rightarrow> u8 list \<Rightarrow> u32 \<Rightarrow> xipfs \<Rightarrow> bool" where
  "upload_at s1 e w st s \<longleftrightarrow>
     module_init s = module_init s1 \<and> first_page s = first_page s1 \<and> last_page s = last_page s1
     \<and> (\<forall>x. 48 + unat (file_size (flash s1) e) \<le> unat (x - e) \<longrightarrow> flash s x = flash s1 x)
     \<and> (\<forall>i < 48. \<not> (40 \<le> i \<and> i < 44) \<longrightarrow> flash s (e + of_nat i) = flash s1 (e + of_nat i))
     \<and> file_status (flash s) e = st
     \<and> (\<forall>i < unat (file_size (flash s1) e). flash s (e + 48 + of_nat i) = (if i < length w then w ! i else 0xFF))"

lemma base_facts:
  assumes "upload_base s1 ps e nxt"
  shows "FLASHPAGE_ALIGNED e" "unat e + 48 + unat (file_size (flash s1) e) \<le> 524288" "\<And>q. q \<in> set ps \<Longrightarrow> unat q + 4096 \<le> unat e" "e < nxt"
proof -
  have fs: "xip_chain (flash s1) (first_page s1) (first_page s1) ps e" "xip_chain (flash s1) (first_page s1) e [e] nxt"
    "FLASHPAGE_ALIGNED (first_page s1)" and n: "unat e + 48 + unat (file_size (flash s1) e) \<le> unat nxt" "unat nxt \<le> 524288"
    using assms by (auto simp: upload_base_def fs_open_def chain_append)
  note al = chain_aligned [OF fs(1,3)] and le = chain_le [OF fs(1)]
  show "FLASHPAGE_ALIGNED e" using al by simp
  show "unat e + 48 + unat (file_size (flash s1) e) \<le> 524288" using n by simp
  show "e < nxt" using n by (simp add: word_less_nat_alt)
  show "unat q + 4096 \<le> unat e" if "q \<in> set ps" for q
    using aligned_room(1) [of e q] al le that n by auto
qed

lemma header_region:
  assumes b: "upload_base s1 ps e nxt" and q: "q \<in> set ps \<or> q = nxt" and i: "i < 48"
  shows "48 + unat (file_size (flash s1) e) \<le> unat (q + of_nat i - e)"
  using q
proof
  note f = base_facts [OF b]
  assume "q \<in> set ps"
  then have "unat q + 4096 \<le> unat e" by (rule f)
  then have "unat (q + of_nat i) = unat q + i" "unat q + i < unat e"
    using i f(2) by (simp_all add: unat_word_ariths unat_of_nat)
  then show ?thesis using f(2) by (simp add: unat_sub_if_size word_size)
next
  note f = base_facts [OF b]
  assume n: "q = nxt"
  have "unat nxt \<le> 524288" "unat e + 48 + unat (file_size (flash s1) e) \<le> unat nxt" using b by (auto simp: upload_base_def)
  moreover from this have "unat (nxt + of_nat i) = unat nxt + i" using i by (simp add: unat_word_ariths unat_of_nat)
  ultimately show ?thesis unfolding n using i by (simp add: unat_sub_if_size)
qed

text \<open>What the upload leaves as it was: the chain, the names and the status of the other files.\<close>

lemma upload_headers:
  assumes b: "upload_base s1 ps e nxt" and u: "upload_at s1 e w st s"
  shows "q \<in> set ps \<or> q = nxt \<Longrightarrow> file_status (flash s) q = file_status (flash s1) q"
    "q \<in> set (ps @ [e]) \<or> q = nxt \<Longrightarrow> file_name (flash s) q = file_name (flash s1) q \<and> file_size (flash s) q = file_size (flash s1) q
       \<and> file_next (flash s) q = file_next (flash s1) q \<and> file_exec (flash s) q = file_exec (flash s1) q"
proof -
  have out: "flash s (q + of_nat i) = flash s1 (q + of_nat i)" if "q \<in> set ps \<or> q = nxt" "i < 48" for q i
    using header_region [OF b that] u by (simp add: upload_at_def)
  show "file_status (flash s) q = file_status (flash s1) q" if "q \<in> set ps \<or> q = nxt"
    by (rule header_cong) (rule out [OF that])
  have own: "flash s (e + of_nat i) = flash s1 (e + of_nat i)" if "i < 40 \<or> 44 \<le> i \<and> i < 48" for i
    using u that by (auto simp: upload_at_def)
  have "bytes_at (flash s) (e + of_nat k) n = bytes_at (flash s1) (e + of_nat k) n" if "k + n \<le> 40 \<or> 44 \<le> k \<and> k + n \<le> 48" for k n
  proof (rule nth_equalityI)
    fix i assume "i < length (bytes_at (flash s) (e + of_nat k) n)"
    then have "i < n" by simp
    with own [of "k + i"] that show "bytes_at (flash s) (e + of_nat k) n ! i = bytes_at (flash s1) (e + of_nat k) n ! i"
      by (auto simp: bytes_at_nth add.assoc)
  qed simp
  note o = this [of 0 32] this [of 32 4] this [of 36 4] this [of 44 4]
  have "file_name (flash s) e = file_name (flash s1) e \<and> file_size (flash s) e = file_size (flash s1) e
       \<and> file_next (flash s) e = file_next (flash s1) e \<and> file_exec (flash s) e = file_exec (flash s1) e"
    using o by (simp add: file_name_def file_size_def file_next_def file_exec_def load32_def TINYFS_NAME_MAX_def)
  moreover have "file_name (flash s) q = file_name (flash s1) q \<and> file_size (flash s) q = file_size (flash s1) q
       \<and> file_next (flash s) q = file_next (flash s1) q \<and> file_exec (flash s) q = file_exec (flash s1) q" if "q \<in> set ps \<or> q = nxt" for q
    using header_cong [of "flash s" q "flash s1"] out [OF that] by simp
  ultimately show "file_name (flash s) q = file_name (flash s1) q \<and> file_size (flash s) q = file_size (flash s1) q
       \<and> file_next (flash s) q = file_next (flash s1) q \<and> file_exec (flash s) q = file_exec (flash s1) q" if "q \<in> set (ps @ [e]) \<or> q = nxt"
    using that by auto
qed

lemma upload_open:
  assumes b: "upload_base s1 ps e nxt" and u: "upload_at s1 e w st s"
  shows "fs_open s (ps @ [e]) nxt"
proof -
  have "xip_chain (flash s) (first_page s1) (first_page s1) (ps @ [e]) nxt"
    using b upload_headers(2) [OF b u] by (subst chain_cong [of "ps @ [e]" _ "flash s1"]) (auto simp: upload_base_def fs_open_def)
  moreover have "file_next (flash s) nxt = file_next (flash s1) nxt" using upload_headers(2) [OF b u] by blast
  ultimately show ?thesis using b u by (simp add: upload_base_def upload_at_def fs_open_def)
qed

lemma upload_search:
  assumes b: "upload_base s1 ps e nxt" and u: "upload_at s1 e w st s" and fuel: "Suc (length ps) < fuel"
  shows "tinyfs_file_search fuel s name = tinyfs_file_search fuel s1 name"
proof -
  have "fs_open s1 (ps @ [e]) nxt" using b by (simp add: upload_base_def)
  note file_search_open [OF this] file_search_open [OF upload_open [OF b u]]
  moreover have "find (has_name s name) (ps @ [e]) = find (has_name s1 name) (ps @ [e])"
    using upload_headers(2) [OF b u] by (intro find_cong) (auto simp: has_name_def)
  ultimately show ?thesis using fuel by simp
qed

text \<open>Enumerating the files.\<close>

lemma each_next_chain:
  assumes "module_init s = TINYFS_INITIALIZED" "stops_at s e"
    and "xip_chain (flash s) (first_page s) (file_next (flash s) p) qs e" "length qs < n"
  shows "each_next n s f p v = Inr (foldl f v qs)"
  using assms(3,4)
proof (induction qs arbitrary: n p v)
  case Nil
  then show ?case using get_next_chain [OF assms(1,2) Nil(1)] by (cases n) auto
next
  case (Cons q qs)
  then obtain m where n: "n = Suc m" by (cases n) auto
  have "xip_chain (flash s) (first_page s) (file_next (flash s) q) qs e" using Cons.prems(1) by auto
  with Cons get_next_chain [OF assms(1,2) Cons.prems(1)] n show ?case by simp
qed

lemma each_file_open:
  assumes "fs_open s ps e" "length ps < fuel"
  shows "(case tinyfs_get_first_file s of None \<Rightarrow> Inr z | Some file \<Rightarrow> each_next fuel s f file (f z file)) = Inr (foldl f z ps)"
proof (cases ps)
  case Nil
  with get_first_open [OF assms(1)] show ?thesis by simp
next
  case (Cons p qs)
  have "stops_at s e" "module_init s = TINYFS_INITIALIZED" using assms(1) by (simp_all add: fs_open_def stops_at_def)
  moreover have "xip_chain (flash s) (first_page s) (file_next (flash s) p) qs e" using assms(1) Cons by (auto simp: fs_open_def)
  ultimately have "each_next fuel s f p (f z p) = Inr (foldl f (f z p) qs)" using assms(2) Cons by (intro each_next_chain) auto
  with get_first_open [OF assms(1)] Cons show ?thesis by simp
qed

lemma count_loading_open:
  assumes "fs_open s ps e" "length ps < fuel"
  shows "count_loading fuel s = Inr (int (length (filter (\<lambda>p. file_status (flash s) p = TINYFS_STATUS_LOADING) ps)))"
proof -
  have "foldl (\<lambda>n file. if P file then n + 1 else n) (int k) ps = int (k + length (filter P ps))" for P k
  proof (induction ps arbitrary: k)
    case (Cons p ps)
    from Cons [of k] Cons [of "Suc k"] show ?case by (simp add: add.commute)
  qed simp
  from this [where k = 0] have "foldl (\<lambda>n file. if file_status (flash s) file = TINYFS_STATUS_LOADING then n + 1 else n) 0 ps
      = int (length (filter (\<lambda>p. file_status (flash s) p = TINYFS_STATUS_LOADING) ps))" by simp
  with each_file_open [OF assms, of "0 :: int" "\<lambda>n file. if file_status (flash s) file = TINYFS_STATUS_LOADING then n + 1 else n"]
  show ?thesis unfolding count_loading_def Let_def by simp
qed

lemma upload_count:
  assumes b: "upload_base s1 ps e nxt" and u: "upload_at s1 e w st s" and fuel: "Suc (length ps) < fuel"
    and no: "\<forall>q \<in> set ps. file_status (flash s1) q \<noteq> TINYFS_STATUS_LOADING"
  shows "count_loading fuel s = Inr (if st = TINYFS_STATUS_LOADING then 1 else 0)"
proof -
  have "filter (\<lambda>p. file_status (flash s) p = TINYFS_STATUS_LOADING) ps = []"
    using no upload_headers(1) [OF b u] by (auto simp: filter_empty_conv)
  moreover have "file_status (flash s) e = st" using u by (simp add: upload_at_def)
  ultimately show ?thesis using count_loading_open [OF upload_open [OF b u], of fuel] fuel by simp
qed

section \<open>The steps of an upload\<close>

lemma unat_small: "i < 2 ^ 32 \<Longrightarrow> unat (of_nat i :: u32) = i"
  by (simp add: unat_of_nat)

lemma unat_minus_const:
  assumes "k \<le> 524288"
  shows "unat (x - (e + of_nat k) :: u32) = (if k \<le> unat (x - e) then unat (x - e) - k else unat (x - e) + 2 ^ 32 - k)"
proof -
  have "unat (y - of_nat k :: u32) = (if k \<le> unat y then unat y - k else unat y + 2 ^ 32 - k)" for y
    using assms unat_small [of k] by (simp add: unat_sub_if_size word_size)
  from this [of "x - e"] show ?thesis by (simp add: diff_diff_add)
qed

lemma unat_content: "48 + i < 2 ^ 32 \<Longrightarrow> unat (e + 48 + of_nat i - e :: u32) = 48 + i"
proof -
  assume "48 + i < 2 ^ 32"
  then have "unat (of_nat (48 + i) :: u32) = 48 + i" by (rule unat_small)
  then show ?thesis by simp
qed

lemma upload_status:
  assumes hw: "nvmc_spec hw" and b: "upload_base s1 ps e nxt" and u: "upload_at s1 e w old s"
  shows "\<exists>s'. write_status hw e status s = Inr s' \<and> upload_at s1 e w (old AND status) s'"
proof -
  note f = base_facts [OF b]
  have "unat e + 48 \<le> 524288" using f(2) by simp
  from write_status_effect [OF hw f(1) this, of status s] obtain fl' where w: "write_status hw e status s = Inr (s\<lparr>flash := fl'\<rparr>)"
    and st: "file_status fl' e = old AND status" and fr: "\<And>x. 4 \<le> unat (x - (e + 40)) \<Longrightarrow> fl' x = flash s x"
    using u by (auto simp: upload_at_def)
  have eq: "fl' x = flash s x" if "unat (x - e) < 40 \<or> 44 \<le> unat (x - e)" for x
    using fr [of x] that unat_minus_const [of 40 x e] by auto
  have "fl' (e + of_nat i) = flash s (e + of_nat i)" if "i < 48" "\<not> (40 \<le> i \<and> i < 44)" for i
    using that by (intro eq) (auto simp: unat_small)
  moreover have "fl' (e + 48 + of_nat i) = flash s (e + 48 + of_nat i)" if "i < unat (file_size (flash s1) e)" for i
    using unat_content [of i e] that f(2) by (intro eq) simp
  ultimately have "upload_at s1 e w (old AND status) (s\<lparr>flash := fl'\<rparr>)"
    using u st eq by (simp add: upload_at_def)
  with w show ?thesis by blast
qed

lemma upload_starts:
  assumes hw: "nvmc_spec hw" and b: "upload_base s1 ps e nxt" and u: "upload_at s1 e w TINYFS_STATUS_CREATED (ld_fs st)"
  shows "\<exists>s'. assert_status hw e TINYFS_STATUS_LOADING st = Inr (st\<lparr>ld_fs := s'\<rparr>) \<and> upload_at s1 e w TINYFS_STATUS_LOADING s'"
proof -
  from upload_status [OF hw b u, of TINYFS_STATUS_LOADING] obtain s2 where
    s2: "write_status hw e TINYFS_STATUS_LOADING (ld_fs st) = Inr s2" "upload_at s1 e w TINYFS_STATUS_LOADING s2" by (auto simp: c_const)
  from upload_status [OF hw b s2(2), of TINYFS_STATUS_LOADING] obtain s3 where
    s3: "write_status hw e TINYFS_STATUS_LOADING s2 = Inr s3" "upload_at s1 e w TINYFS_STATUS_LOADING s3" by (auto simp: c_const)
  have st: "file_status (flash (ld_fs st)) e = TINYFS_STATUS_CREATED" "file_status (flash s2) e = TINYFS_STATUS_LOADING"
    using u s2 by (simp_all add: upload_at_def)
  then have "tinyfs_file_status hw e TINYFS_STATUS_LOADING (ld_fs st) = Inr (0, s3)"
    using s2 s3 by (simp add: tinyfs_file_status_def c_const)
  with s3 show ?thesis by (auto simp: assert_status_def)
qed

lemma upload_ends:
  assumes hw: "nvmc_spec hw" and b: "upload_base s1 ps e nxt" and u: "upload_at s1 e w TINYFS_STATUS_LOADING (ld_fs st)"
  shows "\<exists>s'. assert_status hw e TINYFS_STATUS_LOADED st = Inr (st\<lparr>ld_fs := s'\<rparr>) \<and> upload_at s1 e w TINYFS_STATUS_LOADED s'"
proof -
  from upload_status [OF hw b u, of TINYFS_STATUS_LOADED] obtain s2 where
    s2: "write_status hw e TINYFS_STATUS_LOADED (ld_fs st) = Inr s2" "upload_at s1 e w TINYFS_STATUS_LOADED s2" by (auto simp: c_const)
  have "file_status (flash (ld_fs st)) e = TINYFS_STATUS_LOADING" using u by (simp add: upload_at_def)
  then have "tinyfs_file_status hw e TINYFS_STATUS_LOADED (ld_fs st) = Inr (0, s2)"
    using s2 by (simp add: tinyfs_file_status_def c_const)
  with s2 show ?thesis by (auto simp: assert_status_def)
qed

lemma upload_writes:
  assumes hw: "nvmc_spec hw" and b: "upload_base s1 ps e nxt" and u: "upload_at s1 e w st s"
    and g: "g \<noteq> []" "take (length g) buf = g" and sz: "length w + length g \<le> unat (file_size (flash s1) e)"
  shows "\<exists>s'. tinyfs_file_write hw e (of_nat (length w)) (Local buf) (of_nat (length g)) s = Inr (0, s') \<and> upload_at s1 e (w @ g) st s'"
proof -
  note f = base_facts [OF b]
  let ?sz = "file_size (flash s1) e" and ?dst = "e + of_nat (48 + length w)"
  have size: "file_size (flash s) e = ?sz" using upload_headers(2) [OF b u, of e] by simp
  have n: "unat (of_nat (length w) :: u32) = length w" "unat (of_nat (length g) :: u32) = length g"
    "unat (of_nat (length w) + of_nat (length g) :: u32) = length w + length g"
    using sz f(2) by (simp_all add: unat_small flip: of_nat_add)
  have dst: "e + sizeof_file_t + of_nat (length w) = ?dst" by (simp add: sizeof_file_t_def)
  have "unat ?dst = unat e + 48 + length w" using f(2) sz by (simp add: unat_word_ariths unat_of_nat)
  then have fit: "unat ?dst + 0 + length g \<le> 524288" using f(2) sz by simp
  have "steady (Local buf) 0 ((!) g) (?dst + of_nat 0) (length g) (flash s)"
    using g(2) by (auto simp: steady_def source_byte_def) (metis nth_take)
  from write_unaligned_effect [OF hw this fit] obtain fl' where
    w: "flashpage_write_unaligned hw ?dst (Local buf) 0 (length g) (flash s) = Inr fl'"
    and eff: "\<And>x. fl' x = (if unat (x - ?dst) < length g then flash s x AND g ! unat (x - ?dst) else flash s x)" by auto
  have un: "unat (x - ?dst) = (if 48 + length w \<le> unat (x - e) then unat (x - e) - (48 + length w) else unat (x - e) + 2 ^ 32 - (48 + length w))" for x
    using f(2) sz by (intro unat_minus_const) simp
  have keep: "fl' x = flash s x" if "unat (x - e) < 48 + length w \<or> 48 + length w + length g \<le> unat (x - e)" for x
    using that un [of x] eff [of x] f(2) sz by auto
  have "fl' (e + 48 + of_nat i) = (if i < length (w @ g) then (w @ g) ! i else 0xFF)" if i: "i < unat ?sz" for i
  proof -
    have at: "unat (e + 48 + of_nat i - e) = 48 + i"
      using i f(2) by (intro unat_content) simp
    have old: "flash s (e + 48 + of_nat i) = (if i < length w then w ! i else 0xFF)" using u i by (simp add: upload_at_def)
    show ?thesis
    proof (cases "length w \<le> i \<and> i < length w + length g")
      case True
      then have "unat (e + 48 + of_nat i - ?dst) = i - length w" using un [of "e + 48 + of_nat i"] at by simp
      moreover have "i - length w < length g" using True by linarith
      ultimately show ?thesis using True eff [of "e + 48 + of_nat i"] old by (simp add: nth_append and_FF)
    next
      case False
      then show ?thesis using keep [of "e + 48 + of_nat i"] at old by (auto simp: nth_append)
    qed
  qed
  moreover have "fl' x = flash s x" if "48 + unat ?sz \<le> unat (x - e)" for x using that sz by (intro keep) simp
  moreover have hdr: "fl' (e + of_nat i) = flash s (e + of_nat i)" if "i < 48" for i using that by (intro keep) (simp add: unat_small)
  moreover have "file_status fl' e = file_status (flash s) e" by (rule header_cong) (rule hdr)
  ultimately have "upload_at s1 e (w @ g) st (s\<lparr>flash := fl'\<rparr>)" using u by (simp add: upload_at_def)
  moreover have "tinyfs_file_write hw e (of_nat (length w)) (Local buf) (of_nat (length g)) s = Inr (0, s\<lparr>flash := fl'\<rparr>)"
  proof -
    have "of_nat (length g) \<noteq> (0 :: u32)" using n(2) g(1) by (metis length_0_conv unsigned_0)
    then show ?thesis using n sz w unfolding tinyfs_file_write_def Let_def size dst by (simp add: word_less_nat_alt del: of_nat_add)
  qed
  ultimately show ?thesis by blast
qed

lemma decode_step:
  assumes hw: "nvmc_spec hw" and b: "upload_base s1 ps e nxt" and u: "upload_at s1 e w st (ld_fs ld)" and off: "ld_offset ld = of_nat (length w)"
    and grp: "b64_group c0 c1 c2 c3 = Inr (buf, of_nat (length g))"
    and g: "g \<noteq> []" "take (length g) buf = g" and sz: "length w + length g \<le> unat (file_size (flash s1) e)"
  shows "\<exists>ld'. b64decode hw e (c0 # c1 # c2 # c3 # cs) ld = b64decode hw e cs ld'
     \<and> upload_at s1 e (w @ g) st (ld_fs ld') \<and> ld_offset ld' = of_nat (length (w @ g))"
proof -
  from upload_writes [OF hw b u g sz] obtain s' where
    w: "tinyfs_file_write hw e (of_nat (length w)) (Local buf) (of_nat (length g)) (ld_fs ld) = Inr (0, s')"
    and u': "upload_at s1 e (w @ g) st s'" by blast
  have "file_size (flash (ld_fs ld)) e = file_size (flash s1) e" using upload_headers(2) [OF b u, of e] by simp
  moreover have "unat (of_nat (length w) :: u32) = length w" using sz unat_u32_less [of "file_size (flash s1) e"] by (intro unat_small) simp
  moreover have "length w < unat (file_size (flash s1) e)" using sz g(1) by (cases g) auto
  ultimately have "ld_offset ld < file_size (flash (ld_fs ld)) e" unfolding off by (simp add: word_less_nat_alt)
  with grp w off u' show ?thesis by (intro exI [of _ "ld\<lparr>ld_fs := s', ld_offset := ld_offset ld + of_nat (length g)\<rparr>"]) simp
qed

lemma decode_encoded:
  assumes hw: "nvmc_spec hw" and b: "upload_base s1 ps e nxt" and u: "upload_at s1 e w st (ld_fs ld)" and off: "ld_offset ld = of_nat (length w)"
    and sz: "length w + length d \<le> unat (file_size (flash s1) e)"
  shows "\<exists>ld'. b64decode hw e (b64_encode d) ld = Inr ld' \<and> upload_at s1 e (w @ d) st (ld_fs ld') \<and> ld_offset ld' = of_nat (length (w @ d))"
  using u off sz
proof (induction d arbitrary: w ld rule: b64_encode.induct)
  case 1
  then show ?case by simp
next
  case (2 a)
  let ?n = "join_bytes a 0 0"
  have "b64_group (b64_char ?n 0) (b64_char ?n 1) 61 61 = Inr ([a, 0, 0], of_nat (length [a]))" using group_encoded(3) [of a] by simp
  from decode_step [OF hw b 2(1,2) this, of "[]"] 2(3) show ?case by (simp add: Let_def)
next
  case (3 a c)
  let ?n = "join_bytes a c 0"
  have "b64_group (b64_char ?n 0) (b64_char ?n 1) (b64_char ?n 2) 61 = Inr ([a, c, 0], of_nat (length [a, c]))"
    using group_encoded(2) [of a c] by simp
  from decode_step [OF hw b 3(1,2) this, of "[]"] 3(3) show ?case by (simp add: Let_def)
next
  case (4 a c d ds)
  let ?n = "join_bytes a c d"
  have "b64_group (b64_char ?n 0) (b64_char ?n 1) (b64_char ?n 2) (b64_char ?n 3) = Inr ([a, c, d], of_nat (length [a, c, d]))"
    using group_encoded(1) [of a c d] by simp
  from decode_step [OF hw b "4.prems"(1,2) this, of "b64_encode ds"] "4.prems"(3) obtain ld' where
    ld': "b64decode hw e (b64_encode (a # c # d # ds)) ld = b64decode hw e (b64_encode ds) ld'"
    "upload_at s1 e (w @ [a, c, d]) st (ld_fs ld')" "ld_offset ld' = of_nat (length (w @ [a, c, d]))" by (auto simp: Let_def)
  from "4.IH" [OF refl ld'(2,3)] "4.prems"(3) ld'(1) show ?case by simp
qed

lemma encoded_chunk: "d \<noteq> [] \<Longrightarrow> check_chunk (b64_encode d)" "c_string (b64_encode d) = b64_encode d"
proof -
  have ok: "length (b64_encode d) mod 4 = 0 \<and> list_all valid_b64 (b64_encode d) \<and> 0 \<notin> set (b64_encode d) \<and> (d \<noteq> [] \<longrightarrow> b64_encode d \<noteq> [])"
    by (induction d rule: b64_encode.induct) (use char_valid b64_pad(2) in \<open>auto simp: Let_def\<close>)
  then show "d \<noteq> [] \<Longrightarrow> check_chunk (b64_encode d)" by (simp add: check_chunk_def)
  show "c_string (b64_encode d) = b64_encode d" using ok by (auto simp: c_string_def takeWhile_eq_all_conv)
qed

text \<open>One command that uploads the bytes \<open>d\<close> after \<open>w\<close>.\<close>

lemma ldbin_step:
  assumes hw: "nvmc_spec hw" and b: "upload_base s1 ps e nxt" and u: "upload_at s1 e w st (ld_fs ld)" and off: "ld_offset ld = of_nat (length w)"
    and st: "st = TINYFS_STATUS_CREATED \<or> st = TINYFS_STATUS_LOADING" and fuel: "Suc (length ps) < fuel"
    and no: "\<forall>q \<in> set ps. file_status (flash s1) q \<noteq> TINYFS_STATUS_LOADING" and nm: "tinyfs_file_search fuel s1 name = Inr (Some e)"
    and d: "d \<noteq> []" "length w + length d \<le> unat (file_size (flash s1) e)"
  shows "\<exists>ld'. ldbin fuel hw [cmd, name, b64_encode d] ld = Inr (0, ld')
     \<and> (if length w + length d = unat (file_size (flash s1) e)
        then upload_at s1 e (w @ d) TINYFS_STATUS_LOADED (ld_fs ld') \<and> ld_offset ld' = 0
        else upload_at s1 e (w @ d) TINYFS_STATUS_LOADING (ld_fs ld') \<and> ld_offset ld' = of_nat (length (w @ d)))"
proof -
  have fst: "file_status (flash (ld_fs ld)) e = st" using u by (simp add: upload_at_def)
  have "\<exists>ld1. (if st = TINYFS_STATUS_CREATED then assert_status hw e TINYFS_STATUS_LOADING ld else Inr ld) = Inr ld1
      \<and> upload_at s1 e w TINYFS_STATUS_LOADING (ld_fs ld1) \<and> ld_offset ld1 = of_nat (length w)"
    using st u off upload_starts [OF hw b, of w ld] by auto
  then obtain ld1 where ld1: "(if st = TINYFS_STATUS_CREATED then assert_status hw e TINYFS_STATUS_LOADING ld else Inr ld) = Inr ld1"
    "upload_at s1 e w TINYFS_STATUS_LOADING (ld_fs ld1)" "ld_offset ld1 = of_nat (length w)" by blast
  from decode_encoded [OF hw b ld1(2,3) d(2)] obtain ld2 where ld2: "b64decode hw e (b64_encode d) ld1 = Inr ld2"
    "upload_at s1 e (w @ d) TINYFS_STATUS_LOADING (ld_fs ld2)" "ld_offset ld2 = of_nat (length (w @ d))" by blast
  have "unat (of_nat (length (w @ d)) :: u32) = length (w @ d)" using d(2) unat_u32_less [of "file_size (flash s1) e"] by (intro unat_small) simp
  then have finished: "file_size (flash (ld_fs ld2)) e = ld_offset ld2 \<longleftrightarrow> length w + length d = unat (file_size (flash s1) e)"
    using upload_headers(2) [OF b ld2(2), of e] ld2(3) by (auto simp: word_unat_eq_iff simp del: of_nat_add)
  from upload_ends [OF hw b ld2(2)] obtain s3 where
    s3: "assert_status hw e TINYFS_STATUS_LOADED ld2 = Inr (ld2\<lparr>ld_fs := s3\<rparr>)" "upload_at s1 e (w @ d) TINYFS_STATUS_LOADED s3" by blast
  have "ldbin fuel hw [cmd, name, b64_encode d] ld =
      (if length w + length d = unat (file_size (flash s1) e) then Inr (0, ld2\<lparr>ld_fs := s3, ld_offset := 0\<rparr>) else Inr (0, ld2))"
  proof -
    define loading :: int where "loading = (if st = TINYFS_STATUS_LOADING then 1 else 0)"
    have n: "\<not> loading > 1" "\<not> (loading = 1 \<and> st \<noteq> TINYFS_STATUS_LOADING)" by (auto simp: loading_def)
    have "tinyfs_file_search fuel (ld_fs ld) name = Inr (Some e)" using upload_search [OF b u fuel, of name] nm by simp
    moreover have "count_loading fuel (ld_fs ld) = Inr loading" using upload_count [OF b u fuel no] by (simp add: loading_def)
    moreover have "\<not> length [cmd, name, b64_encode d] < 3" "[cmd, name, b64_encode d] ! 1 = name" "[cmd, name, b64_encode d] ! 2 = b64_encode d"
      by simp_all
    ultimately show ?thesis
      by (simp only: ldbin_def fst n encoded_chunk(1) [OF d(1)] encoded_chunk(2) ld1(1) ld2(1) s3(1) finished ebind_simps option.case
          if_False if_True simp_thms)
  qed
  with s3(2) ld2(2,3) show ?thesis by auto
qed

text \<open>The commands for a sequence of chunks, each of which must succeed.\<close>

fun load_chunks :: "nat \<Rightarrow> nvmc \<Rightarrow> u8 list \<Rightarrow> u8 list \<Rightarrow> u8 list list \<Rightarrow> ldbin_state \<Rightarrow> xip_err + int \<times> ldbin_state" where
  "load_chunks fuel hw cmd name [] ld = Inr (0, ld)"
| "load_chunks fuel hw cmd name (c # cs) ld =
     ebind (ldbin fuel hw [cmd, name, c] ld) (\<lambda>(res, ld). if res \<noteq> 0 then Inr (res, ld) else load_chunks fuel hw cmd name cs ld)"

lemma load_chunks_ok:
  assumes hw: "nvmc_spec hw" and b: "upload_base s1 ps e nxt" and fuel: "Suc (length ps) < fuel"
    and no: "\<forall>q \<in> set ps. file_status (flash s1) q \<noteq> TINYFS_STATUS_LOADING" and nm: "tinyfs_file_search fuel s1 name = Inr (Some e)"
    and "upload_at s1 e w st (ld_fs ld)" "ld_offset ld = of_nat (length w)" "st = TINYFS_STATUS_CREATED \<or> st = TINYFS_STATUS_LOADING"
    and "ds \<noteq> []" "\<forall>d \<in> set ds. d \<noteq> []" "length w + length (concat ds) = unat (file_size (flash s1) e)"
  shows "\<exists>ld'. load_chunks fuel hw cmd name (map b64_encode ds) ld = Inr (0, ld')
     \<and> upload_at s1 e (w @ concat ds) TINYFS_STATUS_LOADED (ld_fs ld') \<and> ld_offset ld' = 0"
  using assms(6-)
proof (induction ds arbitrary: w st ld)
  case (Cons d ds)
  have d: "d \<noteq> []" "length w + length d \<le> unat (file_size (flash s1) e)" using Cons.prems(5,6) by auto
  from ldbin_step [OF hw b Cons.prems(1,2,3) fuel no nm d, of cmd] obtain ld' where
    ld': "ldbin fuel hw [cmd, name, b64_encode d] ld = Inr (0, ld')"
    "if length w + length d = unat (file_size (flash s1) e)
        then upload_at s1 e (w @ d) TINYFS_STATUS_LOADED (ld_fs ld') \<and> ld_offset ld' = 0
        else upload_at s1 e (w @ d) TINYFS_STATUS_LOADING (ld_fs ld') \<and> ld_offset ld' = of_nat (length (w @ d))" by blast
  show ?case
  proof (cases "ds = []")
    case True
    with Cons.prems(6) ld' show ?thesis by auto
  next
    case False
    then have "concat ds \<noteq> []" using Cons.prems(5) by (cases ds) auto
    then have "0 < length (concat ds)" by (simp only: length_greater_0_conv) simp
    moreover have "length (concat (d # ds)) = length d + length (concat ds)" by simp
    ultimately have "length w + length d \<noteq> unat (file_size (flash s1) e)" using Cons.prems(6) by linarith
    with ld'(2) have u: "upload_at s1 e (w @ d) TINYFS_STATUS_LOADING (ld_fs ld')" "ld_offset ld' = of_nat (length (w @ d))" by auto
    from Cons.IH [OF u] False Cons.prems(5,6) ld'(1) show ?thesis by auto
  qed
qed simp

text \<open>
  A group that runs past the end of the file is not written at all, but it is counted: the offset then lies behind the end,
  no later chunk changes the file, and the file is never marked as loaded.
\<close>

lemma decode_overrun:
  assumes b: "upload_base s1 ps e nxt" and u: "upload_at s1 e w st (ld_fs ld)" and off: "ld_offset ld = of_nat (length w)"
    and grp: "b64_group c0 c1 c2 c3 = Inr (buf, of_nat (length g))"
    and sz: "length w < unat (file_size (flash s1) e)" "unat (file_size (flash s1) e) < length w + length g" "length g \<le> 3"
  shows "b64decode hw e (c0 # c1 # c2 # c3 # cs) ld = Inr (ld\<lparr>ld_offset := of_nat (length w + length g)\<rparr>)"
proof -
  have size: "file_size (flash (ld_fs ld)) e = file_size (flash s1) e" using upload_headers(2) [OF b u, of e] by simp
  have n: "unat (of_nat (length w) :: u32) = length w" "unat (of_nat (length g) :: u32) = length g"
    "unat (of_nat (length w + length g) :: u32) = length w + length g"
    using sz base_facts(2) [OF b] by (intro unat_small, simp)+
  have "tinyfs_file_write hw e (of_nat (length w)) (Local buf) (of_nat (length g)) (ld_fs ld) = Inr (- 1, ld_fs ld)"
    using n sz by (auto simp: tinyfs_file_write_def size word_less_nat_alt unsigned_eq_0_iff [symmetric] simp del: unsigned_eq_0_iff simp flip: of_nat_add)
  moreover have "b64decode hw e cs (ld\<lparr>ld_offset := of_nat (length w + length g)\<rparr>) = Inr (ld\<lparr>ld_offset := of_nat (length w + length g)\<rparr>)"
    using n(3) sz(2) size by (cases "(hw, e, cs, ld\<lparr>ld_offset := of_nat (length w + length g)\<rparr>)" rule: b64decode.cases)
      (auto simp: word_less_nat_alt simp del: of_nat_add)
  ultimately show ?thesis using n(1) sz(1) size off grp by (simp add: word_less_nat_alt)
qed

text \<open>Listing: \<open>ls\<close> prints every file of the chain once and in order, and \<open>df\<close> counts them.\<close>

lemma list_files:
  assumes "fs_open s ps e" "length ps < fuel"
  shows "ls fuel s = Inr (map (print_file_infos (flash s)) ps)" "count_files fuel s = Inr (int (length ps))"
proof -
  have "foldl (\<lambda>out p. out @ [print_file_infos (flash s) p]) out ps = out @ map (print_file_infos (flash s)) ps" for out
    by (induction ps arbitrary: out) auto
  with each_file_open [OF assms, of "[]" "\<lambda>out p. out @ [print_file_infos (flash s) p]"]
  show "ls fuel s = Inr (map (print_file_infos (flash s)) ps)" by (cases "tinyfs_get_first_file s") (simp_all add: ls_def)
  have "foldl (\<lambda>i _. i + 1) (int k) ps = int (k + length ps)" for k
  proof (induction ps arbitrary: k)
    case (Cons p ps)
    from Cons [of "Suc k"] show ?case by (simp add: add.commute)
  qed simp
  from this [of 0] each_file_open [OF assms, of "0 :: int" "\<lambda>i _. i + 1"]
  show "count_files fuel s = Inr (int (length ps))" by (cases "tinyfs_get_first_file s") (simp_all add: count_files_def)
qed

section \<open>The upload\<close>

text \<open>
  C18: an uploaded file is what was sent.  Let the chain be open with no file being loaded, the name be new and of at most 31
  characters, the size leave room for the header in the last page, and the flash of the new file be erased.
  After \<open>mkbin\<close> with the size, the commands \<open>ldbin\<close> for any division of the content into non-empty parts, each sent in
  base 64, all succeed.  The file is then found under its name, loaded, with the given rights and exactly the
  bytes that were sent; the next upload starts at offset 0 again; and no byte outside of the file has changed.
\<close>

theorem upload_round_trip:
  assumes hw: "nvmc_spec hw" and fs: "fs_open (ld_fs ld) ps e" "ld_offset ld = 0" and fuel: "length ps + 1 < fuel"
    and no: "\<forall>q \<in> set ps. file_status (flash (ld_fs ld)) q \<noteq> TINYFS_STATUS_LOADING"
    and arg: "convert size_arg = Some sz" "convert exec_arg = Some exec"
    and sz: "sz \<noteq> 0" "sz \<le> FILESIZE_MAX" "unat sz + 48 \<le> unat (ROUND sz FLASHPAGE_SIZE)" and ex: "exec = 0 \<or> exec = 1"
    and er: "\<forall>i < 48 + unat sz. flash (ld_fs ld) (e + of_nat i) = 0xFF"
    and nx: "nxt = e + ROUND sz FLASHPAGE_SIZE" "unat nxt \<le> 524288" "e < nxt" "nxt \<noteq> last_page (ld_fs ld)"
    and fr: "file_next (flash (ld_fs ld)) nxt = FREE_PAGE"
    and nm: "tinyfs_file_search fuel (ld_fs ld) name = Inr None" "length (c_string name) \<le> 31"
    and ds: "\<forall>d \<in> set ds. d \<noteq> []" "length (concat ds) = unat sz"
  shows "\<exists>s s'. mkbin fuel hw [mkbin_cmd, name, size_arg, exec_arg] (ld_fs ld) = Inr (0, s)
     \<and> load_chunks fuel hw ldbin_cmd name (map b64_encode ds) (ld\<lparr>ld_fs := s\<rparr>) = Inr (0, \<lparr>ld_fs = s', ld_offset = 0\<rparr>)
     \<and> tinyfs_file_search fuel s' name = Inr (Some e) \<and> fs_open s' (ps @ [e]) nxt
     \<and> file_status (flash s') e = TINYFS_STATUS_LOADED \<and> file_exec (flash s') e = exec \<and> file_size (flash s') e = sz
     \<and> bytes_at (flash s') (e + sizeof_file_t) (unat sz) = concat ds
     \<and> (\<forall>x. 48 + unat sz \<le> unat (x - e) \<longrightarrow> flash s' x = flash (ld_fs ld) x)"
proof -
  let ?s0 = "ld_fs ld"
  have er48: "\<forall>i < 48. flash ?s0 (e + of_nat i) = 0xFF" using er by simp
  from create_found [OF hw fs(1) fuel sz(1,2) ex er48 nx fr nm, of TINYFS_STATUS_CREATED] obtain s where
    cr: "tinyfs_create_file fuel hw name sz exec TINYFS_STATUS_CREATED ?s0 = Inr (Some e, s)"
    and op: "fs_open s (ps @ [e]) nxt" and found: "tinyfs_file_search fuel s name = Inr (Some e)"
    and hd: "file_size (flash s) e = sz" "file_status (flash s) e = TINYFS_STATUS_CREATED" "file_exec (flash s) e = exec"
    and out: "\<And>x. 48 \<le> unat (x - e) \<Longrightarrow> flash s x = flash ?s0 x" by blast
  have mk: "mkbin fuel hw [mkbin_cmd, name, size_arg, exec_arg] ?s0 = Inr (0, s)"
    using nm(1) arg ex cr by (auto simp: mkbin_def eval_nat_numeral)
  have "unat nxt = unat e + unat (ROUND sz FLASHPAGE_SIZE)"
    using nx(1,3) unat_u32_less [of "ROUND sz FLASHPAGE_SIZE"] by (auto simp: word_less_nat_alt unat_plus_if_size word_size split: if_splits)
  with op hd nx(2) sz(3) have base: "upload_base s ps e nxt" by (simp add: upload_base_def)
  note f = base_facts [OF base]
  have "flash s (e + 48 + of_nat i) = 0xFF" if "i < unat sz" for i
    using er [rule_format, of "48 + i"] out [of "e + 48 + of_nat i"] unat_content [of i e] that f(2) hd(1) by (simp add: add.assoc)
  with hd have start: "upload_at s e [] TINYFS_STATUS_CREATED s" by (simp add: upload_at_def)
  have "file_status (flash s) q = file_status (flash ?s0) q" if "q \<in> set ps" for q
    using header_region [OF base, of q] that hd(1) by (intro header_cong(4) out) (meson add_leE)
  with no have no': "\<forall>q \<in> set ps. file_status (flash s) q \<noteq> TINYFS_STATUS_LOADING" by simp
  have "ds \<noteq> []" using ds(2) sz(1) by (auto simp: unsigned_eq_0_iff)
  from load_chunks_ok [OF hw base _ no' found, of "[]" TINYFS_STATUS_CREATED "ld\<lparr>ld_fs := s\<rparr>" ds ldbin_cmd] this fuel start fs(2) ds hd(1)
  obtain ld' where ld': "load_chunks fuel hw ldbin_cmd name (map b64_encode ds) (ld\<lparr>ld_fs := s\<rparr>) = Inr (0, ld')"
    "upload_at s e (concat ds) TINYFS_STATUS_LOADED (ld_fs ld')" "ld_offset ld' = 0" by auto
  note u = ld'(2)
  have "bytes_at (flash (ld_fs ld')) (e + sizeof_file_t) (unat sz) = concat ds"
    by (rule nth_equalityI) (use u ds(2) hd(1) in \<open>simp_all add: upload_at_def bytes_at_nth sizeof_file_t_def\<close>)
  moreover have "flash (ld_fs ld') x = flash ?s0 x" if "48 + unat sz \<le> unat (x - e)" for x
    using u out [of x] that hd(1) by (simp add: upload_at_def)
  moreover have "tinyfs_file_search fuel (ld_fs ld') name = Inr (Some e)" using upload_search [OF base u] fuel found by simp
  moreover have "ld' = \<lparr>ld_fs = ld_fs ld', ld_offset = 0\<rparr>" using ld'(3) by (cases ld') simp
  ultimately show ?thesis
    using mk ld'(1) upload_open [OF base u] upload_headers(2) [OF base u, of e] u hd by (auto simp: upload_at_def)
qed

theorem upload_round_trip_witness:
  "\<exists>s s'. mkbin 2 nrf52_nvmc [ascii ''mkbin'', ascii ''a'', ascii ''5'', ascii ''1''] blank_fs = Inr (0, s)
     \<and> load_chunks 2 nrf52_nvmc (ascii ''ldbin'') (ascii ''a'') [ascii ''SGVs'', ascii ''bG8='']
         \<lparr>ld_fs = s, ld_offset = 0\<rparr> = Inr (0, \<lparr>ld_fs = s', ld_offset = 0\<rparr>)
     \<and> bytes_at (flash s') 0x20030 5 = ascii ''Hello''"
proof -
  have r: "0x20000 + ROUND 5 FLASHPAGE_SIZE = 0x21000" "unat (ROUND 5 FLASHPAGE_SIZE) = 4096" by (simp_all add: ROUND_def c_const)
  have c: "convert (ascii ''5'') = Some 5" "convert (ascii ''1'') = Some 1" by code_simp+
  have e: "map b64_encode [ascii ''Hel'', ascii ''lo''] = [ascii ''SGVs'', ascii ''bG8='']" by code_simp
  have "tinyfs_file_search 2 blank_fs (ascii ''a'') = Inr None" using file_search_open [OF blank_open, of 2] by simp
  then show ?thesis
    using upload_round_trip [of nrf52_nvmc "\<lparr>ld_fs = blank_fs, ld_offset = 0\<rparr>" "[]" "0x20000" 2 "ascii ''5''" 5 "ascii ''1''" 1 "0x21000"
        "ascii ''a''" "[ascii ''Hel'', ascii ''lo'']" "ascii ''mkbin''" "ascii ''ldbin''"] nrf52_nvmc_spec blank_open r c
    unfolding e
    by (auto simp: blank_fs_def c_const file_next_def blank_load32 c_string_def ascii_def word_le_nat_alt simp del: load_chunks.simps)
qed

end
