(* ===== verification/Core_Clist.thy ===== *)
theory Core_Clist
  imports PRR_Prelude
begin

text \<open>
  The linked lists of the RIOT kernel: the null-terminated list of \<open>core/lib/include/list.h\<close> and
  the circular list of \<open>core/lib/include/clist.h\<close>.  A list node is a structure with the single
  member \<open>next\<close>, so a store of nodes is a map from node identities to the value of their \<open>next\<close>
  pointer, \<open>None\<close> for \<open>NULL\<close>.  The operations are polymorphic in the type of node identities.
  Dereferencing \<open>NULL\<close> is the result \<open>Inl NullDeref\<close>, a failed assertion
  \<open>Inl AssertFail\<close>, a loop that does not end the value \<open>None\<close> of
  a \<open>partial_function\<close>.  The predicates \<open>list_at\<close> and \<open>clist_at\<close> relate a store to the sequence of
  nodes it represents; every operation is shown to act on that sequence.
\<close>

type_synonym 'n links = "'n \<Rightarrow> 'n option"

datatype c_fault = NullDeref | AssertFail | ArrayIndex

definition deref :: "'n option \<Rightarrow> ('n \<Rightarrow> c_fault + 'a) \<Rightarrow> c_fault + 'a" where
  "deref p f = (case p of None \<Rightarrow> Inl NullDeref | Some n \<Rightarrow> f n)"

lemma deref_simps [simp]: "deref None f = Inl NullDeref" "deref (Some n) f = f n"
  by (simp_all add: deref_def)

section \<open>The null-terminated list\<close>

definition list_add :: "'n links \<Rightarrow> 'n \<Rightarrow> 'n \<Rightarrow> 'n links" where
  "list_add h node new_node = (let h = h(new_node := h node) in h(node := Some new_node))"

definition list_remove_head :: "'n links \<Rightarrow> 'n \<Rightarrow> 'n option \<times> 'n links" where
  "list_remove_head h l =
     (case h l of
        None \<Rightarrow> (None, h)
      | Some head \<Rightarrow> (Some head, h(l := h head)))"

partial_function (option) list_remove :: "'n links \<Rightarrow> 'n \<Rightarrow> 'n \<Rightarrow> ('n option \<times> 'n links) option" where
  "list_remove h l node =
     (case h l of
        None \<Rightarrow> Some (None, h)
      | Some n \<Rightarrow> if n = node then Some (Some node, h(l := h node)) else list_remove h n node)"

section \<open>The circular list\<close>

definition clist_is_empty :: "'n links \<Rightarrow> 'n \<Rightarrow> bool" where
  "clist_is_empty h l \<longleftrightarrow> h l = None"

definition clist_rpush :: "'n links \<Rightarrow> 'n \<Rightarrow> 'n \<Rightarrow> 'n links" where
  "clist_rpush h l new_node =
     (case h l of
        Some lst \<Rightarrow>
          let h = h(new_node := h lst);
              h = h(lst := Some new_node)
          in h(l := Some new_node)
      | None \<Rightarrow>
          let h = h(new_node := Some new_node)
          in h(l := Some new_node))"

definition clist_lpush :: "'n links \<Rightarrow> 'n \<Rightarrow> 'n \<Rightarrow> 'n links" where
  "clist_lpush h l new_node =
     (case h l of
        Some lst \<Rightarrow>
          let h = h(new_node := h lst)
          in h(lst := Some new_node)
      | None \<Rightarrow>
          let h = h(new_node := Some new_node)
          in h(l := Some new_node))"

definition clist_lpop :: "'n links \<Rightarrow> 'n \<Rightarrow> c_fault + ('n option \<times> 'n links)" where
  "clist_lpop h l =
     (case h l of
        None \<Rightarrow> Inr (None, h)
      | Some lst \<Rightarrow>
          let first = h lst
          in if h l = first then Inr (first, h(l := None))
             else deref first (\<lambda>f. Inr (first, h(lst := h f))))"

definition clist_lpoprpush :: "'n links \<Rightarrow> 'n \<Rightarrow> 'n links" where
  "clist_lpoprpush h l = (case h l of None \<Rightarrow> h | Some lst \<Rightarrow> h(l := h lst))"

definition clist_lpeek :: "'n links \<Rightarrow> 'n \<Rightarrow> 'n option" where
  "clist_lpeek h l = (case h l of None \<Rightarrow> None | Some lst \<Rightarrow> h lst)"

definition clist_rpeek :: "'n links \<Rightarrow> 'n \<Rightarrow> 'n option" where
  "clist_rpeek h l = h l"

partial_function (option) rpop_loop :: "'n links \<Rightarrow> 'n \<Rightarrow> 'n \<Rightarrow> (c_fault + 'n links) option" where
  "rpop_loop h l lst =
     (case h l of
        None \<Rightarrow> Some (Inl NullDeref)
      | Some n \<Rightarrow> if h n \<noteq> Some lst then rpop_loop (clist_lpoprpush h l) l lst else Some (Inr h))"

definition clist_rpop :: "'n links \<Rightarrow> 'n \<Rightarrow> (c_fault + ('n option \<times> 'n links)) option" where
  "clist_rpop h l =
     (case h l of
        None \<Rightarrow> Some (Inr (None, h))
      | Some lst \<Rightarrow> map_option (\<lambda>r. ebind r (\<lambda>h'. clist_lpop h' l)) (rpop_loop h l lst))"

partial_function (option) find_before_loop :: "'n links \<Rightarrow> 'n \<Rightarrow> 'n \<Rightarrow> 'n \<Rightarrow> (c_fault + 'n option) option" where
  "find_before_loop h l node pos =
     (case h pos of
        None \<Rightarrow> Some (Inl NullDeref)
      | Some pos' \<Rightarrow>
          if h pos' = Some node then Some (Inr (Some pos'))
          else if Some pos' \<noteq> h l then find_before_loop h l node pos'
          else Some (Inr None))"

definition clist_find_before :: "'n links \<Rightarrow> 'n \<Rightarrow> 'n \<Rightarrow> (c_fault + 'n option) option" where
  "clist_find_before h l node =
     (case h l of None \<Rightarrow> Some (Inr None) | Some pos \<Rightarrow> find_before_loop h l node pos)"

definition clist_find :: "'n links \<Rightarrow> 'n \<Rightarrow> 'n \<Rightarrow> (c_fault + 'n option) option" where
  "clist_find h l node =
     map_option (\<lambda>r. ebind r (\<lambda>tmp. case tmp of Some t \<Rightarrow> Inr (h t) | None \<Rightarrow> Inr None))
       (clist_find_before h l node)"

definition unlink_after :: "'n links \<Rightarrow> 'n \<Rightarrow> 'n \<Rightarrow> 'n \<Rightarrow> c_fault + ('n option \<times> 'n links)" where
  "unlink_after h l node tmp =
     deref (h tmp) (\<lambda>n.
       let h' = h(tmp := h n);
           h'' = (if Some node = h' l then h'(l := Some tmp) else h')
       in Inr (Some node, h''))"

definition clist_remove :: "'n links \<Rightarrow> 'n \<Rightarrow> 'n \<Rightarrow> (c_fault + ('n option \<times> 'n links)) option" where
  "clist_remove h l node =
     (case h l of
        None \<Rightarrow> Some (Inr (None, h))
      | Some lst \<Rightarrow>
          if h lst = Some node then Some (clist_lpop h l)
          else map_option (\<lambda>r. ebind r (\<lambda>tmp.
                 case tmp of Some t \<Rightarrow> unlink_after h l node t | None \<Rightarrow> Inr (None, h)))
               (clist_find_before h l node))"

text \<open>The callback of \<open>clist_foreach\<close> works on the object behind \<open>arg\<close>, here a state of type \<open>'s\<close>.\<close>

partial_function (option) foreach_loop ::
    "'n links \<Rightarrow> 'n \<Rightarrow> ('n \<Rightarrow> 's \<Rightarrow> int \<times> 's) \<Rightarrow> 's \<Rightarrow> 'n \<Rightarrow> (c_fault + ('n option \<times> 's)) option" where
  "foreach_loop h l func arg node =
     (case h node of
        None \<Rightarrow> Some (Inl NullDeref)
      | Some node' \<Rightarrow>
          (case func node' arg of (r, arg') \<Rightarrow>
             if r \<noteq> 0 then Some (Inr (Some node', arg'))
             else if Some node' \<noteq> h l then foreach_loop h l func arg' node'
             else Some (Inr (None, arg'))))"

definition clist_foreach ::
    "'n links \<Rightarrow> 'n \<Rightarrow> ('n \<Rightarrow> 's \<Rightarrow> int \<times> 's) \<Rightarrow> 's \<Rightarrow> (c_fault + ('n option \<times> 's)) option" where
  "clist_foreach h l func arg =
     (case h l of None \<Rightarrow> Some (Inr (None, arg)) | Some node \<Rightarrow> foreach_loop h l func arg node)"

partial_function (option) count_loop :: "'n links \<Rightarrow> 'n \<Rightarrow> u32 \<Rightarrow> 'n \<Rightarrow> (c_fault + u32) option" where
  "count_loop h l cnt node =
     (case h node of
        None \<Rightarrow> Some (Inl NullDeref)
      | Some node' \<Rightarrow>
          let cnt = cnt + 1
          in if Some node' \<noteq> h l then count_loop h l cnt node' else Some (Inr cnt))"

definition clist_count :: "'n links \<Rightarrow> 'n \<Rightarrow> (c_fault + u32) option" where
  "clist_count h l = (case h l of None \<Rightarrow> Some (Inr 0) | Some node \<Rightarrow> count_loop h l 0 node)"

definition clist_exactly_one :: "'n links \<Rightarrow> 'n \<Rightarrow> bool" where
  "clist_exactly_one h l \<longleftrightarrow> \<not> clist_is_empty h l \<and> (case h l of Some n \<Rightarrow> h l = h n | None \<Rightarrow> False)"

definition clist_more_than_one :: "'n links \<Rightarrow> 'n \<Rightarrow> bool" where
  "clist_more_than_one h l \<longleftrightarrow> \<not> clist_is_empty h l \<and> (case h l of Some n \<Rightarrow> h l \<noteq> h n | None \<Rightarrow> False)"

section \<open>Stores that represent lists\<close>

text \<open>\<open>seg h p xs q\<close>: following \<open>next\<close> from the pointer \<open>p\<close> visits \<open>xs\<close> and reaches the pointer \<open>q\<close>.\<close>

primrec seg :: "'n links \<Rightarrow> 'n option \<Rightarrow> 'n list \<Rightarrow> 'n option \<Rightarrow> bool" where
  "seg h p [] q \<longleftrightarrow> p = q"
| "seg h p (x # xs) q \<longleftrightarrow> p = Some x \<and> seg h (h x) xs q"

definition list_at :: "'n links \<Rightarrow> 'n \<Rightarrow> 'n list \<Rightarrow> bool" where
  "list_at h l xs \<longleftrightarrow> seg h (h l) xs None \<and> distinct (l # xs)"

definition clist_at :: "'n links \<Rightarrow> 'n \<Rightarrow> 'n list \<Rightarrow> bool" where
  "clist_at h l xs \<longleftrightarrow>
     (if xs = [] then h l = None
      else h l = Some (last xs) \<and> seg h (h (last xs)) (butlast xs) (Some (last xs)) \<and> distinct (l # xs))"

lemma seg_append: "seg h p (xs @ ys) q \<longleftrightarrow> (\<exists>r. seg h p xs r \<and> seg h r ys q)"
  by (induction xs arbitrary: p) auto

lemma seg_snoc [simp]: "seg h p (xs @ [x]) q \<longleftrightarrow> seg h p xs (Some x) \<and> h x = q"
  by (auto simp: seg_append)

lemma seg_upd [simp]: "x \<notin> set xs \<Longrightarrow> seg (h(x := v)) p xs q = seg h p xs q"
  by (induction xs arbitrary: p) auto

lemma seg_cong: "(\<And>x. x \<in> set xs \<Longrightarrow> h' x = h x) \<Longrightarrow> seg h' p xs q = seg h p xs q"
  by (induction xs arbitrary: p) auto

lemma clist_at_Nil [simp]: "clist_at h l [] \<longleftrightarrow> h l = None"
  by (simp add: clist_at_def)

lemma clist_at_snoc [simp]:
  "clist_at h l (xs @ [x]) \<longleftrightarrow> h l = Some x \<and> seg h (h x) xs (Some x) \<and> distinct (l # xs @ [x])"
  by (simp add: clist_at_def)

lemma clist_at_snoc2 [simp]:
  "clist_at h l (xs @ [x, y]) \<longleftrightarrow>
     h l = Some y \<and> seg h (h y) xs (Some x) \<and> h x = Some y \<and> distinct (l # xs @ [x, y])"
  using clist_at_snoc [of h l "xs @ [x]" y] by simp

lemma clist_at_single [simp]: "clist_at h l [x] \<longleftrightarrow> h l = Some x \<and> h x = Some x \<and> l \<noteq> x"
  using clist_at_snoc [of h l "[]" x] by auto

lemma clist_at_distinct: "clist_at h l xs \<Longrightarrow> xs \<noteq> [] \<Longrightarrow> distinct (l # xs)"
  by (simp add: clist_at_def)

lemma clist_at_cong:
  assumes "h' l = h l" "\<And>x. x \<in> set xs \<Longrightarrow> h' x = h x"
  shows "clist_at h' l xs = clist_at h l xs"
proof (cases xs rule: rev_cases)
  case (snoc ys y)
  with assms have "seg h' (h y) ys (Some y) = seg h (h y) ys (Some y)" by (intro seg_cong) auto
  with assms snoc show ?thesis by simp
qed (use assms in simp)

lemma list_at_cong:
  assumes "h' l = h l" "\<And>x. x \<in> set xs \<Longrightarrow> h' x = h x"
  shows "list_at h' l xs = list_at h l xs"
  using seg_cong [of xs h' h "h l" None] assms by (simp add: list_at_def)

lemma clist_at_is_empty: "clist_at h l xs \<Longrightarrow> clist_is_empty h l \<longleftrightarrow> xs = []"
  by (cases xs rule: rev_cases) (auto simp: clist_is_empty_def)

lemma list_at_Nil [simp]: "list_at h l [] \<longleftrightarrow> h l = None"
  by (simp add: list_at_def)

lemma list_at_Cons: "list_at h l (x # xs) \<longleftrightarrow> h l = Some x \<and> list_at h x xs \<and> l \<noteq> x \<and> l \<notin> set xs"
  by (auto simp: list_at_def)

section \<open>Correctness of the list operations\<close>

lemma list_remove_head_Nil: "list_at h l [] \<Longrightarrow> list_remove_head h l = (None, h)"
  by (simp add: list_remove_head_def)

lemma list_remove_head_Cons:
  assumes "list_at h l (x # xs)"
  shows "list_remove_head h l = (Some x, h(l := h x))" "list_at (h(l := h x)) l xs"
  using assms by (auto simp: list_remove_head_def list_at_Cons list_at_def)

text \<open>Insertion after any position of the list.\<close>

lemma list_add_eq: "list_add h a n = h(n := h a, a := Some n)"
  by (simp add: list_add_def Let_def)

lemma list_add_at:
  assumes "list_at h l (xs @ ys)" "n \<notin> set (l # xs @ ys)"
  shows "list_at (list_add h (last (l # xs)) n) l (xs @ n # ys)"
  using assms
proof (induction xs arbitrary: l)
  case Nil
  have "seg (h(n := h l, l := Some n)) (h l) ys None" if "seg h (h l) ys None"
    using that Nil by (subst seg_cong [of ys _ h]) (auto simp: list_at_def)
  with Nil show ?case unfolding list_add_eq list_at_def by (auto simp del: fun_upd_apply simp: fun_upd_same fun_upd_other)
next
  case (Cons x xs)
  let ?k = "last (x # xs)"
  have "list_at (list_add h ?k n) x (xs @ n # ys)"
    using Cons by (auto simp: list_at_Cons)
  moreover have "list_add h ?k n l = h l"
    using Cons.prems last_in_set [of "x # xs"] by (auto simp: list_add_eq list_at_Cons)
  ultimately show ?case using Cons.prems by (auto simp: list_at_Cons)
qed

lemma list_remove_at:
  assumes "list_at h l xs"
  shows "\<exists>h'. list_remove h l node = Some (if node \<in> set xs then Some node else None, h')
     \<and> list_at h' l (remove1 node xs) \<and> (\<forall>x. x \<notin> set (l # xs) \<longrightarrow> h' x = h x)"
  using assms
proof (induction xs arbitrary: l)
  case Nil
  then show ?case by (subst list_remove.simps) auto
next
  case (Cons x xs)
  then have l: "h l = Some x" "list_at h x xs" "l \<noteq> x" "l \<notin> set xs" by (auto simp: list_at_Cons)
  show ?case
  proof (cases "x = node")
    case True
    with l show ?thesis by (subst list_remove.simps) (auto simp: list_at_def)
  next
    case False
    from Cons.IH [OF l(2)] obtain h' where
      h': "list_remove h x node = Some (if node \<in> set xs then Some node else None, h')"
        "list_at h' x (remove1 node xs)" "\<forall>y. y \<notin> set (x # xs) \<longrightarrow> h' y = h y" by blast
    with l False show ?thesis
      by (subst list_remove.simps) (auto simp: list_at_Cons dest: in_set_remove1 [THEN iffD1, rotated] set_remove1_subset [THEN subsetD])
  qed
qed

section \<open>Correctness of the circular list operations\<close>

lemma clist_rpush_at:
  assumes "clist_at h l xs" "n \<notin> set (l # xs)"
  shows "clist_at (clist_rpush h l n) l (xs @ [n])"
  using assms by (cases xs rule: rev_cases) (auto simp: clist_rpush_def Let_def)

lemma clist_rpush_frame:
  assumes "clist_at h l xs" "x \<notin> set (l # n # xs)"
  shows "clist_rpush h l n x = h x"
  using assms by (cases xs rule: rev_cases) (auto simp: clist_rpush_def Let_def)

lemma clist_at_Cons_snoc:
  "clist_at h l (x # xs @ [y]) \<longleftrightarrow>
     h l = Some y \<and> h y = Some x \<and> seg h (h x) xs (Some y) \<and> distinct (l # x # xs @ [y])"
  using clist_at_snoc [of h l "x # xs" y] by (simp del: clist_at_snoc)

lemma clist_lpush_at:
  assumes "clist_at h l xs" "n \<notin> set (l # xs)"
  shows "clist_at (clist_lpush h l n) l (n # xs)"
  using assms by (cases xs rule: rev_cases) (auto simp: clist_lpush_def Let_def clist_at_Cons_snoc)

lemma clist_lpop_Nil: "clist_at h l [] \<Longrightarrow> clist_lpop h l = Inr (None, h)"
  by (simp add: clist_lpop_def)

lemma clist_lpop_Cons:
  assumes "clist_at h l (x # xs)"
  obtains h' where "clist_lpop h l = Inr (Some x, h')" "clist_at h' l xs"
    "\<And>y. y \<notin> set (l # xs) \<Longrightarrow> h' y = h y"
proof (cases xs rule: rev_cases)
  case Nil
  with assms show ?thesis by (intro that [of "h(l := None)"]) (auto simp: clist_lpop_def)
next
  case (snoc ys y)
  with assms show ?thesis
    by (intro that [of "h(y := h x)"]) (auto simp: clist_lpop_def clist_at_Cons_snoc)
qed

lemma clist_lpoprpush_at:
  assumes "clist_at h l (x # xs)"
  shows "clist_at (clist_lpoprpush h l) l (xs @ [x])"
    "y \<noteq> l \<Longrightarrow> clist_lpoprpush h l y = h y"
  using assms by (cases xs rule: rev_cases;
      auto simp: clist_lpoprpush_def clist_at_Cons_snoc split: option.splits)+

lemma clist_lpeek_at: "clist_at h l xs \<Longrightarrow> clist_lpeek h l = (if xs = [] then None else Some (hd xs))"
  by (cases xs rule: rev_cases; cases "butlast xs") (auto simp: clist_lpeek_def)

lemma clist_rpeek_at: "clist_at h l xs \<Longrightarrow> clist_rpeek h l = (if xs = [] then None else Some (last xs))"
  by (cases xs rule: rev_cases) (auto simp: clist_rpeek_def)

text \<open>Rotating until the former last element is first.\<close>

lemma rpop_loop_at:
  assumes "clist_at h l (xs @ x # ys)" "x \<notin> set xs"
  shows "\<exists>h'. rpop_loop h l x = Some (Inr h') \<and> clist_at h' l (x # ys @ xs)"
  using assms
proof (induction xs arbitrary: h ys)
  case Nil
  then show ?case
    by (subst rpop_loop.simps) (cases ys rule: rev_cases; auto simp: clist_at_Cons_snoc)
next
  case (Cons z zs)
  then obtain b where b: "h l = Some b" "h b = Some z"
    using clist_lpeek_at [OF Cons.prems(1)] clist_rpeek_at [OF Cons.prems(1)]
    by (auto simp: clist_lpeek_def clist_rpeek_def)
  have "clist_at (clist_lpoprpush h l) l (zs @ x # ys @ [z])"
    using clist_lpoprpush_at(1) [of h l z "zs @ x # ys"] Cons.prems by simp
  from Cons.IH [OF this] Cons.prems b show ?case
    by (subst rpop_loop.simps) auto
qed

lemma clist_rpop_snoc:
  assumes "clist_at h l (xs @ [x])"
  shows "\<exists>h'. clist_rpop h l = Some (Inr (Some x, h')) \<and> clist_at h' l xs"
proof -
  have d: "h l = Some x" "x \<notin> set xs" using assms by auto
  from rpop_loop_at [OF assms d(2)] obtain h1 where
    h1: "rpop_loop h l x = Some (Inr h1)" "clist_at h1 l (x # xs)" by auto
  from clist_lpop_Cons [OF h1(2)] obtain h' where
    "clist_lpop h1 l = Inr (Some x, h')" "clist_at h' l xs" by metis
  with h1 d show ?thesis by (simp add: clist_rpop_def)
qed

text \<open>The walk once around the circle: \<open>ys\<close> are the nodes after \<open>pos\<close>, the last one is \<open>list->next\<close>.\<close>

lemma clist_at_circle:
  assumes "clist_at h l xs" "xs \<noteq> []"
  shows "h l = Some (last xs)" "seg h (h (last xs)) xs (h (last xs))" "distinct xs"
  using assms by (cases xs rule: rev_cases; simp)+

lemma find_before_loop_seg:
  assumes "seg h (h pos) ys q" "ys \<noteq> []" "h l = Some (last ys)" "distinct ys"
  shows "find_before_loop h l node pos = Some (Inr (find (\<lambda>p. h p = Some node) ys))"
  using assms
proof (induction ys arbitrary: pos)
  case (Cons y ys)
  then show ?case
    by (subst find_before_loop.simps) (cases ys; auto)
qed simp

lemma clist_find_before_at:
  assumes "clist_at h l xs"
  shows "clist_find_before h l node = Some (Inr (find (\<lambda>p. h p = Some node) xs))"
proof (cases "xs = []")
  case False
  note c = clist_at_circle [OF assms False]
  show ?thesis
    using find_before_loop_seg [OF c(2) False c(1,3)] c by (simp add: clist_find_before_def)
qed (use assms in \<open>simp add: clist_find_before_def\<close>)

lemma foreach_loop_seg:
  assumes "seg h (h node) ys q" "ys \<noteq> []" "h l = Some (last ys)" "distinct ys"
  shows "foreach_loop h l (\<lambda>n a. (if P n then 1 else 0, g n a)) arg node =
     Some (Inr (find P ys, fold g (takeWhile (\<lambda>n. \<not> P n) ys @ filter P (take (Suc (length (takeWhile (\<lambda>n. \<not> P n) ys))) ys)) arg))"
  using assms
proof (induction ys arbitrary: node arg)
  case (Cons y ys)
  then show ?case
    by (subst foreach_loop.simps) (cases ys; auto)
qed simp

lemma count_loop_seg:
  assumes "seg h (h node) ys q" "ys \<noteq> []" "h l = Some (last ys)" "distinct ys"
  shows "count_loop h l cnt node = Some (Inr (cnt + of_nat (length ys)))"
  using assms
proof (induction ys arbitrary: node cnt)
  case (Cons y ys)
  then show ?case
    by (subst count_loop.simps) (cases ys; auto simp: Let_def)
qed simp

lemma clist_count_at:
  assumes "clist_at h l xs"
  shows "clist_count h l = Some (Inr (of_nat (length xs)))"
proof (cases "xs = []")
  case False
  note c = clist_at_circle [OF assms False]
  show ?thesis
    using count_loop_seg [OF c(2) False c(1,3)] c by (simp add: clist_count_def)
qed (use assms in \<open>simp add: clist_count_def\<close>)

text \<open>In a circle every node has exactly one predecessor.\<close>

lemma seg_pred:
  assumes "seg h p (xs @ y # ys) q" "distinct (xs @ y # ys)" "xs \<noteq> []" "z \<in> set xs"
  shows "h z = Some y \<longleftrightarrow> z = last xs"
  using assms
proof (induction xs arbitrary: p)
  case (Cons x xs)
  show ?case
  proof (cases xs)
    case Nil
    with Cons.prems show ?thesis by auto
  next
    case (Cons x' xs')
    with Cons.prems Cons.IH [of "h x"] show ?thesis by auto
  qed
qed simp

lemma seg_closed:
  assumes "seg h p xs q" "z \<in> set xs" "h z \<noteq> q"
  shows "\<exists>y \<in> set xs. h z = Some y"
  using assms
proof (induction xs arbitrary: p)
  case (Cons x xs)
  then show ?case by (cases xs) auto
qed simp

lemma circle_closed:
  assumes "clist_at h l xs" "z \<in> set xs"
  shows "\<exists>y \<in> set xs. h z = Some y"
proof -
  from assms have ne: "xs \<noteq> []" by auto
  note c = clist_at_circle [OF assms(1) ne]
  from c(2) ne have hd: "h (last xs) = Some (hd xs)" by (cases xs) auto
  show ?thesis
    using seg_closed [OF c(2) assms(2)] hd ne by (cases "h z = h (last xs)") auto
qed

lemma find_none: "(\<And>x. x \<in> set xs \<Longrightarrow> \<not> P x) \<Longrightarrow> find P xs = None"
  by (induction xs) auto

lemma find_last: "(\<And>z. z \<in> set (ys @ [y]) \<Longrightarrow> P z \<longleftrightarrow> z = y) \<Longrightarrow> y \<notin> set ys \<Longrightarrow> find P (ys @ y # zs) = Some y"
  by (induction ys) auto

lemma clist_find_before_miss:
  assumes "clist_at h l xs" "node \<notin> set xs"
  shows "clist_find_before h l node = Some (Inr None)"
proof -
  have "find (\<lambda>p. h p = Some node) xs = None"
    using circle_closed [OF assms(1)] assms(2) by (intro find_none) force
  with clist_find_before_at [OF assms(1), of node] show ?thesis by simp
qed

lemma clist_find_before_hit:
  assumes "clist_at h l (as @ a # node # bs)"
  shows "clist_find_before h l node = Some (Inr (Some a))"
proof -
  note c = clist_at_circle [OF assms]
  have "find (\<lambda>p. h p = Some node) (as @ a # node # bs) = Some a"
  proof (rule find_last)
    show "h z = Some node \<longleftrightarrow> z = a" if "z \<in> set (as @ [a])" for z
      using seg_pred [of h _ "as @ [a]" node bs _ z] c(2,3) that by simp
    show "a \<notin> set as" using c(3) by simp
  qed
  with clist_find_before_at [OF assms, of node] show ?thesis by simp
qed

lemma clist_find_at:
  assumes "clist_at h l xs"
  shows "clist_find h l node = Some (Inr (if node \<in> set xs then Some node else None))"
proof (cases "node \<in> set xs")
  case False
  with clist_find_before_miss [OF assms] show ?thesis by (simp add: clist_find_def)
next
  case True
  then obtain as bs where xs: "xs = as @ node # bs" by (auto dest: split_list)
  show ?thesis
  proof (cases as rule: rev_cases)
    case (snoc as' a)
    with assms xs have c: "clist_at h l (as' @ a # node # bs)" by simp
    from clist_at_circle(2) [OF c] have "h a = Some node" by (auto simp: seg_append)
    with clist_find_before_hit [OF c] True show ?thesis by (simp add: clist_find_def)
  next
    case Nil
    let ?P = "\<lambda>p. h p = Some node"
    from Nil xs assms have c: "clist_at h l (node # bs)" by simp
    from clist_at_circle [OF c] have l: "h (last (node # bs)) = Some node" by simp
    have "last (node # bs) \<in> set (node # bs)" by (rule last_in_set) simp
    with l have "find ?P (node # bs) \<noteq> None" unfolding find_None_iff by blast
    then obtain p where "find ?P (node # bs) = Some p" by blast
    with find_Some_iff [of ?P "node # bs" p] clist_find_before_at [OF c, of node] xs Nil
    show ?thesis by (auto simp: clist_find_def)
  qed
qed

lemma unlink_after_at:
  assumes "clist_at h l (as @ a # node # bs)"
  shows "\<exists>h'. unlink_after h l node a = Inr (Some node, h') \<and> clist_at h' l (as @ a # bs)
     \<and> (\<forall>x. x \<notin> set (l # as @ a # bs) \<longrightarrow> h' x = h x)"
proof (cases bs rule: rev_cases)
  case Nil
  with assms show ?thesis by (auto simp: unlink_after_def Let_def)
next
  case (snoc bs' b)
  have e: "as @ a # node # bs' @ [b] = (as @ a # node # bs') @ [b]" "as @ a # bs' @ [b] = (as @ a # bs') @ [b]"
    by simp_all
  have "clist_at h l ((as @ a # node # bs') @ [b])" using assms snoc by simp
  then have "h l = Some b" "seg h (h b) (as @ a # node # bs') (Some b)" "distinct (l # as @ a # node # bs' @ [b])"
    unfolding clist_at_snoc by simp_all
  then show ?thesis
    unfolding snoc e clist_at_snoc by (auto simp: unlink_after_def Let_def seg_append)
qed

lemma clist_remove_at:
  assumes "clist_at h l xs"
  shows "\<exists>h'. clist_remove h l node = Some (Inr (if node \<in> set xs then Some node else None, h'))
     \<and> clist_at h' l (remove1 node xs) \<and> (\<forall>x. x \<notin> set (l # xs) \<longrightarrow> h' x = h x)"
proof (cases xs)
  case Nil
  with assms show ?thesis by (auto simp: clist_remove_def)
next
  case (Cons x ys)
  note c = clist_at_circle [OF assms, unfolded Cons, simplified list.distinct]
  from c(2) have first: "h (last (x # ys)) = Some x" by simp
  show ?thesis
  proof (cases "node = x")
    case True
    from assms Cons obtain h' where "clist_lpop h l = Inr (Some x, h')" "clist_at h' l ys"
      "\<And>y. y \<notin> set (l # ys) \<Longrightarrow> h' y = h y" using clist_lpop_Cons [of h l x ys] by blast
    with True Cons c(1) first show ?thesis by (auto simp: clist_remove_def)
  next
    case False
    show ?thesis
    proof (cases "node \<in> set ys")
      case miss: False
      with False assms Cons have "clist_find_before h l node = Some (Inr None)"
        by (intro clist_find_before_miss [OF assms]) simp
      moreover from miss False Cons have "node \<notin> set xs" by simp
      ultimately show ?thesis
        using assms c(1) first False Cons by (auto simp: clist_remove_def remove1_idem simp del: remove1.simps)
    next
      case True
      then obtain as bs where ys: "ys = as @ node # bs" by (auto dest: split_list)
      obtain as' a where a: "x # as = as' @ [a]" by (metis list.distinct(1) rev_exhaust)
      from ys Cons have "xs = (x # as) @ node # bs" by simp
      then have xs: "xs = as' @ a # node # bs" unfolding a by simp
      from assms xs have ca: "clist_at h l (as' @ a # node # bs)" by simp
      from clist_at_circle(3) [OF ca] have "remove1 node xs = as' @ a # bs"
        by (auto simp: xs remove1_append)
      moreover have "clist_remove h l node = Some (unlink_after h l node a)"
        using clist_find_before_hit [OF ca] False c(1) first by (simp add: clist_remove_def)
      ultimately show ?thesis using unlink_after_at [OF ca] xs by auto
    qed
  qed
qed

lemma clist_foreach_at:
  assumes "clist_at h l xs"
  shows "clist_foreach h l (\<lambda>n a. (if P n then 1 else 0, g n a)) arg =
     Some (Inr (find P xs, fold g (takeWhile (\<lambda>n. \<not> P n) xs @ filter P (take (Suc (length (takeWhile (\<lambda>n. \<not> P n) xs))) xs)) arg))"
proof (cases "xs = []")
  case False
  note c = clist_at_circle [OF assms False]
  show ?thesis
    using foreach_loop_seg [OF c(2) False c(1,3)] c by (simp add: clist_foreach_def)
qed (use assms in \<open>simp add: clist_foreach_def\<close>)

lemma clist_counts_at:
  assumes "clist_at h l xs"
  shows "clist_exactly_one h l \<longleftrightarrow> length xs = 1" "clist_more_than_one h l \<longleftrightarrow> length xs > 1"
proof -
  have "h (last xs) = Some (hd xs)" if "xs \<noteq> []"
    using clist_at_circle [OF assms that] that by (cases xs) auto
  moreover have "last xs = hd xs \<longleftrightarrow> length xs = 1" if "xs \<noteq> []"
    using clist_at_circle(3) [OF assms that] that by (cases xs) auto
  ultimately show "clist_exactly_one h l \<longleftrightarrow> length xs = 1" "clist_more_than_one h l \<longleftrightarrow> length xs > 1"
    using assms clist_at_circle(1) [OF assms]
    by (cases "xs = []"; auto simp: clist_exactly_one_def clist_more_than_one_def clist_is_empty_def
        intro: Suc_lessI)+
qed

end
