(* ===== verification/Core_Clist_Sort.thy ===== *)
theory Core_Clist_Sort
  imports Core_Clist "HOL-Library.Sorting_Algorithms"
begin

text \<open>
  The in-place merge sort of circular lists, \<open>core/lib/clist.c\<close> and \<open>clist_sort\<close> of \<open>clist.h\<close>.
  The comparison callback is a parameter.  The sort is shown to end and to leave the nodes in the
  order of the library's stable sorting function.  The loop bodies keep the C structure: the walk
  over one run, the merge of two runs, one pass over the list and the doubling of the run length.
  The run length is a natural number: the C variable is an \<open>int\<close> that exceeds its range only for
  lists of more than \<open>2 ^ 30\<close> nodes, which do not fit in the address space.
\<close>

section \<open>The code\<close>

text \<open>The successor in the list that ends before \<open>oldhead\<close>.\<close>

definition step_next :: "'n links \<Rightarrow> 'n \<Rightarrow> 'n \<Rightarrow> 'n option" where
  "step_next h oldhead x = (if h x = Some oldhead then None else h x)"

fun step_run :: "'n links \<Rightarrow> 'n \<Rightarrow> nat \<Rightarrow> 'n \<Rightarrow> nat \<Rightarrow> 'n option \<times> nat" where
  "step_run h oldhead 0 q psize = (Some q, psize)"
| "step_run h oldhead (Suc n) q psize =
     (let psize = psize + 1
      in case step_next h oldhead q of
           None \<Rightarrow> (None, psize)
         | Some q' \<Rightarrow> step_run h oldhead n q' psize)"

record 'n sort_state =
  st_links :: "'n links"
  st_list :: "'n option"
  st_tail :: "'n option"

text \<open>Appending the element \<open>e\<close> to the merged list.\<close>

definition emit :: "'n \<Rightarrow> 'n sort_state \<Rightarrow> 'n sort_state" where
  "emit e s =
     (case st_tail s of
        Some t \<Rightarrow> s\<lparr>st_links := (st_links s)(t := Some e), st_tail := Some e\<rparr>
      | None \<Rightarrow> s\<lparr>st_list := Some e, st_tail := Some e\<rparr>)"

lemma deref_cong [fundef_cong]:
  "p = p' \<Longrightarrow> (\<And>n. p' = Some n \<Longrightarrow> f n = g n) \<Longrightarrow> deref p f = deref p' g"
  by (cases p') auto

function merge_loop :: "('n \<Rightarrow> 'n \<Rightarrow> int) \<Rightarrow> 'n \<Rightarrow> 'n sort_state \<Rightarrow> 'n option \<Rightarrow> nat \<Rightarrow> 'n option \<Rightarrow> nat
    \<Rightarrow> c_fault + ('n sort_state \<times> 'n option)" where
  "merge_loop cmp oldhead s p psize q qsize =
     (if psize > 0 \<or> qsize > 0 \<and> q \<noteq> None then
        if psize = 0 then
          deref q (\<lambda>e. merge_loop cmp oldhead (emit e s)
            p psize (step_next (st_links s) oldhead e) (qsize - 1))
        else if qsize = 0 \<or> q = None then
          deref p (\<lambda>e. merge_loop cmp oldhead (emit e s)
            (step_next (st_links s) oldhead e) (psize - 1) q qsize)
        else deref p (\<lambda>p'. deref q (\<lambda>q'.
          if cmp p' q' \<le> 0 then
            merge_loop cmp oldhead (emit p' s) (step_next (st_links s) oldhead p') (psize - 1) q qsize
          else
            merge_loop cmp oldhead (emit q' s) p psize (step_next (st_links s) oldhead q') (qsize - 1)))
      else Inr (s, q))"
  by pat_completeness auto

termination
  by (relation "measure (\<lambda>(cmp, oldhead, s, p, psize, q, qsize). psize + qsize)") auto

partial_function (option) pass_loop :: "('n \<Rightarrow> 'n \<Rightarrow> int) \<Rightarrow> 'n \<Rightarrow> nat \<Rightarrow> 'n sort_state \<Rightarrow> 'n option \<Rightarrow> nat
    \<Rightarrow> (c_fault + ('n sort_state \<times> nat)) option" where
  "pass_loop cmp oldhead insize s p nmerges =
     (case p of
        None \<Rightarrow> Some (Inr (s, nmerges))
      | Some p' \<Rightarrow>
          (case step_run (st_links s) oldhead insize p' 0 of (q, psize) \<Rightarrow>
             (case merge_loop cmp oldhead s p psize q insize of
                Inl e \<Rightarrow> Some (Inl e)
              | Inr (s', q') \<Rightarrow> pass_loop cmp oldhead insize s' q' (nmerges + 1))))"

partial_function (option) sort_loop :: "('n \<Rightarrow> 'n \<Rightarrow> int) \<Rightarrow> 'n links \<Rightarrow> 'n \<Rightarrow> nat
    \<Rightarrow> (c_fault + ('n links \<times> 'n)) option" where
  "sort_loop cmp h l insize =
     (case pass_loop cmp l insize \<lparr>st_links = h, st_list = None, st_tail = None\<rparr> (Some l) 0 of
        None \<Rightarrow> None
      | Some (Inl e) \<Rightarrow> Some (Inl e)
      | Some (Inr (s, nmerges)) \<Rightarrow>
          (case (st_tail s, st_list s) of
             (Some tail, Some list') \<Rightarrow>
               let h' = (st_links s)(tail := Some list')
               in if nmerges \<le> 1 then Some (Inr (h', tail)) else sort_loop cmp h' list' (insize * 2)
           | _ \<Rightarrow> Some (Inl NullDeref)))"

definition clist_sort_nodes :: "('n \<Rightarrow> 'n \<Rightarrow> int) \<Rightarrow> 'n links \<Rightarrow> 'n option \<Rightarrow> (c_fault + ('n links \<times> 'n option)) option" where
  "clist_sort_nodes cmp h list' =
     (case list' of
        None \<Rightarrow> Some (Inr (h, None))
      | Some l \<Rightarrow> map_option (map_sum id (\<lambda>(h', tail). (h', Some tail))) (sort_loop cmp h l 1))"

definition clist_sort :: "('n \<Rightarrow> 'n \<Rightarrow> int) \<Rightarrow> 'n links \<Rightarrow> 'n \<Rightarrow> (c_fault + 'n links) option" where
  "clist_sort cmp h l =
     (case h l of
        None \<Rightarrow> Some (Inr h)
      | Some n \<Rightarrow> map_option (map_sum id (\<lambda>(h', r). h'(l := r))) (clist_sort_nodes cmp h (h n)))"

section \<open>Runs in the store\<close>

text \<open>
  \<open>run_from h oh p xs\<close>: stepping from \<open>p\<close> visits at least \<open>xs\<close>; \<open>rest_from\<close>: it visits \<open>xs\<close> and then
  ends.
\<close>

primrec run_from :: "'n links \<Rightarrow> 'n \<Rightarrow> 'n option \<Rightarrow> 'n list \<Rightarrow> bool" where
  "run_from h oh p [] \<longleftrightarrow> True"
| "run_from h oh p (x # xs) \<longleftrightarrow> p = Some x \<and> run_from h oh (step_next h oh x) xs"

primrec rest_from :: "'n links \<Rightarrow> 'n \<Rightarrow> 'n option \<Rightarrow> 'n list \<Rightarrow> bool" where
  "rest_from h oh p [] \<longleftrightarrow> p = None"
| "rest_from h oh p (x # xs) \<longleftrightarrow> p = Some x \<and> rest_from h oh (step_next h oh x) xs"

lemma run_from_upd [simp]: "t \<notin> set xs \<Longrightarrow> run_from (h(t := v)) oh p xs = run_from h oh p xs"
  by (induction xs arbitrary: p) (auto simp: step_next_def)

lemma rest_from_upd [simp]: "t \<notin> set xs \<Longrightarrow> rest_from (h(t := v)) oh p xs = rest_from h oh p xs"
  by (induction xs arbitrary: p) (auto simp: step_next_def)

lemma rest_from_run: "rest_from h oh p (xs @ ys) \<Longrightarrow> run_from h oh p xs"
  by (induction xs arbitrary: p) auto

lemma rest_from_circle:
  assumes "seg h p xs (Some oh)" "p = Some x" "x \<in> set xs" "oh \<notin> set (tl xs)"
  shows "rest_from h oh p xs"
  using assms
proof (induction xs arbitrary: p x)
  case (Cons y ys)
  show ?case
  proof (cases ys)
    case Nil
    with Cons.prems show ?thesis by (auto simp: step_next_def)
  next
    case (Cons z zs)
    with Cons.prems have "seg h (h y) ys (Some oh)" "h y = Some z" "z \<noteq> oh" "oh \<notin> set (tl ys)" by auto
    with Cons.IH [of "h y" z] Cons Cons.prems show ?thesis by (auto simp: step_next_def)
  qed
qed simp

lemma step_run_correct:
  assumes "rest_from h oh (Some q) xs"
  shows "\<exists>q'. step_run h oh n q k = (q', k + length (take n xs)) \<and> rest_from h oh q' (drop n xs)"
  using assms
proof (induction n arbitrary: q k xs)
  case (Suc n)
  then obtain ys where xs: "xs = q # ys" "rest_from h oh (step_next h oh q) ys" by (cases xs) auto
  show ?case
  proof (cases "step_next h oh q")
    case None
    with xs have "ys = []" by (cases ys) auto
    with None xs show ?thesis by simp
  next
    case (Some q')
    with Suc.IH [of q' ys "Suc k"] xs show ?thesis by simp
  qed
qed auto

text \<open>The merged list so far.\<close>

definition merged :: "'n sort_state \<Rightarrow> 'n list \<Rightarrow> bool" where
  "merged s out \<longleftrightarrow>
     (if out = [] then st_list s = None \<and> st_tail s = None
      else st_tail s = Some (last out) \<and> seg (st_links s) (st_list s) (butlast out) (Some (last out)))"

lemma merged_emit:
  assumes "merged s out" "distinct out" "e \<notin> set out"
  shows "merged (emit e s) (out @ [e])"
proof (cases out rule: rev_cases)
  case (snoc ys y)
  then have "butlast (out @ [e]) = ys @ [y]" by (simp only: butlast_snoc)
  with snoc assms show ?thesis
    by (auto simp: merged_def emit_def)
qed (use assms in \<open>auto simp: merged_def emit_def\<close>)

lemma emit_links:
  assumes "merged s out" "x \<notin> set out"
  shows "st_links (emit e s) x = st_links s x"
  using assms by (cases out rule: rev_cases) (auto simp: merged_def emit_def)

lemma emit_runs:
  assumes "merged s out" "set out \<inter> set xs = {}"
  shows "run_from (st_links (emit e s)) oh p xs = run_from (st_links s) oh p xs"
    "rest_from (st_links (emit e s)) oh p xs = rest_from (st_links s) oh p xs"
  using assms by (cases out rule: rev_cases; auto simp: merged_def emit_def)+

section \<open>The reference\<close>

abbreviation rmerge where "rmerge \<equiv> Sorting_Algorithms.merge"
abbreviation rsort where "rsort \<equiv> Sorting_Algorithms.sort"

lemma rsort_append: "rsort cmp (xs @ ys) = rmerge cmp (rsort cmp xs) (rsort cmp ys)"
proof (rule Sorting_Algorithms.sort_eqI)
  show "mset (xs @ ys) = mset (rmerge cmp (rsort cmp xs) (rsort cmp ys))"
    by (simp add: Sorting_Algorithms.mset_merge)
  show "Sorting_Algorithms.sorted cmp (rmerge cmp (rsort cmp xs) (rsort cmp ys))"
    by (simp add: Sorting_Algorithms.sorted_merge)
  show "filter (\<lambda>x. compare cmp l x = Equiv) (xs @ ys) =
      filter (\<lambda>x. compare cmp l x = Equiv) (rmerge cmp (rsort cmp xs) (rsort cmp ys))" for l
    by (simp add: Sorting_Algorithms.filter_merge Sorting_Algorithms.stable_sort
        Sorting_Algorithms.merge_stable_segments)
qed

text \<open>The list after the passes with run lengths below \<open>n\<close>: sorted runs of \<open>n\<close> elements.\<close>

function runs :: "'a comparator \<Rightarrow> nat \<Rightarrow> 'a list \<Rightarrow> 'a list" where
  "runs cmp n xs = (if xs = [] \<or> n = 0 then xs else rsort cmp (take n xs) @ runs cmp n (drop n xs))"
  by pat_completeness auto
termination by (relation "measure (\<lambda>(cmp, n, xs). length xs)") auto

declare runs.simps [simp del]

lemma runs_Nil [simp]: "runs cmp n [] = []"
  by (simp add: runs.simps)

lemma length_runs [simp]: "length (runs cmp n xs) = length xs"
  by (induction cmp n xs rule: runs.induct) (subst runs.simps, auto simp: min_def)

lemma runs_eq_Nil [simp]: "runs cmp n xs = [] \<longleftrightarrow> xs = []"
  using length_runs [of cmp n xs] by (cases "runs cmp n xs"; cases xs) auto

lemma mset_runs [simp]: "mset (runs cmp n xs) = mset xs"
proof (induction cmp n xs rule: runs.induct)
  case (1 cmp n xs)
  have "mset (take n xs) + mset (drop n xs) = mset xs"
    by (metis append_take_drop_id mset_append)
  with 1 show ?case by (subst runs.simps) auto
qed

lemma set_runs [simp]: "set (runs cmp n xs) = set xs"
  by (rule mset_eq_setD [OF mset_runs])

lemma distinct_runs [simp]: "distinct (runs cmp n xs) = distinct xs"
  by (rule mset_eq_imp_distinct_iff [OF mset_runs])

lemma runs_one: "runs cmp 1 xs = xs"
  by (induction xs) (subst runs.simps, simp)+

lemma take_runs: "n \<noteq> 0 \<Longrightarrow> take n (runs cmp n xs) = rsort cmp (take n xs)"
  by (subst runs.simps) (auto simp: min_def)

lemma drop_runs: "n \<noteq> 0 \<Longrightarrow> drop n (runs cmp n xs) = runs cmp n (drop n xs)"
  by (subst runs.simps) (auto simp: min_def)

lemma runs_long: "length xs \<le> n \<Longrightarrow> n \<noteq> 0 \<Longrightarrow> runs cmp n xs = rsort cmp xs"
  by (subst runs.simps) auto

lemma runs_double:
  assumes "xs \<noteq> []" "n \<noteq> 0"
  shows "runs cmp (2 * n) xs =
     rmerge cmp (take n (runs cmp n xs)) (take n (drop n (runs cmp n xs))) @ runs cmp (2 * n) (drop (2 * n) xs)"
proof -
  have "take (2 * n) xs = take n xs @ take n (drop n xs)"
    by (simp add: take_add [symmetric] mult_2)
  with assms show ?thesis
    by (subst runs.simps) (simp add: rsort_append take_runs drop_runs)
qed

section \<open>Correctness\<close>

text \<open>The C comparison agrees with a comparator: at most zero exactly when not greater.\<close>

definition compares :: "('n \<Rightarrow> 'n \<Rightarrow> int) \<Rightarrow> 'n comparator \<Rightarrow> bool" where
  "compares cmp c \<longleftrightarrow> (\<forall>a b. cmp a b \<le> 0 \<longleftrightarrow> compare c a b \<noteq> Greater)"

lemma merge_loop_correct:
  assumes "compares cmp c" "merged s out" "distinct (out @ ps @ qs)"
    and "run_from (st_links s) oh p ps" "rest_from (st_links s) oh q qs"
  shows "\<exists>s' q'. merge_loop cmp oh s p (length ps) q n = Inr (s', q')
     \<and> merged s' (out @ rmerge c ps (take n qs)) \<and> rest_from (st_links s') oh q' (drop n qs)
     \<and> (\<forall>x. x \<notin> set (out @ ps @ qs) \<longrightarrow> st_links s' x = st_links s x)"
  using assms(2-)
proof (induction "length ps + n" arbitrary: s p q n out ps qs)
  case 0
  then show ?case by (subst merge_loop.simps) auto
next
  case (Suc k)
  note cmp = assms(1) [unfolded compares_def, rule_format]
  have from_p: ?case if ps: "ps = e # ps'" and step: "merge_loop cmp oh s p (length ps) q n =
      merge_loop cmp oh (emit e s) (step_next (st_links s) oh e) (length ps') q n"
    and m: "rmerge c ps (take n qs) = e # rmerge c ps' (take n qs)" for e ps'
  proof -
    have "\<exists>s' q'. merge_loop cmp oh (emit e s) (step_next (st_links s) oh e) (length ps') q n = Inr (s', q')
       \<and> merged s' ((out @ [e]) @ rmerge c ps' (take n qs)) \<and> rest_from (st_links s') oh q' (drop n qs)
       \<and> (\<forall>x. x \<notin> set ((out @ [e]) @ ps' @ qs) \<longrightarrow> st_links s' x = st_links (emit e s) x)"
    proof (rule Suc.hyps(1))
      show "k = length ps' + n" using Suc.hyps(2) ps by simp
      show "merged (emit e s) (out @ [e])" using Suc.prems ps by (intro merged_emit) auto
      show "run_from (st_links (emit e s)) oh (step_next (st_links s) oh e) ps'"
        using Suc.prems ps by (subst emit_runs(1)) auto
      show "rest_from (st_links (emit e s)) oh q qs"
        using Suc.prems ps by (subst emit_runs(2)) auto
    qed (use Suc.prems ps in auto)
    then show ?thesis using step m ps emit_links [OF Suc.prems(1)] by auto
  qed
  have from_q: ?case if qs: "qs = e # qs'" and n: "n = Suc n'" and step: "merge_loop cmp oh s p (length ps) q n =
      merge_loop cmp oh (emit e s) p (length ps) (step_next (st_links s) oh e) n'"
    and m: "rmerge c ps (take n qs) = e # rmerge c ps (take n' qs')" for e qs' n'
  proof -
    have "\<exists>s' q'. merge_loop cmp oh (emit e s) p (length ps) (step_next (st_links s) oh e) n' = Inr (s', q')
       \<and> merged s' ((out @ [e]) @ rmerge c ps (take n' qs')) \<and> rest_from (st_links s') oh q' (drop n' qs')
       \<and> (\<forall>x. x \<notin> set ((out @ [e]) @ ps @ qs') \<longrightarrow> st_links s' x = st_links (emit e s) x)"
    proof (rule Suc.hyps(1))
      show "k = length ps + n'" using Suc.hyps(2) n by simp
      show "merged (emit e s) (out @ [e])" using Suc.prems qs by (intro merged_emit) auto
      show "run_from (st_links (emit e s)) oh p ps"
        using Suc.prems qs by (subst emit_runs(1)) auto
      show "rest_from (st_links (emit e s)) oh (step_next (st_links s) oh e) qs'"
        using Suc.prems qs by (subst emit_runs(2)) auto
    qed (use Suc.prems qs in auto)
    then show ?thesis using step m qs n emit_links [OF Suc.prems(1)] by auto
  qed
  consider (none) "ps = []" "n = 0 \<or> qs = []" | (p) e ps' where "ps = e # ps'" "n = 0 \<or> qs = []"
    | (q) e qs' n' where "ps = []" "qs = e # qs'" "n = Suc n'"
    | (both) a ps' b qs' n' where "ps = a # ps'" "qs = b # qs'" "n = Suc n'"
    by (cases ps; cases qs; cases n) auto
  then show ?case
  proof cases
    case none
    with Suc.prems show ?thesis by (subst merge_loop.simps) auto
  next
    case p
    with Suc.prems show ?thesis
      by (intro from_p [of e ps']) (simp, subst merge_loop.simps, auto)
  next
    case q
    with Suc.prems show ?thesis
      by (intro from_q [of e qs' n']) (simp, simp, subst merge_loop.simps, auto)
  next
    case both
    show ?thesis
    proof (cases "cmp a b \<le> 0")
      case True
      with both Suc.prems cmp [of a b] show ?thesis
        by (intro from_p [of a ps']) (simp, subst merge_loop.simps, auto)
    next
      case False
      with both Suc.prems cmp [of a b] show ?thesis
        by (intro from_q [of b qs' n']) (simp, simp, subst merge_loop.simps, auto)
    qed
  qed
qed

lemma pass_loop_correct:
  assumes "compares cmp c" "n \<noteq> 0" "merged s out" "distinct (out @ runs c n xs)"
    and "rest_from (st_links s) oh p (runs c n xs)"
  shows "\<exists>s' k'. pass_loop cmp oh n s p k = Some (Inr (s', k')) \<and> merged s' (out @ runs c (2 * n) xs)
     \<and> (k' \<le> k + 1 \<longleftrightarrow> length xs \<le> 2 * n) \<and> (if xs = [] then k' = k else k < k')
     \<and> (\<forall>x. x \<notin> set (out @ xs) \<longrightarrow> st_links s' x = st_links s x)"
  using assms(3-)
proof (induction "length xs" arbitrary: s p out xs k rule: less_induct)
  case less
  let ?ys = "runs c n xs"
  show ?case
  proof (cases "xs = []")
    case True
    with less.prems show ?thesis by (subst pass_loop.simps) auto
  next
    case False
    then have "?ys \<noteq> []" by simp
    then obtain y where p: "p = Some y" using less.prems by (cases ?ys) auto
    obtain q where q: "step_run (st_links s) oh n y 0 = (q, length (take n ?ys))"
        "rest_from (st_links s) oh q (drop n ?ys)"
      using step_run_correct [of "st_links s" oh y ?ys n 0] less.prems p by auto
    have "run_from (st_links s) oh p (take n ?ys)"
      using less.prems(3) rest_from_run [of _ _ _ "take n ?ys" "drop n ?ys"] by simp
    from merge_loop_correct [OF assms(1) less.prems(1) _ this q(2), of n] less.prems(2)
    obtain s' q' where m: "merge_loop cmp oh s p (length (take n ?ys)) q n = Inr (s', q')"
        "merged s' (out @ rmerge c (take n ?ys) (take n (drop n ?ys)))"
        "rest_from (st_links s') oh q' (drop n (drop n ?ys))"
        "\<forall>x. x \<notin> set (out @ ?ys) \<longrightarrow> st_links s' x = st_links s x"
      unfolding append_take_drop_id by blast
    let ?out = "out @ rmerge c (take n ?ys) (take n (drop n ?ys))" and ?xs = "drop (2 * n) xs"
    have rest: "drop n (drop n ?ys) = runs c n ?xs"
      using assms(2) by (simp add: drop_runs mult_2 add.commute)
    have ms: "mset (?out @ runs c n ?xs) = mset (out @ ?ys)"
      unfolding rest [symmetric] mset_append Sorting_Algorithms.mset_merge
      by (simp only: mset_append [symmetric] append.assoc append_take_drop_id)
    have "\<exists>s'' k'. pass_loop cmp oh n s' q' (k + 1) = Some (Inr (s'', k')) \<and> merged s'' (?out @ runs c (2 * n) ?xs)
       \<and> (k' \<le> k + 1 + 1 \<longleftrightarrow> length ?xs \<le> 2 * n) \<and> (if ?xs = [] then k' = k + 1 else k + 1 < k')
       \<and> (\<forall>x. x \<notin> set (?out @ ?xs) \<longrightarrow> st_links s'' x = st_links s' x)"
    proof (rule less.hyps)
      show "length ?xs < length xs" using False assms(2) by (cases xs) auto
      show "distinct (?out @ runs c n ?xs)"
        using mset_eq_imp_distinct_iff [OF ms] less.prems(2) by simp
    qed (use m rest in simp_all)
    then obtain s'' k' where r: "pass_loop cmp oh n s' q' (k + 1) = Some (Inr (s'', k'))"
        "merged s'' (?out @ runs c (2 * n) ?xs)" "if ?xs = [] then k' = k + 1 else k + 1 < k'"
        "\<forall>x. x \<notin> set (?out @ ?xs) \<longrightarrow> st_links s'' x = st_links s' x" by blast
    have sets: "set (?out @ ?xs) = set (out @ xs)"
      using mset_eq_setD [OF ms] by simp
    have many: "k' \<le> k + 1 \<longleftrightarrow> length xs \<le> 2 * n"
      using r(3) by (auto split: if_splits)
    have "pass_loop cmp oh n s p k = pass_loop cmp oh n s' q' (k + 1)"
      using p q m by (subst pass_loop.simps) simp
    moreover have "runs c (2 * n) xs = rmerge c (take n ?ys) (take n (drop n ?ys)) @ runs c (2 * n) ?xs"
      using runs_double [OF False assms(2)] .
    ultimately show ?thesis using r many sets m(4) False by (auto split: if_splits)
  qed
qed

text \<open>
  One iteration of the outer loop on a circle; after the pass the circle is closed again, now with
  runs of twice the length.
\<close>

lemma pass_circle:
  assumes c: "compares cmp c" and n: "n \<noteq> 0" and xs: "xs \<noteq> []" "distinct xs"
    and h: "seg h (Some (hd (runs c n xs))) (runs c n xs) (Some (hd (runs c n xs)))"
  obtains s k where
    "pass_loop cmp (hd (runs c n xs)) n \<lparr>st_links = h, st_list = None, st_tail = None\<rparr> (Some (hd (runs c n xs))) 0
       = Some (Inr (s, k))"
    "st_list s = Some (hd (runs c (2 * n) xs))" "st_tail s = Some (last (runs c (2 * n) xs))"
    "seg ((st_links s)(last (runs c (2 * n) xs) := Some (hd (runs c (2 * n) xs))))
       (Some (hd (runs c (2 * n) xs))) (runs c (2 * n) xs) (Some (hd (runs c (2 * n) xs)))"
    "k \<le> 1 \<longleftrightarrow> length xs \<le> 2 * n" "\<And>x. x \<notin> set xs \<Longrightarrow> st_links s x = h x"
proof -
  let ?ys = "runs c n xs" and ?zs = "runs c (2 * n) xs"
  let ?s = "\<lparr>st_links = h, st_list = None, st_tail = None\<rparr>"
  have d: "distinct ?ys" "distinct ?zs" using xs(2) by simp_all
  have ne: "?ys \<noteq> []" "?zs \<noteq> []" using xs(1) by simp_all
  have "rest_from h (hd ?ys) (Some (hd ?ys)) ?ys"
    using h d(1) ne(1) by (intro rest_from_circle [of _ _ _ _ "hd ?ys"]) (cases ?ys; simp)+
  then have "rest_from (st_links ?s) (hd ?ys) (Some (hd ?ys)) ?ys" by simp
  from pass_loop_correct [OF c n _ _ this, of "[]" 0] d(1)
  obtain s k where r: "pass_loop cmp (hd ?ys) n ?s (Some (hd ?ys)) 0 = Some (Inr (s, k))"
      "merged s ?zs" "k \<le> 1 \<longleftrightarrow> length xs \<le> 2 * n" "\<forall>x. x \<notin> set xs \<longrightarrow> st_links s x = h x"
    by (auto simp: merged_def)
  obtain as a where zs: "?zs = as @ [a]" using ne(2) by (cases ?zs rule: rev_cases) auto
  have l: "st_tail s = Some a" "seg (st_links s) (st_list s) as (Some a)"
    using r(2) zs by (simp_all add: merged_def)
  then have "st_list s = Some (hd ?zs)" using zs by (cases as) auto
  with l r zs d(2) that [of s k] show thesis by simp
qed

lemma sort_loop_correct:
  assumes c: "compares cmp c" and n: "n \<noteq> 0" and xs: "xs \<noteq> []" "distinct xs"
    and h: "seg h (Some (hd (runs c n xs))) (runs c n xs) (Some (hd (runs c n xs)))"
  shows "\<exists>h'. sort_loop cmp h (hd (runs c n xs)) n = Some (Inr (h', last (rsort c xs)))
     \<and> seg h' (Some (hd (rsort c xs))) (rsort c xs) (Some (hd (rsort c xs)))
     \<and> (\<forall>x. x \<notin> set xs \<longrightarrow> h' x = h x)"
  using n h
proof (induction "length xs - n" arbitrary: n h rule: less_induct)
  case less
  let ?zs = "runs c (2 * n) xs"
  from pass_circle [OF c less.prems(1) xs less.prems(2)] obtain s k where r:
    "pass_loop cmp (hd (runs c n xs)) n \<lparr>st_links = h, st_list = None, st_tail = None\<rparr> (Some (hd (runs c n xs))) 0
       = Some (Inr (s, k))"
    "st_list s = Some (hd ?zs)" "st_tail s = Some (last ?zs)"
    "seg ((st_links s)(last ?zs := Some (hd ?zs))) (Some (hd ?zs)) ?zs (Some (hd ?zs))"
    "k \<le> 1 \<longleftrightarrow> length xs \<le> 2 * n" "\<And>x. x \<notin> set xs \<Longrightarrow> st_links s x = h x" by blast
  let ?h = "(st_links s)(last ?zs := Some (hd ?zs))"
  have "last ?zs \<in> set xs" using last_in_set [of ?zs] xs(1) by simp
  then have frame: "?h x = h x" if "x \<notin> set xs" for x using r(6) [OF that] that by auto
  have step: "sort_loop cmp h (hd (runs c n xs)) n =
      (if k \<le> 1 then Some (Inr (?h, last ?zs)) else sort_loop cmp ?h (hd ?zs) (n * 2))"
    using r(1-3) by (subst sort_loop.simps) (simp add: Let_def)
  show ?case
  proof (cases "k \<le> 1")
    case True
    with r(5) less.prems(1) have "?zs = rsort c xs" by (intro runs_long) auto
    with step r(4) True frame show ?thesis by auto
  next
    case False
    with r(5) less.prems(1) have "length xs - n * 2 < length xs - n" by simp
    from less.hyps [OF this, of ?h] r(4) less.prems(1) step False frame show ?thesis
      by (auto simp: mult.commute)
  qed
qed

text \<open>The whole sort on a list of the store.\<close>

lemma clist_sort_at:
  assumes c: "compares cmp c" and l: "clist_at h l xs"
  shows "\<exists>h'. clist_sort cmp h l = Some (Inr h') \<and> clist_at h' l (rsort c xs)
     \<and> (\<forall>x. x \<notin> set (l # xs) \<longrightarrow> h' x = h x)"
proof (cases "xs = []")
  case False
  note circ = clist_at_circle [OF l False]
  have d: "distinct (l # xs)" using clist_at_distinct [OF l False] .
  from circ(2) False have first: "h (last xs) = Some (hd xs)" by (cases xs) auto
  let ?zs = "rsort c xs"
  have zset: "set ?zs = set xs" by (rule Sorting_Algorithms.set_sort)
  have zdist: "distinct ?zs" using circ(3) mset_eq_imp_distinct_iff [OF Sorting_Algorithms.mset_sort] by blast
  have ne: "?zs \<noteq> []" using zset False by (metis set_empty)
  obtain h1 where h1: "sort_loop cmp h (hd xs) 1 = Some (Inr (h1, last ?zs))"
      "seg h1 (Some (hd ?zs)) ?zs (Some (hd ?zs))" "\<forall>x. x \<notin> set xs \<longrightarrow> h1 x = h x"
    using sort_loop_correct [OF c one_neq_zero False circ(3), of h, unfolded runs_one, OF circ(2) [unfolded first]]
    by blast
  have "clist_sort cmp h l = Some (Inr (h1(l := Some (last ?zs))))"
    using circ(1) first h1(1) by (simp add: clist_sort_def clist_sort_nodes_def)
  moreover have "clist_at (h1(l := Some (last ?zs))) l ?zs"
  proof (cases ?zs rule: rev_cases)
    case (snoc as a)
    with zset d have "l \<notin> set (as @ [a])" by simp
    with snoc show ?thesis using h1(2) zdist by auto
  qed (use ne in simp)
  moreover have "(h1(l := Some (last ?zs))) x = h x" if "x \<notin> set (l # xs)" for x
    using that h1(3) by simp
  ultimately show ?thesis by blast
qed (use l in \<open>simp add: clist_sort_def\<close>)

end
