(* ===== verification/Core_Queue.thy ===== *)
theory Core_Queue
  imports PRR_Prelude
begin

text \<open>
  The bounded queues of the kernel library: the ring buffer of bytes of \<open>core/lib/ringbuffer.c\<close> and
  the circular index counter of \<open>core/lib/include/cib.h\<close>, which the message queues build on.  Both
  provide the same contract, the locale \<open>bounded_fifo\<close>: what is put in comes out once and in order
  as long as the queue is not full.  The ring buffer works on memory, with the wrap-around of its
  \<open>unsigned\<close> position written out; the counters of the index counter wrap at \<open>2 ^ 32\<close>.
\<close>

unbundle bit_operations_syntax

section \<open>The contract of a bounded queue\<close>

datatype 'a fifo_op = Put 'a | Get

text \<open>
  A run of requests: a put on a full queue and a get on an empty one are refused and have no effect.
  The result lists for each request whether it was refused, what was taken out and what was accepted.
\<close>

fun fifo_run :: "('s \<Rightarrow> bool) \<Rightarrow> ('s \<Rightarrow> bool) \<Rightarrow> ('a \<Rightarrow> 's \<Rightarrow> 's) \<Rightarrow> ('s \<Rightarrow> 'a \<times> 's) \<Rightarrow> 'a fifo_op list \<Rightarrow> 's
    \<Rightarrow> bool list \<times> 'a list \<times> 'a list \<times> 's" where
  "fifo_run is_full is_empty put get [] s = ([], [], [], s)"
| "fifo_run is_full is_empty put get (Put x # ops) s =
     (if is_full s then
        case fifo_run is_full is_empty put get ops s of (ref, out, acc, s') \<Rightarrow> (True # ref, out, acc, s')
      else case fifo_run is_full is_empty put get ops (put x s) of
        (ref, out, acc, s') \<Rightarrow> (False # ref, out, x # acc, s'))"
| "fifo_run is_full is_empty put get (Get # ops) s =
     (if is_empty s then
        case fifo_run is_full is_empty put get ops s of (ref, out, acc, s') \<Rightarrow> (True # ref, out, acc, s')
      else case get s of (x, s1) \<Rightarrow>
        (case fifo_run is_full is_empty put get ops s1 of
           (ref, out, acc, s') \<Rightarrow> (False # ref, x # out, acc, s')))"

text \<open>The specification: the run on a list that holds at most \<open>n\<close> elements.\<close>

definition queue_run :: "nat \<Rightarrow> 'a fifo_op list \<Rightarrow> 'a list \<Rightarrow> bool list \<times> 'a list \<times> 'a list \<times> 'a list" where
  "queue_run n = fifo_run (\<lambda>xs. length xs = n) (\<lambda>xs. xs = []) (\<lambda>x xs. xs @ [x]) (\<lambda>xs. (hd xs, tl xs))"

locale bounded_fifo =
  fixes inv :: "'s \<Rightarrow> bool" and items :: "'s \<Rightarrow> 'a list" and cap :: "'s \<Rightarrow> nat"
    and is_full :: "'s \<Rightarrow> bool" and is_empty :: "'s \<Rightarrow> bool"
    and put :: "'a \<Rightarrow> 's \<Rightarrow> 's" and get :: "'s \<Rightarrow> 'a \<times> 's"
  assumes items_cap: "inv s \<Longrightarrow> length (items s) \<le> cap s"
    and full_iff: "inv s \<Longrightarrow> is_full s \<longleftrightarrow> length (items s) = cap s"
    and empty_iff: "inv s \<Longrightarrow> is_empty s \<longleftrightarrow> items s = []"
    and put_ok: "inv s \<Longrightarrow> \<not> is_full s \<Longrightarrow> inv (put x s) \<and> items (put x s) = items s @ [x] \<and> cap (put x s) = cap s"
    and get_ok: "inv s \<Longrightarrow> \<not> is_empty s \<Longrightarrow> get s = (x, s') \<Longrightarrow> inv s' \<and> items s = x # items s' \<and> cap s' = cap s"
begin

lemma run_keeps:
  assumes "inv s" "fifo_run is_full is_empty put get ops s = (ref, out, acc, s')"
  shows "inv s' \<and> cap s' = cap s \<and> items s @ acc = out @ items s'
     \<and> queue_run (cap s) ops (items s) = (ref, out, acc, items s')"
  using assms
proof (induction ops arbitrary: s ref out acc s')
  case (Cons op ops)
  show ?case
  proof (cases op)
    case (Put x)
    with Cons put_ok [of s x] full_iff [of s] show ?thesis
      by (fastforce simp: queue_run_def split: if_splits prod.splits)
  next
    case Get
    show ?thesis
    proof (cases "is_empty s")
      case True
      with Get Cons empty_iff [of s] show ?thesis
        by (fastforce simp: queue_run_def split: prod.splits)
    next
      case False
      obtain x s1 where g: "get s = (x, s1)" by (cases "get s")
      from get_ok [OF Cons.prems(1) False g] Get Cons False g show ?thesis
        by (fastforce simp: queue_run_def split: prod.splits)
    qed
  qed
qed (simp add: queue_run_def)

text \<open>Putting on a queue that gives up its oldest element when it is full.\<close>

lemma overwrite_ok:
  assumes "inv s" "cap s \<noteq> 0" "s1 = (if is_full s then snd (get s) else s)"
  shows "inv (put x s1) \<and> cap (put x s1) = cap s
     \<and> items (put x s1) = (if length (items s) = cap s then tl (items s) else items s) @ [x]"
proof (cases "is_full s")
  case True
  with assms have ne: "items s \<noteq> []" "\<not> is_empty s" using full_iff empty_iff by auto
  obtain y s2 where g: "get s = (y, s2)" by (cases "get s")
  from get_ok [OF assms(1) ne(2) g] have s2: "inv s2" "items s = y # items s2" "cap s2 = cap s" by auto
  then have "\<not> is_full s2" using full_iff [OF s2(1)] full_iff [OF assms(1)] True by auto
  from put_ok [OF s2(1) this, of x] s2 g True assms full_iff [OF assms(1)] show ?thesis by simp
next
  case False
  with put_ok [OF assms(1) False, of x] assms full_iff [OF assms(1)] show ?thesis by simp
qed

end

section \<open>The ring buffer\<close>

record ringbuffer_t =
  rb_buf :: u32
  rb_size :: u32
  rb_start :: u32
  rb_avail :: u32

definition ringbuffer_init :: "u32 \<Rightarrow> u32 \<Rightarrow> ringbuffer_t" where
  "ringbuffer_init buffer bufsize = \<lparr>rb_buf = buffer, rb_size = bufsize, rb_start = 0, rb_avail = 0\<rparr>"

definition ringbuffer_empty :: "ringbuffer_t \<Rightarrow> bool" where
  "ringbuffer_empty rb \<longleftrightarrow> rb_avail rb = 0"

definition ringbuffer_full :: "ringbuffer_t \<Rightarrow> bool" where
  "ringbuffer_full rb \<longleftrightarrow> rb_avail rb = rb_size rb"

definition ringbuffer_get_free :: "ringbuffer_t \<Rightarrow> u32" where
  "ringbuffer_get_free rb = rb_size rb - rb_avail rb"

definition add_tail :: "u8 \<Rightarrow> memory \<times> ringbuffer_t \<Rightarrow> memory \<times> ringbuffer_t" where
  "add_tail c s = (case s of (m, rb) \<Rightarrow>
     let pos = rb_start rb + rb_avail rb;
         rb = rb\<lparr>rb_avail := rb_avail rb + 1\<rparr>;
         pos = (if pos \<ge> rb_size rb then pos - rb_size rb else pos)
     in (m(rb_buf rb + pos := c), rb))"

definition get_head :: "memory \<times> ringbuffer_t \<Rightarrow> u8 \<times> (memory \<times> ringbuffer_t)" where
  "get_head s = (case s of (m, rb) \<Rightarrow>
     let result = m (rb_buf rb + rb_start rb);
         rb = rb\<lparr>rb_avail := rb_avail rb - 1\<rparr>
     in if rb_avail rb = 0 then (result, m, rb\<lparr>rb_start := 0\<rparr>)
        else let rb = rb\<lparr>rb_start := rb_start rb + 1\<rparr>
             in if rb_start rb = rb_size rb then (result, m, rb\<lparr>rb_start := 0\<rparr>) else (result, m, rb))"

text \<open>The loop of \<open>ringbuffer_add\<close>; \<open>k\<close> of the \<open>n\<close> bytes at \<open>src\<close> remain, the result counts the added ones.\<close>

fun ringbuffer_add_loop :: "u32 \<Rightarrow> nat \<Rightarrow> u32 \<Rightarrow> memory \<times> ringbuffer_t \<Rightarrow> u32 \<times> (memory \<times> ringbuffer_t)" where
  "ringbuffer_add_loop src 0 i s = (i, s)"
| "ringbuffer_add_loop src (Suc k) i s =
     (if ringbuffer_full (snd s) then (i, s)
      else ringbuffer_add_loop src k (i + 1) (add_tail (fst s (src + i)) s))"

definition ringbuffer_add :: "u32 \<Rightarrow> u32 \<Rightarrow> memory \<times> ringbuffer_t \<Rightarrow> u32 \<times> (memory \<times> ringbuffer_t)" where
  "ringbuffer_add src n s = ringbuffer_add_loop src (unat n) 0 s"

definition ringbuffer_add_one :: "u8 \<Rightarrow> memory \<times> ringbuffer_t \<Rightarrow> int \<times> (memory \<times> ringbuffer_t)" where
  "ringbuffer_add_one c s =
     (if ringbuffer_full (snd s) then
        case get_head s of (r, s') \<Rightarrow> (uint r, add_tail c s')
      else (-1, add_tail c s))"

definition ringbuffer_get_one :: "memory \<times> ringbuffer_t \<Rightarrow> int \<times> (memory \<times> ringbuffer_t)" where
  "ringbuffer_get_one s =
     (if \<not> ringbuffer_empty (snd s) then case get_head s of (r, s') \<Rightarrow> (uint r, s') else (-1, s))"

definition mem_copy :: "memory \<Rightarrow> u32 \<Rightarrow> u32 \<Rightarrow> u32 \<Rightarrow> memory" where
  "mem_copy m d s n = store_bytes m d (bytes_at m s (unat n))"

definition ringbuffer_get :: "u32 \<Rightarrow> u32 \<Rightarrow> memory \<times> ringbuffer_t \<Rightarrow> u32 \<times> (memory \<times> ringbuffer_t)" where
  "ringbuffer_get dest n s = (case s of (m, rb) \<Rightarrow>
     let n = (if n > rb_avail rb then rb_avail rb else n)
     in if n > 0 then
          let bytes_till_end = rb_size rb - rb_start rb;
              (m, rb) =
                (if bytes_till_end \<ge> n then
                   (mem_copy m dest (rb_buf rb + rb_start rb) n,
                    if bytes_till_end = n then rb\<lparr>rb_start := 0\<rparr> else rb\<lparr>rb_start := rb_start rb + n\<rparr>)
                 else
                   let m = mem_copy m dest (rb_buf rb + rb_start rb) bytes_till_end;
                       rb = rb\<lparr>rb_start := n - bytes_till_end\<rparr>
                   in (mem_copy m (dest + bytes_till_end) (rb_buf rb) (rb_start rb), rb))
          in (n, m, rb\<lparr>rb_avail := rb_avail rb - n\<rparr>)
        else (n, m, rb))"

definition ringbuffer_remove :: "u32 \<Rightarrow> ringbuffer_t \<Rightarrow> u32 \<times> ringbuffer_t" where
  "ringbuffer_remove n rb =
     (if n > rb_avail rb then (rb_avail rb, rb\<lparr>rb_start := 0, rb_avail := 0\<rparr>)
      else
        let rb = rb\<lparr>rb_start := rb_start rb + n, rb_avail := rb_avail rb - n\<rparr>
        in (n, if rb_start rb \<ge> rb_size rb then rb\<lparr>rb_start := rb_start rb - rb_size rb\<rparr> else rb))"

definition ringbuffer_peek_one :: "memory \<times> ringbuffer_t \<Rightarrow> int" where
  "ringbuffer_peek_one s = fst (ringbuffer_get_one s)"

definition ringbuffer_peek :: "u32 \<Rightarrow> u32 \<Rightarrow> memory \<times> ringbuffer_t \<Rightarrow> u32 \<times> memory" where
  "ringbuffer_peek dest n s = (case ringbuffer_get dest n s of (r, m, _) \<Rightarrow> (r, m))"

subsection \<open>Invariant and contents\<close>

text \<open>The buffer does not wrap around the address space and positions do not overflow.\<close>

definition rb_inv :: "ringbuffer_t \<Rightarrow> bool" where
  "rb_inv rb \<longleftrightarrow>
     unat (rb_avail rb) \<le> unat (rb_size rb) \<and> unat (rb_size rb) < 2 ^ 31
     \<and> (if rb_size rb = 0 then rb_start rb = 0 else unat (rb_start rb) < unat (rb_size rb))
     \<and> unat (rb_buf rb) + unat (rb_size rb) \<le> 2 ^ 32"

definition rb_pos :: "ringbuffer_t \<Rightarrow> nat \<Rightarrow> nat" where
  "rb_pos rb i = (unat (rb_start rb) + i) mod unat (rb_size rb)"

definition rb_items :: "memory \<times> ringbuffer_t \<Rightarrow> u8 list" where
  "rb_items s = (case s of (m, rb) \<Rightarrow>
     map (\<lambda>i. m (rb_buf rb + of_nat (rb_pos rb i))) [0..<unat (rb_avail rb)])"

abbreviation rb_cap :: "memory \<times> ringbuffer_t \<Rightarrow> nat" where
  "rb_cap s \<equiv> unat (rb_size (snd s))"

lemma length_rb_items [simp]: "length (rb_items s) = unat (rb_avail (snd s))"
  by (cases s) (simp add: rb_items_def)

lemma unat_add_le: "unat (a :: u32) + unat b < 2 ^ 32 \<Longrightarrow> unat (a + b) = unat a + unat b"
  by (simp add: unat_word_ariths)

lemma unat_of_nat_u32: "k < 2 ^ 32 \<Longrightarrow> unat (of_nat k :: u32) = k"
  by (simp add: unat_of_nat)

lemma u32_eq_of_nat:
  assumes "unat (w :: u32) = k"
  shows "w = of_nat k"
proof -
  have "unat w = unat (of_nat k :: u32)"
    using assms unat_u32_less [of w] unat_of_nat_u32 [of k] by simp
  then show ?thesis by (rule unsigned_word_eqI)
qed

lemma mod_once: "(a :: nat) < 2 * n \<Longrightarrow> a mod n = (if a \<ge> n then a - n else a)"
  by (simp add: le_mod_geq)

text \<open>The position the code computes for the next element.\<close>

lemma tail_pos:
  assumes "rb_inv rb" "\<not> ringbuffer_full rb" "pos = rb_start rb + rb_avail rb"
  shows "(if pos \<ge> rb_size rb then pos - rb_size rb else pos) = of_nat (rb_pos rb (unat (rb_avail rb)))"
proof -
  have av: "unat (rb_avail rb) < unat (rb_size rb)"
    using assms(1,2) by (auto simp: rb_inv_def ringbuffer_full_def dest: unsigned_word_eqI le_neq_implies_less)
  then have st: "unat (rb_start rb) < unat (rb_size rb)" and sz: "unat (rb_size rb) < 2 ^ 31"
    using assms(1) by (auto simp: rb_inv_def split: if_splits)
  have pos: "unat pos = unat (rb_start rb) + unat (rb_avail rb)"
    unfolding assms(3) using av st sz by (intro unat_add_le) simp
  have "unat (if pos \<ge> rb_size rb then pos - rb_size rb else pos) = rb_pos rb (unat (rb_avail rb))"
    using av st pos by (auto simp: rb_pos_def mod_once word_le_nat_alt unat_sub)
  then show ?thesis by (rule u32_eq_of_nat)
qed

lemma rb_pos_less: "rb_size rb \<noteq> 0 \<Longrightarrow> rb_pos rb i < unat (rb_size rb)"
  by (simp add: rb_pos_def unat_gt_0 mod_less_divisor)

lemma rb_pos_inj:
  assumes "rb_inv rb" "i < unat (rb_size rb)" "j < unat (rb_size rb)" "rb_pos rb i = rb_pos rb j"
  shows "i = j"
proof -
  have "unat (rb_start rb) < unat (rb_size rb)" using assms(1,2) by (auto simp: rb_inv_def split: if_splits)
  with assms(2-) show ?thesis by (auto simp: rb_pos_def mod_once split: if_splits)
qed

lemma rb_addr_inj:
  assumes "rb_inv rb" "a < unat (rb_size rb)" "b < unat (rb_size rb)"
    "rb_buf rb + of_nat a = rb_buf rb + of_nat b"
  shows "a = b"
proof -
  have "unat (of_nat a :: u32) = unat (of_nat b :: u32)" using assms(4) by simp
  moreover have "a < 2 ^ 32" "b < 2 ^ 32" using assms(1-3) by (auto simp: rb_inv_def)
  ultimately show ?thesis by (simp only: unat_of_nat_u32)
qed

lemma add_tail_ok:
  assumes "rb_inv rb" "\<not> ringbuffer_full rb"
  shows "rb_inv (snd (add_tail c (m, rb)))" "rb_items (add_tail c (m, rb)) = rb_items (m, rb) @ [c]"
    "rb_size (snd (add_tail c (m, rb))) = rb_size rb" "rb_buf (snd (add_tail c (m, rb))) = rb_buf rb"
    "fst (add_tail c (m, rb)) = m(rb_buf rb + of_nat (rb_pos rb (unat (rb_avail rb))) := c)"
proof -
  let ?n = "unat (rb_avail rb)"
  have av: "?n < unat (rb_size rb)"
    using assms by (auto simp: rb_inv_def ringbuffer_full_def dest: unsigned_word_eqI le_neq_implies_less)
  have sz: "unat (rb_size rb) < 2 ^ 31" using assms(1) by (simp add: rb_inv_def)
  have suc: "unat (rb_avail rb + 1) = Suc ?n" using av sz by (simp add: unat_add_le)
  have eq: "add_tail c (m, rb) = (m(rb_buf rb + of_nat (rb_pos rb ?n) := c), rb\<lparr>rb_avail := rb_avail rb + 1\<rparr>)"
    using tail_pos [OF assms refl] by (simp add: add_tail_def Let_def cong: if_cong)
  show "rb_inv (snd (add_tail c (m, rb)))" using assms(1) av suc by (simp add: eq rb_inv_def)
  show "rb_size (snd (add_tail c (m, rb))) = rb_size rb" "rb_buf (snd (add_tail c (m, rb))) = rb_buf rb"
    "fst (add_tail c (m, rb)) = m(rb_buf rb + of_nat (rb_pos rb ?n) := c)" by (simp_all add: eq)
  have nz: "rb_size rb \<noteq> 0" using av by auto
  have "rb_buf rb + of_nat (rb_pos rb i) \<noteq> rb_buf rb + of_nat (rb_pos rb ?n)" if "i < ?n" for i
    using nz rb_addr_inj [OF assms(1) rb_pos_less rb_pos_less, of i ?n] rb_pos_inj [OF assms(1), of i ?n] that av by auto
  then show "rb_items (add_tail c (m, rb)) = rb_items (m, rb) @ [c]"
    by (simp add: eq rb_items_def suc rb_pos_def)
qed

lemma upt_Suc_Cons: "[0..<Suc k] = 0 # map Suc [0..<k]"
  by (simp add: map_Suc_upt upt_conv_Cons del: upt_Suc)

lemma rb_items_Cons:
  assumes "rb_inv rb" "\<not> ringbuffer_empty rb"
  shows "rb_items (m, rb) = m (rb_buf rb + rb_start rb)
     # map (\<lambda>i. m (rb_buf rb + of_nat (rb_pos rb (Suc i)))) [0..<unat (rb_avail rb) - 1]"
proof -
  have n: "unat (rb_avail rb) = Suc (unat (rb_avail rb) - 1)"
    using assms(2) by (simp add: ringbuffer_empty_def unat_gt_0)
  then have st: "unat (rb_start rb) < unat (rb_size rb)"
    using assms(1) by (auto simp: rb_inv_def split: if_splits)
  then have "of_nat (rb_pos rb 0) = rb_start rb" by (simp add: rb_pos_def)
  moreover have "[0..<unat (rb_avail rb)] = 0 # map Suc [0..<unat (rb_avail rb) - 1]"
    using upt_Suc_Cons [of "unat (rb_avail rb) - 1"] unfolding n [symmetric] .
  ultimately show ?thesis by (simp add: rb_items_def)
qed

subsection \<open>Taking elements out\<close>

text \<open>Advancing the read position by \<open>n\<close>; an emptied buffer may restart anywhere.\<close>

lemma rb_advance:
  assumes "rb_inv rb" "n \<le> unat (rb_avail rb)" "unat av = unat (rb_avail rb) - n"
    and "rb_size rb \<noteq> 0" "unat st < unat (rb_size rb)"
    and "n = unat (rb_avail rb) \<or> unat st = (unat (rb_start rb) + n) mod unat (rb_size rb)"
  shows "rb_inv (rb\<lparr>rb_start := st, rb_avail := av\<rparr>)"
    "rb_items (m, rb\<lparr>rb_start := st, rb_avail := av\<rparr>) = drop n (rb_items (m, rb))"
proof -
  show "rb_inv (rb\<lparr>rb_start := st, rb_avail := av\<rparr>)" using assms by (auto simp: rb_inv_def)
  show "rb_items (m, rb\<lparr>rb_start := st, rb_avail := av\<rparr>) = drop n (rb_items (m, rb))"
  proof (rule nth_equalityI)
    fix i assume "i < length (rb_items (m, rb\<lparr>rb_start := st, rb_avail := av\<rparr>))"
    then have i: "i + n < unat (rb_avail rb)" using assms(3) by simp
    then have "unat st = (unat (rb_start rb) + n) mod unat (rb_size rb)" using assms(6) by simp
    then have "(unat st + i) mod unat (rb_size rb) = (unat (rb_start rb) + (n + i)) mod unat (rb_size rb)"
      by (simp add: mod_add_left_eq add.assoc)
    moreover have "i < unat (rb_avail rb) - n" using i by simp
    ultimately show "rb_items (m, rb\<lparr>rb_start := st, rb_avail := av\<rparr>) ! i = drop n (rb_items (m, rb)) ! i"
      using i assms(3) by (simp add: rb_items_def rb_pos_def add.commute)
  qed (use assms(3) in simp)
qed

lemma rb_avail_pos:
  assumes "rb_inv rb" "0 < unat (rb_avail rb)"
  shows "rb_size rb \<noteq> 0" "unat (rb_start rb) < unat (rb_size rb)" "unat (rb_avail rb) \<le> unat (rb_size rb)"
    "unat (rb_size rb) < 2 ^ 31"
  using assms by (auto simp: rb_inv_def split: if_splits)

lemma get_head_ok:
  assumes "rb_inv rb" "\<not> ringbuffer_empty rb" "get_head (m, rb) = (x, m', rb')"
  shows "rb_inv rb'" "rb_items (m, rb) = x # rb_items (m', rb')" "rb_size rb' = rb_size rb"
    "rb_buf rb' = rb_buf rb" "m' = m"
proof -
  have pos: "0 < unat (rb_avail rb)" using assms(2) by (simp add: ringbuffer_empty_def unat_gt_0)
  note b = rb_avail_pos [OF assms(1) pos]
  have av: "unat (rb_avail rb - 1) = unat (rb_avail rb) - 1"
    using assms(2) by (intro unat_minus_one) (simp add: ringbuffer_empty_def)
  have st: "unat (rb_start rb + 1) = Suc (unat (rb_start rb))" using b by (simp add: unat_add_le)
  define s' where "s' = (if rb_avail rb - 1 = 0 then 0 else if rb_start rb + 1 = rb_size rb then 0 else rb_start rb + 1)"
  have eq: "x = m (rb_buf rb + rb_start rb)" "m' = m" "rb' = rb\<lparr>rb_start := s', rb_avail := rb_avail rb - 1\<rparr>"
    using assms(3) by (auto simp: get_head_def Let_def s'_def split: if_splits)
  have full: "rb_start rb + 1 = rb_size rb \<longleftrightarrow> Suc (unat (rb_start rb)) = unat (rb_size rb)"
    using st by (metis unsigned_word_eqI)
  have one: "rb_avail rb - 1 = 0 \<longleftrightarrow> unat (rb_avail rb) = 1"
  proof -
    have "rb_avail rb - 1 = 0 \<longleftrightarrow> unat (rb_avail rb - 1) = 0" by (simp only: unsigned_eq_0_iff)
    with av pos show ?thesis by arith
  qed
  have s': "unat s' < unat (rb_size rb)" using b st full pos by (auto simp: s'_def unat_gt_0)
  have nxt: "1 = unat (rb_avail rb) \<or> unat s' = (unat (rb_start rb) + 1) mod unat (rb_size rb)"
    using b st full one by (auto simp: s'_def)
  note adv = rb_advance [OF assms(1) _ _ b(1) s' nxt, of "rb_avail rb - 1"]
  show "rb_inv rb'" using adv(1) av pos eq by simp
  have "drop 1 (rb_items (m, rb)) = rb_items (m', rb')" using adv(2) av pos eq by simp
  then show "rb_items (m, rb) = x # rb_items (m', rb')"
    using rb_items_Cons [OF assms(1,2), of m] eq by simp
  show "rb_size rb' = rb_size rb" "rb_buf rb' = rb_buf rb" "m' = m" using eq by simp_all
qed

interpretation ring: bounded_fifo "\<lambda>s. rb_inv (snd s)" rb_items rb_cap "\<lambda>s. ringbuffer_full (snd s)"
  "\<lambda>s. ringbuffer_empty (snd s)" add_tail get_head
proof unfold_locales
  fix s :: "memory \<times> ringbuffer_t" and x s'
  obtain m rb where s: "s = (m, rb)" by (cases s)
  assume inv: "rb_inv (snd s)"
  then show "length (rb_items s) \<le> rb_cap s" by (simp add: rb_inv_def)
  show "ringbuffer_full (snd s) \<longleftrightarrow> length (rb_items s) = rb_cap s"
    by (auto simp: ringbuffer_full_def intro: unsigned_word_eqI)
  show "ringbuffer_empty (snd s) \<longleftrightarrow> rb_items s = []"
    using length_0_conv [of "rb_items s"] by (simp add: ringbuffer_empty_def unsigned_eq_0_iff)
  show "rb_inv (snd (add_tail x s)) \<and> rb_items (add_tail x s) = rb_items s @ [x] \<and> rb_cap (add_tail x s) = rb_cap s"
    if "\<not> ringbuffer_full (snd s)"
    using add_tail_ok [of rb x m] inv that s by simp
  show "rb_inv (snd s') \<and> rb_items s = x # rb_items s' \<and> rb_cap s' = rb_cap s"
    if "\<not> ringbuffer_empty (snd s)" "get_head s = (x, s')"
    using get_head_ok [of rb m x "fst s'" "snd s'"] inv that s by simp
qed

subsection \<open>The exported operations\<close>

lemma ringbuffer_add_one_ok:
  assumes "rb_inv rb" "rb_size rb \<noteq> 0" "ringbuffer_add_one c (m, rb) = (r, s')"
  shows "rb_inv (snd s')" "rb_size (snd s') = rb_size rb"
    "rb_items s' = (if ringbuffer_full rb then tl (rb_items (m, rb)) else rb_items (m, rb)) @ [c]"
    "r = (if ringbuffer_full rb then uint (hd (rb_items (m, rb))) else -1)"
proof -
  have ne: "rb_cap (m, rb) \<noteq> 0" using assms(2) by (simp add: unsigned_eq_0_iff)
  have f: "ringbuffer_full rb \<longleftrightarrow> length (rb_items (m, rb)) = rb_cap (m, rb)"
    using ring.full_iff [of "(m, rb)"] assms(1) by simp
  note o = ring.overwrite_ok [of "(m, rb)" _ c, OF _ ne refl]
  have s': "s' = add_tail c (if ringbuffer_full rb then snd (get_head (m, rb)) else (m, rb))"
    using assms(3) by (auto simp: ringbuffer_add_one_def split: prod.splits if_splits)
  show "rb_inv (snd s')" "rb_items s' = (if ringbuffer_full rb then tl (rb_items (m, rb)) else rb_items (m, rb)) @ [c]"
    using o assms(1) f by (simp_all add: s')
  show "rb_size (snd s') = rb_size rb" using o assms(1) by (auto simp: s' intro: unsigned_word_eqI)
  show "r = (if ringbuffer_full rb then uint (hd (rb_items (m, rb))) else -1)"
  proof (cases "ringbuffer_full rb")
    case True
    then have "\<not> ringbuffer_empty rb" using assms(2) by (simp add: ringbuffer_full_def ringbuffer_empty_def)
    from get_head_ok(2) [OF assms(1) this, of m] True assms(3) show ?thesis
      by (auto simp: ringbuffer_add_one_def split: prod.splits)
  qed (use assms(3) in \<open>simp add: ringbuffer_add_one_def\<close>)
qed

lemma ringbuffer_get_one_ok:
  assumes "rb_inv rb" "ringbuffer_get_one (m, rb) = (r, s')"
  shows "rb_inv (snd s')" "rb_items s' = tl (rb_items (m, rb))"
    "r = (if rb_items (m, rb) = [] then -1 else uint (hd (rb_items (m, rb))))"
proof -
  have e: "ringbuffer_empty rb \<longleftrightarrow> rb_items (m, rb) = []"
    using ring.empty_iff [of "(m, rb)"] assms(1) by simp
  have "rb_inv (snd s') \<and> rb_items s' = tl (rb_items (m, rb))
    \<and> r = (if rb_items (m, rb) = [] then -1 else uint (hd (rb_items (m, rb))))"
  proof (cases "ringbuffer_empty rb")
    case True
    with e assms show ?thesis by (auto simp: ringbuffer_get_one_def)
  next
    case False
    obtain x m' rb' where g: "get_head (m, rb) = (x, m', rb')" by (cases "get_head (m, rb)") auto
    from get_head_ok(1,2) [OF assms(1) False g] assms(2) False g show ?thesis
      by (auto simp: ringbuffer_get_one_def)
  qed
  then show "rb_inv (snd s')" "rb_items s' = tl (rb_items (m, rb))"
    "r = (if rb_items (m, rb) = [] then -1 else uint (hd (rb_items (m, rb))))" by simp_all
qed

lemma ringbuffer_remove_ok:
  assumes "rb_inv rb" "ringbuffer_remove n rb = (r, rb')"
  shows "rb_inv rb'" "rb_items (m, rb') = drop (unat n) (rb_items (m, rb))"
    "unat r = min (unat n) (unat (rb_avail rb))"
proof -
  consider (big) "n > rb_avail rb" | (zero) "n \<le> rb_avail rb" "rb_size rb = 0"
    | (ok) "n \<le> rb_avail rb" "rb_size rb \<noteq> 0" by force
  then have "rb_inv rb' \<and> rb_items (m, rb') = drop (unat n) (rb_items (m, rb))
    \<and> unat r = min (unat n) (unat (rb_avail rb))"
  proof cases
    case big
    then show ?thesis using assms
      by (auto simp: ringbuffer_remove_def rb_inv_def rb_items_def word_less_nat_alt unat_gt_0 split: if_splits)
  next
    case zero
    then have "rb_avail rb = 0" using assms(1) by (simp add: rb_inv_def unsigned_eq_0_iff)
    with zero(1) have "n = 0" by simp
    note this \<open>rb_avail rb = 0\<close>
    with assms zero show ?thesis by (auto simp: ringbuffer_remove_def rb_inv_def rb_items_def)
  next
    case ok
    have le: "unat n \<le> unat (rb_avail rb)" using ok by (simp add: word_le_nat_alt)
    have b: "unat (rb_avail rb) \<le> unat (rb_size rb)" "unat (rb_size rb) < 2 ^ 31"
      "unat (rb_start rb) < unat (rb_size rb)" using assms(1) ok(2) by (auto simp: rb_inv_def)
    define st where "st = (if rb_start rb + n \<ge> rb_size rb then rb_start rb + n - rb_size rb else rb_start rb + n)"
    have sum: "unat (rb_start rb + n) = unat (rb_start rb) + unat n" using b le by (intro unat_add_le) simp
    have st: "unat st = (unat (rb_start rb) + unat n) mod unat (rb_size rb)"
      using b le sum by (auto simp: st_def mod_once word_le_nat_alt unat_sub)
    have eq: "r = n" "rb' = rb\<lparr>rb_start := st, rb_avail := rb_avail rb - n\<rparr>"
      using assms(2) ok(1) by (auto simp: ringbuffer_remove_def Let_def st_def split: if_splits)
    have av: "unat (rb_avail rb - n) = unat (rb_avail rb) - unat n" using ok(1) by (simp add: unat_sub)
    have lt: "unat st < unat (rb_size rb)" unfolding st using ok(2) by (simp add: unat_gt_0)
    from rb_advance [OF assms(1) le av ok(2) lt disjI2, OF st] eq le show ?thesis by simp
  qed
  then show "rb_inv rb'" "rb_items (m, rb') = drop (unat n) (rb_items (m, rb))"
    "unat r = min (unat n) (unat (rb_avail rb))" by simp_all
qed

text \<open>The contents as two contiguous stretches of memory.\<close>

lemma bytes_at_map: "bytes_at m a n = map (\<lambda>i. m (a + of_nat i)) [0..<n]"
  by (rule nth_equalityI) (simp_all add: bytes_at_nth)

lemma take_bytes_at: "k \<le> n \<Longrightarrow> take k (bytes_at m a n) = bytes_at m a k"
  by (rule nth_equalityI) (simp_all add: bytes_at_nth)

lemma rb_items_split:
  assumes "rb_inv rb" "rb_size rb \<noteq> 0"
  shows "rb_items (m, rb) = take (unat (rb_avail rb))
     (bytes_at m (rb_buf rb + rb_start rb) (unat (rb_size rb) - unat (rb_start rb))
      @ bytes_at m (rb_buf rb) (unat (rb_start rb)))"
proof (rule nth_equalityI)
  have b: "unat (rb_avail rb) \<le> unat (rb_size rb)" "unat (rb_start rb) < unat (rb_size rb)"
    using assms by (auto simp: rb_inv_def)
  show "length (rb_items (m, rb)) = length (take (unat (rb_avail rb))
     (bytes_at m (rb_buf rb + rb_start rb) (unat (rb_size rb) - unat (rb_start rb))
      @ bytes_at m (rb_buf rb) (unat (rb_start rb))))" using b by simp
  fix i assume "i < length (rb_items (m, rb))"
  then have i: "i < unat (rb_avail rb)" by simp
  have p: "rb_pos rb i = (if unat (rb_size rb) \<le> unat (rb_start rb) + i
      then unat (rb_start rb) + i - unat (rb_size rb) else unat (rb_start rb) + i)"
    unfolding rb_pos_def using i b by (intro mod_once) simp
  show "rb_items (m, rb) ! i = take (unat (rb_avail rb))
     (bytes_at m (rb_buf rb + rb_start rb) (unat (rb_size rb) - unat (rb_start rb))
      @ bytes_at m (rb_buf rb) (unat (rb_start rb))) ! i"
    using i b p by (auto simp: rb_items_def nth_append bytes_at_nth algebra_simps)
qed

text \<open>No byte of the \<open>k\<close> bytes at \<open>b\<close> is one of the \<open>n\<close> bytes at \<open>a\<close>.\<close>

definition apart :: "u32 \<Rightarrow> nat \<Rightarrow> u32 \<Rightarrow> nat \<Rightarrow> bool" where
  "apart a n b k \<longleftrightarrow> (\<forall>j < k. n \<le> unat (b + of_nat j - a))"

lemma bytes_at_store_apart:
  assumes "apart a (length bs) b k" "i + n \<le> k"
  shows "bytes_at (store_bytes m a bs) (b + of_nat i) n = bytes_at m (b + of_nat i) n"
proof (rule bytes_at_cong)
  fix j assume "j < n"
  with assms(2) have "i + j < k" by simp
  with assms(1) have "length bs \<le> unat (b + of_nat (i + j) - a)" unfolding apart_def by blast
  then show "store_bytes m a bs (b + of_nat i + of_nat j) = m (b + of_nat i + of_nat j)"
    by (intro store_bytes_frame) (simp add: algebra_simps)
qed

lemma rb_items_store:
  assumes "rb_inv rb" "apart a (length bs) (rb_buf rb) (unat (rb_size rb))"
  shows "rb_items (store_bytes m a bs, rb) = rb_items (m, rb)"
proof (cases "rb_size rb = 0")
  case True
  then have "unat (rb_avail rb) = 0" using assms(1) by (simp add: rb_inv_def)
  then show ?thesis by (simp add: rb_items_def)
next
  case False
  have "store_bytes m a bs (rb_buf rb + of_nat (rb_pos rb i)) = m (rb_buf rb + of_nat (rb_pos rb i))" for i
    using assms(2) rb_pos_less [OF False] by (intro store_bytes_frame) (simp add: apart_def)
  then show ?thesis by (simp add: rb_items_def)
qed

lemma ringbuffer_get_eq:
  assumes "rb_inv rb" "n0 = min (unat n) (unat (rb_avail rb))"
    and "apart dest n0 (rb_buf rb) (unat (rb_size rb))"
  obtains st where
    "ringbuffer_get dest n (m, rb) =
       (of_nat n0, store_bytes m dest (take n0 (rb_items (m, rb))),
        rb\<lparr>rb_start := st, rb_avail := rb_avail rb - of_nat n0\<rparr>)"
    "n0 = 0 \<and> st = rb_start rb \<or> n0 \<noteq> 0 \<and> unat st = (unat (rb_start rb) + n0) mod unat (rb_size rb)"
proof (cases "n0 = 0")
  case True
  then have "(if n > rb_avail rb then rb_avail rb else n) = 0"
    using assms(2) by (auto simp: word_less_nat_alt unsigned_eq_0_iff min_def split: if_splits)
  then have "ringbuffer_get dest n (m, rb) = (0, m, rb)" by (simp add: ringbuffer_get_def Let_def)
  with True that [of "rb_start rb"] show thesis by simp
next
  case False
  define N where "N = (if n > rb_avail rb then rb_avail rb else n)"
  define te where "te = rb_size rb - rb_start rb"
  have n: "unat N = n0" using assms(2) by (auto simp: N_def word_less_nat_alt)
  then have nn: "N = of_nat n0" by (rule u32_eq_of_nat)
  have pos: "0 < unat (rb_avail rb)" and le: "n0 \<le> unat (rb_avail rb)" using False assms(2) by auto
  note b = rb_avail_pos [OF assms(1) pos]
  have te: "unat te = unat (rb_size rb) - unat (rb_start rb)"
    unfolding te_def using b(2) by (simp add: unat_sub word_le_nat_alt)
  have gt: "0 < N" using n False by (simp add: word_less_nat_alt)
  have ge: "N \<le> te \<longleftrightarrow> n0 \<le> unat te" using n by (simp add: word_le_nat_alt)
  have items: "take n0 (rb_items (m, rb)) =
      bytes_at m (rb_buf rb + rb_start rb) (min n0 (unat te)) @ bytes_at m (rb_buf rb) (n0 - unat te)"
    using b le unfolding rb_items_split [OF assms(1) b(1)] te
    by (simp add: min_def take_bytes_at)
  note get = ringbuffer_get_def [of dest n "(m, rb)", unfolded prod.case Let_def, folded N_def te_def]
  show thesis
  proof (cases "n0 \<le> unat te")
    case True
    define st where "st = (if te = N then 0 else rb_start rb + N)"
    have "take n0 (rb_items (m, rb)) = bytes_at m (rb_buf rb + rb_start rb) n0"
      using items True by (simp add: min_def)
    then have "ringbuffer_get dest n (m, rb) =
        (N, store_bytes m dest (take n0 (rb_items (m, rb))), rb\<lparr>rb_start := st, rb_avail := rb_avail rb - N\<rparr>)"
      using gt ge True n unfolding get by (simp add: mem_copy_def st_def)
    moreover have "unat st = (unat (rb_start rb) + n0) mod unat (rb_size rb)"
    proof (cases "te = N")
      case eq: True
      with n te have "n0 = unat (rb_size rb) - unat (rb_start rb)" by simp
      with eq b(2) show ?thesis by (simp add: st_def)
    next
      case ne: False
      then have "unat te \<noteq> n0" using n unsigned_word_eqI by blast
      with True te b(2) have "unat (rb_start rb) + n0 < unat (rb_size rb)" by simp
      moreover from this have "unat (rb_start rb + N) = unat (rb_start rb) + n0"
        using n b(4) by (subst unat_add_le) simp_all
      ultimately show ?thesis using ne by (simp add: st_def)
    qed
    ultimately show ?thesis using that [of st] False nn by simp
  next
    case wrap: False
    let ?A = "bytes_at m (rb_buf rb + rb_start rb) (unat te)"
    have st: "unat (N - te) = n0 - unat te" using wrap n by (simp add: unat_sub word_le_nat_alt)
    have "apart dest (length ?A) (rb_buf rb) (unat (rb_size rb))"
      using assms(3) wrap by (auto simp: apart_def)
    then have "bytes_at (store_bytes m dest ?A) (rb_buf rb + of_nat 0) (n0 - unat te)
        = bytes_at m (rb_buf rb + of_nat 0) (n0 - unat te)"
      using b le by (intro bytes_at_store_apart) auto
    then have B: "bytes_at (store_bytes m dest ?A) (rb_buf rb) (n0 - unat te) = bytes_at m (rb_buf rb) (n0 - unat te)"
      by simp
    have "te = of_nat (length ?A)" using u32_eq_of_nat [of te] by simp
    then have "store_bytes (store_bytes m dest ?A) (dest + te) (bytes_at m (rb_buf rb) (n0 - unat te))
        = store_bytes m dest (?A @ bytes_at m (rb_buf rb) (n0 - unat te))"
      using store_bytes_append [of m dest ?A] by metis
    moreover have "take n0 (rb_items (m, rb)) = ?A @ bytes_at m (rb_buf rb) (n0 - unat te)"
      using items wrap by (simp add: min_def)
    ultimately have store: "store_bytes (store_bytes m dest ?A) (dest + te) (bytes_at m (rb_buf rb) (n0 - unat te))
        = store_bytes m dest (take n0 (rb_items (m, rb)))" by simp
    have "ringbuffer_get dest n (m, rb) =
        (N, store_bytes m dest (take n0 (rb_items (m, rb))), rb\<lparr>rb_start := N - te, rb_avail := rb_avail rb - N\<rparr>)"
      using gt ge wrap unfolding get by (simp add: mem_copy_def st B store)
    moreover have "unat (N - te) = (unat (rb_start rb) + n0) mod unat (rb_size rb)"
    proof -
      have "unat (rb_size rb) \<le> unat (rb_start rb) + n0" "unat (rb_start rb) + n0 < 2 * unat (rb_size rb)"
        using te wrap b le by linarith+
      with st te b(2) show ?thesis by (simp add: mod_once)
    qed
    ultimately show ?thesis using that [of "N - te"] False nn by simp
  qed
qed

lemma ringbuffer_get_ok:
  assumes "rb_inv rb" "n0 = min (unat n) (unat (rb_avail rb))"
    and "apart dest n0 (rb_buf rb) (unat (rb_size rb))"
    and "ringbuffer_get dest n (m, rb) = (r, m', rb')"
  shows "rb_inv rb'" "unat r = n0" "bytes_at m' dest n0 = take n0 (rb_items (m, rb))"
    "rb_items (m', rb') = drop n0 (rb_items (m, rb))"
proof -
  from ringbuffer_get_eq [OF assms(1-3), of m] assms(4) obtain st where e:
    "r = of_nat n0" "m' = store_bytes m dest (take n0 (rb_items (m, rb)))"
    "rb' = rb\<lparr>rb_start := st, rb_avail := rb_avail rb - of_nat n0\<rparr>"
    "n0 = 0 \<and> st = rb_start rb \<or> n0 \<noteq> 0 \<and> unat st = (unat (rb_start rb) + n0) mod unat (rb_size rb)"
    by auto
  have le: "n0 \<le> unat (rb_avail rb)" using assms(2) by simp
  have lt: "n0 < 2 ^ 32" using le unat_u32_less [of "rb_avail rb"] by linarith
  show "unat r = n0" using e(1) unat_of_nat_u32 [OF lt] by simp
  have len: "length (take n0 (rb_items (m, rb))) = n0" using le by simp
  then show "bytes_at m' dest n0 = take n0 (rb_items (m, rb))"
    using bytes_at_store [of "take n0 (rb_items (m, rb))" m dest] lt e(2) by simp
  have "rb_inv rb' \<and> rb_items (m, rb') = drop n0 (rb_items (m, rb))"
  proof (cases "n0 = 0")
    case True
    with e assms(1) show ?thesis by simp
  next
    case False
    then have pos: "0 < unat (rb_avail rb)" using le by simp
    note b = rb_avail_pos [OF assms(1) pos]
    have av: "unat (rb_avail rb - of_nat n0) = unat (rb_avail rb) - n0"
      using le unat_of_nat_u32 [OF lt] by (simp add: unat_sub word_le_nat_alt)
    have st: "unat st = (unat (rb_start rb) + n0) mod unat (rb_size rb)" using e(4) False by simp
    then have "unat st < unat (rb_size rb)" using b(2) by simp
    from rb_advance [OF assms(1) le av b(1) this disjI2, OF st] e(3) show ?thesis by simp
  qed
  then have inv: "rb_inv rb'" and it: "rb_items (m, rb') = drop n0 (rb_items (m, rb))" by simp_all
  show "rb_inv rb'" by (rule inv)
  have "rb_items (m', rb') = rb_items (m, rb')"
    unfolding e(2) using assms(3) e(3) len by (intro rb_items_store [OF inv]) simp
  with it show "rb_items (m', rb') = drop n0 (rb_items (m, rb))" by simp
qed

text \<open>Adding from a source outside the buffer.\<close>

lemma ringbuffer_add_loop_ok:
  assumes "rb_inv rb" "apart (rb_buf rb) (unat (rb_size rb)) src (unat i + k)" "unat i + k < 2 ^ 32"
    and "ringbuffer_add_loop src k i (m, rb) = (r, s')"
  shows "\<exists>j. j = min k (unat (rb_size rb) - unat (rb_avail rb)) \<and> r = i + of_nat j \<and> rb_inv (snd s')
     \<and> rb_items s' = rb_items (m, rb) @ bytes_at m (src + i) j"
  using assms
proof (induction k arbitrary: i m rb)
  case 0
  then show ?case by auto
next
  case (Suc k)
  show ?case
  proof (cases "ringbuffer_full rb")
    case True
    with Suc.prems show ?thesis by (auto simp: ringbuffer_full_def)
  next
    case False
    let ?s = "add_tail (m (src + i)) (m, rb)"
    note t = add_tail_ok [OF Suc.prems(1) False, of "m (src + i)" m]
    have av: "unat (rb_avail rb) < unat (rb_size rb)"
      using ring.items_cap [of "(m, rb)"] ring.full_iff [of "(m, rb)"] Suc.prems(1) False by simp
    have len: "unat (rb_avail (snd ?s)) = Suc (unat (rb_avail rb))"
      using arg_cong [OF t(2), of length] by simp
    have i: "unat (i + 1) = Suc (unat i)" using Suc.prems(3) by (subst unat_add_le) simp_all
    have mem: "bytes_at (fst ?s) (src + (i + 1)) j = bytes_at m (src + (i + 1)) j" if "j \<le> k" for j
    proof (rule bytes_at_cong)
      fix l assume "l < j"
      then have "unat (i + 1) + l < unat i + Suc k" using that i by simp
      then have "unat (rb_size rb) \<le> unat (src + of_nat (unat (i + 1) + l) - rb_buf rb)"
        using Suc.prems(2) unfolding apart_def by blast
      moreover have "src + of_nat (unat (i + 1) + l) = src + (i + 1) + of_nat l" by simp
      ultimately have far: "unat (rb_size rb) \<le> unat (src + (i + 1) + of_nat l - rb_buf rb)" by (simp only:)
      have "src + (i + 1) + of_nat l \<noteq> rb_buf rb + of_nat (rb_pos rb (unat (rb_avail rb)))"
      proof
        assume "src + (i + 1) + of_nat l = rb_buf rb + of_nat (rb_pos rb (unat (rb_avail rb)))"
        then have "unat (src + (i + 1) + of_nat l - rb_buf rb) = unat (of_nat (rb_pos rb (unat (rb_avail rb))) :: u32)"
          by simp
        also have "\<dots> = rb_pos rb (unat (rb_avail rb))"
          using rb_pos_less [of rb] av unat_u32_less [of "rb_size rb"]
          by (intro unat_of_nat_u32) (metis dual_order.strict_trans not_less_zero unat_0)
        also have "\<dots> < unat (rb_size rb)" using av by (intro rb_pos_less) auto
        finally show False using far by simp
      qed
      then show "fst ?s (src + (i + 1) + of_nat l) = m (src + (i + 1) + of_nat l)" using t(5) by simp
    qed
    obtain m1 rb1 where s1: "?s = (m1, rb1)" by (cases ?s)
    have "\<exists>j. j = min k (unat (rb_size rb1) - unat (rb_avail rb1)) \<and> r = (i + 1) + of_nat j \<and> rb_inv (snd s')
       \<and> rb_items s' = rb_items (m1, rb1) @ bytes_at m1 (src + (i + 1)) j"
    proof (rule Suc.IH)
      show "rb_inv rb1" using t(1) s1 by simp
      show "apart (rb_buf rb1) (unat (rb_size rb1)) src (unat (i + 1) + k)"
        using Suc.prems(2) t(3,4) s1 i by simp
      show "unat (i + 1) + k < 2 ^ 32" using Suc.prems(3) i by simp
      show "ringbuffer_add_loop src k (i + 1) (m1, rb1) = (r, s')" using Suc.prems(4) False s1 by simp
    qed
    then obtain j where j: "j = min k (unat (rb_size rb1) - unat (rb_avail rb1))" "r = (i + 1) + of_nat j"
      "rb_inv (snd s')" "rb_items s' = rb_items (m1, rb1) @ bytes_at m1 (src + (i + 1)) j" by blast
    have "Suc j = min (Suc k) (unat (rb_size rb) - unat (rb_avail rb))"
      using j(1) s1 t(3) len av by (auto simp: min_def)
    moreover have "r = i + of_nat (Suc j)" using j(2) by simp
    moreover have "bytes_at m1 (src + (i + 1)) j = bytes_at m (src + i + 1) j"
      using mem [of j] j(1) s1 by (simp add: add.assoc)
    then have "rb_items s' = rb_items (m, rb) @ bytes_at m (src + i) (Suc j)"
      using j(4) t(2) s1 by simp
    ultimately show ?thesis using j(3) by blast
  qed
qed

lemma ringbuffer_add_ok:
  assumes "rb_inv rb" "apart (rb_buf rb) (unat (rb_size rb)) src (unat n)"
    and "ringbuffer_add src n (m, rb) = (r, s')" "j = min (unat n) (unat (rb_size rb) - unat (rb_avail rb))"
  shows "unat r = j" "rb_inv (snd s')" "rb_items s' = rb_items (m, rb) @ bytes_at m src j"
proof -
  have "\<exists>j. j = min (unat n) (unat (rb_size rb) - unat (rb_avail rb)) \<and> r = 0 + of_nat j \<and> rb_inv (snd s')
     \<and> rb_items s' = rb_items (m, rb) @ bytes_at m (src + 0) j"
    using assms(1-3) unat_u32_less [of n] by (intro ringbuffer_add_loop_ok) (simp_all add: ringbuffer_add_def)
  moreover have "j < 2 ^ 32" using assms(4) unat_u32_less [of n] by linarith
  ultimately show "unat r = j" "rb_inv (snd s')" "rb_items s' = rb_items (m, rb) @ bytes_at m src j"
    using assms(4) unat_of_nat_u32 [of j] by auto
qed

section \<open>The circular index buffer\<close>

record cib_t =
  read_count :: u32
  write_count :: u32
  cib_mask :: u32

definition CIB_INIT :: "u32 \<Rightarrow> cib_t" where
  "CIB_INIT sz = \<lparr>read_count = 0, write_count = 0, cib_mask = sz - 1\<rparr>"

text \<open>\<open>None\<close> is the failed assertion that the size is a power of two.\<close>

definition cib_init :: "u32 \<Rightarrow> cib_t option" where
  "cib_init sz = (if sz AND (sz - 1) = 0 then Some (CIB_INIT sz) else None)"

definition cib_size :: "cib_t \<Rightarrow> u32" where
  "cib_size cib = cib_mask cib + 1"

definition cib_avail :: "cib_t \<Rightarrow> u32" where
  "cib_avail cib = write_count cib - read_count cib"

definition cib_full :: "cib_t \<Rightarrow> bool" where
  "cib_full cib \<longleftrightarrow> sint (cib_avail cib) > sint (cib_mask cib)"

definition cib_get_unsafe :: "cib_t \<Rightarrow> int \<times> cib_t" where
  "cib_get_unsafe cib =
     (sint (read_count cib AND cib_mask cib), cib\<lparr>read_count := read_count cib + 1\<rparr>)"

definition cib_get :: "cib_t \<Rightarrow> int \<times> cib_t" where
  "cib_get cib =
     (if cib_avail cib \<noteq> 0 then (sint (read_count cib AND cib_mask cib), cib\<lparr>read_count := read_count cib + 1\<rparr>)
      else (-1, cib))"

definition cib_peek :: "cib_t \<Rightarrow> int" where
  "cib_peek cib = (if cib_avail cib \<noteq> 0 then sint (read_count cib AND cib_mask cib) else -1)"

definition cib_put_unsafe :: "cib_t \<Rightarrow> int \<times> cib_t" where
  "cib_put_unsafe cib =
     (sint (write_count cib AND cib_mask cib), cib\<lparr>write_count := write_count cib + 1\<rparr>)"

definition cib_put :: "cib_t \<Rightarrow> int \<times> cib_t" where
  "cib_put cib =
     (let avail = cib_avail cib
      in if sint avail \<le> sint (cib_mask cib)
         then (sint (write_count cib AND cib_mask cib), cib\<lparr>write_count := write_count cib + 1\<rparr>)
         else (-1, cib))"

subsection \<open>A queue of slots\<close>

text \<open>
  The users of the index buffer keep an array of \<open>cib_size\<close> slots; a slot is written at the index
  \<open>cib_put\<close> returns and read at the index \<open>cib_get\<close> returns.
\<close>

type_synonym 'a slots = "int \<Rightarrow> 'a"

definition cib_enqueue :: "'a \<Rightarrow> 'a slots \<times> cib_t \<Rightarrow> 'a slots \<times> cib_t" where
  "cib_enqueue x q = (case q of (a, cib) \<Rightarrow> case cib_put cib of (n, cib') \<Rightarrow> (a(n := x), cib'))"

definition cib_dequeue :: "'a slots \<times> cib_t \<Rightarrow> 'a \<times> ('a slots \<times> cib_t)" where
  "cib_dequeue q = (case q of (a, cib) \<Rightarrow> case cib_get cib of (n, cib') \<Rightarrow> (a n, a, cib'))"

text \<open>
  A run of requests on the array through the index buffer: every put calls \<open>cib_put\<close> and every get
  calls \<open>cib_get\<close>; a negative index is a refusal, and the array is not accessed then.
\<close>

fun cib_run :: "'a fifo_op list \<Rightarrow> 'a slots \<times> cib_t \<Rightarrow> bool list \<times> 'a list \<times> 'a list \<times> ('a slots \<times> cib_t)" where
  "cib_run [] q = ([], [], [], q)"
| "cib_run (Put x # ops) (a, cib) =
     (case cib_put cib of (n, cib') \<Rightarrow>
        if n = -1 then case cib_run ops (a, cib') of (ref, out, acc, q') \<Rightarrow> (True # ref, out, acc, q')
        else case cib_run ops (a(n := x), cib') of (ref, out, acc, q') \<Rightarrow> (False # ref, out, x # acc, q'))"
| "cib_run (Get # ops) (a, cib) =
     (case cib_get cib of (n, cib') \<Rightarrow>
        if n = -1 then case cib_run ops (a, cib') of (ref, out, acc, q') \<Rightarrow> (True # ref, out, acc, q')
        else case cib_run ops (a, cib') of (ref, out, acc, q') \<Rightarrow> (False # ref, a n # out, acc, q'))"

definition cib_inv :: "cib_t \<Rightarrow> bool" where
  "cib_inv cib \<longleftrightarrow> cib_mask cib = -1 \<and> cib_avail cib = 0
     \<or> (\<exists>k \<le> 30. cib_mask cib = 2 ^ k - 1 \<and> unat (cib_avail cib) \<le> 2 ^ k)"

definition cib_cap :: "'a slots \<times> cib_t \<Rightarrow> nat" where
  "cib_cap q = unat (cib_size (snd q))"

definition cib_items :: "'a slots \<times> cib_t \<Rightarrow> 'a list" where
  "cib_items q = (case q of (a, cib) \<Rightarrow>
     map (\<lambda>i. a (sint ((read_count cib + of_nat i) AND cib_mask cib))) [0..<unat (cib_avail cib)])"

lemma sint_small: "unat (w :: u32) < 2 ^ 31 \<Longrightarrow> sint w = int (unat w)"
proof -
  assume "unat w < 2 ^ 31"
  then have "int (unat w) < int (2 ^ 31)" by (simp only: of_nat_less_iff)
  then have "uint w < 2 ^ 31" by simp
  then have "signed_take_bit 31 (uint w) = uint w"
    using order_trans [OF _ uint_ge_0, of "- (2 ^ 31)" w] by (intro signed_take_bit_int_eq_self) simp_all
  then show ?thesis by (simp add: sint_uint)
qed

lemma pow2_le_30: "k \<le> 30 \<Longrightarrow> (2 :: nat) ^ k \<le> 1073741824"
  using power_increasing [of k 30 "2 :: nat"] by simp

lemma cib_index:
  assumes "k \<le> 30"
  shows "sint (w AND (2 ^ k - 1) :: u32) = int (unat w mod 2 ^ k)"
proof -
  have m: "w AND (2 ^ k - 1) = take_bit k w" by (simp add: take_bit_eq_mask mask_eq_exp_minus_1)
  have "unat (take_bit k w) = take_bit k (unat w)" by (rule unsigned_take_bit_eq)
  then have u: "unat (take_bit k w) = unat w mod 2 ^ k" by (simp only: take_bit_eq_mod [of k "unat w"])
  have "unat w mod 2 ^ k < 2 ^ k" by simp
  with pow2_le_30 [OF assms] have "unat w mod 2 ^ k < 2147483648" by linarith
  then have "unat (take_bit k w) < 2 ^ 31" unfolding u by simp
  from sint_small [OF this] show ?thesis unfolding m u .
qed

lemma pow2_dvd_word: "k \<le> 30 \<Longrightarrow> (2 :: nat) ^ k dvd 2 ^ 32"
  by (rule le_imp_power_dvd) simp

lemma unat_add_mod:
  assumes "k \<le> 30"
  shows "unat (a + of_nat i :: u32) mod 2 ^ k = (unat a + i) mod 2 ^ k"
proof -
  have "unat (a + of_nat i :: u32) mod 2 ^ k = (unat a + i mod 2 ^ 32) mod 2 ^ 32 mod 2 ^ k"
    by (simp add: unat_word_ariths unat_of_nat)
  also have "\<dots> = (unat a + i) mod 2 ^ 32 mod 2 ^ k" by (simp only: mod_add_right_eq)
  also have "\<dots> = (unat a + i) mod 2 ^ k" by (rule mod_mod_cancel [OF pow2_dvd_word [OF assms]])
  finally show ?thesis .
qed

lemma unat_pow2: "k \<le> 30 \<Longrightarrow> unat (2 ^ k :: u32) = 2 ^ k"
proof -
  assume "k \<le> 30"
  from pow2_le_30 [OF this] have "unat (of_nat (2 ^ k) :: u32) = 2 ^ k" by (intro unat_of_nat_u32) simp
  then show ?thesis by simp
qed

text \<open>Sizes and the full test for a power of two of at most \<open>2 ^ 30\<close> slots.\<close>

lemma cib_size_pow2:
  assumes "k \<le> 30" "cib_mask cib = 2 ^ k - 1"
  shows "unat (cib_size cib) = 2 ^ k" "sint (cib_mask cib) = 2 ^ k - 1"
proof -
  show "unat (cib_size cib) = 2 ^ k" using unat_pow2 [OF assms(1)] assms(2) by (simp add: cib_size_def)
  have "(2 ^ k :: u32) \<noteq> 0" using unat_pow2 [OF assms(1)] by (metis power_not_zero unat_0 zero_neq_numeral)
  from unat_minus_one [OF this] have m: "unat (2 ^ k - 1 :: u32) = 2 ^ k - 1" unfolding unat_pow2 [OF assms(1)] .
  have "sint (2 ^ k - 1 :: u32) = int (2 ^ k - 1)"
    using sint_small [of "2 ^ k - 1"] pow2_le_30 [OF assms(1)] unfolding m by simp
  then show "sint (cib_mask cib) = 2 ^ k - 1" unfolding assms(2) by (simp add: of_nat_diff)
qed

lemma cib_full_iff:
  assumes "k \<le> 30" "cib_mask cib = 2 ^ k - 1" "unat (cib_avail cib) \<le> 2 ^ k"
  shows "cib_full cib \<longleftrightarrow> unat (cib_avail cib) = 2 ^ k"
proof -
  have "sint (cib_avail cib) = int (unat (cib_avail cib))"
    using assms(3) pow2_le_30 [OF assms(1)] by (intro sint_small) simp
  moreover have "int (2 ^ k) = 2 ^ k" by simp
  ultimately show ?thesis
    unfolding cib_full_def cib_size_pow2 [OF assms(1,2)] using assms(3) by linarith
qed

lemma cib_put_eq: "\<not> cib_full cib \<Longrightarrow> cib_put cib = cib_put_unsafe cib"
  by (simp add: cib_put_def cib_full_def cib_put_unsafe_def Let_def)

lemma cib_get_eq: "cib_avail cib \<noteq> 0 \<Longrightarrow> cib_get cib = cib_get_unsafe cib"
  by (simp add: cib_get_def cib_get_unsafe_def)

lemma cib_put_full: "cib_full cib \<Longrightarrow> cib_put cib = (-1, cib)"
  by (simp add: cib_put_def cib_full_def Let_def)

lemma cib_slot:
  assumes "k \<le> 30" "cib_mask cib = 2 ^ k - 1"
  shows "sint ((w + of_nat i) AND cib_mask cib) = int ((unat w + i) mod 2 ^ k)"
  unfolding assms(2) cib_index [OF assms(1)] unat_add_mod [OF assms(1)] ..

lemma mod_window_inj:
  assumes "(a + i) mod n = (a + j) mod (n :: nat)" "i < n" "j < n"
  shows "i = j"
  using assms
proof (induction i j rule: linorder_wlog)
  case (le i j)
  then have "n dvd j - i" using mod_eq_dvd_iff_nat [of "a + i" "a + j" n] by simp
  with le show ?case using dvd_imp_le [of n "j - i"] by fastforce
next
  case (sym i j)
  then show ?case by simp
qed

lemma cib_enqueue_ok:
  assumes "k \<le> 30" "cib_mask cib = 2 ^ k - 1" "unat (cib_avail cib) < 2 ^ k"
  shows "cib_items (cib_enqueue x (a, cib)) = cib_items (a, cib) @ [x]"
    "unat (cib_avail (snd (cib_enqueue x (a, cib)))) = Suc (unat (cib_avail cib))"
    "cib_mask (snd (cib_enqueue x (a, cib))) = cib_mask cib"
proof -
  let ?n = "unat (cib_avail cib)" and ?r = "unat (read_count cib)"
  have "\<not> cib_full cib" using cib_full_iff [OF assms(1,2)] assms(3) by simp
  then have eq: "cib_enqueue x (a, cib) =
      (a(sint (write_count cib AND cib_mask cib) := x), cib\<lparr>write_count := write_count cib + 1\<rparr>)"
    by (simp add: cib_enqueue_def cib_put_eq cib_put_unsafe_def)
  have w: "write_count cib = read_count cib + of_nat ?n" by (simp add: cib_avail_def)
  then have at: "sint (write_count cib AND cib_mask cib) = int ((?r + ?n) mod 2 ^ k)"
    using cib_slot [OF assms(1,2), of "read_count cib" ?n] by simp
  have av: "cib_avail (cib\<lparr>write_count := write_count cib + 1\<rparr>) = cib_avail cib + 1" by (simp add: cib_avail_def)
  have suc: "unat (cib_avail cib + 1) = Suc ?n"
    using assms(3) pow2_le_30 [OF assms(1)] by (subst unat_add_le) simp_all
  show "unat (cib_avail (snd (cib_enqueue x (a, cib)))) = Suc ?n"
    "cib_mask (snd (cib_enqueue x (a, cib))) = cib_mask cib" by (simp_all add: eq av suc)
  have "int ((?r + i) mod 2 ^ k) \<noteq> int ((?r + ?n) mod 2 ^ k)" if "i < ?n" for i
    using mod_window_inj [of ?r i "2 ^ k" ?n] that assms(3) by auto
  then show "cib_items (cib_enqueue x (a, cib)) = cib_items (a, cib) @ [x]"
    unfolding eq cib_items_def prod.case av suc by (simp add: at cib_slot [OF assms(1,2)])
qed

lemma cib_dequeue_ok:
  assumes "cib_avail cib \<noteq> 0" "cib_dequeue (a, cib) = (x, q')"
  shows "cib_items (a, cib) = x # cib_items q'" "unat (cib_avail cib) = Suc (unat (cib_avail (snd q')))"
    "cib_mask (snd q') = cib_mask cib"
proof -
  have eq: "x = a (sint (read_count cib AND cib_mask cib))" "q' = (a, cib\<lparr>read_count := read_count cib + 1\<rparr>)"
    using assms by (auto simp: cib_dequeue_def cib_get_eq cib_get_unsafe_def)
  have "cib_avail (cib\<lparr>read_count := read_count cib + 1\<rparr>) = cib_avail cib - 1" by (simp add: cib_avail_def)
  moreover have "unat (cib_avail cib - 1) = unat (cib_avail cib) - 1" using assms(1) by (rule unat_minus_one)
  ultimately show s: "unat (cib_avail cib) = Suc (unat (cib_avail (snd q')))"
    using assms(1) by (simp add: eq unat_gt_0)
  show "cib_mask (snd q') = cib_mask cib" by (simp add: eq)
  have "cib_items (a, cib) = map (\<lambda>i. a (sint ((read_count cib + of_nat i) AND cib_mask cib))) (0 # map Suc [0..<unat (cib_avail (snd q'))])"
    unfolding cib_items_def prod.case s upt_Suc_Cons ..
  then show "cib_items (a, cib) = x # cib_items q'"
    by (simp add: eq cib_items_def o_def algebra_simps)
qed

interpretation cibq: bounded_fifo "\<lambda>q. cib_inv (snd q)" cib_items cib_cap "\<lambda>q. cib_full (snd q)"
  "\<lambda>q. cib_avail (snd q) = 0" cib_enqueue cib_dequeue
proof unfold_locales
  fix q :: "'a slots \<times> cib_t" and x q'
  obtain a cib where q: "q = (a, cib)" by (cases q)
  assume "cib_inv (snd q)"
  then have inv: "cib_inv cib" by (simp add: q)
  have len: "length (cib_items q) = unat (cib_avail cib)" by (simp add: q cib_items_def)
  show "cib_avail (snd q) = 0 \<longleftrightarrow> cib_items q = []"
    using len length_0_conv [of "cib_items q"] by (simp add: q unsigned_eq_0_iff)
  consider (none) "cib_mask cib = -1" "cib_avail cib = 0"
    | (pow) k where "k \<le> 30" "cib_mask cib = 2 ^ k - 1" "unat (cib_avail cib) \<le> 2 ^ k"
    using inv by (auto simp: cib_inv_def)
  then have "length (cib_items q) \<le> cib_cap q \<and> (cib_full (snd q) \<longleftrightarrow> length (cib_items q) = cib_cap q)
    \<and> (\<not> cib_full (snd q) \<longrightarrow> cib_inv (snd (cib_enqueue x q)) \<and> cib_items (cib_enqueue x q) = cib_items q @ [x]
         \<and> cib_cap (cib_enqueue x q) = cib_cap q)
    \<and> (cib_avail (snd q) \<noteq> 0 \<longrightarrow> cib_dequeue q = (x, q') \<longrightarrow>
         cib_inv (snd q') \<and> cib_items q = x # cib_items q' \<and> cib_cap q' = cib_cap q)"
  proof cases
    case none
    then show ?thesis unfolding len by (simp add: q cib_cap_def cib_size_def cib_full_def)
  next
    case pow
    note sz = cib_size_pow2(1) [OF pow(1,2)] and f = cib_full_iff [OF pow]
    have "cib_inv (snd (cib_enqueue x q)) \<and> cib_items (cib_enqueue x q) = cib_items q @ [x]
         \<and> cib_cap (cib_enqueue x q) = cib_cap q" if "\<not> cib_full (snd q)"
    proof -
      have "unat (cib_avail cib) < 2 ^ k" using that f pow(3) by (simp add: q)
      from cib_enqueue_ok [OF pow(1,2) this, of x a] this pow(1,2) show ?thesis
        by (auto simp: q cib_inv_def cib_cap_def cib_size_def)
    qed
    moreover have "cib_inv (snd q') \<and> cib_items q = x # cib_items q' \<and> cib_cap q' = cib_cap q"
      if "cib_avail (snd q) \<noteq> 0" "cib_dequeue q = (x, q')"
    proof -
      from that have ne: "cib_avail cib \<noteq> 0" and d: "cib_dequeue (a, cib) = (x, q')" by (simp_all add: q)
      from cib_dequeue_ok [OF ne d] pow show ?thesis
        by (auto simp: q cib_inv_def cib_cap_def cib_size_def)
    qed
    ultimately show ?thesis unfolding len using f pow(3) sz by (simp add: q cib_cap_def)
  qed
  then show "length (cib_items q) \<le> cib_cap q" "cib_full (snd q) \<longleftrightarrow> length (cib_items q) = cib_cap q"
    "\<not> cib_full (snd q) \<Longrightarrow> cib_inv (snd (cib_enqueue x q)) \<and> cib_items (cib_enqueue x q) = cib_items q @ [x]
       \<and> cib_cap (cib_enqueue x q) = cib_cap q"
    "cib_avail (snd q) \<noteq> 0 \<Longrightarrow> cib_dequeue q = (x, q') \<Longrightarrow>
       cib_inv (snd q') \<and> cib_items q = x # cib_items q' \<and> cib_cap q' = cib_cap q" by blast+
qed

text \<open>On a full or an empty buffer the index functions refuse, and only there.\<close>

lemma cib_put_index:
  assumes "cib_inv cib" "\<not> cib_full cib"
  shows "0 \<le> fst (cib_put cib)"
proof -
  obtain k where k: "k \<le> 30" "cib_mask cib = 2 ^ k - 1"
    using assms by (auto simp: cib_inv_def cib_full_def)
  from cib_slot [OF this, of "write_count cib" 0] show ?thesis
    using assms(2) by (simp add: cib_put_eq cib_put_unsafe_def)
qed

lemma cib_get_index:
  assumes "cib_inv cib" "cib_avail cib \<noteq> 0"
  shows "0 \<le> fst (cib_get cib)"
proof -
  obtain k where k: "k \<le> 30" "cib_mask cib = 2 ^ k - 1"
    using assms by (auto simp: cib_inv_def)
  from cib_slot [OF this, of "read_count cib" 0] show ?thesis
    using assms(2) by (simp add: cib_get_eq cib_get_unsafe_def)
qed

lemma cib_get_empty: "cib_avail cib = 0 \<Longrightarrow> cib_get cib = (-1, cib)"
  by (simp add: cib_get_def)

lemma cib_refusals:
  assumes "cib_inv cib"
  shows "cib_put cib = (-1, cib) \<longleftrightarrow> cib_full cib" "fst (cib_put cib) = -1 \<longleftrightarrow> cib_full cib"
    "cib_get cib = (-1, cib) \<longleftrightarrow> cib_avail cib = 0" "fst (cib_get cib) = -1 \<longleftrightarrow> cib_avail cib = 0"
  using cib_put_index [OF assms] cib_get_index [OF assms] cib_put_full [of cib] cib_get_empty [of cib]
  by force+

text \<open>So the run through the index functions is the run of the contract.\<close>

lemma cib_run_fifo:
  "cib_inv (snd q) \<Longrightarrow> cib_run ops q
     = fifo_run (\<lambda>q. cib_full (snd q)) (\<lambda>q. cib_avail (snd q) = 0) cib_enqueue cib_dequeue ops q"
proof (induction ops arbitrary: q)
  case (Cons op ops)
  obtain a cib where q: "q = (a, cib)" by (cases q)
  have inv: "cib_inv cib" using Cons.prems q by simp
  show ?case
  proof (cases op)
    case (Put x)
    show ?thesis
    proof (cases "cib_full cib")
      case True
      with Cons.IH [of "(a, cib)"] inv Put q show ?thesis by (simp add: cib_put_full)
    next
      case False
      obtain n c where nc: "cib_put cib = (n, c)" by (cases "cib_put cib")
      have "cib_enqueue x (a, cib) = (a(n := x), c)" by (simp add: cib_enqueue_def nc)
      moreover have "n \<noteq> -1" using cib_refusals(2) [OF inv] False nc by simp
      moreover have "cib_inv (snd (cib_enqueue x (a, cib)))"
        using cibq.put_ok [of "(a, cib)" x] inv False by simp
      ultimately show ?thesis using Cons.IH [of "(a(n := x), c)"] False Put q nc by simp
    qed
  next
    case Get
    show ?thesis
    proof (cases "cib_avail cib = 0")
      case True
      with Cons.IH [of "(a, cib)"] inv Get q show ?thesis by (simp add: cib_get_empty)
    next
      case False
      obtain n c where nc: "cib_get cib = (n, c)" by (cases "cib_get cib")
      have "cib_dequeue (a, cib) = (a n, a, c)" by (simp add: cib_dequeue_def nc)
      moreover have "n \<noteq> -1" using cib_refusals(4) [OF inv] False nc by simp
      moreover have "cib_inv c"
        using cibq.get_ok [of "(a, cib)" "a n" "(a, c)"] inv False calculation(1) by simp
      ultimately show ?thesis using Cons.IH [of "(a, c)"] False Get q nc by simp
    qed
  qed
qed simp

end
