(* ===== verification/Core_Bitarithm.thy ===== *)
theory Core_Bitarithm
  imports PRR_Prelude
begin

text \<open>
  The bit arithmetic of \<open>core/lib/bitarithm.c\<close> and \<open>core/lib/include/bitarithm.h\<close> on a 32-bit
  \<open>unsigned\<close>: position of the most and of the least significant set bit and the number of set bits,
  in every variant the header selects at compile time.  The variants are shown to compute the same
  positions.
\<close>

unbundle bit_operations_syntax

section \<open>The code\<close>

definition BIT31 :: u32 where "BIT31 = 0x80000000"

text \<open>A C comparison as the integer 0 or 1, and one step of the binary search.\<close>

definition c_bool :: "bool \<Rightarrow> u32" where
  "c_bool b = (if b then 1 else 0)"

definition bitarith_msb_32bit_no_native_clz :: "u32 \<Rightarrow> u32" where
  "bitarith_msb_32bit_no_native_clz v =
     (let r = push_bit 4 (c_bool (v > 0xFFFF)); v = drop_bit (unat r) v;
          shift = push_bit 3 (c_bool (v > 0xFF)); v = drop_bit (unat shift) v; r = r OR shift;
          shift = push_bit 2 (c_bool (v > 0xF)); v = drop_bit (unat shift) v; r = r OR shift;
          shift = push_bit 1 (c_bool (v > 0x3)); v = drop_bit (unat shift) v; r = r OR shift;
          r = r OR drop_bit 1 v
      in r)"

text \<open>The builtin that counts leading zeros, as documented by the compiler for a non-zero argument.\<close>

fun clz_from :: "nat \<Rightarrow> u32 \<Rightarrow> nat" where
  "clz_from 0 v = 0"
| "clz_from (Suc i) v = (if bit v i then 0 else Suc (clz_from i v))"

definition builtin_clz :: "u32 \<Rightarrow> u32" where
  "builtin_clz v = of_nat (clz_from 32 v)"

definition bitarithm_msb :: "u32 \<Rightarrow> u32" where
  "bitarithm_msb v = 8 * 4 - builtin_clz v - 1"

function bits_set_loop :: "u32 \<Rightarrow> u32 \<Rightarrow> u32" where
  "bits_set_loop v c = (if v = 0 then c else bits_set_loop (v AND (v - 1)) (c + 1))"
  by pat_completeness auto
termination
proof (relation "measure (\<lambda>(v, c). unat v)", goal_cases)
  case (2 v c)
  have "v AND (v - 1) \<le> v - 1" by (simp add: word_and_le1)
  with 2 have "unat (v AND (v - 1)) \<le> unat v - 1"
    using unat_minus_one [of v] by (simp add: word_le_nat_alt)
  moreover have "0 < unat v" using 2 by (simp add: unat_gt_0)
  ultimately show ?case by simp
qed simp

declare bits_set_loop.simps [simp del]

definition bitarithm_bits_set :: "u32 \<Rightarrow> u32" where
  "bitarithm_bits_set v = bits_set_loop v 0"

definition bitarithm_MultiplyDeBruijnBitPosition :: "u8 list" where
  "bitarithm_MultiplyDeBruijnBitPosition =
     [0, 1, 28, 2, 29, 14, 24, 3, 30, 22, 20, 15, 25, 17, 4, 8,
      31, 27, 13, 23, 21, 19, 16, 7, 26, 12, 18, 6, 11, 5, 10, 9]"

definition bitarithm_lsb_lookup :: "u32 \<Rightarrow> u8" where
  "bitarithm_lsb_lookup v =
     bitarithm_MultiplyDeBruijnBitPosition ! unat (drop_bit 27 ((v AND - v) * 0x077CB531))"

partial_function (option) lsb_loop :: "u32 \<Rightarrow> u32 \<Rightarrow> u32 option" where
  "lsb_loop v r = (if v AND 0x01 = 0 then lsb_loop (drop_bit 1 v) (r + 1) else Some r)"

definition bitarithm_lsb_loop :: "u32 \<Rightarrow> u32 option" where
  "bitarithm_lsb_loop v = lsb_loop v 0"

definition bitarithm_test_and_clear :: "u32 \<Rightarrow> u8 \<times> u32" where
  "bitarithm_test_and_clear state =
     (let index = ucast (8 * 4 - builtin_clz state - 1)
      in (index, state AND NOT (push_bit (unat index) 1)))"

section \<open>The highest set bit\<close>

definition is_msb :: "u32 \<Rightarrow> nat \<Rightarrow> bool" where
  "is_msb v i \<longleftrightarrow> bit v i \<and> (\<forall>j > i. \<not> bit v j)"

definition is_lsb :: "u32 \<Rightarrow> nat \<Rightarrow> bool" where
  "is_lsb v i \<longleftrightarrow> bit v i \<and> (\<forall>j < i. \<not> bit v j)"

lemma is_msb_less: "is_msb v i \<Longrightarrow> i < 32"
  using bit_imp_le_length [of v i] by (simp add: is_msb_def)

lemma is_lsb_less: "is_lsb v i \<Longrightarrow> i < 32"
  using bit_imp_le_length [of v i] by (simp add: is_lsb_def)

lemma is_msb_unique: "is_msb v i \<Longrightarrow> is_msb v j \<Longrightarrow> i = j"
  unfolding is_msb_def by (metis nat_neq_iff)

lemma is_lsb_unique: "is_lsb v i \<Longrightarrow> is_lsb v j \<Longrightarrow> i = j"
  unfolding is_lsb_def by (metis nat_neq_iff)

lemma clz_from_msb:
  assumes "is_msb v i" "i < n"
  shows "clz_from n v = n - 1 - i"
  using assms
proof (induction n)
  case (Suc n)
  show ?case
  proof (cases "i = n")
    case True
    with Suc.prems show ?thesis by (simp add: is_msb_def)
  next
    case False
    with Suc show ?thesis by (auto simp: is_msb_def)
  qed
qed simp

lemma bitarithm_msb_correct: "is_msb v i \<Longrightarrow> bitarithm_msb v = of_nat i"
  using clz_from_msb [of v i 32] is_msb_less [of v i]
  by (simp add: bitarithm_msb_def builtin_clz_def of_nat_diff)

lemma exists_msb: "v \<noteq> 0 \<Longrightarrow> \<exists>i. is_msb v i"
proof -
  assume "v \<noteq> 0"
  then obtain j where j: "bit v j" by (metis bit_eqI bit_0_eq bot_apply bot_bool_def)
  let ?i = "Max {j. bit v j}"
  have fin: "finite {j. bit v j}" by (rule finite_subset [of _ "{..<32}"]) (auto dest: bit_imp_le_length)
  from Max_in [OF fin] Max_ge [OF fin] j have "is_msb v ?i" unfolding is_msb_def by (auto simp: not_le [symmetric])
  then show ?thesis ..
qed

lemma exists_lsb: "v \<noteq> 0 \<Longrightarrow> \<exists>i. is_lsb v i"
proof -
  assume "v \<noteq> 0"
  then obtain j where "bit v j" by (metis bit_eqI bit_0_eq bot_apply bot_bool_def)
  then show ?thesis unfolding is_lsb_def by (metis (mono_tags, lifting) LeastI not_less_Least)
qed

text \<open>The highest set bit is the logarithm of the value.\<close>

lemma is_msb_bounds:
  assumes "2 ^ i \<le> unat v" "unat v < 2 ^ Suc i"
  shows "is_msb v i"
proof -
  have "unat v div 2 ^ i = 1"
    using assms by (simp add: div_nat_eqI)
  then have "bit (unat v) i" by (simp add: bit_iff_odd)
  moreover have "\<not> bit (unat v) j" if "j > i" for j
  proof -
    have "(2 :: nat) ^ Suc i \<le> 2 ^ j" using that by (intro power_increasing) simp_all
    with assms(2) have "unat v div 2 ^ j = 0" by simp
    then show ?thesis by (simp add: bit_iff_odd)
  qed
  ultimately show ?thesis by (auto simp: is_msb_def bit_unsigned_iff)
qed

text \<open>
  One step of the binary search: the shift is \<open>s\<close> or 0, the remaining value is below \<open>2 ^ s\<close> and the
  position of the highest bit moves by the shift.
\<close>

lemma search_step:
  assumes "0 < x" "x < 2 ^ (2 * s)"
  obtains t y where "t = (if 2 ^ s \<le> x then s else 0)" "y = x div 2 ^ t" "0 < y" "(y :: nat) < 2 ^ s"
    "\<And>i. 2 ^ i \<le> y \<Longrightarrow> y < 2 ^ Suc i \<Longrightarrow> 2 ^ (t + i) \<le> x \<and> x < 2 ^ Suc (t + i)"
proof -
  let ?t = "if 2 ^ s \<le> x then s else 0"
  have pos: "0 < x div 2 ^ ?t" using assms(1) by (auto simp: div_greater_zero_iff)
  have lt: "x div 2 ^ ?t < 2 ^ s"
    using assms(2) by (auto simp: less_mult_imp_div_less power_add [symmetric] mult_2)
  have "2 ^ (?t + i) \<le> x \<and> x < 2 ^ Suc (?t + i)" if "2 ^ i \<le> x div 2 ^ ?t" "x div 2 ^ ?t < 2 ^ Suc i" for i
  proof
    have "2 ^ i * 2 ^ ?t \<le> x" using that(1) by (simp add: less_eq_div_iff_mult_less_eq)
    then show "2 ^ (?t + i) \<le> x" by (simp add: power_add mult.commute)
    have "x < 2 ^ Suc i * 2 ^ ?t" using that(2) by (simp only: div_less_iff_less_mult zero_less_power zero_less_numeral)
    then show "x < 2 ^ Suc (?t + i)" by (simp add: power_add mult.commute mult.left_commute)
  qed
  then show thesis using that [OF refl refl pos lt] by blast
qed

lemma unat_drop_bit_u32: "unat (drop_bit n (v :: u32)) = unat v div 2 ^ n"
proof -
  have "unat (drop_bit n v) = drop_bit n (unat v)"
    by (rule bit_eqI) (auto simp: bit_simps dest: bit_imp_le_length)
  then show ?thesis by (simp only: drop_bit_eq_div [of n "unat v"])
qed

lemma bitarith_msb_correct:
  assumes "is_msb v i"
  shows "bitarith_msb_32bit_no_native_clz v = of_nat i"
proof -
  let ?x = "unat v"
  have v0: "0 < ?x" using assms by (auto simp: is_msb_def unat_gt_0)
  have v32: "?x < 2 ^ (2 * 16)" using unat_u32_less [of v] by simp
  from search_step [OF v0 v32] obtain t4 x4 where s4:
    "t4 = (if 2 ^ 16 \<le> ?x then 16 else 0)" "x4 = ?x div 2 ^ t4" "0 < x4" "x4 < 2 ^ (2 * 8)"
    "\<And>i. 2 ^ i \<le> x4 \<Longrightarrow> x4 < 2 ^ Suc i \<Longrightarrow> 2 ^ (t4 + i) \<le> ?x \<and> ?x < 2 ^ Suc (t4 + i)" by auto
  from search_step [OF s4(3,4)] obtain t3 x3 where s3:
    "t3 = (if 2 ^ 8 \<le> x4 then 8 else 0)" "x3 = x4 div 2 ^ t3" "0 < x3" "x3 < 2 ^ (2 * 4)"
    "\<And>i. 2 ^ i \<le> x3 \<Longrightarrow> x3 < 2 ^ Suc i \<Longrightarrow> 2 ^ (t3 + i) \<le> x4 \<and> x4 < 2 ^ Suc (t3 + i)" by auto
  from search_step [OF s3(3,4)] obtain t2 x2 where s2:
    "t2 = (if 2 ^ 4 \<le> x3 then 4 else 0)" "x2 = x3 div 2 ^ t2" "0 < x2" "x2 < 2 ^ (2 * 2)"
    "\<And>i. 2 ^ i \<le> x2 \<Longrightarrow> x2 < 2 ^ Suc i \<Longrightarrow> 2 ^ (t2 + i) \<le> x3 \<and> x3 < 2 ^ Suc (t2 + i)" by auto
  from search_step [OF s2(3,4)] obtain t1 x1 where s1:
    "t1 = (if 2 ^ 2 \<le> x2 then 2 else 0)" "x1 = x2 div 2 ^ t1" "0 < x1" "x1 < 2 ^ (2 * 1)"
    "\<And>i. 2 ^ i \<le> x1 \<Longrightarrow> x1 < 2 ^ Suc i \<Longrightarrow> 2 ^ (t1 + i) \<le> x2 \<and> x2 < 2 ^ Suc (t1 + i)" by auto
  define t0 where "t0 = x1 div 2"
  have "2 ^ t0 \<le> x1 \<and> x1 < 2 ^ Suc t0"
  proof -
    have "x1 = 1 \<or> x1 = 2 \<or> x1 = 3" using s1(3,4) by auto
    then show ?thesis by (auto simp: t0_def)
  qed
  with s1(5) [of t0] s2(5) [of "t1 + t0"] s3(5) [of "t2 + (t1 + t0)"] s4(5) [of "t3 + (t2 + (t1 + t0))"]
  have "is_msb v (t4 + (t3 + (t2 + (t1 + t0))))" by (intro is_msb_bounds) auto
  with assms have i: "i = t4 + (t3 + (t2 + (t1 + t0)))" by (rule is_msb_unique)
  define v4 where "v4 = drop_bit t4 v"
  define v3 where "v3 = drop_bit t3 v4"
  define v2 where "v2 = drop_bit t2 v3"
  define v1 where "v1 = drop_bit t1 v2"
  have u4: "unat v4 = x4" unfolding v4_def unat_drop_bit_u32 s4(2) ..
  have u3: "unat v3 = x3" unfolding v3_def unat_drop_bit_u32 u4 s3(2) ..
  have u2: "unat v2 = x2" unfolding v2_def unat_drop_bit_u32 u3 s2(2) ..
  have u1: "unat v1 = x1" unfolding v1_def unat_drop_bit_u32 u2 s1(2) ..
  note u = u4 u3 u2 u1
  have r: "push_bit 4 (c_bool (v > 0xFFFF)) = of_nat t4" "push_bit 3 (c_bool (v4 > 0xFF)) = of_nat t3"
    "push_bit 2 (c_bool (v3 > 0xF)) = of_nat t2" "push_bit 1 (c_bool (v2 > 0x3)) = of_nat t1"
    by (simp_all add: c_bool_def word_less_nat_alt u s1(1) s2(1) s3(1) s4(1))
  have n: "unat (of_nat t4 :: u32) = t4" "unat (of_nat t3 :: u32) = t3" "unat (of_nat t2 :: u32) = t2"
    "unat (of_nat t1 :: u32) = t1" by (simp_all add: s1(1) s2(1) s3(1) s4(1))
  have "drop_bit 1 v1 = of_nat t0"
  proof -
    have "unat (drop_bit 1 v1) = t0" by (simp add: unat_drop_bit_u32 u t0_def)
    moreover have "t0 < 2 ^ 32" using s1(4) by (simp add: t0_def)
    ultimately have "unat (drop_bit 1 v1) = unat (of_nat t0 :: u32)" by (simp add: unat_of_nat)
    then show ?thesis by (rule unsigned_word_eqI)
  qed
  moreover have "t0 = 0 \<or> t0 = 1" using s1(4) by (auto simp: t0_def)
  ultimately have "bitarith_msb_32bit_no_native_clz v = of_nat t4 OR of_nat t3 OR of_nat t2 OR of_nat t1 OR of_nat t0"
    unfolding bitarith_msb_32bit_no_native_clz_def Let_def r n v4_def [symmetric] v3_def [symmetric]
      v2_def [symmetric] v1_def [symmetric] by (simp add: or.assoc)
  also have "\<dots> = of_nat i"
  proof -
    have t: "t4 = 0 \<or> t4 = 16" "t3 = 0 \<or> t3 = 8" "t2 = 0 \<or> t2 = 4" "t1 = 0 \<or> t1 = 2"
      by (simp_all add: s1(1) s2(1) s3(1) s4(1))
    show ?thesis unfolding i using t \<open>t0 = 0 \<or> t0 = 1\<close> by (elim disjE; hypsubst; simp)
  qed
  finally show ?thesis .
qed

section \<open>The lowest set bit\<close>

text \<open>Subtracting one turns the lowest set bit off and the bits below it on.\<close>

lemma bit_minus_one:
  assumes "is_lsb v i"
  shows "bit (v - 1) j \<longleftrightarrow> j < 32 \<and> (if j < i then True else if j = i then False else bit v j)"
proof -
  let ?X = "v AND NOT (mask (Suc i))"
  have i: "i < 32" using is_lsb_less [OF assms] .
  have "v = ?X OR 2 ^ i"
  proof (rule bit_eqI)
    fix n
    show "bit v n \<longleftrightarrow> bit (?X OR 2 ^ i) n"
      using assms i by (cases n i rule: linorder_cases) (auto simp: bit_simps is_lsb_def dest: bit_imp_le_length)
  qed
  moreover have "?X + 2 ^ i = ?X OR 2 ^ i"
    using i by (intro disjunctive_add_eq_or bit_eqI) (auto simp: bit_simps)
  ultimately have "v - 1 = ?X + mask i" by (metis add_diff_eq mask_eq_exp_minus_1)
  moreover have "?X + mask i = ?X OR mask i"
    using i by (intro disjunctive_add_eq_or bit_eqI) (auto simp: bit_simps)
  ultimately have "v - 1 = ?X OR mask i" by simp
  then show ?thesis
    using i by (cases j i rule: linorder_cases) (auto simp: bit_simps dest: bit_imp_le_length)
qed

lemma and_uminus_lsb:
  assumes "is_lsb v i"
  shows "v AND - v = 2 ^ i"
proof (rule bit_eqI)
  fix n
  have m: "- v = NOT (v - 1)" by (simp add: minus_eq_not_minus_1)
  show "bit (v AND - v) n \<longleftrightarrow> bit (2 ^ i :: u32) n"
    unfolding m using assms is_lsb_less [OF assms] bit_minus_one [OF assms, of n]
    by (cases n i rule: linorder_cases) (auto simp: bit_simps is_lsb_def dest: bit_imp_le_length)
qed

lemma bit_clear_lsb:
  assumes "is_lsb v i"
  shows "bit (v AND (v - 1)) j \<longleftrightarrow> bit v j \<and> j \<noteq> i"
  using bit_minus_one [OF assms, of j] assms
  by (cases j i rule: linorder_cases) (auto simp: bit_simps is_lsb_def dest: bit_imp_le_length)

lemma de_bruijn_table:
  "\<forall>i < 32. bitarithm_MultiplyDeBruijnBitPosition ! unat (drop_bit 27 (2 ^ i * 0x077CB531 :: u32)) = of_nat i"
proof -
  have all: "(\<forall>i < numeral n. P i) \<longleftrightarrow> P (pred_numeral n) \<and> (\<forall>i < pred_numeral n. P i)" for n and P :: "nat \<Rightarrow> bool"
    by (auto simp: numeral_eq_Suc less_Suc_eq)
  show ?thesis
    unfolding bitarithm_MultiplyDeBruijnBitPosition_def by (simp add: all)
qed

lemma bitarithm_lsb_lookup_correct: "is_lsb v i \<Longrightarrow> bitarithm_lsb_lookup v = of_nat i"
  using de_bruijn_table is_lsb_less [of v i]
  by (simp add: bitarithm_lsb_lookup_def and_uminus_lsb del: drop_bit_numeral_bit0)

lemma lsb_loop_correct:
  assumes "is_lsb v i"
  shows "lsb_loop v r = Some (r + of_nat i)"
  using assms
proof (induction i arbitrary: v r)
  case 0
  then have "v AND 1 \<noteq> 0" by (auto simp: is_lsb_def and_one_eq even_iff_mod_2_eq_zero bit_0)
  then show ?case by (subst lsb_loop.simps) simp
next
  case (Suc i)
  then have "\<not> bit v 0" by (simp add: is_lsb_def)
  then have z: "v AND 1 = 0" by (simp add: and_one_eq bit_0 even_iff_mod_2_eq_zero)
  have "is_lsb (drop_bit 1 v) i" using Suc.prems by (auto simp: is_lsb_def bit_simps)
  from Suc.IH [OF this, of "r + 1"] z show ?case by (subst lsb_loop.simps) (simp add: algebra_simps)
qed

section \<open>The number of set bits\<close>

lemma bits_set_loop_correct: "bits_set_loop v c = c + of_nat (card {j. bit v j})"
proof (induction v c rule: bits_set_loop.induct)
  case (1 v c)
  show ?case
  proof (cases "v = 0")
    case True
    then show ?thesis by (simp add: bits_set_loop.simps)
  next
    case False
    then obtain i where i: "is_lsb v i" using exists_lsb by blast
    have "{j. bit (v AND (v - 1)) j} = {j. bit v j} - {i}"
      using bit_clear_lsb [OF i] by auto
    moreover have "finite {j. bit v j}" by (rule finite_subset [of _ "{..<32}"]) (auto dest: bit_imp_le_length)
    moreover have "i \<in> {j. bit v j}" using i by (simp add: is_lsb_def)
    ultimately have "card {j. bit v j} = Suc (card {j. bit (v AND (v - 1)) j})"
      by (metis card_Suc_Diff1)
    with 1 False show ?thesis by (subst bits_set_loop.simps) (simp add: algebra_simps)
  qed
qed

lemma test_and_clear_correct:
  assumes "is_msb v i" "bitarithm_test_and_clear v = (index, v')"
  shows "index = of_nat i" "bit v' j \<longleftrightarrow> bit v j \<and> j \<noteq> i"
proof -
  have i: "i < 32" using is_msb_less [OF assms(1)] .
  have "8 * 4 - builtin_clz v - 1 = of_nat i"
    using bitarithm_msb_correct [OF assms(1)] by (simp add: bitarithm_msb_def)
  then have x: "index = ucast (of_nat i :: u32)" and v': "v' = v AND NOT (push_bit (unat index) 1)"
    using assms(2) by (auto simp: bitarithm_test_and_clear_def Let_def)
  have "unat index = i" unfolding x using i by (simp add: unsigned_ucast_eq unat_of_nat take_bit_nat_eq_self)
  then have "unat index = unat (of_nat i :: u8)" using i by (simp add: unat_of_nat)
  then show "index = of_nat i" by (rule unsigned_word_eqI)
  show "bit v' j \<longleftrightarrow> bit v j \<and> j \<noteq> i"
    unfolding v' \<open>unat index = i\<close> by (auto simp: bit_simps dest: bit_imp_le_length)
qed

end
