(* ===== verification/Core_Lib_Properties.thy ===== *)
theory Core_Lib_Properties
  imports Core_Clist_Sort Core_Queue Core_Bitarithm
begin

text \<open>
  The correctness theorems of the kernel's data structures: circular lists and their sorting, the ring
  buffer, the circular index buffer and the bit arithmetic.
\<close>

unbundle bit_operations_syntax

section \<open>Circular lists\<close>

text \<open>Requests on a circular list, what the code does for them and what they do to a sequence.\<close>

datatype 'n clist_op = Rpush 'n | Lpush 'n | Lpop | Rpop | Rotate | Remove 'n

fun clist_exec :: "'n links \<Rightarrow> 'n \<Rightarrow> 'n clist_op \<Rightarrow> (c_fault + ('n option \<times> 'n links)) option" where
  "clist_exec h l (Rpush n) = Some (Inr (None, clist_rpush h l n))"
| "clist_exec h l (Lpush n) = Some (Inr (None, clist_lpush h l n))"
| "clist_exec h l Lpop = Some (clist_lpop h l)"
| "clist_exec h l Rpop = clist_rpop h l"
| "clist_exec h l Rotate = Some (Inr (None, clist_lpoprpush h l))"
| "clist_exec h l (Remove n) = clist_remove h l n"

fun deque_exec :: "'n list \<Rightarrow> 'n clist_op \<Rightarrow> 'n option \<times> 'n list" where
  "deque_exec xs (Rpush n) = (None, xs @ [n])"
| "deque_exec xs (Lpush n) = (None, n # xs)"
| "deque_exec xs Lpop = (if xs = [] then (None, []) else (Some (hd xs), tl xs))"
| "deque_exec xs Rpop = (if xs = [] then (None, []) else (Some (last xs), butlast xs))"
| "deque_exec xs Rotate = (None, rotate1 xs)"
| "deque_exec xs (Remove n) = (if n \<in> set xs then Some n else None, remove1 n xs)"

text \<open>A node may be pushed when it is not on the list.\<close>

fun clist_pre :: "'n \<Rightarrow> 'n list \<Rightarrow> 'n clist_op \<Rightarrow> bool" where
  "clist_pre l xs (Rpush n) \<longleftrightarrow> n \<notin> set (l # xs)"
| "clist_pre l xs (Lpush n) \<longleftrightarrow> n \<notin> set (l # xs)"
| "clist_pre l xs _ \<longleftrightarrow> True"

fun clist_run :: "'n links \<Rightarrow> 'n \<Rightarrow> 'n clist_op list \<Rightarrow> (c_fault + ('n option list \<times> 'n links)) option" where
  "clist_run h l [] = Some (Inr ([], h))"
| "clist_run h l (op # ops) =
     (case clist_exec h l op of
        None \<Rightarrow> None
      | Some (Inl e) \<Rightarrow> Some (Inl e)
      | Some (Inr (r, h')) \<Rightarrow> map_option (map_sum id (\<lambda>(rs, h''). (r # rs, h''))) (clist_run h' l ops))"

fun deque_run :: "'n list \<Rightarrow> 'n clist_op list \<Rightarrow> 'n option list \<times> 'n list" where
  "deque_run xs [] = ([], xs)"
| "deque_run xs (op # ops) =
     (case deque_exec xs op of (r, xs') \<Rightarrow> (case deque_run xs' ops of (rs, xs'') \<Rightarrow> (r # rs, xs'')))"

fun clist_run_pre :: "'n \<Rightarrow> 'n list \<Rightarrow> 'n clist_op list \<Rightarrow> bool" where
  "clist_run_pre l xs [] \<longleftrightarrow> True"
| "clist_run_pre l xs (op # ops) \<longleftrightarrow> clist_pre l xs op \<and> clist_run_pre l (snd (deque_exec xs op)) ops"

lemma clist_exec_refines:
  assumes "clist_at h l xs" "clist_pre l xs op" "deque_exec xs op = (r, xs')"
  shows "\<exists>h'. clist_exec h l op = Some (Inr (r, h')) \<and> clist_at h' l xs'"
proof (cases op)
  case (Rpush n)
  with assms clist_rpush_at [of h l xs n] show ?thesis by auto
next
  case (Lpush n)
  with assms clist_lpush_at [of h l xs n] show ?thesis by auto
next
  case Lpop
  show ?thesis
  proof (cases xs)
    case (Cons y ys)
    with assms(1) obtain h' where "clist_lpop h l = Inr (Some y, h')" "clist_at h' l ys"
      by (metis clist_lpop_Cons)
    with Lpop Cons assms(3) show ?thesis by simp
  qed (use Lpop assms clist_lpop_Nil [of h l] in simp)
next
  case Rpop
  show ?thesis
  proof (cases xs rule: rev_cases)
    case (snoc ys y)
    with clist_rpop_snoc [of h l ys y] Rpop assms show ?thesis by auto
  qed (use Rpop assms in \<open>simp add: clist_rpop_def\<close>)
next
  case Rotate
  show ?thesis
  proof (cases xs)
    case (Cons y ys)
    with clist_lpoprpush_at(1) [of h l y ys] Rotate assms show ?thesis by auto
  qed (use Rotate assms in \<open>simp add: clist_lpoprpush_def\<close>)
next
  case (Remove n)
  with clist_remove_at [OF assms(1), of n] assms(3) show ?thesis by auto
qed

text \<open>
  C24: the circular lists of the kernel implement a double-ended sequence.  For every sequence of
  insertions at either end, removals from either end, rotations and removals of a given node, in which
  only nodes are inserted that are not on the list, the code ends without dereferencing a null pointer,
  returns what the same requests return on a sequence, and leaves the list representing the resulting
  sequence.
\<close>

theorem clist_refines_deque:
  assumes "clist_at h l xs" "clist_run_pre l xs ops"
  shows "\<exists>h'. clist_run h l ops = Some (Inr (fst (deque_run xs ops), h')) \<and> clist_at h' l (snd (deque_run xs ops))"
  using assms
proof (induction ops arbitrary: h xs)
  case (Cons op ops)
  obtain r xs' where d: "deque_exec xs op = (r, xs')" by (cases "deque_exec xs op")
  from clist_exec_refines [OF Cons.prems(1) _ d] Cons.prems(2) obtain h1 where
    h1: "clist_exec h l op = Some (Inr (r, h1))" "clist_at h1 l xs'" by auto
  from Cons.IH [OF h1(2)] Cons.prems(2) d obtain h' where
    "clist_run h1 l ops = Some (Inr (fst (deque_run xs' ops), h'))" "clist_at h' l (snd (deque_run xs' ops))" by auto
  with h1 d show ?case by (auto split: prod.splits)
qed simp

text \<open>Six requests on an empty list whose head is node 0.\<close>

theorem clist_refines_deque_witness:
  "\<exists>h'. clist_run (\<lambda>_. None) (0 :: nat) [Rpush 1, Rpush 2, Lpush 3, Rotate, Remove 2, Rpop, Lpop]
       = Some (Inr ([None, None, None, None, Some 2, Some 3, Some 1], h')) \<and> h' 0 = None"
  using clist_refines_deque [of "\<lambda>_. None" "0 :: nat" "[]" "[Rpush 1, Rpush 2, Lpush 3, Rotate, Remove 2, Rpop, Lpop]"]
  by simp

section \<open>Sorting\<close>

text \<open>
  C25: the merge sort of the kernel ends on every circular list and leaves exactly its nodes, in the
  order of the library's stable sorting function for the comparison, touching no other node.
\<close>

theorem clist_sort_stable:
  assumes "compares cmp c" "clist_at h l xs"
  shows "\<exists>h'. clist_sort cmp h l = Some (Inr h') \<and> clist_at h' l (Sorting_Algorithms.sort c xs)
     \<and> (\<forall>x. x \<notin> set (l # xs) \<longrightarrow> h' x = h x)"
  using assms by (rule clist_sort_at)

text \<open>Nodes 1 to 4 with keys 2, 1, 2, 1: equal keys keep their order.\<close>

definition sample_key :: "nat \<Rightarrow> nat" where
  "sample_key n = (if n = 1 \<or> n = 3 then 2 else 1)"

definition sample_store :: "nat links" where
  "sample_store n = (if n = 0 then Some 4 else if n = 1 then Some 2 else if n = 2 then Some 3
     else if n = 3 then Some 4 else if n = 4 then Some 1 else None)"

lemma compares_key: "compares (\<lambda>a b. int (f a) - int (f b)) (key f default)" for f :: "'n \<Rightarrow> nat"
  by (auto simp: compares_def)

theorem clist_sort_stable_witness:
  "\<exists>h'. clist_sort (\<lambda>a b. int (sample_key a) - int (sample_key b)) sample_store 0 = Some (Inr h')
     \<and> clist_at h' 0 [2, 4, 1, 3]"
  using clist_sort_stable [OF compares_key [of sample_key], of sample_store 0 "[1, 2, 3, 4]"]
  by (auto simp: clist_at_def sample_store_def sample_key_def)

section \<open>Ring buffer\<close>

text \<open>
  The operations of the ring buffer as requests, and what they do to the sequence \<open>q\<close> of buffered bytes
  of a buffer of \<open>cap\<close> bytes.  A request gives the returned number, the bytes copied out and the
  new sequence.
\<close>

datatype rb_op = Add_one u8 | Get_one | Peek_one | Add_bytes u32 u32 | Get_bytes u32 u32 | Peek_bytes u32 u32 | Drop u32

fun rb_exec :: "rb_op \<Rightarrow> memory \<times> ringbuffer_t \<Rightarrow> int \<times> (memory \<times> ringbuffer_t)" where
  "rb_exec (Add_one c) s = ringbuffer_add_one c s"
| "rb_exec Get_one s = ringbuffer_get_one s"
| "rb_exec Peek_one s = (ringbuffer_peek_one s, s)"
| "rb_exec (Add_bytes src n) s = (case ringbuffer_add src n s of (r, s') \<Rightarrow> (uint r, s'))"
| "rb_exec (Get_bytes dest n) s = (case ringbuffer_get dest n s of (r, s') \<Rightarrow> (uint r, s'))"
| "rb_exec (Peek_bytes dest n) s = (case ringbuffer_peek dest n s of (r, m) \<Rightarrow> (uint r, m, snd s))"
| "rb_exec (Drop n) s = (case ringbuffer_remove n (snd s) of (r, rb) \<Rightarrow> (uint r, fst s, rb))"

fun rb_spec :: "memory \<Rightarrow> nat \<Rightarrow> rb_op \<Rightarrow> u8 list \<Rightarrow> int \<times> u8 list" where
  "rb_spec m cap (Add_one c) q =
     (if length q = cap then (uint (hd q), tl q @ [c]) else (-1, q @ [c]))"
| "rb_spec m cap Get_one q = (if q = [] then (-1, []) else (uint (hd q), tl q))"
| "rb_spec m cap Peek_one q = (if q = [] then -1 else uint (hd q), q)"
| "rb_spec m cap (Add_bytes src n) q =
     (let j = min (unat n) (cap - length q) in (int j, q @ bytes_at m src j))"
| "rb_spec m cap (Get_bytes dest n) q =
     (let j = min (unat n) (length q) in (int j, drop j q))"
| "rb_spec m cap (Peek_bytes dest n) q = (int (min (unat n) (length q)), q)"
| "rb_spec m cap (Drop n) q = (int (min (unat n) (length q)), drop (unat n) q)"

text \<open>The bytes an operation copies out of the buffer.\<close>

fun rb_copied :: "rb_op \<Rightarrow> u8 list \<Rightarrow> (u32 \<times> u8 list) option" where
  "rb_copied (Get_bytes dest n) q = Some (dest, take (unat n) q)"
| "rb_copied (Peek_bytes dest n) q = Some (dest, take (unat n) q)"
| "rb_copied _ q = None"

text \<open>The caller's buffer does not overlap the ring buffer.\<close>

fun rb_pre :: "ringbuffer_t \<Rightarrow> rb_op \<Rightarrow> bool" where
  "rb_pre rb (Add_bytes src n) \<longleftrightarrow> apart (rb_buf rb) (unat (rb_size rb)) src (unat n)"
| "rb_pre rb (Get_bytes dest n) \<longleftrightarrow> apart dest (min (unat n) (unat (rb_avail rb))) (rb_buf rb) (unat (rb_size rb))"
| "rb_pre rb (Peek_bytes dest n) \<longleftrightarrow> apart dest (min (unat n) (unat (rb_avail rb))) (rb_buf rb) (unat (rb_size rb))"
| "rb_pre rb (Add_one c) \<longleftrightarrow> rb_size rb \<noteq> 0"
| "rb_pre rb _ \<longleftrightarrow> True"

text \<open>No operation moves the buffer or changes its size.\<close>

definition same_buffer :: "ringbuffer_t \<Rightarrow> ringbuffer_t \<Rightarrow> bool" where
  "same_buffer rb rb' \<longleftrightarrow> rb_buf rb' = rb_buf rb \<and> rb_size rb' = rb_size rb"

lemma add_tail_frame: "same_buffer (snd s) (snd (add_tail c s))"
  by (cases s) (simp add: add_tail_def Let_def same_buffer_def)

lemma get_head_frame: "same_buffer (snd s) (snd (snd (get_head s)))"
  by (cases s) (simp add: get_head_def Let_def same_buffer_def)

lemma same_buffer_refl: "same_buffer rb rb"
  by (simp add: same_buffer_def)

lemma same_buffer_trans: "same_buffer a b \<Longrightarrow> same_buffer b c \<Longrightarrow> same_buffer a c"
  by (simp add: same_buffer_def)

lemma ringbuffer_add_loop_frame: "same_buffer (snd s) (snd (snd (ringbuffer_add_loop src n i s)))"
  by (induction src n i s rule: ringbuffer_add_loop.induct)
    (auto intro: same_buffer_trans [OF add_tail_frame] same_buffer_refl)

lemma ringbuffer_get_frame: "same_buffer (snd s) (snd (snd (ringbuffer_get dest n s)))"
  by (cases s) (simp add: ringbuffer_get_def Let_def same_buffer_def)

text \<open>Copying out leaves the buffered bytes in memory.\<close>

lemma peek_items:
  assumes "rb_inv rb" "apart dest (min (unat n) (unat (rb_avail rb))) (rb_buf rb) (unat (rb_size rb))"
    and "ringbuffer_get dest n (m, rb) = (r, m', rb')"
  shows "rb_items (m', rb) = rb_items (m, rb)"
proof -
  let ?bs = "take (min (unat n) (unat (rb_avail rb))) (rb_items (m, rb))"
  have "m' = store_bytes m dest ?bs"
    by (rule ringbuffer_get_eq [OF assms(1) refl assms(2), of m]) (use assms(3) in simp)
  moreover have "length ?bs = min (unat n) (unat (rb_avail rb))" by simp
  ultimately show ?thesis using rb_items_store [OF assms(1), of dest ?bs m] assms(2) by simp
qed

lemma rb_exec_frame: "same_buffer (snd s) (snd (snd (rb_exec op s)))"
proof (cases op)
  case (Add_one c)
  then show ?thesis using add_tail_frame [of s c] same_buffer_trans [OF get_head_frame add_tail_frame [of "snd (get_head s)" c]]
    by (auto simp: ringbuffer_add_one_def split: prod.splits)
next
  case Get_one
  then show ?thesis using get_head_frame [of s]
    by (auto simp: ringbuffer_get_one_def same_buffer_refl split: prod.splits)
next
  case (Add_bytes src n)
  then show ?thesis using ringbuffer_add_loop_frame [of s src "unat n" 0]
    by (auto simp: ringbuffer_add_def split: prod.splits)
next
  case (Get_bytes dest n)
  then show ?thesis using ringbuffer_get_frame [of s dest n] by (auto split: prod.splits)
next
  case (Drop n)
  then show ?thesis by (simp add: ringbuffer_remove_def Let_def same_buffer_def)
qed (simp_all add: same_buffer_def split: prod.splits)

text \<open>
  C26: every operation of the ring buffer refines the corresponding operation on the sequence of
  buffered bytes.  The invariant and the capacity are kept, the returned number and the new contents are
  those of the sequence operation (adding one byte to a full buffer drops the oldest one, adding many stops
  when the buffer is full), and the bytes handed out are the oldest ones in order, also where the contents
  wrap around the end of the buffer.
\<close>

theorem ringbuffer_refines_queue:
  assumes "rb_inv rb" "rb_pre rb op" "rb_exec op (m, rb) = (r, m', rb')"
  shows "rb_inv rb' \<and> rb_size rb' = rb_size rb
     \<and> (r, rb_items (m', rb')) = rb_spec m (unat (rb_size rb)) op (rb_items (m, rb))
     \<and> (case rb_copied op (rb_items (m, rb)) of Some (dest, bs) \<Rightarrow> bytes_at m' dest (length bs) = bs | None \<Rightarrow> True)"
proof -
  have sz: "rb_size rb' = rb_size rb" using rb_exec_frame [of "(m, rb)" op] assms(3) by (simp add: same_buffer_def)
  let ?q = "rb_items (m, rb)"
  have tk: "take (min k (unat (rb_avail rb))) ?q = take k ?q" "length (take k ?q) = min k (unat (rb_avail rb))" for k
    by (auto simp: min_def)
  have u: "uint w = int j" if "unat w = j" for w :: u32 and j using that by auto
  have full: "ringbuffer_full rb \<longleftrightarrow> length ?q = unat (rb_size rb)" using ring.full_iff [of "(m, rb)"] assms(1) by simp
  show ?thesis
  proof (cases op)
    case (Add_one c)
    with assms have e: "ringbuffer_add_one c (m, rb) = (r, m', rb')" "rb_size rb \<noteq> 0" by simp_all
    from ringbuffer_add_one_ok [OF assms(1) e(2,1)] show ?thesis
      unfolding Add_one full by simp
  next
    case Get_one
    with assms have e: "ringbuffer_get_one (m, rb) = (r, m', rb')" by simp
    from ringbuffer_get_one_ok [OF assms(1) e] sz show ?thesis unfolding Get_one by simp
  next
    case Peek_one
    obtain r1 s1 where e: "ringbuffer_get_one (m, rb) = (r1, s1)" by (cases "ringbuffer_get_one (m, rb)")
    with Peek_one assms(3) have eq: "r = r1" "m' = m" "rb' = rb" by (simp_all add: ringbuffer_peek_one_def)
    show ?thesis unfolding Peek_one eq using ringbuffer_get_one_ok(3) [OF assms(1) e] assms(1) by simp
  next
    case (Add_bytes src n)
    with assms obtain r1 where e: "ringbuffer_add src n (m, rb) = (r1, m', rb')" "r = uint r1"
      "apart (rb_buf rb) (unat (rb_size rb)) src (unat n)" by (auto split: prod.splits)
    note ok = ringbuffer_add_ok [OF assms(1) e(3,1) refl]
    from ok(2,3) u [OF ok(1)] e(2) sz show ?thesis unfolding Add_bytes by (simp add: Let_def)
  next
    case (Get_bytes dest n)
    let ?n = "min (unat n) (unat (rb_avail rb))"
    from Get_bytes assms obtain r1 where e: "ringbuffer_get dest n (m, rb) = (r1, m', rb')" "r = uint r1"
      "apart dest ?n (rb_buf rb) (unat (rb_size rb))" by (auto split: prod.splits)
    note ok = ringbuffer_get_ok [OF assms(1) refl e(3,1)]
    from ok(1,3,4) u [OF ok(2)] e(2) sz show ?thesis unfolding Get_bytes by (simp add: Let_def tk del: length_take)
  next
    case (Peek_bytes dest n)
    let ?n = "min (unat n) (unat (rb_avail rb))"
    obtain r1 m1 rb1 where e: "ringbuffer_get dest n (m, rb) = (r1, m1, rb1)" by (rule prod_cases3)
    with Peek_bytes assms(3) have eq: "r = uint r1" "m' = m1" "rb' = rb" by (simp_all add: ringbuffer_peek_def)
    from Peek_bytes assms(2) have "apart dest ?n (rb_buf rb) (unat (rb_size rb))" by simp
    note ok = ringbuffer_get_ok [OF assms(1) refl this e]
    have same: "rb_items (m1, rb) = ?q" by (rule peek_items [OF assms(1) \<open>apart dest ?n _ _\<close> e])
    from ok(3) u [OF ok(2)] eq same assms(1) show ?thesis unfolding Peek_bytes by (simp add: tk del: length_take)
  next
    case (Drop n)
    with assms obtain r1 where e: "ringbuffer_remove n rb = (r1, rb')" "r = uint r1" "m' = m" by (auto split: prod.splits)
    note ok = ringbuffer_remove_ok [OF assms(1) e(1)]
    from ok(1) ok(2) [of m] u [OF ok(3)] e(2,3) sz show ?thesis unfolding Drop by simp
  qed
qed

text \<open>A buffer of four bytes at \<open>0x100\<close> whose contents 7, 8, 9 wrap around; the fourth byte is added.\<close>

definition sample_ring :: ringbuffer_t where
  "sample_ring = \<lparr>rb_buf = 0x100, rb_size = 4, rb_start = 3, rb_avail = 3\<rparr>"

definition sample_ring_mem :: memory where
  "sample_ring_mem = (\<lambda>_. 0)(0x103 := 7, 0x100 := 8, 0x101 := 9)"

lemma sample_ring_items: "rb_items (sample_ring_mem, sample_ring) = [7, 8, 9]"
  by (simp add: rb_items_def rb_pos_def sample_ring_def sample_ring_mem_def upt_rec)

theorem ringbuffer_refines_queue_witness:
  "rb_items (snd (rb_exec (Add_one 10) (sample_ring_mem, sample_ring))) = [7, 8, 9, 10]
   \<and> fst (rb_exec (Add_one 10) (sample_ring_mem, sample_ring)) = -1"
proof -
  obtain r m' rb' where e: "rb_exec (Add_one 10) (sample_ring_mem, sample_ring) = (r, m', rb')"
    by (cases "rb_exec (Add_one 10) (sample_ring_mem, sample_ring)") auto
  have "rb_inv sample_ring" "rb_pre sample_ring (Add_one 10)" by (simp_all add: rb_inv_def sample_ring_def)
  from ringbuffer_refines_queue [OF this e] e show ?thesis
    by (simp add: sample_ring_items) (simp add: sample_ring_def)
qed

section \<open>Circular index buffer\<close>

text \<open>
  C27: an array indexed through a circular index buffer is a bounded first-in first-out queue.  From any
  state, with any values of its two counters, a sequence of calls of \<open>cib_put\<close> and \<open>cib_get\<close> does what
  it does on a list of at most \<open>cib_size\<close> elements: a put is refused with \<open>-1\<close> exactly when the buffer is
  full and a get exactly when it is empty, a refused call changes neither counter, and the accepted
  elements are handed out in order, none lost and none twice, also when the counters wrap around at
  \<open>2 ^ 32\<close>.
\<close>

theorem cib_is_fifo:
  assumes inv: "cib_inv cib" and run: "cib_run ops (a, cib) = (ref, out, acc, q')"
  shows "queue_run (unat (cib_size cib)) ops (cib_items (a, cib)) = (ref, out, acc, cib_items q')
    \<and> cib_items (a, cib) @ acc = out @ cib_items q'
    \<and> length (cib_items q') \<le> unat (cib_size cib) \<and> cib_inv (snd q')
    \<and> (cib_put cib = (-1, cib) \<longleftrightarrow> length (cib_items (a, cib)) = unat (cib_size cib))
    \<and> (cib_get cib = (-1, cib) \<longleftrightarrow> cib_items (a, cib) = [])"
proof -
  from cibq.run_keeps [of "(a, cib)" ops ref out acc q'] run inv
  have "queue_run (unat (cib_size cib)) ops (cib_items (a, cib)) = (ref, out, acc, cib_items q')
    \<and> cib_items (a, cib) @ acc = out @ cib_items q' \<and> cib_inv (snd q')
    \<and> cib_cap q' = unat (cib_size cib)"
    by (simp add: cib_run_fifo cib_cap_def)
  moreover from this have "length (cib_items q') \<le> unat (cib_size cib)"
    using cibq.items_cap [of q'] by simp
  ultimately show ?thesis
    using cib_refusals [OF inv] cibq.full_iff [of "(a, cib)"] cibq.empty_iff [of "(a, cib)"] inv
    by (simp add: cib_cap_def)
qed

text \<open>A buffer of two slots whose counters are about to wrap around.\<close>

definition sample_cib :: cib_t where
  "sample_cib = \<lparr>read_count = 0xFFFFFFFF, write_count = 0xFFFFFFFF, cib_mask = 1\<rparr>"

theorem cib_is_fifo_witness:
  "\<exists>q'. cib_run [Put 1, Put 2, Put 3, Get, Put 4, Get] (\<lambda>_. 0 :: nat, sample_cib)
       = ([False, False, True, False, False, False], [1, 2], [1, 2, 4], q') \<and> cib_items q' = [4]"
proof -
  let ?run = "cib_run [Put 1, Put 2, Put 3, Get, Put 4, Get] (\<lambda>_. 0 :: nat, sample_cib)"
  have inv: "cib_inv sample_cib" "cib_items (\<lambda>_. 0 :: nat, sample_cib) = []"
    by (auto simp: cib_inv_def cib_avail_def cib_items_def sample_cib_def intro!: exI [of _ 1])
  obtain ref out acc q' where e: "?run = (ref, out, acc, q')" by (cases ?run) auto
  then have "ref = [False, False, True, False, False, False]" "out = [1, 2]" "acc = [1, 2, 4]"
    by (auto simp: cib_avail_def cib_put_def cib_get_def sample_cib_def Let_def)
  with e cib_is_fifo [OF inv(1) e] inv(2) show ?thesis by simp
qed

section \<open>Bit arithmetic\<close>

text \<open>
  C28: the bit arithmetic is right and its variants agree.  For every non-zero word the position of the
  highest set bit is the same with and without a count-leading-zeros instruction, that of the lowest set
  bit is the same by table lookup and by the loop, which ends; they are set bits with no set bit above or
  below; test-and-clear clears exactly the highest one; and the number of set bits is right for every word.
\<close>

theorem bitarithm_variants_agree:
  assumes "v \<noteq> 0"
  shows "\<exists>i j. is_msb v i \<and> is_lsb v j
     \<and> bitarithm_msb v = of_nat i \<and> bitarith_msb_32bit_no_native_clz v = of_nat i
     \<and> bitarithm_lsb_lookup v = of_nat j \<and> bitarithm_lsb_loop v = Some (of_nat j)
     \<and> bitarithm_test_and_clear v = (of_nat i, v AND NOT (2 ^ i))
     \<and> bitarithm_bits_set v = of_nat (card {b. bit v b})"
proof -
  from exists_msb [OF assms] exists_lsb [OF assms] obtain i j where ij: "is_msb v i" "is_lsb v j" by blast
  obtain index v' where t: "bitarithm_test_and_clear v = (index, v')" by (cases "bitarithm_test_and_clear v")
  have "v' = v AND NOT (2 ^ i)"
    by (rule bit_word_eqI) (use test_and_clear_correct(2) [OF ij(1) t] in \<open>auto simp: bit_simps\<close>)
  with t test_and_clear_correct(1) [OF ij(1) t] show ?thesis
    using bitarithm_msb_correct [OF ij(1)] bitarith_msb_correct [OF ij(1)] bitarithm_lsb_lookup_correct [OF ij(2)]
      lsb_loop_correct [OF ij(2), of 0] bits_set_loop_correct [of v 0] ij
    by (auto simp: bitarithm_lsb_loop_def bitarithm_bits_set_def)
qed

theorem bitarithm_variants_agree_witness:
  "(0x00F0 :: u32) \<noteq> 0 \<and> bitarithm_msb 0x00F0 = bitarith_msb_32bit_no_native_clz 0x00F0
     \<and> bitarithm_lsb_loop 0x00F0 \<noteq> None"
  using bitarithm_variants_agree [of "0x00F0"] by auto

end
