(* ===== verification/Core_Sched.thy ===== *)
theory Core_Sched
  imports Core_Clist Core_Bitarithm Core_Queue
begin

text \<open>
  The scheduler and the thread management of the RIOT kernel, \<open>core/sched.c\<close>, \<open>core/thread.c\<close> and the
  inline functions of \<open>core/include/sched.h\<close> and \<open>core/include/thread.h\<close>.

  A thread control block is identified by its address.  The run queues, the queues of waiting threads
  and the run-queue entries inside the control blocks are list nodes, so one store of links holds all
  of them; \<open>container_of\<close> is the inverse of the constructor \<open>Rq_entry\<close>.  The configuration is the one
  of the Cortex-M targets: \<open>CLZ\<close> available, no idle thread, messages and thread flags compiled in, no
  \<open>DEVELHELP\<close>, no scheduler callback and no priority inheritance.

  \<open>thread_yield_higher\<close> raises the PendSV interrupt.  Its handler runs the scheduler as soon as
  interrupts are enabled; the flag \<open>pendsv\<close> is that request.  Operations are atomic, as they run
  with interrupts disabled, and a thread that blocks continues when it is scheduled again.
\<close>

unbundle bit_operations_syntax

section \<open>States\<close>

datatype thread_status_t =
    STATUS_STOPPED | STATUS_ZOMBIE | STATUS_SLEEPING | STATUS_MUTEX_BLOCKED
  | STATUS_RECEIVE_BLOCKED | STATUS_SEND_BLOCKED | STATUS_REPLY_BLOCKED
  | STATUS_FLAG_BLOCKED_ANY | STATUS_FLAG_BLOCKED_ALL | STATUS_MBOX_BLOCKED
  | STATUS_COND_BLOCKED | STATUS_RUNNING | STATUS_PENDING

text \<open>The values of the enumeration, which order the states.\<close>

fun status_value :: "thread_status_t \<Rightarrow> nat" where
  "status_value STATUS_STOPPED = 0"
| "status_value STATUS_ZOMBIE = 1"
| "status_value STATUS_SLEEPING = 2"
| "status_value STATUS_MUTEX_BLOCKED = 3"
| "status_value STATUS_RECEIVE_BLOCKED = 4"
| "status_value STATUS_SEND_BLOCKED = 5"
| "status_value STATUS_REPLY_BLOCKED = 6"
| "status_value STATUS_FLAG_BLOCKED_ANY = 7"
| "status_value STATUS_FLAG_BLOCKED_ALL = 8"
| "status_value STATUS_MBOX_BLOCKED = 9"
| "status_value STATUS_COND_BLOCKED = 10"
| "status_value STATUS_RUNNING = 11"
| "status_value STATUS_PENDING = 12"

lemma status_value_inj: "status_value s = status_value t \<Longrightarrow> s = t"
  by (cases s; cases t) simp_all

instantiation thread_status_t :: linorder
begin

definition less_eq_thread_status_t :: "thread_status_t \<Rightarrow> thread_status_t \<Rightarrow> bool" where
  "less_eq_thread_status_t s t \<longleftrightarrow> status_value s \<le> status_value t"

definition less_thread_status_t :: "thread_status_t \<Rightarrow> thread_status_t \<Rightarrow> bool" where
  "less_thread_status_t s t \<longleftrightarrow> status_value s < status_value t"

instance
  by standard (auto simp: less_eq_thread_status_t_def less_thread_status_t_def intro: status_value_inj)

end

abbreviation STATUS_ON_RUNQUEUE :: thread_status_t where
  "STATUS_ON_RUNQUEUE \<equiv> STATUS_RUNNING"

definition SCHED_PRIO_LEVELS :: nat where [c_const]: "SCHED_PRIO_LEVELS = 16"
definition MAXTHREADS :: int where [c_const]: "MAXTHREADS = 32"
definition KERNEL_PID_UNDEF :: int where [c_const]: "KERNEL_PID_UNDEF = 0"
definition KERNEL_PID_FIRST :: int where [c_const]: "KERNEL_PID_FIRST = KERNEL_PID_UNDEF + 1"
definition KERNEL_PID_LAST :: int where [c_const]: "KERNEL_PID_LAST = KERNEL_PID_FIRST + MAXTHREADS - 1"

type_synonym tcb = u32

text \<open>
  The list nodes: the heads of the run queues, the run-queue entry and the list of blocked senders of a
  thread, the queue heads inside other objects (by address), and the value \<open>MUTEX_LOCKED\<close> that a
  mutex stores in place of a node.
\<close>

datatype list_node =
    Runqueue nat
  | Rq_entry tcb
  | Msg_waiters tcb
  | Queue u32
  | Mutex_locked

record msg_t =
  sender_pid :: int
  msg_type :: u16
  msg_content :: u32

record thread_t =
  sp :: u32
  status :: thread_status_t
  priority :: u8
  pid :: int
  tflags :: u16
  wait_data :: u32
  msg_queue :: cib_t
  msg_array :: u32

record kernel =
  sched_active_pid :: int
  sched_active_thread :: "tcb option"
  sched_threads :: "int \<Rightarrow> tcb option"
  sched_num_threads :: int
  sched_context_switch_request :: bool
  runqueue_bitcache :: u32
  links :: "list_node links"
  tcbs :: "tcb \<Rightarrow> thread_t"
  msgs :: "u32 \<Rightarrow> msg_t"
  pendsv :: bool
  in_irq :: bool

definition upd_tcb :: "tcb \<Rightarrow> (thread_t \<Rightarrow> thread_t) \<Rightarrow> kernel \<Rightarrow> kernel" where
  "upd_tcb t f k = k\<lparr>tcbs := (tcbs k)(t := f (tcbs k t))\<rparr>"

section \<open>Scheduler\<close>

definition set_runqueue_bit :: "u8 \<Rightarrow> kernel \<Rightarrow> kernel" where
  "set_runqueue_bit prio k = k\<lparr>runqueue_bitcache := runqueue_bitcache k OR drop_bit (unat prio) BIT31\<rparr>"

definition clear_runqueue_bit :: "u8 \<Rightarrow> kernel \<Rightarrow> kernel" where
  "clear_runqueue_bit prio k = k\<lparr>runqueue_bitcache := runqueue_bitcache k AND NOT (drop_bit (unat prio) BIT31)\<rparr>"

definition get_prio_queue_from_runqueue :: "kernel \<Rightarrow> u32" where
  "get_prio_queue_from_runqueue k = 31 - bitarithm_msb (runqueue_bitcache k)"

definition unschedule :: "tcb \<Rightarrow> kernel \<Rightarrow> kernel" where
  "unschedule t k =
     (if status (tcbs k t) = STATUS_RUNNING then upd_tcb t (status_update (\<lambda>_. STATUS_PENDING)) k else k)"

text \<open>
  \<open>sched_arch_idle\<close> sleeps until an interrupt has been serviced; its effect on the kernel is the
  parameter \<open>idle\<close>.
\<close>

partial_function (option) idle_loop :: "(kernel \<Rightarrow> kernel) \<Rightarrow> kernel \<Rightarrow> kernel option" where
  "idle_loop idle k =
     (let k = idle k
      in if runqueue_bitcache k = 0 then idle_loop idle k else Some k)"

fun container_of_rq_entry :: "list_node \<Rightarrow> tcb option" where
  "container_of_rq_entry (Rq_entry t) = Some t"
| "container_of_rq_entry _ = None"

text \<open>The part of \<open>sched_run\<close> after the idle loop.\<close>

definition sched_run_next :: "tcb option \<Rightarrow> tcb option \<Rightarrow> kernel \<Rightarrow> c_fault + (tcb \<times> kernel)" where
  "sched_run_next active_thread previous_thread k =
     (let k = k\<lparr>sched_context_switch_request := False\<rparr>;
          nextrq = get_prio_queue_from_runqueue k
      in deref (links k (Runqueue (unat nextrq))) (\<lambda>last.
         deref (links k last) (\<lambda>first.
         deref (container_of_rq_entry first) (\<lambda>next_thread.
           let k = upd_tcb next_thread (status_update (\<lambda>_. STATUS_RUNNING)) k
           in if previous_thread = Some next_thread then Inr (next_thread, k)
              else
                let k = (case active_thread of Some a \<Rightarrow> unschedule a k | None \<Rightarrow> k)
                in Inr (next_thread,
                        k\<lparr>sched_active_pid := pid (tcbs k next_thread),
                          sched_active_thread := Some next_thread\<rparr>)))))"

definition sched_run :: "(kernel \<Rightarrow> kernel) \<Rightarrow> kernel \<Rightarrow> (c_fault + (tcb \<times> kernel)) option" where
  "sched_run idle k =
     (let active_thread = sched_active_thread k
      in if runqueue_bitcache k = 0 then
           let k = (case active_thread of Some a \<Rightarrow> unschedule a k | None \<Rightarrow> k)
           in map_option (sched_run_next None active_thread) (idle_loop idle k)
         else Some (sched_run_next active_thread active_thread k))"

definition thread_yield_higher :: "kernel \<Rightarrow> kernel" where
  "thread_yield_higher k = k\<lparr>pendsv := True\<rparr>"

definition runqueue_push :: "tcb \<Rightarrow> u8 \<Rightarrow> kernel \<Rightarrow> kernel" where
  "runqueue_push t prio k =
     set_runqueue_bit prio (k\<lparr>links := clist_rpush (links k) (Runqueue (unat prio)) (Rq_entry t)\<rparr>)"

definition runqueue_pop :: "tcb \<Rightarrow> kernel \<Rightarrow> c_fault + kernel" where
  "runqueue_pop t k =
     (let prio = priority (tcbs k t)
      in ebind (clist_lpop (links k) (Runqueue (unat prio))) (\<lambda>(_, h).
           let k = k\<lparr>links := h\<rparr>
           in Inr (if links k (Runqueue (unat prio)) = None then clear_runqueue_bit prio k else k)))"

definition sched_set_status :: "tcb \<Rightarrow> thread_status_t \<Rightarrow> kernel \<Rightarrow> c_fault + kernel" where
  "sched_set_status t st k =
     ebind
       (if st \<ge> STATUS_ON_RUNQUEUE then
          Inr (if \<not> status (tcbs k t) \<ge> STATUS_ON_RUNQUEUE
               then runqueue_push t (priority (tcbs k t)) k else k)
        else if status (tcbs k t) \<ge> STATUS_ON_RUNQUEUE then runqueue_pop t k
        else Inr k)
       (\<lambda>k. Inr (upd_tcb t (status_update (\<lambda>_. st)) k))"

definition sched_switch :: "u16 \<Rightarrow> kernel \<Rightarrow> c_fault + kernel" where
  "sched_switch other_prio k =
     deref (sched_active_thread k) (\<lambda>active.
       let current_prio = ucast (priority (tcbs k active)) :: u16;
           on_runqueue = status (tcbs k active) \<ge> STATUS_ON_RUNQUEUE
       in if \<not> on_runqueue \<or> current_prio > other_prio then
            if in_irq k then Inr (k\<lparr>sched_context_switch_request := True\<rparr>)
            else Inr (thread_yield_higher k)
          else Inr k)"

definition sched_task_exit :: "kernel \<Rightarrow> c_fault + kernel" where
  "sched_task_exit k =
     (let k = k\<lparr>sched_threads := (sched_threads k)(sched_active_pid k := None),
                sched_num_threads := sched_num_threads k - 1\<rparr>
      in deref (sched_active_thread k) (\<lambda>active.
           ebind (sched_set_status active STATUS_STOPPED k) (\<lambda>k.
             Inr (thread_yield_higher (k\<lparr>sched_active_thread := None\<rparr>)))))"

definition thread_is_active :: "thread_t \<Rightarrow> bool" where
  "thread_is_active t \<longleftrightarrow> status t \<ge> STATUS_ON_RUNQUEUE"

definition sched_change_priority :: "tcb \<Rightarrow> u8 \<Rightarrow> kernel \<Rightarrow> c_fault + kernel" where
  "sched_change_priority t prio k =
     (if \<not> unat prio < SCHED_PRIO_LEVELS then Inl AssertFail
      else if priority (tcbs k t) = prio then Inr k
      else
        ebind (if thread_is_active (tcbs k t)
               then ebind (runqueue_pop t k) (\<lambda>k. Inr (runqueue_push t prio k)) else Inr k) (\<lambda>k.
          let k = upd_tcb t (priority_update (\<lambda>_. prio)) k
          in Inr (if sched_active_thread k = Some t
                     \<or> (case sched_active_thread k of
                          Some a \<Rightarrow> priority (tcbs k a) > prio \<and> thread_is_active (tcbs k t)
                        | None \<Rightarrow> False)
                  then thread_yield_higher k else k)))"

definition sched_runq_advance :: "u8 \<Rightarrow> kernel \<Rightarrow> kernel" where
  "sched_runq_advance prio k = k\<lparr>links := clist_lpoprpush (links k) (Runqueue (unat prio))\<rparr>"

definition sched_runq_is_empty :: "u8 \<Rightarrow> kernel \<Rightarrow> bool" where
  "sched_runq_is_empty prio k \<longleftrightarrow> clist_is_empty (links k) (Runqueue (unat prio))"

definition sched_runq_exactly_one :: "u8 \<Rightarrow> kernel \<Rightarrow> bool" where
  "sched_runq_exactly_one prio k \<longleftrightarrow> clist_exactly_one (links k) (Runqueue (unat prio))"

definition sched_runq_more_than_one :: "u8 \<Rightarrow> kernel \<Rightarrow> bool" where
  "sched_runq_more_than_one prio k \<longleftrightarrow> clist_more_than_one (links k) (Runqueue (unat prio))"

section \<open>Threads\<close>

definition pid_is_valid :: "int \<Rightarrow> bool" where
  "pid_is_valid p \<longleftrightarrow> KERNEL_PID_FIRST \<le> p \<and> p \<le> KERNEL_PID_LAST"

text \<open>The array \<open>sched_threads\<close> has \<open>KERNEL_PID_LAST + 1\<close> elements; an index outside of it is undefined.\<close>

definition in_thread_table :: "int \<Rightarrow> bool" where
  "in_thread_table p \<longleftrightarrow> 0 \<le> p \<and> p \<le> KERNEL_PID_LAST"

definition thread_get_unchecked :: "kernel \<Rightarrow> int \<Rightarrow> c_fault + tcb option" where
  "thread_get_unchecked k p = (if in_thread_table p then Inr (sched_threads k p) else Inl ArrayIndex)"

definition thread_get :: "kernel \<Rightarrow> int \<Rightarrow> tcb option" where
  "thread_get k p =
     (if pid_is_valid p then case thread_get_unchecked k p of Inr t \<Rightarrow> t | Inl _ \<Rightarrow> None else None)"

text \<open>The test of \<open>thread_get\<close> keeps the index in the array.\<close>

lemma thread_get_valid: "thread_get k p = (if pid_is_valid p then sched_threads k p else None)"
  by (simp add: thread_get_def thread_get_unchecked_def in_thread_table_def pid_is_valid_def KERNEL_PID_FIRST_def
      KERNEL_PID_UNDEF_def)

text \<open>\<open>None\<close> stands for \<open>STATUS_NOT_FOUND\<close>.\<close>

definition thread_getstatus :: "kernel \<Rightarrow> int \<Rightarrow> thread_status_t option" where
  "thread_getstatus k p = (case thread_get k p of Some t \<Rightarrow> Some (status (tcbs k t)) | None \<Rightarrow> None)"

definition STATUS_NOT_FOUND :: int where "STATUS_NOT_FOUND = -1"

definition thread_zombify :: "kernel \<Rightarrow> c_fault + kernel" where
  "thread_zombify k =
     (if in_irq k then Inr k
      else deref (sched_active_thread k) (\<lambda>active.
        ebind (sched_set_status active STATUS_ZOMBIE k) (\<lambda>k. Inr (thread_yield_higher k))))"

definition thread_kill_zombie :: "int \<Rightarrow> kernel \<Rightarrow> c_fault + (int \<times> kernel)" where
  "thread_kill_zombie p k =
     (case thread_get k p of
        None \<Rightarrow> Inr (STATUS_NOT_FOUND, k)
      | Some t \<Rightarrow>
          if status (tcbs k t) = STATUS_ZOMBIE then
            ebind (sched_set_status t STATUS_STOPPED
                     (k\<lparr>sched_threads := (sched_threads k)(p := None),
                        sched_num_threads := sched_num_threads k - 1\<rparr>)) (\<lambda>k. Inr (1, k))
          else Inr (STATUS_NOT_FOUND, k))"

definition thread_sleep :: "kernel \<Rightarrow> c_fault + kernel" where
  "thread_sleep k =
     (if in_irq k then Inr k
      else deref (sched_active_thread k) (\<lambda>active.
        ebind (sched_set_status active STATUS_SLEEPING k) (\<lambda>k. Inr (thread_yield_higher k))))"

definition thread_wakeup :: "int \<Rightarrow> kernel \<Rightarrow> c_fault + (int \<times> kernel)" where
  "thread_wakeup p k =
     (case thread_get k p of
        None \<Rightarrow> Inr (STATUS_NOT_FOUND, k)
      | Some t \<Rightarrow>
          if status (tcbs k t) = STATUS_SLEEPING then
            ebind (sched_set_status t STATUS_RUNNING k) (\<lambda>k.
            ebind (sched_switch (ucast (priority (tcbs k t))) k) (\<lambda>k. Inr (1, k)))
          else Inr (STATUS_NOT_FOUND, k))"

definition thread_yield :: "kernel \<Rightarrow> c_fault + kernel" where
  "thread_yield k =
     deref (sched_active_thread k) (\<lambda>me.
       let k = (if status (tcbs k me) \<ge> STATUS_ON_RUNQUEUE
                then sched_runq_advance (priority (tcbs k me)) k else k)
       in Inr (thread_yield_higher k))"

text \<open>The search for the insertion point; the result is the node to insert after.\<close>

partial_function (option) add_to_list_pos :: "kernel \<Rightarrow> u16 \<Rightarrow> list_node \<Rightarrow> (c_fault + list_node) option" where
  "add_to_list_pos k my_prio l =
     (case links k l of
        None \<Rightarrow> Some (Inr l)
      | Some n \<Rightarrow>
          (case container_of_rq_entry n of
             None \<Rightarrow> Some (Inl NullDeref)
           | Some t \<Rightarrow>
               if (ucast (priority (tcbs k t)) :: u16) > my_prio then Some (Inr l)
               else add_to_list_pos k my_prio n))"

definition thread_add_to_list :: "list_node \<Rightarrow> tcb \<Rightarrow> kernel \<Rightarrow> (c_fault + kernel) option" where
  "thread_add_to_list l t k =
     (if \<not> status (tcbs k t) < STATUS_ON_RUNQUEUE then Some (Inl AssertFail)
      else map_option (\<lambda>r. ebind r (\<lambda>pos. Inr (k\<lparr>links := list_add (links k) pos (Rq_entry t)\<rparr>)))
             (add_to_list_pos k (ucast (priority (tcbs k t))) l))"

definition thread_has_msg_queue :: "thread_t \<Rightarrow> bool" where
  "thread_has_msg_queue t \<longleftrightarrow> msg_array t \<noteq> 0"

partial_function (option) stack_free_loop :: "memory \<Rightarrow> u32 \<Rightarrow> u32 option" where
  "stack_free_loop m stackp = (if load32 m stackp = stackp then stack_free_loop m (stackp + 4) else Some stackp)"

definition thread_measure_stack_free :: "memory \<Rightarrow> u32 \<Rightarrow> u32 option" where
  "thread_measure_stack_free m stack = map_option (\<lambda>stackp. stackp - stack) (stack_free_loop m stack)"

definition THREAD_CREATE_SLEEPING :: int where [c_const]: "THREAD_CREATE_SLEEPING = 1"
definition THREAD_CREATE_WOUT_YIELD :: int where [c_const]: "THREAD_CREATE_WOUT_YIELD = 4"

definition sizeof_thread_t :: int where [c_const]: "sizeof_thread_t = 40"

text \<open>Where the control block goes: the aligned stack and what remains of the stack size.\<close>

definition thread_create_layout :: "u32 \<Rightarrow> int \<Rightarrow> u32 \<times> int" where
  "thread_create_layout stack stacksize =
     (let misalignment = stack mod 4;
          (stack, stacksize) =
            (if misalignment \<noteq> 0
             then (stack + (4 - misalignment), stacksize - uint (4 - misalignment))
             else (stack, stacksize));
          stacksize = stacksize - sizeof_thread_t;
          stacksize = stacksize - stacksize mod 4
      in (stack, stacksize))"

definition first_free_pid :: "kernel \<Rightarrow> int" where
  "first_free_pid k =
     (case find (\<lambda>i. sched_threads k i = None) [KERNEL_PID_FIRST..KERNEL_PID_LAST] of
        Some i \<Rightarrow> i | None \<Rightarrow> KERNEL_PID_UNDEF)"

definition flag_set :: "int \<Rightarrow> int \<Rightarrow> bool" where
  "flag_set flags f \<longleftrightarrow> flags AND f \<noteq> 0"

text \<open>\<open>thread_stack_init\<close> prepares the initial stack frame; the stack pointer it returns is a parameter.\<close>

definition thread_create ::
    "(u32 \<Rightarrow> u32 \<Rightarrow> u32 \<Rightarrow> int \<Rightarrow> u32) \<Rightarrow> u32 \<Rightarrow> int \<Rightarrow> u8 \<Rightarrow> int \<Rightarrow> u32 \<Rightarrow> u32 \<Rightarrow> kernel \<Rightarrow> c_fault + (int \<times> kernel)" where
  "thread_create thread_stack_init stack stacksize prio flags function arg k =
     (if unat prio \<ge> SCHED_PRIO_LEVELS then Inr (-22, k)
      else case thread_create_layout stack stacksize of (stack, stacksize) \<Rightarrow>
        let t = stack + word_of_int stacksize;
            p = first_free_pid k
        in if p = KERNEL_PID_UNDEF then Inr (-139, k)
           else
             let k = k\<lparr>sched_threads := (sched_threads k)(p \<mapsto> t)\<rparr>;
                 k = upd_tcb t (\<lambda>th. th\<lparr>pid := p, sp := thread_stack_init function arg stack stacksize,
                       priority := prio, status := STATUS_STOPPED, wait_data := 0,
                       msg_queue := CIB_INIT 0, msg_array := 0\<rparr>) k;
                 k = k\<lparr>links := (links k)(Rq_entry t := None, Msg_waiters t := None),
                       sched_num_threads := sched_num_threads k + 1\<rparr>
             in if flag_set flags THREAD_CREATE_SLEEPING then
                  ebind (sched_set_status t STATUS_SLEEPING k) (\<lambda>k. Inr (p, k))
                else ebind (sched_set_status t STATUS_PENDING k) (\<lambda>k.
                  if \<not> flag_set flags THREAD_CREATE_WOUT_YIELD then
                    ebind (sched_switch (ucast prio) k) (\<lambda>k. Inr (p, k))
                  else Inr (p, k)))"

end
