(* ===== verification/Core_Sched_Inv.thy ===== *)
theory Core_Sched_Inv
  imports Core_Sched
begin

text \<open>
  The invariant of the scheduler.  The abstract state is the assignment \<open>qs\<close> of a sequence of threads
  to every list head.  \<open>kernel_inv\<close> relates it to the links, the states and priorities of the
  threads and the bit cache of the run queues; the lemmas give the effect of every primitive of the
  scheduler on \<open>qs\<close>.
\<close>

unbundle bit_operations_syntax

section \<open>Queues in the store of links\<close>

definition queue_at :: "list_node links \<Rightarrow> list_node \<Rightarrow> tcb list \<Rightarrow> bool" where
  "queue_at h q ts \<longleftrightarrow>
     (case q of
        Runqueue _ \<Rightarrow> clist_at h q (map Rq_entry ts)
      | Rq_entry _ \<Rightarrow> ts = []
      | Mutex_locked \<Rightarrow> ts = []
      | _ \<Rightarrow> list_at h q (map Rq_entry ts) \<or> ts = [] \<and> h q = Some Mutex_locked)"

text \<open>The heads of waiting lists.\<close>

definition wait_head :: "list_node \<Rightarrow> bool" where
  "wait_head q \<longleftrightarrow> (\<exists>t. q = Msg_waiters t) \<or> (\<exists>a. q = Queue a)"

definition queues_at :: "list_node links \<Rightarrow> (list_node \<Rightarrow> tcb list) \<Rightarrow> bool" where
  "queues_at h qs \<longleftrightarrow> (\<forall>q. queue_at h q (qs q) \<and> distinct (qs q))
     \<and> (\<forall>t q q'. t \<in> set (qs q) \<longrightarrow> t \<in> set (qs q') \<longrightarrow> q = q')"

lemma queue_at_simps [simp]:
  "queue_at h (Runqueue p) ts \<longleftrightarrow> clist_at h (Runqueue p) (map Rq_entry ts)"
  "queue_at h (Rq_entry t) ts \<longleftrightarrow> ts = []"
  "queue_at h Mutex_locked ts \<longleftrightarrow> ts = []"
  "queue_at h (Msg_waiters t) ts \<longleftrightarrow>
     list_at h (Msg_waiters t) (map Rq_entry ts) \<or> ts = [] \<and> h (Msg_waiters t) = Some Mutex_locked"
  "queue_at h (Queue a) ts \<longleftrightarrow>
     list_at h (Queue a) (map Rq_entry ts) \<or> ts = [] \<and> h (Queue a) = Some Mutex_locked"
  by (simp_all add: queue_at_def)

lemma queue_at_cong:
  assumes "h' q = h q" "\<And>t. t \<in> set ts \<Longrightarrow> h' (Rq_entry t) = h (Rq_entry t)"
  shows "queue_at h' q ts = queue_at h q ts"
proof -
  have "list_at h' q (map Rq_entry ts) = list_at h q (map Rq_entry ts)"
    "clist_at h' q (map Rq_entry ts) = clist_at h q (map Rq_entry ts)"
    using assms by (auto intro!: list_at_cong clist_at_cong)
  then show ?thesis using assms(1) by (cases q) simp_all
qed

lemma queues_at_update:
  assumes qs: "queues_at h qs" and new: "queue_at h' q new" "distinct new" "set new \<subseteq> T"
    and T: "\<And>t q'. t \<in> T \<Longrightarrow> q' \<noteq> q \<Longrightarrow> t \<notin> set (qs q')"
    and frame: "\<And>x. x \<noteq> q \<Longrightarrow> x \<notin> Rq_entry ` T \<Longrightarrow> h' x = h x"
    and q: "\<And>t. q \<noteq> Rq_entry t"
  shows "queues_at h' (qs(q := new))"
  unfolding queues_at_def
proof (intro conjI allI impI)
  fix q'
  show "queue_at h' q' ((qs(q := new)) q')"
  proof (cases "q' = q")
    case False
    from qs have old: "queue_at h q' (qs q')" by (simp add: queues_at_def)
    show ?thesis
    proof (cases "\<exists>t. q' = Rq_entry t")
      case True
      with old False show ?thesis by auto
    next
      case head: False
      have "queue_at h' q' (qs q') = queue_at h q' (qs q')"
      proof (rule queue_at_cong)
        show "h' q' = h q'" using head False by (intro frame) auto
        show "h' (Rq_entry t) = h (Rq_entry t)" if "t \<in> set (qs q')" for t
          using that T False q by (intro frame) auto
      qed
      with old False show ?thesis by simp
    qed
  qed (use new in simp)
  show "distinct ((qs(q := new)) q')" using qs new by (simp add: queues_at_def)
next
  fix t q1 q2
  assume "t \<in> set ((qs(q := new)) q1)" "t \<in> set ((qs(q := new)) q2)"
  with qs new(3) T show "q1 = q2"
    by (auto simp: queues_at_def split: if_splits)
qed

lemma queues_at_Runqueue: "queues_at h qs \<Longrightarrow> clist_at h (Runqueue p) (map Rq_entry (qs (Runqueue p)))"
  unfolding queues_at_def by (metis queue_at_simps(1))

lemma queues_at_distinct: "queues_at h qs \<Longrightarrow> distinct (qs q)"
  by (simp add: queues_at_def)

lemma queues_at_unique: "queues_at h qs \<Longrightarrow> t \<in> set (qs q) \<Longrightarrow> t \<in> set (qs q') \<Longrightarrow> q = q'"
  by (auto simp: queues_at_def)

text \<open>Appending a thread that is in no queue, and removing the first thread.\<close>

lemma queues_at_rpush:
  assumes "queues_at h qs" "\<And>q. t \<notin> set (qs q)"
  shows "queues_at (clist_rpush h (Runqueue p) (Rq_entry t)) (qs(Runqueue p := qs (Runqueue p) @ [t]))"
proof (rule queues_at_update [OF assms(1), where T = "insert t (set (qs (Runqueue p)))"])
  note c = queues_at_Runqueue [OF assms(1), of p]
  have n: "Rq_entry t \<notin> set (Runqueue p # map Rq_entry (qs (Runqueue p)))" using assms(2) by auto
  show "queue_at (clist_rpush h (Runqueue p) (Rq_entry t)) (Runqueue p) (qs (Runqueue p) @ [t])"
    using clist_rpush_at [OF c n] by simp
  show "clist_rpush h (Runqueue p) (Rq_entry t) x = h x"
    if "x \<noteq> Runqueue p" "x \<notin> Rq_entry ` insert t (set (qs (Runqueue p)))" for x
    using that by (intro clist_rpush_frame [OF c]) auto
qed (use assms queues_at_distinct [OF assms(1)] queues_at_unique [OF assms(1)] in auto)

lemma queues_at_lpop:
  assumes "queues_at h qs" "qs (Runqueue p) = t # ts"
  obtains h' where "clist_lpop h (Runqueue p) = Inr (Some (Rq_entry t), h')"
    "queues_at h' (qs(Runqueue p := ts))" "h' (Runqueue p) = None \<longleftrightarrow> ts = []"
    "\<And>q. wait_head q \<Longrightarrow> h' q = h q"
proof -
  from queues_at_Runqueue [OF assms(1), of p] assms(2)
  have c: "clist_at h (Runqueue p) (Rq_entry t # map Rq_entry ts)" by simp
  from clist_lpop_Cons [OF c] obtain h' where h':
    "clist_lpop h (Runqueue p) = Inr (Some (Rq_entry t), h')" "clist_at h' (Runqueue p) (map Rq_entry ts)"
    "\<And>y. y \<notin> set (Runqueue p # map Rq_entry ts) \<Longrightarrow> h' y = h y" by blast
  have "queues_at h' (qs(Runqueue p := ts))"
  proof (rule queues_at_update [OF assms(1), where T = "set ts"])
    show "queue_at h' (Runqueue p) ts" using h'(2) by simp
    show "distinct ts" using queues_at_distinct [OF assms(1), of "Runqueue p"] assms(2) by simp
    show "t' \<notin> set (qs q')" if "t' \<in> set ts" "q' \<noteq> Runqueue p" for t' q'
      using queues_at_unique [OF assms(1), of t' "Runqueue p" q'] that assms(2) by auto
    show "h' x = h x" if "x \<noteq> Runqueue p" "x \<notin> Rq_entry ` set ts" for x
      using h'(3) that by auto
  qed simp_all
  moreover have "h' q = h q" if "wait_head q" for q using that by (intro h'(3)) (auto simp: wait_head_def)
  ultimately show thesis using h' that clist_at_is_empty [OF h'(2)] by (simp add: clist_is_empty_def)
qed

lemma queues_at_advance:
  assumes "queues_at h qs"
  shows "queues_at (clist_lpoprpush h (Runqueue p)) (qs(Runqueue p := rotate1 (qs (Runqueue p))))"
proof (cases "qs (Runqueue p)")
  case Nil
  with queues_at_Runqueue [OF assms, of p] have "clist_lpoprpush h (Runqueue p) = h"
    by (simp add: clist_lpoprpush_def)
  with assms Nil show ?thesis by (simp add: fun_upd_idem)
next
  case (Cons t ts)
  from queues_at_Runqueue [OF assms, of p] Cons
  have c: "clist_at h (Runqueue p) (Rq_entry t # map Rq_entry ts)" by simp
  show ?thesis
  proof (rule queues_at_update [OF assms, where T = "set (qs (Runqueue p))"])
    show "queue_at (clist_lpoprpush h (Runqueue p)) (Runqueue p) (rotate1 (qs (Runqueue p)))"
      using clist_lpoprpush_at(1) [OF c] Cons by simp
    show "clist_lpoprpush h (Runqueue p) x = h x" if "x \<noteq> Runqueue p" for x
      using clist_lpoprpush_at(2) [OF c that] .
  qed (use queues_at_distinct [OF assms] queues_at_unique [OF assms] in auto)
qed

section \<open>The invariant\<close>

definition kernel_inv :: "kernel \<Rightarrow> (list_node \<Rightarrow> tcb list) \<Rightarrow> bool" where
  "kernel_inv k qs \<longleftrightarrow>
     queues_at (links k) qs
     \<and> (\<forall>t. unat (priority (tcbs k t)) < SCHED_PRIO_LEVELS)
     \<and> (\<forall>t p. t \<in> set (qs (Runqueue p)) \<longleftrightarrow>
            status (tcbs k t) \<ge> STATUS_ON_RUNQUEUE \<and> p = unat (priority (tcbs k t)))
     \<and> (\<forall>i < 32. bit (runqueue_bitcache k) i \<longleftrightarrow> qs (Runqueue (31 - i)) \<noteq> [])"

definition runq :: "kernel \<Rightarrow> tcb \<Rightarrow> list_node" where
  "runq k t = Runqueue (unat (priority (tcbs k t)))"

definition runnable :: "kernel \<Rightarrow> tcb \<Rightarrow> bool" where
  "runnable k t \<longleftrightarrow> status (tcbs k t) \<ge> STATUS_ON_RUNQUEUE"

text \<open>What the list operations leave alone.\<close>

definition same_env :: "kernel \<Rightarrow> kernel \<Rightarrow> bool" where
  "same_env k k' \<longleftrightarrow>
     sched_active_pid k' = sched_active_pid k \<and> sched_active_thread k' = sched_active_thread k
     \<and> sched_threads k' = sched_threads k \<and> sched_num_threads k' = sched_num_threads k
     \<and> sched_context_switch_request k' = sched_context_switch_request k
     \<and> msgs k' = msgs k \<and> pendsv k' = pendsv k \<and> in_irq k' = in_irq k"

text \<open>The heads of the waiting lists are not touched.\<close>

definition same_heads :: "kernel \<Rightarrow> kernel \<Rightarrow> bool" where
  "same_heads k k' \<longleftrightarrow> (\<forall>q. wait_head q \<longrightarrow> links k' q = links k q)"

lemma inv_queues: "kernel_inv k qs \<Longrightarrow> queues_at (links k) qs"
  by (simp add: kernel_inv_def)

lemma inv_prio: "kernel_inv k qs \<Longrightarrow> unat (priority (tcbs k t)) < 16"
  by (simp add: kernel_inv_def SCHED_PRIO_LEVELS_def)

lemma inv_runnable: "kernel_inv k qs \<Longrightarrow> runnable k t \<longleftrightarrow> t \<in> set (qs (runq k t))"
  by (auto simp: kernel_inv_def runnable_def runq_def)

lemma inv_in_runqueue: "kernel_inv k qs \<Longrightarrow> t \<in> set (qs (Runqueue p)) \<longleftrightarrow> runnable k t \<and> runq k t = Runqueue p"
  by (auto simp: kernel_inv_def runnable_def runq_def)

lemma inv_blocked_queue:
  assumes "kernel_inv k qs" "t \<in> set (qs q)" "\<And>p. q \<noteq> Runqueue p"
  shows "\<not> runnable k t"
  using assms inv_runnable [OF assms(1), of t] queues_at_unique [OF inv_queues [OF assms(1)], of t q "runq k t"]
  by (auto simp: runq_def)

lemma bit_BIT31:
  assumes "p < 32"
  shows "bit (drop_bit p BIT31) i \<longleftrightarrow> i = 31 - p"
proof -
  have e: "BIT31 = 2 ^ 31" by (simp add: BIT31_def)
  have b: "bit (2 ^ 31 :: u32) n \<longleftrightarrow> n = 31" for n unfolding bit_exp_iff by auto
  have "bit (drop_bit p BIT31) i \<longleftrightarrow> p + i = 31" unfolding e bit_drop_bit_eq o_apply b ..
  then show ?thesis using assms by auto
qed

lemma same_env_refl [simp]: "same_env k k"
  by (simp add: same_env_def)

lemma same_env_trans: "same_env k k' \<Longrightarrow> same_env k' k'' \<Longrightarrow> same_env k k''"
  by (simp add: same_env_def)

section \<open>Changing the state of a thread\<close>

lemma set_status_keep:
  assumes "kernel_inv k qs" "runnable k t \<longleftrightarrow> st \<ge> STATUS_ON_RUNQUEUE"
  shows "sched_set_status t st k = Inr (upd_tcb t (status_update (\<lambda>_. st)) k)"
    "kernel_inv (upd_tcb t (status_update (\<lambda>_. st)) k) qs"
  using assms by (auto simp: sched_set_status_def runnable_def kernel_inv_def upd_tcb_def)

lemma set_status_wake:
  assumes inv: "kernel_inv k qs" and st: "st \<ge> STATUS_ON_RUNQUEUE" and t: "\<And>q. t \<notin> set (qs q)"
  obtains k' where "sched_set_status t st k = Inr k'"
    "kernel_inv k' (qs(runq k t := qs (runq k t) @ [t]))" "same_env k k'"
    "tcbs k' = (tcbs k)(t := (tcbs k t)\<lparr>status := st\<rparr>)" "same_heads k k'"
proof -
  let ?p = "priority (tcbs k t)" and ?qs = "qs(runq k t := qs (runq k t) @ [t])"
  let ?k = "upd_tcb t (status_update (\<lambda>_. st)) (runqueue_push t ?p k)"
  have p: "unat ?p < 32" using inv_prio [OF inv, of t] by simp
  have off: "\<not> STATUS_ON_RUNQUEUE \<le> status (tcbs k t)"
    using inv_runnable [OF inv, of t] t by (simp add: runnable_def)
  have eq: "sched_set_status t st k = Inr ?k" using st off by (simp add: sched_set_status_def)
  have "queues_at (links ?k) ?qs"
    using queues_at_rpush [OF inv_queues [OF inv] t, of "unat ?p"]
    by (simp add: runqueue_push_def set_runqueue_bit_def upd_tcb_def runq_def)
  moreover have "bit (runqueue_bitcache ?k) i \<longleftrightarrow> ?qs (Runqueue (31 - i)) \<noteq> []" if "i < 32" for i
  proof -
    have "bit (runqueue_bitcache ?k) i \<longleftrightarrow> bit (runqueue_bitcache k) i \<or> i = 31 - unat ?p"
      using bit_BIT31 [OF p, of i] by (simp add: runqueue_push_def set_runqueue_bit_def upd_tcb_def bit_or_iff)
    moreover have "i = 31 - unat ?p \<longleftrightarrow> 31 - i = unat ?p" using that p by auto
    ultimately show ?thesis using inv that by (auto simp: kernel_inv_def runq_def)
  qed
  moreover have "t' \<in> set (?qs (Runqueue q)) \<longleftrightarrow>
      STATUS_ON_RUNQUEUE \<le> status (tcbs ?k t') \<and> q = unat (priority (tcbs ?k t'))" for t' q
    using inv st t off by (auto simp: kernel_inv_def upd_tcb_def runqueue_push_def set_runqueue_bit_def runq_def)
  ultimately have "kernel_inv ?k ?qs"
    using inv unfolding kernel_inv_def by (auto simp: upd_tcb_def runqueue_push_def set_runqueue_bit_def)
  moreover have "same_env k ?k" "tcbs ?k = (tcbs k)(t := (tcbs k t)\<lparr>status := st\<rparr>)"
    by (simp_all add: same_env_def upd_tcb_def runqueue_push_def set_runqueue_bit_def)
  moreover have "same_heads k ?k"
    unfolding same_heads_def
  proof (intro allI impI)
    fix q assume "wait_head q"
    then have "clist_rpush (links k) (Runqueue (unat ?p)) (Rq_entry t) q = links k q"
      by (intro clist_rpush_frame [OF queues_at_Runqueue [OF inv_queues [OF inv]]]) (auto simp: wait_head_def)
    then show "links ?k q = links k q"
      by (simp add: upd_tcb_def runqueue_push_def set_runqueue_bit_def)
  qed
  ultimately show thesis using that eq by blast
qed

lemma runqueue_pop_inv:
  assumes inv: "kernel_inv k qs" and q: "qs (runq k t) = t # ts"
  obtains k' where "runqueue_pop t k = Inr k'" "queues_at (links k') (qs(runq k t := ts))"
    "\<And>i. i < 32 \<Longrightarrow> bit (runqueue_bitcache k') i \<longleftrightarrow> (qs(runq k t := ts)) (Runqueue (31 - i)) \<noteq> []"
    "same_env k k'" "tcbs k' = tcbs k" "same_heads k k'"
proof -
  let ?p = "unat (priority (tcbs k t))" and ?qs = "qs(runq k t := ts)"
  have p: "?p < 32" using inv_prio [OF inv, of t] by simp
  from q have "qs (Runqueue ?p) = t # ts" by (simp add: runq_def)
  from queues_at_lpop [OF inv_queues [OF inv] this] obtain h' where h':
    "clist_lpop (links k) (Runqueue ?p) = Inr (Some (Rq_entry t), h')" "queues_at h' (qs(Runqueue ?p := ts))"
    "h' (Runqueue ?p) = None \<longleftrightarrow> ts = []" "\<And>q. wait_head q \<Longrightarrow> h' q = links k q" by blast
  let ?k = "if ts = [] then clear_runqueue_bit (priority (tcbs k t)) (k\<lparr>links := h'\<rparr>) else k\<lparr>links := h'\<rparr>"
  have "runqueue_pop t k = Inr ?k" using h' by (simp add: runqueue_pop_def)
  moreover have "queues_at (links ?k) ?qs" using h'(2) by (auto simp: clear_runqueue_bit_def runq_def)
  moreover have "bit (runqueue_bitcache ?k) i \<longleftrightarrow> ?qs (Runqueue (31 - i)) \<noteq> []" if "i < 32" for i
  proof -
    have old: "bit (runqueue_bitcache k) i \<longleftrightarrow> qs (Runqueue (31 - i)) \<noteq> []"
      using inv that by (simp add: kernel_inv_def)
    have "i = 31 - ?p \<longleftrightarrow> 31 - i = ?p" using that p by auto
    then show ?thesis using old q bit_BIT31 [OF p, of i] that
      by (auto simp: clear_runqueue_bit_def runq_def bit_and_iff bit_not_iff)
  qed
  moreover have "same_env k ?k" "tcbs ?k = tcbs k" "same_heads k ?k"
    using h'(4) by (simp_all add: same_env_def same_heads_def clear_runqueue_bit_def)
  ultimately show thesis using that [of ?k] by blast
qed

lemma set_status_block:
  assumes inv: "kernel_inv k qs" and st: "st < STATUS_ON_RUNQUEUE" and q: "qs (runq k t) = t # ts"
  obtains k' where "sched_set_status t st k = Inr k'" "kernel_inv k' (qs(runq k t := ts))" "same_env k k'"
    "tcbs k' = (tcbs k)(t := (tcbs k t)\<lparr>status := st\<rparr>)" "same_heads k k'"
proof -
  let ?qs = "qs(runq k t := ts)"
  have on: "STATUS_ON_RUNQUEUE \<le> status (tcbs k t)"
    using inv_runnable [OF inv, of t] q by (simp add: runnable_def)
  from runqueue_pop_inv [OF inv q] obtain k1 where k1: "runqueue_pop t k = Inr k1" "queues_at (links k1) ?qs"
    "\<And>i. i < 32 \<Longrightarrow> bit (runqueue_bitcache k1) i \<longleftrightarrow> ?qs (Runqueue (31 - i)) \<noteq> []"
    "same_env k k1" "tcbs k1 = tcbs k" "same_heads k k1" by blast
  let ?k = "upd_tcb t (status_update (\<lambda>_. st)) k1"
  have eq: "sched_set_status t st k = Inr ?k" using st on k1(1) by (simp add: sched_set_status_def not_le)
  have t: "t \<notin> set ts" using queues_at_distinct [OF inv_queues [OF inv], of "runq k t"] q by simp
  have "t' \<in> set (?qs (Runqueue p)) \<longleftrightarrow>
      STATUS_ON_RUNQUEUE \<le> status (tcbs ?k t') \<and> p = unat (priority (tcbs ?k t'))" for t' p
  proof -
    have "t' \<in> set (qs (Runqueue p)) \<longleftrightarrow>
        STATUS_ON_RUNQUEUE \<le> status (tcbs k t') \<and> p = unat (priority (tcbs k t'))"
      using inv by (simp add: kernel_inv_def)
    with t q st show ?thesis by (auto simp: upd_tcb_def k1(5) runq_def not_le)
  qed
  then have "kernel_inv ?k ?qs"
    using inv k1 unfolding kernel_inv_def by (auto simp: upd_tcb_def)
  moreover have "same_env k ?k" "tcbs ?k = (tcbs k)(t := (tcbs k t)\<lparr>status := st\<rparr>)" "same_heads k ?k"
    using k1(4-6) by (simp_all add: same_env_def same_heads_def upd_tcb_def)
  ultimately show thesis using that eq by blast
qed

lemma set_status_frame:
  assumes "kernel_inv k qs" "runnable k t \<longleftrightarrow> st \<ge> STATUS_ON_RUNQUEUE"
  shows "kernel_inv (upd_tcb t (status_update (\<lambda>_. st)) k) qs"
  using set_status_keep [OF assms] by simp

section \<open>The scheduling decision\<close>

text \<open>The queue of the best priority that has a runnable thread.\<close>

definition best_queue :: "(list_node \<Rightarrow> tcb list) \<Rightarrow> nat \<Rightarrow> bool" where
  "best_queue qs p \<longleftrightarrow> qs (Runqueue p) \<noteq> [] \<and> (\<forall>p' < p. qs (Runqueue p') = [])"

lemma get_prio_best:
  assumes inv: "kernel_inv k qs" and "runqueue_bitcache k \<noteq> 0"
  shows "best_queue qs (unat (get_prio_queue_from_runqueue k))" "unat (get_prio_queue_from_runqueue k) < 32"
proof -
  from exists_msb [OF assms(2)] obtain i where i: "is_msb (runqueue_bitcache k) i" by blast
  have lt: "i < 32" using is_msb_less [OF i] .
  have bits: "bit (runqueue_bitcache k) j \<longleftrightarrow> qs (Runqueue (31 - j)) \<noteq> []" if "j < 32" for j
    using inv that by (simp add: kernel_inv_def)
  have "31 - (of_nat i :: u32) = of_nat (31 - i)" using lt by (simp add: of_nat_diff)
  then have p: "unat (get_prio_queue_from_runqueue k) = 31 - i"
    unfolding get_prio_queue_from_runqueue_def bitarithm_msb_correct [OF i] by (simp add: unat_of_nat_u32)
  show "unat (get_prio_queue_from_runqueue k) < 32" using p by simp
  have "qs (Runqueue p') = []" if "p' < 31 - i" for p'
    using i bits [of "31 - p'"] that by (auto simp: is_msb_def)
  then show "best_queue qs (unat (get_prio_queue_from_runqueue k))"
    unfolding p best_queue_def using i bits [OF lt] by (simp add: is_msb_def)
qed

lemma best_queue_unique: "best_queue qs p \<Longrightarrow> best_queue qs p' \<Longrightarrow> p = p'"
  unfolding best_queue_def by (metis nat_neq_iff)

lemma inv_bitcache_zero:
  assumes "kernel_inv k qs"
  shows "runqueue_bitcache k = 0 \<longleftrightarrow> (\<forall>p. qs (Runqueue p) = [])"
proof
  assume z: "runqueue_bitcache k = 0"
  show "\<forall>p. qs (Runqueue p) = []"
  proof
    fix p
    show "qs (Runqueue p) = []"
    proof (cases "p < 32")
      case True
      with assms z show ?thesis unfolding kernel_inv_def by (auto dest!: spec [of _ "31 - p"])
    next
      case False
      have "t \<notin> set (qs (Runqueue p))" for t
        using assms False inv_prio [OF assms, of t] unfolding kernel_inv_def by auto
      then show ?thesis by (cases "qs (Runqueue p)") auto
    qed
  qed
next
  assume e: "\<forall>p. qs (Runqueue p) = []"
  show "runqueue_bitcache k = 0"
  proof (rule ccontr)
    assume "runqueue_bitcache k \<noteq> 0"
    from get_prio_best(1) [OF assms this] e show False by (simp add: best_queue_def)
  qed
qed

lemma clist_first:
  assumes "clist_at h l (x # xs)"
  shows "\<exists>y. h l = Some y \<and> h y = Some x"
  using clist_lpeek_at [OF assms] clist_rpeek_at [OF assms]
  by (auto simp: clist_lpeek_def clist_rpeek_def split: option.splits)

lemma kernel_inv_env:
  assumes "kernel_inv k qs" "links k' = links k" "tcbs k' = tcbs k" "runqueue_bitcache k' = runqueue_bitcache k"
  shows "kernel_inv k' qs"
  using assms by (simp add: kernel_inv_def)

lemma unschedule_inv: "kernel_inv k qs \<Longrightarrow> kernel_inv (unschedule a k) qs"
  unfolding unschedule_def
  by (auto intro!: set_status_frame simp: runnable_def less_eq_thread_status_t_def)

lemma sched_run_next_ok:
  assumes inv: "kernel_inv k qs" and best: "best_queue qs p" "qs (Runqueue p) = n # ts"
    and act: "active_thread = None \<or> active_thread = previous_thread"
  obtains k' where "sched_run_next active_thread previous_thread k = Inr (n, k')" "kernel_inv k' qs"
    "status (tcbs k' n) = STATUS_RUNNING" "previous_thread = Some n \<or> sched_active_thread k' = Some n"
    "previous_thread = Some n \<Longrightarrow> sched_active_thread k' = sched_active_thread k"
    "pendsv k' = pendsv k" "in_irq k' = in_irq k" "sched_threads k' = sched_threads k"
    "\<And>t. t \<noteq> n \<Longrightarrow> active_thread \<noteq> Some t \<Longrightarrow> tcbs k' t = tcbs k t"
    "\<And>t. (runnable k' t \<longleftrightarrow> runnable k t) \<and> priority (tcbs k' t) = priority (tcbs k t)"
    "\<not> sched_context_switch_request k'"
proof -
  let ?k0 = "k\<lparr>sched_context_switch_request := False\<rparr>"
  have ne: "runqueue_bitcache k \<noteq> 0" using inv_bitcache_zero [OF inv] best by auto
  have inv0: "kernel_inv ?k0 qs" by (rule kernel_inv_env [OF inv]) simp_all
  have p: "unat (get_prio_queue_from_runqueue ?k0) = p"
    using get_prio_best(1) [OF inv0] ne best(1) best_queue_unique by auto
  have c: "clist_at (links k) (Runqueue p) (Rq_entry n # map Rq_entry ts)"
    using queues_at_Runqueue [OF inv_queues [OF inv], of p] best(2) by simp
  from clist_first [OF c] obtain l where l: "links k (Runqueue p) = Some l" "links k l = Some (Rq_entry n)" by blast
  let ?k1 = "upd_tcb n (status_update (\<lambda>_. STATUS_RUNNING)) ?k0"
  have run: "runnable k n" using inv_in_runqueue [OF inv, of n p] best(2) by simp
  have inv1: "kernel_inv ?k1 qs"
    using run by (intro set_status_frame [OF inv0]) (simp add: runnable_def)
  let ?k2 = "case active_thread of Some a \<Rightarrow> unschedule a ?k1 | None \<Rightarrow> ?k1"
  let ?k3 = "?k2\<lparr>sched_active_pid := pid (tcbs ?k2 n), sched_active_thread := Some n\<rparr>"
  have inv2: "kernel_inv ?k2 qs" using inv1 unschedule_inv by (auto split: option.splits)
  then have inv3: "kernel_inv ?k3 qs" by (rule kernel_inv_env) simp_all
  have eq: "sched_run_next active_thread previous_thread k =
      (if previous_thread = Some n then Inr (n, ?k1) else Inr (n, ?k3))"
    by (simp add: sched_run_next_def Let_def p l)
  have st: "status (tcbs ?k3 n) = STATUS_RUNNING" if "previous_thread \<noteq> Some n"
    using act that by (auto simp: unschedule_def upd_tcb_def split: option.splits)
  show thesis
  proof (cases "previous_thread = Some n")
    case True
    show thesis
      by (rule that [of ?k1]) (use eq True inv1 run in \<open>auto simp: upd_tcb_def runnable_def\<close>)
  next
    case False
    show thesis
      by (rule that [of ?k3])
        (use eq False inv3 st run in \<open>auto simp: upd_tcb_def runnable_def unschedule_def less_eq_thread_status_t_def split: option.splits if_splits\<close>)
  qed
qed

section \<open>Waiting lists\<close>

text \<open>A waiting list is ordered by priority; among threads of equal priority it is first come, first served.\<close>

definition insert_waiter :: "kernel \<Rightarrow> tcb \<Rightarrow> tcb list \<Rightarrow> tcb list" where
  "insert_waiter k t ts =
     takeWhile (\<lambda>u. priority (tcbs k u) \<le> priority (tcbs k t)) ts
     @ t # dropWhile (\<lambda>u. priority (tcbs k u) \<le> priority (tcbs k t)) ts"

lemma set_insert_waiter [simp]: "set (insert_waiter k t ts) = insert t (set ts)"
proof -
  have "set (takeWhile P ts) \<union> set (dropWhile P ts) = set ts" for P
    by (metis set_append takeWhile_dropWhile_id)
  then show ?thesis by (auto simp: insert_waiter_def)
qed

lemma distinct_insert_waiter: "distinct ts \<Longrightarrow> t \<notin> set ts \<Longrightarrow> distinct (insert_waiter k t ts)"
proof -
  assume d: "distinct ts" and t: "t \<notin> set ts"
  let ?P = "\<lambda>u. priority (tcbs k u) \<le> priority (tcbs k t)"
  have "distinct (takeWhile ?P ts @ dropWhile ?P ts)" using d by simp
  with t show ?thesis unfolding insert_waiter_def distinct_append
    by (auto dest: set_takeWhileD set_dropWhileD)
qed

lemma insert_waiter_sorted:
  assumes "sorted (map (\<lambda>u. priority (tcbs k u)) ts)"
  shows "sorted (map (\<lambda>u. priority (tcbs k u)) (insert_waiter k t ts))"
  using assms
proof (induction ts)
  case (Cons u ts)
  show ?case
  proof (cases "priority (tcbs k u) \<le> priority (tcbs k t)")
    case True
    have "set (insert_waiter k t ts) = insert t (set ts)" by simp
    with Cons True show ?thesis by (auto simp: insert_waiter_def)
  next
    case False
    with Cons show ?thesis by (auto simp: insert_waiter_def)
  qed
qed (simp add: insert_waiter_def)

lemma ucast_u8_less: "(ucast (a :: u8) :: u16) < ucast b \<longleftrightarrow> a < b"
  by (simp add: word_less_nat_alt unsigned_ucast_eq take_bit_nat_eq_self unsigned_less [THEN less_le_trans])

lemma add_to_list_pos_at:
  assumes "list_at (links k) l (map Rq_entry ts)"
  shows "add_to_list_pos k (ucast (priority (tcbs k t))) l =
     Some (Inr (last (l # map Rq_entry (takeWhile (\<lambda>u. priority (tcbs k u) \<le> priority (tcbs k t)) ts))))"
  using assms
proof (induction ts arbitrary: l)
  case Nil
  then show ?case by (subst add_to_list_pos.simps) simp
next
  case (Cons u ts)
  then have "links k l = Some (Rq_entry u)" "list_at (links k) (Rq_entry u) (map Rq_entry ts)"
    by (auto simp: list_at_Cons)
  with Cons.IH [of "Rq_entry u"] show ?case
    by (subst add_to_list_pos.simps) (auto simp: ucast_u8_less)
qed

lemma queue_at_wait:
  "wait_head q \<Longrightarrow> queue_at h q ts \<longleftrightarrow> list_at h q (map Rq_entry ts) \<or> ts = [] \<and> h q = Some Mutex_locked"
  by (auto simp: wait_head_def)

lemma wait_head_neq: "wait_head q \<Longrightarrow> q \<noteq> Rq_entry t" "wait_head q \<Longrightarrow> q \<noteq> Runqueue p"
  by (auto simp: wait_head_def)

lemma inv_wait_list:
  assumes "kernel_inv k qs" "wait_head q" "links k q \<noteq> Some Mutex_locked"
  shows "list_at (links k) q (map Rq_entry (qs q))"
proof -
  have "queue_at (links k) q (qs q)" using inv_queues [OF assms(1)] by (simp add: queues_at_def)
  with assms(3) show ?thesis by (auto simp: queue_at_wait [OF assms(2)])
qed

lemma wait_head_image: "wait_head q \<Longrightarrow> q \<notin> Rq_entry ` T"
  by (auto simp: wait_head_def)

lemma kernel_inv_wait_update:
  assumes "kernel_inv k qs" "queues_at (links k') (qs(q := new))" "wait_head q" "tcbs k' = tcbs k"
    "runqueue_bitcache k' = runqueue_bitcache k"
  shows "kernel_inv k' (qs(q := new))"
proof -
  have "(qs(q := new)) (Runqueue p) = qs (Runqueue p)" for p
    using wait_head_neq(2) [OF assms(3), of p] by auto
  with assms show ?thesis by (simp add: kernel_inv_def)
qed

lemma thread_add_to_list_ok:
  assumes inv: "kernel_inv k qs" and q: "wait_head q" "links k q \<noteq> Some Mutex_locked"
    and t: "\<And>q. t \<notin> set (qs q)"
  obtains k' where "thread_add_to_list q t k = Some (Inr k')"
    "kernel_inv k' (qs(q := insert_waiter k t (qs q)))" "same_env k k'" "tcbs k' = tcbs k"
    "\<And>q'. wait_head q' \<Longrightarrow> q' \<noteq> q \<Longrightarrow> links k' q' = links k q'" "list_at (links k') q (map Rq_entry (insert_waiter k t (qs q)))"
proof -
  let ?P = "\<lambda>u. priority (tcbs k u) \<le> priority (tcbs k t)"
  let ?pos = "last (q # map Rq_entry (takeWhile ?P (qs q)))"
  let ?h = "list_add (links k) ?pos (Rq_entry t)"
  let ?k = "k\<lparr>links := ?h\<rparr>"
  note l = inv_wait_list [OF inv q]
  have off: "status (tcbs k t) < STATUS_ON_RUNQUEUE"
    using inv_runnable [OF inv, of t] t by (simp add: runnable_def not_le)
  have eq: "thread_add_to_list q t k = Some (Inr ?k)"
    using off add_to_list_pos_at [OF l, of t] by (simp add: thread_add_to_list_def)
  have split: "map Rq_entry (qs q) = map Rq_entry (takeWhile ?P (qs q)) @ map Rq_entry (dropWhile ?P (qs q))"
    unfolding map_append [symmetric] by simp
  have fresh: "Rq_entry t \<notin> set (q # map Rq_entry (takeWhile ?P (qs q)) @ map Rq_entry (dropWhile ?P (qs q)))"
    unfolding split [symmetric] using t wait_head_neq(1) [OF q(1), of t] by auto
  have new: "list_at ?h q (map Rq_entry (insert_waiter k t (qs q)))"
    using list_add_at [OF l [unfolded split] fresh] by (simp add: insert_waiter_def)
  have fr: "?h x = links k x" if "x \<noteq> q" "x \<notin> Rq_entry ` insert t (set (qs q))" for x
  proof -
    have "?pos \<in> set (q # map Rq_entry (takeWhile ?P (qs q)))" by (rule last_in_set) simp
    then have "?pos = q \<or> ?pos \<in> Rq_entry ` set (qs q)" by (auto dest: set_takeWhileD)
    with that show ?thesis by (auto simp: list_add_eq)
  qed
  from new have "queue_at ?h q (insert_waiter k t (qs q))" by (simp add: queue_at_wait [OF q(1)])
  then have "queues_at ?h (qs(q := insert_waiter k t (qs q)))"
  proof (rule queues_at_update [OF inv_queues [OF inv], where T = "insert t (set (qs q))"])
    show "?h x = links k x" if "x \<noteq> q" "x \<notin> Rq_entry ` insert t (set (qs q))" for x
      using that by (rule fr)
    show "distinct (insert_waiter k t (qs q))"
      using queues_at_distinct [OF inv_queues [OF inv]] t by (intro distinct_insert_waiter)
  qed (use t queues_at_unique [OF inv_queues [OF inv]] wait_head_neq [OF q(1)] in auto)
  then have "kernel_inv ?k (qs(q := insert_waiter k t (qs q)))"
    by (intro kernel_inv_wait_update [OF inv _ q(1)]) simp_all
  moreover have "?h q' = links k q'" if "wait_head q'" "q' \<noteq> q" for q'
    using that by (intro fr wait_head_image)
  ultimately show thesis using eq new that [of ?k] by (simp add: same_env_def)
qed

lemma list_remove_head_ok:
  assumes inv: "kernel_inv k qs" and q: "wait_head q" "qs q = t # ts"
  obtains h where "list_remove_head (links k) q = (Some (Rq_entry t), h)"
    "kernel_inv (k\<lparr>links := h\<rparr>) (qs(q := ts))" "list_at h q (map Rq_entry ts)"
    "\<And>q'. q' \<noteq> q \<Longrightarrow> h q' = links k q'"
proof -
  have "queue_at (links k) q (t # ts)" using inv_queues [OF inv] q(2) unfolding queues_at_def by metis
  then have l: "list_at (links k) q (Rq_entry t # map Rq_entry ts)" by (simp add: queue_at_wait [OF q(1)])
  let ?h = "(links k)(q := links k (Rq_entry t))"
  note r = list_remove_head_Cons [OF l]
  have "queues_at ?h (qs(q := ts))"
  proof (rule queues_at_update [OF inv_queues [OF inv], where T = "set ts"])
    show "queue_at ?h q ts" using r(2) by (simp add: queue_at_wait [OF q(1)])
    show "distinct ts" using queues_at_distinct [OF inv_queues [OF inv], of q] q(2) by simp
    show "u \<notin> set (qs q')" if "u \<in> set ts" "q' \<noteq> q" for u q'
      using queues_at_unique [OF inv_queues [OF inv], of u q q'] that q(2) by auto
  qed (use wait_head_neq [OF q(1)] in auto)
  then have "kernel_inv (k\<lparr>links := ?h\<rparr>) (qs(q := ts))"
    by (intro kernel_inv_wait_update [OF inv _ q(1)]) simp_all
  with r that [of ?h] show thesis by simp
qed

text \<open>A waiting list without threads may be set to \<open>NULL\<close> or to \<open>MUTEX_LOCKED\<close>.\<close>

lemma kernel_inv_set_head:
  assumes "kernel_inv k qs" "wait_head q" "qs q = []" "v = None \<or> v = Some Mutex_locked"
  shows "kernel_inv (k\<lparr>links := (links k)(q := v)\<rparr>) qs"
proof -
  have "queues_at ((links k)(q := v)) (qs(q := []))"
  proof (rule queues_at_update [OF inv_queues [OF assms(1)], where T = "{}"])
    show "queue_at ((links k)(q := v)) q []" using assms(4) by (auto simp: queue_at_wait [OF assms(2)])
  qed (use wait_head_neq [OF assms(2)] in auto)
  then have "queues_at ((links k)(q := v)) qs" using assms(3) by (simp add: fun_upd_idem)
  with assms(1) show ?thesis by (simp add: kernel_inv_def)
qed

lemma inv_head_None:
  assumes "kernel_inv k qs" "wait_head q" "links k q = None \<or> links k q = Some Mutex_locked"
  shows "qs q = []"
proof -
  have "queue_at (links k) q (qs q)" using inv_queues [OF assms(1)] by (simp add: queues_at_def)
  with assms(2,3) show ?thesis by (cases "qs q") (auto simp: queue_at_wait list_at_Cons)
qed

lemma inv_head_waiting:
  assumes "kernel_inv k qs" "wait_head q" "links k q \<noteq> None" "links k q \<noteq> Some Mutex_locked"
  shows "qs q \<noteq> []"
  using inv_wait_list [OF assms(1,2,4)] assms(3) by auto

text \<open>The effect of a request for the scheduler.\<close>

lemma kernel_inv_env_simps [simp]:
  "kernel_inv (k\<lparr>pendsv := b\<rparr>) qs = kernel_inv k qs"
  "kernel_inv (k\<lparr>sched_context_switch_request := b\<rparr>) qs = kernel_inv k qs"
  "kernel_inv (k\<lparr>sched_active_thread := a\<rparr>) qs = kernel_inv k qs"
  "kernel_inv (k\<lparr>sched_threads := f\<rparr>) qs = kernel_inv k qs"
  "kernel_inv (k\<lparr>sched_num_threads := n\<rparr>) qs = kernel_inv k qs"
  "kernel_inv (k\<lparr>msgs := m\<rparr>) qs = kernel_inv k qs"
  "kernel_inv (k\<lparr>in_irq := b\<rparr>) qs = kernel_inv k qs"
  by (simp_all add: kernel_inv_def)

lemma sched_switch_eq:
  assumes "sched_active_thread k = Some a"
  shows "sched_switch prio k =
     Inr (if \<not> runnable k a \<or> ucast (priority (tcbs k a)) > prio then
            if in_irq k then k\<lparr>sched_context_switch_request := True\<rparr> else k\<lparr>pendsv := True\<rparr>
          else k)"
  using assms by (simp add: sched_switch_def thread_yield_higher_def runnable_def Let_def)

end
