(* ===== verification/Core_Mutex.thy ===== *)
theory Core_Mutex
  imports Core_Sched_Inv
begin

text \<open>
  Mutexes, recursive mutexes and condition variables: \<open>core/mutex.c\<close>, \<open>core/include/mutex.h\<close>,
  \<open>core/lib/rmutex.c\<close> and \<open>core/cond.c\<close>.  A mutex is its queue head: \<open>NULL\<close> when unlocked, \<open>MUTEX_LOCKED\<close>
  when locked without waiters, else the list of waiting threads.  An operation that blocks ends with
  the calling thread in a waiting list and the scheduler requested; what the code does after it is
  scheduled again is a definition of its own where there is such code.
\<close>

unbundle bit_operations_syntax

section \<open>Mutexes\<close>

abbreviation MUTEX_LOCKED :: "list_node option" where
  "MUTEX_LOCKED \<equiv> Some Mutex_locked"

definition ECANCELED :: int where "ECANCELED = 140"

record mutex_cancel_t =
  mc_mutex :: u32
  mc_thread :: tcb
  cancelled :: bool

definition mutex_init :: "u32 \<Rightarrow> kernel \<Rightarrow> kernel" where
  "mutex_init mutex k = k\<lparr>links := (links k)(Queue mutex := None)\<rparr>"

definition mutex_cancel_init :: "u32 \<Rightarrow> kernel \<Rightarrow> c_fault + mutex_cancel_t" where
  "mutex_cancel_init mutex k =
     deref (sched_active_thread k) (\<lambda>me. Inr \<lparr>mc_mutex = mutex, mc_thread = me, cancelled = False\<rparr>)"

text \<open>Sequencing of operations that may fail or not return.\<close>

definition obind :: "('e + 'a) option \<Rightarrow> ('a \<Rightarrow> ('e + 'b) option) \<Rightarrow> ('e + 'b) option" where
  "obind x f = (case x of None \<Rightarrow> None | Some (Inl e) \<Rightarrow> Some (Inl e) | Some (Inr a) \<Rightarrow> f a)"

lemma obind_simps [simp]:
  "obind None f = None" "obind (Some (Inl e)) f = Some (Inl e)" "obind (Some (Inr a)) f = f a"
  by (simp_all add: obind_def)

definition mutex_block :: "u32 \<Rightarrow> kernel \<Rightarrow> (c_fault + kernel) option" where
  "mutex_block mutex k =
     (case sched_active_thread k of
        None \<Rightarrow> Some (Inl AssertFail)
      | Some me \<Rightarrow>
          obind (Some (sched_set_status me STATUS_MUTEX_BLOCKED k)) (\<lambda>k.
          obind
            (if links k (Queue mutex) = MUTEX_LOCKED
             then Some (Inr (k\<lparr>links := (links k)(Queue mutex := Some (Rq_entry me), Rq_entry me := None)\<rparr>))
             else thread_add_to_list (Queue mutex) me k) (\<lambda>k.
          Some (Inr (thread_yield_higher k)))))"

definition mutex_lock_internal :: "u32 \<Rightarrow> bool \<Rightarrow> kernel \<Rightarrow> (c_fault + (bool \<times> kernel)) option" where
  "mutex_lock_internal mutex block k =
     (if links k (Queue mutex) = None
      then Some (Inr (True, k\<lparr>links := (links k)(Queue mutex := MUTEX_LOCKED)\<rparr>))
      else if \<not> block then Some (Inr (False, k))
      else obind (mutex_block mutex k) (\<lambda>k. Some (Inr (True, k))))"

definition mutex_trylock :: "u32 \<Rightarrow> kernel \<Rightarrow> (c_fault + (bool \<times> kernel)) option" where
  "mutex_trylock mutex k = mutex_lock_internal mutex False k"

definition mutex_lock :: "u32 \<Rightarrow> kernel \<Rightarrow> (c_fault + kernel) option" where
  "mutex_lock mutex k = obind (mutex_lock_internal mutex True k) (\<lambda>(_, k). Some (Inr k))"

text \<open>The result is \<open>None\<close> when the thread blocks; \<open>lock_cancelable_result\<close> is what it returns then.\<close>

definition mutex_lock_cancelable :: "mutex_cancel_t \<Rightarrow> kernel \<Rightarrow> (c_fault + (int option \<times> kernel)) option" where
  "mutex_lock_cancelable mc k =
     (if cancelled mc then Some (Inr (Some (- ECANCELED), k))
      else if links k (Queue (mc_mutex mc)) = None
      then Some (Inr (Some 0, k\<lparr>links := (links k)(Queue (mc_mutex mc) := MUTEX_LOCKED)\<rparr>))
      else obind (mutex_block (mc_mutex mc) k) (\<lambda>k. Some (Inr (None, k))))"

definition lock_cancelable_result :: "mutex_cancel_t \<Rightarrow> int" where
  "lock_cancelable_result mc = (if cancelled mc then - ECANCELED else 0)"

text \<open>Taking the first waiter off the queue of a locked mutex.\<close>

definition wake_first :: "u32 \<Rightarrow> kernel \<Rightarrow> c_fault + (tcb \<times> kernel)" where
  "wake_first mutex k =
     (case list_remove_head (links k) (Queue mutex) of (nxt, h) \<Rightarrow>
        deref nxt (\<lambda>n. deref (container_of_rq_entry n) (\<lambda>process.
          ebind (sched_set_status process STATUS_PENDING (k\<lparr>links := h\<rparr>)) (\<lambda>k.
            Inr (process,
                 if links k (Queue mutex) = None
                 then k\<lparr>links := (links k)(Queue mutex := MUTEX_LOCKED)\<rparr> else k)))))"

definition mutex_unlock :: "u32 \<Rightarrow> kernel \<Rightarrow> c_fault + kernel" where
  "mutex_unlock mutex k =
     (if links k (Queue mutex) = None then Inr k
      else if links k (Queue mutex) = MUTEX_LOCKED
      then Inr (k\<lparr>links := (links k)(Queue mutex := None)\<rparr>)
      else ebind (wake_first mutex k) (\<lambda>(process, k).
        sched_switch (ucast (priority (tcbs k process))) k))"

definition mutex_unlock_and_sleep :: "u32 \<Rightarrow> kernel \<Rightarrow> c_fault + kernel" where
  "mutex_unlock_and_sleep mutex k =
     ebind
       (if links k (Queue mutex) \<noteq> None then
          if links k (Queue mutex) = MUTEX_LOCKED
          then Inr (k\<lparr>links := (links k)(Queue mutex := None)\<rparr>)
          else ebind (wake_first mutex k) (\<lambda>(_, k). Inr k)
        else Inr k) (\<lambda>k.
       deref (sched_active_thread k) (\<lambda>me.
         ebind (sched_set_status me STATUS_SLEEPING k) (\<lambda>k. Inr (thread_yield_higher k))))"

definition mutex_cancel :: "mutex_cancel_t \<Rightarrow> kernel \<Rightarrow> (c_fault + (mutex_cancel_t \<times> kernel)) option" where
  "mutex_cancel mc k =
     (let mc = mc\<lparr>cancelled := True\<rparr>; mutex = mc_mutex mc; thread = mc_thread mc
      in if thread_is_active (tcbs k thread) then Some (Inr (mc, k))
         else if links k (Queue mutex) \<noteq> MUTEX_LOCKED \<and> links k (Queue mutex) \<noteq> None then
           (case list_remove (links k) (Queue mutex) (Rq_entry thread) of
              None \<Rightarrow> None
            | Some (r, h) \<Rightarrow>
                if r \<noteq> None then
                  let h = (if h (Queue mutex) = None then h(Queue mutex := MUTEX_LOCKED) else h);
                      k = k\<lparr>links := h\<rparr>
                  in obind (Some (sched_set_status thread STATUS_PENDING k)) (\<lambda>k.
                     obind (Some (sched_switch (ucast (priority (tcbs k thread))) k)) (\<lambda>k. Some (Inr (mc, k))))
                else Some (Inr (mc, k\<lparr>links := h\<rparr>)))
         else Some (Inr (mc, k)))"

section \<open>Recursive mutexes\<close>

record rmutex_t =
  rm_mutex :: u32
  refcount :: u16
  rm_owner :: int

text \<open>What \<open>_lock\<close> does once the caller holds the mutex.\<close>

definition rmutex_acquired :: "rmutex_t \<Rightarrow> kernel \<Rightarrow> rmutex_t" where
  "rmutex_acquired rm k = rm\<lparr>rm_owner := sched_active_pid k, refcount := refcount rm + 1\<rparr>"

text \<open>
  The first component tells how the call ends: \<open>Some r\<close> returns \<open>r\<close>; \<open>None\<close> means that the thread waits
  for the mutex and continues with \<open>rmutex_acquired\<close>.
\<close>

definition rmutex_lock_internal :: "rmutex_t \<Rightarrow> bool \<Rightarrow> kernel \<Rightarrow> (c_fault + (int option \<times> rmutex_t \<times> kernel)) option" where
  "rmutex_lock_internal rm trylock k =
     obind (mutex_trylock (rm_mutex rm) k) (\<lambda>(got, k).
       if \<not> got \<and> rm_owner rm \<noteq> sched_active_pid k then
         if trylock then Some (Inr (Some 0, rm, k))
         else obind (mutex_lock_internal (rm_mutex rm) True k) (\<lambda>(_, k'). Some (Inr (None, rm, k')))
       else Some (Inr (Some 1, rmutex_acquired rm k, k)))"

definition rmutex_lock :: "rmutex_t \<Rightarrow> kernel \<Rightarrow> (c_fault + (int option \<times> rmutex_t \<times> kernel)) option" where
  "rmutex_lock rm k = rmutex_lock_internal rm False k"

definition rmutex_trylock :: "rmutex_t \<Rightarrow> kernel \<Rightarrow> (c_fault + (int option \<times> rmutex_t \<times> kernel)) option" where
  "rmutex_trylock rm k = rmutex_lock_internal rm True k"

definition rmutex_unlock :: "rmutex_t \<Rightarrow> kernel \<Rightarrow> c_fault + (rmutex_t \<times> kernel)" where
  "rmutex_unlock rm k =
     (if rm_owner rm \<noteq> sched_active_pid k then Inl AssertFail
      else if \<not> refcount rm > 0 then Inl AssertFail
      else
        let rm = rm\<lparr>refcount := refcount rm - 1\<rparr>
        in if refcount rm = 0 then
             let rm = rm\<lparr>rm_owner := KERNEL_PID_UNDEF\<rparr>
             in ebind (mutex_unlock (rm_mutex rm) k) (\<lambda>k. Inr (rm, k))
           else Inr (rm, k))"

section \<open>Condition variables\<close>

definition THREAD_PRIORITY_MIN :: u16 where [c_const]: "THREAD_PRIORITY_MIN = of_nat (SCHED_PRIO_LEVELS - 1)"

definition cond_init :: "u32 \<Rightarrow> kernel \<Rightarrow> kernel" where
  "cond_init cond k = k\<lparr>links := (links k)(Queue cond := None)\<rparr>"

text \<open>\<open>cond_wait\<close> up to the point where the thread sleeps; it then continues with \<open>mutex_lock\<close>.\<close>

definition cond_wait :: "u32 \<Rightarrow> u32 \<Rightarrow> kernel \<Rightarrow> (c_fault + kernel) option" where
  "cond_wait cond mutex k =
     (case sched_active_thread k of
        None \<Rightarrow> Some (Inl NullDeref)
      | Some me \<Rightarrow>
          obind (Some (mutex_unlock mutex k)) (\<lambda>k.
          obind (Some (sched_set_status me STATUS_COND_BLOCKED k)) (\<lambda>k.
          obind (thread_add_to_list (Queue cond) me k) (\<lambda>k.
          Some (Inr (thread_yield_higher k))))))"

partial_function (option) cond_signal_loop :: "u32 \<Rightarrow> bool \<Rightarrow> u16 \<Rightarrow> kernel \<Rightarrow> (c_fault + (u16 \<times> kernel)) option" where
  "cond_signal_loop cond broadcast min_prio k =
     (case list_remove_head (links k) (Queue cond) of (nxt, h) \<Rightarrow>
        (case nxt of
           None \<Rightarrow> Some (Inr (min_prio, k))
         | Some n \<Rightarrow>
             (case container_of_rq_entry n of
                None \<Rightarrow> Some (Inl NullDeref)
              | Some process \<Rightarrow>
                  (case sched_set_status process STATUS_PENDING (k\<lparr>links := h\<rparr>) of
                     Inl e \<Rightarrow> Some (Inl e)
                   | Inr k \<Rightarrow>
                       let process_priority = ucast (priority (tcbs k process));
                           min_prio = (if process_priority < min_prio then process_priority else min_prio)
                       in if \<not> broadcast then Some (Inr (min_prio, k))
                          else cond_signal_loop cond broadcast min_prio k))))"

definition cond_signal_internal :: "u32 \<Rightarrow> bool \<Rightarrow> kernel \<Rightarrow> (c_fault + kernel) option" where
  "cond_signal_internal cond broadcast k =
     obind (cond_signal_loop cond broadcast (THREAD_PRIORITY_MIN + 1) k) (\<lambda>(min_prio, k).
       if min_prio \<le> THREAD_PRIORITY_MIN then Some (sched_switch min_prio k) else Some (Inr k))"

definition cond_signal :: "u32 \<Rightarrow> kernel \<Rightarrow> (c_fault + kernel) option" where
  "cond_signal cond k = cond_signal_internal cond False k"

definition cond_broadcast :: "u32 \<Rightarrow> kernel \<Rightarrow> (c_fault + kernel) option" where
  "cond_broadcast cond k = cond_signal_internal cond True k"

section \<open>What the operations do to the queues\<close>

text \<open>\<open>Some ws\<close>: the mutex is locked and \<open>ws\<close> wait for it, the first one to be served next.\<close>

definition mutex_abs :: "kernel \<Rightarrow> (list_node \<Rightarrow> tcb list) \<Rightarrow> u32 \<Rightarrow> tcb list option" where
  "mutex_abs k qs mutex = (if links k (Queue mutex) = None then None else Some (qs (Queue mutex)))"

lemma wait_head_Queue [simp]: "wait_head (Queue a)" "wait_head (Msg_waiters t)"
  by (simp_all add: wait_head_def)

lemma runq_neq_Queue [simp]: "runq k t \<noteq> Queue a" "Queue a \<noteq> runq k t"
  "runq k t \<noteq> Msg_waiters u" "Msg_waiters u \<noteq> runq k t"
  by (simp_all add: runq_def)

lemma mutex_lock_free:
  assumes "kernel_inv k qs" "mutex_abs k qs a = None"
  shows "mutex_lock_internal a b k = Some (Inr (True, k\<lparr>links := (links k)(Queue a := MUTEX_LOCKED)\<rparr>))"
    "kernel_inv (k\<lparr>links := (links k)(Queue a := MUTEX_LOCKED)\<rparr>) qs"
    "mutex_abs (k\<lparr>links := (links k)(Queue a := MUTEX_LOCKED)\<rparr>) qs a = Some []"
proof -
  have n: "links k (Queue a) = None" using assms(2) by (simp add: mutex_abs_def split: if_splits)
  have e: "qs (Queue a) = []" by (rule inv_head_None [OF assms(1)]) (simp_all add: n)
  show "mutex_lock_internal a b k = Some (Inr (True, k\<lparr>links := (links k)(Queue a := MUTEX_LOCKED)\<rparr>))"
    by (simp add: mutex_lock_internal_def n)
  show "kernel_inv (k\<lparr>links := (links k)(Queue a := MUTEX_LOCKED)\<rparr>) qs"
    by (rule kernel_inv_set_head [OF assms(1)]) (simp_all add: e)
  show "mutex_abs (k\<lparr>links := (links k)(Queue a := MUTEX_LOCKED)\<rparr>) qs a = Some []"
    by (simp add: mutex_abs_def e)
qed

lemma mutex_block_ok:
  assumes inv: "kernel_inv k qs" and act: "sched_active_thread k = Some me" "qs (runq k me) = me # ts"
    and lock: "mutex_abs k qs a = Some ws"
  obtains k' where "mutex_block a k = Some (Inr k')"
    "kernel_inv k' (qs(runq k me := ts, Queue a := insert_waiter k me ws))"
    "mutex_abs k' (qs(runq k me := ts, Queue a := insert_waiter k me ws)) a = Some (insert_waiter k me ws)"
    "pendsv k'" "sched_active_thread k' = Some me" "in_irq k' = in_irq k"
    "tcbs k' = (tcbs k)(me := (tcbs k me)\<lparr>status := STATUS_MUTEX_BLOCKED\<rparr>)"
    "\<And>q. wait_head q \<Longrightarrow> q \<noteq> Queue a \<Longrightarrow> links k' q = links k q" "sched_threads k' = sched_threads k"
proof -
  let ?q = "qs(runq k me := ts)"
  have ws: "qs (Queue a) = ws" "links k (Queue a) \<noteq> None" using lock by (auto simp: mutex_abs_def split: if_splits)
  have lt: "STATUS_MUTEX_BLOCKED < STATUS_ON_RUNQUEUE" by (simp add: less_thread_status_t_def)
  from set_status_block [OF inv lt act(2)] obtain k1 where k1:
    "sched_set_status me STATUS_MUTEX_BLOCKED k = Inr k1" "kernel_inv k1 ?q" "same_env k k1"
    "tcbs k1 = (tcbs k)(me := (tcbs k me)\<lparr>status := STATUS_MUTEX_BLOCKED\<rparr>)" "same_heads k k1" by blast
  have h: "links k1 q = links k q" if "wait_head q" for q using k1(5) that by (simp add: same_heads_def)
  have t: "me \<notin> set (?q q)" for q
    using queues_at_unique [OF inv_queues [OF inv], of me "runq k me" q] act(2)
      queues_at_distinct [OF inv_queues [OF inv], of "runq k me"] by auto
  have w1: "?q (Queue a) = ws" using ws by simp
  have "priority (tcbs k1 u) = priority (tcbs k u)" for u by (simp add: k1(4))
  then have ins: "insert_waiter k1 me ws = insert_waiter k me ws" by (simp only: insert_waiter_def)
  show thesis
  proof (cases "links k (Queue a) = MUTEX_LOCKED")
    case True
    let ?k = "k1\<lparr>links := (links k1)(Queue a := Some (Rq_entry me), Rq_entry me := None)\<rparr>"
    have e: "ws = []" using inv_head_None [OF inv, of "Queue a"] True ws by simp
    have "queues_at (links ?k) (?q(Queue a := [me]))"
    proof (rule queues_at_update [OF inv_queues [OF k1(2)], where T = "{me}"])
      show "queue_at (links ?k) (Queue a) [me]" by (simp add: list_at_Cons)
    qed (use t in auto)
    then have "kernel_inv ?k (?q(Queue a := [me]))"
      by (intro kernel_inv_wait_update [OF k1(2)]) simp_all
    moreover have "mutex_block a k = Some (Inr (thread_yield_higher ?k))"
      using act(1) k1(1) True h [of "Queue a"] by (simp add: mutex_block_def)
    ultimately show thesis
    proof (intro that [of "thread_yield_higher ?k"])
      show "links (thread_yield_higher ?k) q = links k q" if "wait_head q" "q \<noteq> Queue a" for q
        using h [OF that(1)] that wait_head_neq(1) [OF that(1)] by (simp add: thread_yield_higher_def)
    qed (use k1(3,4) e act(1) in \<open>simp_all add: thread_yield_higher_def mutex_abs_def insert_waiter_def same_env_def\<close>)
  next
    case False
    from thread_add_to_list_ok [OF k1(2), of "Queue a" me] t h [of "Queue a"] False
    obtain k2 where k2: "thread_add_to_list (Queue a) me k1 = Some (Inr k2)"
      "kernel_inv k2 (?q(Queue a := insert_waiter k1 me (?q (Queue a))))" "same_env k1 k2" "tcbs k2 = tcbs k1"
      "\<And>q'. wait_head q' \<Longrightarrow> q' \<noteq> Queue a \<Longrightarrow> links k2 q' = links k1 q'"
      "list_at (links k2) (Queue a) (map Rq_entry (insert_waiter k1 me (?q (Queue a))))"
      by auto
    obtain x xs where "insert_waiter k1 me (?q (Queue a)) = x # xs"
      by (cases "insert_waiter k1 me (?q (Queue a))") (simp_all add: insert_waiter_def)
    with k2(6) have "links k2 (Queue a) \<noteq> None" by (simp add: list_at_Cons)
    moreover have "mutex_block a k = Some (Inr (thread_yield_higher k2))"
      using act(1) k1(1) False h [of "Queue a"] k2(1) by (simp add: mutex_block_def)
    ultimately show thesis
    proof (intro that [of "thread_yield_higher k2"])
      show "links (thread_yield_higher k2) q = links k q" if "wait_head q" "q \<noteq> Queue a" for q
        using h [OF that(1)] k2(5) [OF that] by (simp add: thread_yield_higher_def)
    qed (use k1(3,4) k2(2-4) w1 ins act(1) in \<open>simp_all add: thread_yield_higher_def mutex_abs_def same_env_def\<close>)
  qed
qed

lemma wake_first_ok:
  assumes inv: "kernel_inv k qs" and lock: "mutex_abs k qs a = Some (w # ws)"
  obtains k' where "wake_first a k = Inr (w, k')"
    "kernel_inv k' (qs(Queue a := ws, runq k w := qs (runq k w) @ [w]))"
    "mutex_abs k' (qs(Queue a := ws, runq k w := qs (runq k w) @ [w])) a = Some ws"
    "same_env k k'" "tcbs k' = (tcbs k)(w := (tcbs k w)\<lparr>status := STATUS_PENDING\<rparr>)"
    "\<And>q. wait_head q \<Longrightarrow> q \<noteq> Queue a \<Longrightarrow> links k' q = links k q"
proof -
  have ws: "qs (Queue a) = w # ws" using lock by (auto simp: mutex_abs_def split: if_splits)
  from list_remove_head_ok [OF inv _ ws] obtain h where h:
    "list_remove_head (links k) (Queue a) = (Some (Rq_entry w), h)"
    "kernel_inv (k\<lparr>links := h\<rparr>) (qs(Queue a := ws))" "list_at h (Queue a) (map Rq_entry ws)"
    "\<And>q'. q' \<noteq> Queue a \<Longrightarrow> h q' = links k q'" by auto
  have t: "w \<notin> set ((qs(Queue a := ws)) q)" for q
    using queues_at_unique [OF inv_queues [OF inv], of w "Queue a" q] ws
      queues_at_distinct [OF inv_queues [OF inv], of "Queue a"] by auto
  have ge: "STATUS_ON_RUNQUEUE \<le> STATUS_PENDING" by (simp add: less_eq_thread_status_t_def)
  have r: "runq (k\<lparr>links := h\<rparr>) w = runq k w" "tcbs (k\<lparr>links := h\<rparr>) = tcbs k"
    "(qs(Queue a := ws)) (runq k w) = qs (runq k w)" by (simp_all add: runq_def)
  from set_status_wake [OF h(2) ge t, unfolded r] obtain k1 where k1:
    "sched_set_status w STATUS_PENDING (k\<lparr>links := h\<rparr>) = Inr k1"
    "kernel_inv k1 ((qs(Queue a := ws))(runq k w := qs (runq k w) @ [w]))" "same_env (k\<lparr>links := h\<rparr>) k1"
    "tcbs k1 = (tcbs k)(w := (tcbs k w)\<lparr>status := STATUS_PENDING\<rparr>)" "same_heads (k\<lparr>links := h\<rparr>) k1"
    by blast
  let ?qs = "qs(Queue a := ws, runq k w := qs (runq k w) @ [w])"
  let ?k = "if links k1 (Queue a) = None then k1\<lparr>links := (links k1)(Queue a := MUTEX_LOCKED)\<rparr> else k1"
  have hd: "links k1 q = h q" if "wait_head q" for q using k1(5) that by (simp add: same_heads_def)
  have none: "ws = []" if "links k1 (Queue a) = None"
    using inv_head_None [OF k1(2), of "Queue a"] that by simp
  have "wake_first a k = Inr (w, ?k)" using h(1) k1(1) by (simp add: wake_first_def)
  moreover have "kernel_inv ?k ?qs"
    using k1(2) none kernel_inv_set_head [OF k1(2), of "Queue a" MUTEX_LOCKED] by simp
  moreover have "mutex_abs ?k ?qs a = Some ws" by (simp add: mutex_abs_def)
  moreover have "same_env k ?k" using k1(3) by (simp add: same_env_def)
  moreover have "links ?k q = links k q" if "wait_head q" "q \<noteq> Queue a" for q
    using hd [OF that(1)] h(4) [OF that(2)] that(2) by simp
  ultimately show thesis using that [of ?k] k1(4) by simp
qed

end
