(* ===== verification/Core_Msg.thy ===== *)
theory Core_Msg
  imports Core_Mutex
begin

text \<open>
  Thread flags (\<open>core/thread_flags.c\<close>) and messages (\<open>core/msg.c\<close>).  Message objects are identified by
  their address; an array of messages has its elements eight bytes apart.  A call that blocks ends
  with the calling thread off the run queue and the scheduler requested.  Where the value it returns after
  waking up depends on the state then, the code after the wake-up is a definition of its own.
\<close>

unbundle bit_operations_syntax

section \<open>Thread flags\<close>

definition THREAD_FLAG_MSG_WAITING :: u16 where [c_const]: "THREAD_FLAG_MSG_WAITING = push_bit 15 1"

definition thread_flags_wake :: "tcb \<Rightarrow> kernel \<Rightarrow> c_fault + (u32 \<times> kernel)" where
  "thread_flags_wake t k =
     (let th = tcbs k t;
          fmask = ucast (wait_data th) :: u16;
          wakeup =
            (case status th of
               STATUS_FLAG_BLOCKED_ANY \<Rightarrow> ucast (tflags th AND fmask)
             | STATUS_FLAG_BLOCKED_ALL \<Rightarrow> c_bool (tflags th AND fmask = fmask)
             | _ \<Rightarrow> 0)
      in if wakeup \<noteq> 0 then
           ebind (sched_set_status t STATUS_PENDING k) (\<lambda>k.
             Inr (wakeup, k\<lparr>sched_context_switch_request := True\<rparr>))
         else Inr (wakeup, k))"

definition thread_flags_clear_atomic :: "tcb \<Rightarrow> u16 \<Rightarrow> kernel \<Rightarrow> u16 \<times> kernel" where
  "thread_flags_clear_atomic t fmask k =
     (let fmask = fmask AND tflags (tcbs k t)
      in (fmask, upd_tcb t (tflags_update (\<lambda>f. f AND NOT fmask)) k))"

definition thread_flags_wait :: "u16 \<Rightarrow> tcb \<Rightarrow> thread_status_t \<Rightarrow> kernel \<Rightarrow> c_fault + kernel" where
  "thread_flags_wait fmask t threadstate k =
     ebind (sched_set_status t threadstate (upd_tcb t (wait_data_update (\<lambda>_. ucast fmask)) k)) (\<lambda>k.
       Inr (thread_yield_higher k))"

definition thread_flags_clear :: "u16 \<Rightarrow> kernel \<Rightarrow> c_fault + (u16 \<times> kernel)" where
  "thread_flags_clear fmask k =
     deref (sched_active_thread k) (\<lambda>me. Inr (thread_flags_clear_atomic me fmask k))"

text \<open>The first component tells whether the thread blocks.\<close>

definition thread_flags_wait_any_internal :: "u16 \<Rightarrow> kernel \<Rightarrow> c_fault + (bool \<times> kernel)" where
  "thread_flags_wait_any_internal fmask k =
     deref (sched_active_thread k) (\<lambda>me.
       if tflags (tcbs k me) AND fmask = 0 then
         ebind (thread_flags_wait fmask me STATUS_FLAG_BLOCKED_ANY k) (\<lambda>k. Inr (True, k))
       else Inr (False, k))"

text \<open>What remains to be done once the thread runs again: \<open>wait_any\<close> and \<open>wait_all\<close>, and \<open>wait_one\<close>.\<close>

definition thread_flags_wait_one_rest :: "tcb \<Rightarrow> u16 \<Rightarrow> kernel \<Rightarrow> u16 \<times> kernel" where
  "thread_flags_wait_one_rest me fmask k =
     (let tmp = tflags (tcbs k me) AND fmask;
          tmp = tmp AND (NOT tmp + 1)
      in thread_flags_clear_atomic me tmp k)"

text \<open>\<open>None\<close> in the result: the thread blocks, and the rest runs when it is scheduled again.\<close>

definition thread_flags_wait_any :: "u16 \<Rightarrow> kernel \<Rightarrow> c_fault + (u16 option \<times> kernel)" where
  "thread_flags_wait_any fmask k =
     deref (sched_active_thread k) (\<lambda>me.
       ebind (thread_flags_wait_any_internal fmask k) (\<lambda>(blocked, k).
         if blocked then Inr (None, k)
         else case thread_flags_clear_atomic me fmask k of (r, k) \<Rightarrow> Inr (Some r, k)))"

definition thread_flags_wait_one :: "u16 \<Rightarrow> kernel \<Rightarrow> c_fault + (u16 option \<times> kernel)" where
  "thread_flags_wait_one fmask k =
     ebind (thread_flags_wait_any_internal fmask k) (\<lambda>(blocked, k).
       if blocked then Inr (None, k)
       else deref (sched_active_thread k) (\<lambda>me.
         case thread_flags_wait_one_rest me fmask k of (r, k) \<Rightarrow> Inr (Some r, k)))"

definition thread_flags_wait_all :: "u16 \<Rightarrow> kernel \<Rightarrow> c_fault + (u16 option \<times> kernel)" where
  "thread_flags_wait_all fmask k =
     deref (sched_active_thread k) (\<lambda>me.
       if \<not> (tflags (tcbs k me) AND fmask = fmask) then
         ebind (thread_flags_wait fmask me STATUS_FLAG_BLOCKED_ALL k) (\<lambda>k. Inr (None, k))
       else case thread_flags_clear_atomic me fmask k of (r, k) \<Rightarrow> Inr (Some r, k))"

definition thread_flags_set :: "tcb \<Rightarrow> u16 \<Rightarrow> kernel \<Rightarrow> c_fault + kernel" where
  "thread_flags_set t fmask k =
     ebind (thread_flags_wake t (upd_tcb t (tflags_update (\<lambda>f. f OR fmask)) k)) (\<lambda>(wakeup, k).
       Inr (if wakeup \<noteq> 0 then thread_yield_higher k else k))"

section \<open>Sending messages\<close>

definition KERNEL_PID_ISR :: int where [c_const]: "KERNEL_PID_ISR = KERNEL_PID_LAST + 1"
definition THREAD_PRIORITY_IDLE :: u16 where [c_const]: "THREAD_PRIORITY_IDLE = THREAD_PRIORITY_MIN"

text \<open>The address of an element of an array of messages.\<close>

definition msg_slot :: "u32 \<Rightarrow> int \<Rightarrow> u32" where
  "msg_slot base n = base + 8 * word_of_int n"

definition queue_msg :: "tcb \<Rightarrow> u32 \<Rightarrow> kernel \<Rightarrow> c_fault + (int \<times> kernel)" where
  "queue_msg target m k =
     (case cib_put (msg_queue (tcbs k target)) of (n, cib) \<Rightarrow>
        let k = upd_tcb target (msg_queue_update (\<lambda>_. cib)) k
        in if n < 0 then Inr (0, k)
           else
             let dest = msg_slot (msg_array (tcbs k target)) n;
                 k = k\<lparr>msgs := (msgs k)(dest := msgs k m)\<rparr>;
                 k = upd_tcb target (tflags_update (\<lambda>f. f OR THREAD_FLAG_MSG_WAITING)) k
             in ebind (thread_flags_wake target k) (\<lambda>(_, k). Inr (1, k)))"

definition set_sender_pid :: "u32 \<Rightarrow> int \<Rightarrow> kernel \<Rightarrow> kernel" where
  "set_sender_pid m p k = k\<lparr>msgs := (msgs k)(m := (msgs k m)\<lparr>sender_pid := p\<rparr>)\<rparr>"

text \<open>The branch of \<open>_msg_send\<close> in which the sender waits for the receiver.\<close>

definition msg_send_block :: "u32 \<Rightarrow> tcb \<Rightarrow> tcb \<Rightarrow> kernel \<Rightarrow> (c_fault + (int \<times> kernel)) option" where
  "msg_send_block m target me k =
     (let k = upd_tcb me (wait_data_update (\<lambda>_. m)) k;
          newstatus = (if status (tcbs k me) = STATUS_REPLY_BLOCKED then STATUS_REPLY_BLOCKED
                       else STATUS_SEND_BLOCKED)
      in obind (Some (sched_set_status me newstatus k)) (\<lambda>k.
         obind (thread_add_to_list (Msg_waiters target) me k) (\<lambda>k.
         let k = upd_tcb target (tflags_update (\<lambda>f. f OR THREAD_FLAG_MSG_WAITING)) k
         in obind (Some (thread_flags_wake target k)) (\<lambda>(_, k).
            Some (Inr (1, thread_yield_higher k))))))"

definition msg_copy_to_waiting :: "u32 \<Rightarrow> tcb \<Rightarrow> kernel \<Rightarrow> c_fault + kernel" where
  "msg_copy_to_waiting m target k =
     (let target_message = wait_data (tcbs k target);
          k = k\<lparr>msgs := (msgs k)(target_message := msgs k m)\<rparr>
      in sched_set_status target STATUS_PENDING k)"

definition msg_send_internal :: "u32 \<Rightarrow> int \<Rightarrow> bool \<Rightarrow> kernel \<Rightarrow> (c_fault + (int \<times> kernel)) option" where
  "msg_send_internal m target_pid block k =
     (let k = set_sender_pid m (sched_active_pid k) k
      in case thread_get_unchecked k target_pid of
           Inl e \<Rightarrow> Some (Inl e)
         | Inr None \<Rightarrow> Some (Inr (-1, k))
         | Inr (Some target) \<Rightarrow>
             if status (tcbs k target) \<noteq> STATUS_RECEIVE_BLOCKED then
               obind (Some (queue_msg target m k)) (\<lambda>(queued, k).
                 if queued \<noteq> 0 then
                   Some (deref (sched_active_thread k) (\<lambda>me.
                     Inr (1, if status (tcbs k me) = STATUS_REPLY_BLOCKED \<or> sched_context_switch_request k
                             then thread_yield_higher k else k)))
                 else if \<not> block then Some (Inr (0, k))
                 else case sched_active_thread k of
                        None \<Rightarrow> Some (Inl NullDeref)
                      | Some me \<Rightarrow> msg_send_block m target me k)
             else
               obind (Some (msg_copy_to_waiting m target k)) (\<lambda>k.
                 Some (Inr (1, thread_yield_higher k))))"

definition msg_send_to_self :: "u32 \<Rightarrow> kernel \<Rightarrow> c_fault + (int \<times> kernel)" where
  "msg_send_to_self m k =
     (let k = set_sender_pid m (sched_active_pid k) k
      in deref (sched_active_thread k) (\<lambda>me. queue_msg me m k))"

definition msg_send_oneway :: "u32 \<Rightarrow> int \<Rightarrow> kernel \<Rightarrow> c_fault + (int \<times> kernel)" where
  "msg_send_oneway m target_pid k =
     (case thread_get_unchecked k target_pid of
        Inl e \<Rightarrow> Inl e
      | Inr None \<Rightarrow> Inr (-1, k)
      | Inr (Some target) \<Rightarrow>
          if status (tcbs k target) = STATUS_RECEIVE_BLOCKED then
            ebind (msg_copy_to_waiting m target k) (\<lambda>k.
              Inr (1, k\<lparr>sched_context_switch_request := True\<rparr>))
          else queue_msg target m k)"

definition msg_send_int :: "u32 \<Rightarrow> int \<Rightarrow> kernel \<Rightarrow> c_fault + (int \<times> kernel)" where
  "msg_send_int m target_pid k = msg_send_oneway m target_pid (set_sender_pid m KERNEL_PID_ISR k)"

definition msg_send :: "u32 \<Rightarrow> int \<Rightarrow> kernel \<Rightarrow> (c_fault + (int \<times> kernel)) option" where
  "msg_send m target_pid k =
     (if in_irq k then Some (msg_send_int m target_pid k)
      else if sched_active_pid k = target_pid then Some (msg_send_to_self m k)
      else msg_send_internal m target_pid True k)"

definition msg_try_send :: "u32 \<Rightarrow> int \<Rightarrow> kernel \<Rightarrow> (c_fault + (int \<times> kernel)) option" where
  "msg_try_send m target_pid k =
     (if in_irq k then Some (msg_send_int m target_pid k)
      else if sched_active_pid k = target_pid then Some (msg_send_to_self m k)
      else msg_send_internal m target_pid False k)"

definition msg_sent_by_int :: "msg_t \<Rightarrow> bool" where
  "msg_sent_by_int m \<longleftrightarrow> sender_pid m = KERNEL_PID_ISR"

definition msg_send_receive :: "u32 \<Rightarrow> u32 \<Rightarrow> int \<Rightarrow> kernel \<Rightarrow> (c_fault + (int \<times> kernel)) option" where
  "msg_send_receive m reply target_pid k =
     (if \<not> sched_active_pid k \<noteq> target_pid then Some (Inl AssertFail)
      else case sched_active_thread k of
        None \<Rightarrow> Some (Inl NullDeref)
      | Some me \<Rightarrow>
          obind (Some (sched_set_status me STATUS_REPLY_BLOCKED k)) (\<lambda>k.
            let k = upd_tcb me (wait_data_update (\<lambda>_. reply)) k;
                k = k\<lparr>msgs := (msgs k)(reply := msgs k m)\<rparr>
            in msg_send_internal reply target_pid True k))"

definition msg_reply :: "u32 \<Rightarrow> u32 \<Rightarrow> kernel \<Rightarrow> c_fault + (int \<times> kernel)" where
  "msg_reply m reply k =
     (case thread_get_unchecked k (sender_pid (msgs k m)) of
        Inl e \<Rightarrow> Inl e
      | Inr None \<Rightarrow> Inl AssertFail
      | Inr (Some target) \<Rightarrow>
          if status (tcbs k target) \<noteq> STATUS_REPLY_BLOCKED then Inr (-1, k)
          else
            ebind (msg_copy_to_waiting reply target k) (\<lambda>k.
            ebind (sched_switch (ucast (priority (tcbs k target))) k) (\<lambda>k. Inr (1, k))))"

definition msg_reply_int :: "u32 \<Rightarrow> u32 \<Rightarrow> kernel \<Rightarrow> c_fault + (int \<times> kernel)" where
  "msg_reply_int m reply k =
     ebind (thread_get_unchecked k (sender_pid (msgs k m))) (\<lambda>p. deref p (\<lambda>target.
       if status (tcbs k target) \<noteq> STATUS_REPLY_BLOCKED then Inr (-1, k)
       else ebind (msg_copy_to_waiting reply target k) (\<lambda>k.
         Inr (1, k\<lparr>sched_context_switch_request := True\<rparr>))))"

section \<open>Receiving messages\<close>

text \<open>The branch in which a sender waits: its message goes to \<open>m\<close>, or to the queue slot just freed.\<close>

definition msg_take_from_sender :: "u32 \<Rightarrow> tcb \<Rightarrow> tcb \<Rightarrow> int \<Rightarrow> kernel \<Rightarrow> c_fault + (int \<times> kernel)" where
  "msg_take_from_sender m me sender queue_index k =
     (let (m, k) =
            (if queue_index \<ge> 0 then
               case cib_put (msg_queue (tcbs k me)) of (n, cib) \<Rightarrow>
                 (msg_slot (msg_array (tcbs k me)) n, upd_tcb me (msg_queue_update (\<lambda>_. cib)) k)
             else (m, k));
          sender_msg = wait_data (tcbs k sender);
          k = k\<lparr>msgs := (msgs k)(m := msgs k sender_msg)\<rparr>
      in if status (tcbs k sender) \<noteq> STATUS_REPLY_BLOCKED then
           ebind (sched_set_status sender STATUS_PENDING (upd_tcb sender (wait_data_update (\<lambda>_. 0)) k)) (\<lambda>k.
             let sender_prio = ucast (priority (tcbs k sender))
             in if sender_prio < THREAD_PRIORITY_IDLE
                then ebind (sched_switch sender_prio k) (\<lambda>k. Inr (1, k))
                else Inr (1, k))
         else Inr (1, k))"

definition msg_receive_internal :: "u32 \<Rightarrow> bool \<Rightarrow> kernel \<Rightarrow> c_fault + (int \<times> kernel)" where
  "msg_receive_internal m block k =
     deref (sched_active_thread k) (\<lambda>me.
       let (queue_index, k) =
             (if thread_has_msg_queue (tcbs k me) then
                case cib_get (msg_queue (tcbs k me)) of (n, cib) \<Rightarrow> (n, upd_tcb me (msg_queue_update (\<lambda>_. cib)) k)
              else (-1, k))
       in if \<not> block \<and> links k (Msg_waiters me) = None \<and> queue_index = -1 then Inr (-1, k)
          else
            let k = (if queue_index \<ge> 0
                     then k\<lparr>msgs := (msgs k)(m := msgs k (msg_slot (msg_array (tcbs k me)) queue_index))\<rparr>
                     else upd_tcb me (wait_data_update (\<lambda>_. m)) k)
            in (case list_remove_head (links k) (Msg_waiters me) of (nxt, h) \<Rightarrow>
                  let k = k\<lparr>links := h\<rparr>
                  in (case nxt of
                        None \<Rightarrow>
                          if queue_index < 0 then
                            ebind (sched_set_status me STATUS_RECEIVE_BLOCKED k) (\<lambda>k.
                              Inr (1, thread_yield_higher k))
                          else Inr (1, k)
                      | Some n \<Rightarrow>
                          deref (container_of_rq_entry n) (\<lambda>sender.
                            msg_take_from_sender m me sender queue_index k))))"

text \<open>The assertion after the wake-up of a receiver that blocked.\<close>

definition msg_receive_rest :: "kernel \<Rightarrow> c_fault + int" where
  "msg_receive_rest k =
     deref (sched_active_thread k) (\<lambda>me.
       if status (tcbs k me) \<noteq> STATUS_RECEIVE_BLOCKED then Inr 1 else Inl AssertFail)"

definition msg_try_receive :: "u32 \<Rightarrow> kernel \<Rightarrow> c_fault + (int \<times> kernel)" where
  "msg_try_receive m k = msg_receive_internal m False k"

definition msg_receive :: "u32 \<Rightarrow> kernel \<Rightarrow> c_fault + (int \<times> kernel)" where
  "msg_receive m k = msg_receive_internal m True k"

definition msg_avail_of :: "thread_t \<Rightarrow> u32" where
  "msg_avail_of th = (if thread_has_msg_queue th then cib_avail (msg_queue th) else 0)"

definition msg_avail_thread :: "int \<Rightarrow> kernel \<Rightarrow> c_fault + u32" where
  "msg_avail_thread p k = deref (thread_get k p) (\<lambda>t. Inr (msg_avail_of (tcbs k t)))"

definition msg_avail :: "kernel \<Rightarrow> c_fault + u32" where
  "msg_avail k = deref (sched_active_thread k) (\<lambda>me. Inr (msg_avail_of (tcbs k me)))"

definition msg_queue_capacity :: "int \<Rightarrow> kernel \<Rightarrow> c_fault + u32" where
  "msg_queue_capacity p k =
     deref (thread_get k p) (\<lambda>t.
       Inr (if thread_has_msg_queue (tcbs k t) then cib_size (msg_queue (tcbs k t)) else 0))"

definition msg_init_queue :: "u32 \<Rightarrow> int \<Rightarrow> kernel \<Rightarrow> c_fault + kernel" where
  "msg_init_queue array num k =
     deref (sched_active_thread k) (\<lambda>me.
       case cib_init (word_of_int num) of
         None \<Rightarrow> Inl AssertFail
       | Some cib \<Rightarrow> Inr (upd_tcb me (\<lambda>th. th\<lparr>msg_array := array, msg_queue := cib\<rparr>) k))"

text \<open>The messages \<open>msg_queue_print\<close> prints, in order; \<open>None\<close> when it reports that there are none.\<close>

definition msg_queue_print :: "kernel \<Rightarrow> c_fault + msg_t list option" where
  "msg_queue_print k =
     deref (sched_active_thread k) (\<lambda>me.
       ebind (msg_avail k) (\<lambda>msg_counter.
         let th = tcbs k me; first_msg = cib_peek (msg_queue th)
         in if msg_counter < 1 then Inr None
            else Inr (Some (map (\<lambda>i. msgs k (msg_slot (msg_array th)
                   (uint ((word_of_int first_msg + of_nat i) AND cib_mask (msg_queue th))))) [0..<unat msg_counter]))))"

end
