(* ===== verification/Core_Mbox.thy ===== *)
theory Core_Mbox
  imports Core_Msg
begin

text \<open>
  Mailboxes (\<open>core/mbox.c\<close>, \<open>core/include/mbox.h\<close>), message buses (\<open>core/msg_bus.c\<close>,
  \<open>core/include/msg_bus.h\<close> and \<open>msg_send_bus\<close> of \<open>core/msg.c\<close>) and the priority queue of
  \<open>core/lib/priority_queue.c\<close>.  A mailbox is passed and returned as a record; its two waiting lists are
  heads in the kernel's store of links.  The subscriber lists of the buses and the nodes of a priority
  queue hold no threads and have a store of their own.
\<close>

unbundle bit_operations_syntax

section \<open>Mailboxes\<close>

record mbox_t =
  readers :: u32
  writers :: u32
  mb_cib :: cib_t
  mb_array :: u32

definition mbox_init :: "u32 \<Rightarrow> u32 \<Rightarrow> u32 \<Rightarrow> u32 \<Rightarrow> kernel \<Rightarrow> mbox_t \<times> kernel" where
  "mbox_init rd wr queue queue_size k =
     (\<lparr>readers = rd, writers = wr, mb_cib = CIB_INIT queue_size, mb_array = queue\<rparr>,
      k\<lparr>links := (links k)(Queue rd := None, Queue wr := None)\<rparr>)"

definition wake_waiter :: "tcb \<Rightarrow> kernel \<Rightarrow> c_fault + kernel" where
  "wake_waiter t k =
     ebind (sched_set_status t STATUS_PENDING k) (\<lambda>k. sched_switch (ucast (priority (tcbs k t))) k)"

definition mbox_wait :: "u32 \<Rightarrow> kernel \<Rightarrow> (c_fault + kernel) option" where
  "mbox_wait wait_list k =
     (case sched_active_thread k of
        None \<Rightarrow> Some (Inl NullDeref)
      | Some me \<Rightarrow>
          obind (Some (sched_set_status me STATUS_MBOX_BLOCKED k)) (\<lambda>k.
          obind (thread_add_to_list (Queue wait_list) me k) (\<lambda>k.
          Some (thread_yield k))))"

text \<open>
  The part of \<open>_mbox_put\<close> from its loop on.  The result is \<open>None\<close> when the thread waits for a free slot; it
  continues here again when it is woken up.
\<close>

definition mbox_put_loop :: "mbox_t \<Rightarrow> u32 \<Rightarrow> bool \<Rightarrow> kernel \<Rightarrow> (c_fault + (int option \<times> mbox_t \<times> kernel)) option" where
  "mbox_put_loop mbox msg blocking k =
     (if cib_full (mb_cib mbox) then
        if blocking then obind (mbox_wait (writers mbox) k) (\<lambda>k. Some (Inr (None, mbox, k)))
        else Some (Inr (Some 0, mbox, k))
      else
        let k = set_sender_pid msg (sched_active_pid k) k
        in case cib_put_unsafe (mb_cib mbox) of (n, cib) \<Rightarrow>
             Some (Inr (Some 1, mbox\<lparr>mb_cib := cib\<rparr>,
               k\<lparr>msgs := (msgs k)(msg_slot (mb_array mbox) n := msgs k msg)\<rparr>)))"

definition mbox_put_internal :: "mbox_t \<Rightarrow> u32 \<Rightarrow> bool \<Rightarrow> kernel \<Rightarrow> (c_fault + (int option \<times> mbox_t \<times> kernel)) option" where
  "mbox_put_internal mbox msg blocking k =
     (case list_remove_head (links k) (Queue (readers mbox)) of
        (Some n, h) \<Rightarrow>
          (case container_of_rq_entry n of
             None \<Rightarrow> Some (Inl NullDeref)
           | Some t \<Rightarrow>
               let k = k\<lparr>links := h, msgs := (msgs k)(wait_data (tcbs k t) := msgs k msg)\<rparr>
               in obind (Some (wake_waiter t k)) (\<lambda>k. Some (Inr (Some 1, mbox, k))))
      | (None, h) \<Rightarrow> mbox_put_loop mbox msg blocking (k\<lparr>links := h\<rparr>))"

text \<open>A reader that waits (\<open>None\<close>) returns 1 when it is woken up: the writer has copied the message.\<close>

definition mbox_get_internal :: "mbox_t \<Rightarrow> u32 \<Rightarrow> bool \<Rightarrow> kernel \<Rightarrow> (c_fault + (int option \<times> mbox_t \<times> kernel)) option" where
  "mbox_get_internal mbox msg blocking k =
     (if cib_avail (mb_cib mbox) \<noteq> 0 then
        case cib_get_unsafe (mb_cib mbox) of (n, cib) \<Rightarrow>
          let mbox = mbox\<lparr>mb_cib := cib\<rparr>;
              k = k\<lparr>msgs := (msgs k)(msg := msgs k (msg_slot (mb_array mbox) n))\<rparr>
          in (case list_remove_head (links k) (Queue (writers mbox)) of
                (Some nd, h) \<Rightarrow>
                  (case container_of_rq_entry nd of
                     None \<Rightarrow> Some (Inl NullDeref)
                   | Some t \<Rightarrow> obind (Some (wake_waiter t (k\<lparr>links := h\<rparr>))) (\<lambda>k. Some (Inr (Some 1, mbox, k))))
              | (None, h) \<Rightarrow> Some (Inr (Some 1, mbox, k\<lparr>links := h\<rparr>)))
      else if blocking then
        (case sched_active_thread k of
           None \<Rightarrow> Some (Inl NullDeref)
         | Some me \<Rightarrow>
             obind (mbox_wait (readers mbox) (upd_tcb me (wait_data_update (\<lambda>_. msg)) k)) (\<lambda>k.
               Some (Inr (None, mbox, k))))
      else Some (Inr (Some 0, mbox, k)))"

definition mbox_put :: "mbox_t \<Rightarrow> u32 \<Rightarrow> kernel \<Rightarrow> (c_fault + (int option \<times> mbox_t \<times> kernel)) option" where
  "mbox_put mbox msg k = mbox_put_internal mbox msg True k"

definition mbox_try_put :: "mbox_t \<Rightarrow> u32 \<Rightarrow> kernel \<Rightarrow> (c_fault + (int option \<times> mbox_t \<times> kernel)) option" where
  "mbox_try_put mbox msg k = mbox_put_internal mbox msg False k"

definition mbox_get :: "mbox_t \<Rightarrow> u32 \<Rightarrow> kernel \<Rightarrow> (c_fault + (int option \<times> mbox_t \<times> kernel)) option" where
  "mbox_get mbox msg k = mbox_get_internal mbox msg True k"

definition mbox_try_get :: "mbox_t \<Rightarrow> u32 \<Rightarrow> kernel \<Rightarrow> (c_fault + (int option \<times> mbox_t \<times> kernel)) option" where
  "mbox_try_get mbox msg k = mbox_get_internal mbox msg False k"

definition mbox_size :: "mbox_t \<Rightarrow> u32" where
  "mbox_size mbox = (if cib_mask (mb_cib mbox) \<noteq> 0 then cib_mask (mb_cib mbox) + 1 else 0)"

definition mbox_avail :: "mbox_t \<Rightarrow> u32" where
  "mbox_avail mbox = cib_avail (mb_cib mbox)"

section \<open>Message buses\<close>

record msg_bus_t =
  subs :: u32
  bus_id :: u16

record msg_bus_entry_t =
  event_mask :: u32
  entry_pid :: int

text \<open>The links between the list heads of the buses and the entries, and the entries, by address.\<close>

record buses =
  bus_links :: "u32 links"
  entries :: "u32 \<Rightarrow> msg_bus_entry_t"
  bus_count :: u16

definition MSB_BUS_PID_FLAG :: u32 where [c_const]: "MSB_BUS_PID_FLAG = push_bit (8 * 2 - 1) 1"

definition msg_bus_init :: "u32 \<Rightarrow> buses \<Rightarrow> msg_bus_t \<times> buses" where
  "msg_bus_init head b =
     (\<lparr>subs = head, bus_id = bus_count b\<rparr>,
      b\<lparr>bus_links := (bus_links b)(head := None), bus_count := bus_count b + 1\<rparr>)"

definition msg_bus_attach :: "msg_bus_t \<Rightarrow> u32 \<Rightarrow> kernel \<Rightarrow> buses \<Rightarrow> buses" where
  "msg_bus_attach bus entry k b =
     (let b = b\<lparr>bus_links := (bus_links b)(entry := None),
                entries := (entries b)(entry := \<lparr>event_mask = 0, entry_pid = sched_active_pid k\<rparr>)\<rparr>
      in b\<lparr>bus_links := list_add (bus_links b) (subs bus) entry\<rparr>)"

definition msg_bus_detach :: "msg_bus_t \<Rightarrow> u32 \<Rightarrow> buses \<Rightarrow> buses option" where
  "msg_bus_detach bus entry b =
     map_option (\<lambda>(_, h). b\<lparr>bus_links := h\<rparr>) (list_remove (bus_links b) (subs bus) entry)"

partial_function (option) get_entry_loop :: "kernel \<Rightarrow> buses \<Rightarrow> u32 option \<Rightarrow> u32 option option" where
  "get_entry_loop k b e =
     (case e of
        None \<Rightarrow> Some None
      | Some s \<Rightarrow> if entry_pid (entries b s) = sched_active_pid k then Some (Some s)
                  else get_entry_loop k b (bus_links b s))"

definition msg_bus_get_entry :: "msg_bus_t \<Rightarrow> kernel \<Rightarrow> buses \<Rightarrow> u32 option option" where
  "msg_bus_get_entry bus k b = get_entry_loop k b (bus_links b (subs bus))"

text \<open>\<open>None\<close> is the failed assertion that the type is below 32.\<close>

definition msg_bus_subscribe :: "u32 \<Rightarrow> u8 \<Rightarrow> buses \<Rightarrow> buses option" where
  "msg_bus_subscribe entry type b =
     (if \<not> type < 32 then None
      else Some (b\<lparr>entries := (entries b)(entry := (entries b entry)
             \<lparr>event_mask := event_mask (entries b entry) OR push_bit (unat type) 1\<rparr>)\<rparr>))"

definition msg_bus_unsubscribe :: "u32 \<Rightarrow> u8 \<Rightarrow> buses \<Rightarrow> buses option" where
  "msg_bus_unsubscribe entry type b =
     (if \<not> type < 32 then None
      else Some (b\<lparr>entries := (entries b)(entry := (entries b entry)
             \<lparr>event_mask := event_mask (entries b entry) AND NOT (push_bit (unat type) 1)\<rparr>)\<rparr>))"

text \<open>A process identifier as a 32-bit word, and the conversion of a word to \<open>kernel_pid_t\<close>.\<close>

definition pid_word :: "int \<Rightarrow> u32" where
  "pid_word p = word_of_int p"

definition to_kernel_pid :: "u32 \<Rightarrow> int" where
  "to_kernel_pid w = sint (ucast w :: u16)"

definition msg_bus_get_type :: "msg_t \<Rightarrow> u16" where
  "msg_bus_get_type msg =
     (if pid_word (sender_pid msg) AND MSB_BUS_PID_FLAG \<noteq> 0 then msg_type msg AND 0x1F else msg_type msg)"

definition msg_bus_get_sender_pid :: "msg_t \<Rightarrow> int" where
  "msg_bus_get_sender_pid msg = to_kernel_pid (pid_word (sender_pid msg) AND NOT MSB_BUS_PID_FLAG)"

definition msg_is_from_bus :: "msg_bus_t option \<Rightarrow> msg_t \<Rightarrow> bool" where
  "msg_is_from_bus bus msg =
     (case bus of
        Some b \<Rightarrow> bus_id b = drop_bit 5 (msg_type msg) \<and> pid_word (sender_pid msg) AND MSB_BUS_PID_FLAG \<noteq> 0
      | None \<Rightarrow> pid_word (sender_pid msg) AND MSB_BUS_PID_FLAG \<noteq> 0)"

partial_function (option) send_bus_loop ::
    "buses \<Rightarrow> u32 \<Rightarrow> u32 \<Rightarrow> u32 option \<Rightarrow> int \<Rightarrow> kernel \<Rightarrow> (c_fault + (int \<times> kernel)) option" where
  "send_bus_loop b m mask' e count k =
     (case e of
        None \<Rightarrow> Some (Inr (count, k))
      | Some s \<Rightarrow>
          if event_mask (entries b s) AND mask' = 0 then send_bus_loop b m mask' (bus_links b s) count k
          else
            (case msg_send_oneway m (entry_pid (entries b s)) k of
               Inl f \<Rightarrow> Some (Inl f)
             | Inr (r, k) \<Rightarrow>
                 send_bus_loop b m mask' (bus_links b s) (if r > 0 then count + 1 else count) k))"

definition msg_send_bus :: "u32 \<Rightarrow> msg_bus_t \<Rightarrow> buses \<Rightarrow> kernel \<Rightarrow> (c_fault + (int \<times> kernel)) option" where
  "msg_send_bus m bus b k =
     (let isr = in_irq k;
          mask' = push_bit (unat (msg_type (msgs k m) AND 0x1F)) 1;
          k = set_sender_pid m
                (to_kernel_pid (pid_word (if isr then KERNEL_PID_ISR else sched_active_pid k) OR MSB_BUS_PID_FLAG)) k
      in obind (send_bus_loop b m mask' (bus_links b (subs bus)) 0 k) (\<lambda>(count, k).
           Some (Inr (count, if sched_context_switch_request k \<and> \<not> isr then thread_yield_higher k else k))))"

text \<open>The message that \<open>msg_bus_post\<close> sends is a local variable; \<open>m\<close> is its address.\<close>

definition msg_bus_post :: "u32 \<Rightarrow> msg_bus_t \<Rightarrow> u8 \<Rightarrow> u32 \<Rightarrow> buses \<Rightarrow> kernel \<Rightarrow> (c_fault + (int \<times> kernel)) option" where
  "msg_bus_post m bus type arg b k =
     (if \<not> type < 32 then Some (Inl AssertFail)
      else
        msg_send_bus m bus b
          (k\<lparr>msgs := (msgs k)(m := \<lparr>sender_pid = 0,
               msg_type = ucast (ucast type OR push_bit 5 (ucast (bus_id bus)) :: u32), msg_content = arg\<rparr>)\<rparr>))"

section \<open>Priority queues\<close>

text \<open>The nodes of a priority queue by address; the head of the queue is a node like any other.\<close>

record priority_queue_node_t =
  pq_priority :: u32
  pq_data :: u32

record pq_store =
  pq_links :: "u32 links"
  pq_nodes :: "u32 \<Rightarrow> priority_queue_node_t"

definition priority_queue_init :: "u32 \<Rightarrow> pq_store \<Rightarrow> pq_store" where
  "priority_queue_init root s = s\<lparr>pq_links := (pq_links s)(root := None)\<rparr>"

definition priority_queue_node_init :: "u32 \<Rightarrow> pq_store \<Rightarrow> pq_store" where
  "priority_queue_node_init n s =
     s\<lparr>pq_links := (pq_links s)(n := None), pq_nodes := (pq_nodes s)(n := \<lparr>pq_priority = 0, pq_data = 0\<rparr>)\<rparr>"

partial_function (option) priority_queue_remove :: "u32 \<Rightarrow> u32 \<Rightarrow> pq_store \<Rightarrow> pq_store option" where
  "priority_queue_remove root node s =
     (case pq_links s root of
        None \<Rightarrow> Some s
      | Some n \<Rightarrow>
          if n = node then Some (s\<lparr>pq_links := (pq_links s)(root := pq_links s node, node := None)\<rparr>)
          else priority_queue_remove n node s)"

definition priority_queue_remove_head :: "u32 \<Rightarrow> pq_store \<Rightarrow> u32 option \<times> pq_store" where
  "priority_queue_remove_head root s =
     (case pq_links s root of
        Some n \<Rightarrow> (Some n, s\<lparr>pq_links := (pq_links s)(root := pq_links s n)\<rparr>)
      | None \<Rightarrow> (None, s))"

text \<open>\<open>node\<close> is the position the loop of \<open>priority_queue_add\<close> has reached.\<close>

partial_function (option) priority_queue_add :: "u32 \<Rightarrow> u32 \<Rightarrow> pq_store \<Rightarrow> (c_fault + pq_store) option" where
  "priority_queue_add node new_obj s =
     (case pq_links s node of
        None \<Rightarrow> Some (Inr (s\<lparr>pq_links := (pq_links s)(node := Some new_obj, new_obj := None)\<rparr>))
      | Some n \<Rightarrow>
          if n = new_obj then Some (Inl AssertFail)
          else if pq_priority (pq_nodes s n) > pq_priority (pq_nodes s new_obj) then
            Some (Inr (s\<lparr>pq_links := (pq_links s)(new_obj := Some n, node := Some new_obj)\<rparr>))
          else priority_queue_add n new_obj s)"

text \<open>
  A queue holds its nodes in the order of their priorities; a node is inserted after the nodes of the
  same priority.
\<close>

definition pq_insert :: "pq_store \<Rightarrow> u32 \<Rightarrow> u32 list \<Rightarrow> u32 list" where
  "pq_insert s n ns =
     takeWhile (\<lambda>x. pq_priority (pq_nodes s x) \<le> pq_priority (pq_nodes s n)) ns
     @ n # dropWhile (\<lambda>x. pq_priority (pq_nodes s x) \<le> pq_priority (pq_nodes s n)) ns"

lemma list_at_insert_first:
  assumes "list_at h l ns" "n \<notin> set (l # ns)"
  shows "list_at (h(n := h l, l := Some n)) l (n # ns)"
  using list_add_at [of h l "[]" ns n] assms by (simp add: list_add_eq)

lemma list_at_under:
  assumes "list_at h' l ns" "k \<noteq> l" "k \<notin> set ns" "h' k = Some l"
  shows "list_at h' k (l # ns)"
  using assms by (auto simp: list_at_Cons)

lemma priority_queue_add_at:
  assumes "list_at (pq_links s) root ns" "n \<notin> set (root # ns)"
  shows "\<exists>h'. priority_queue_add root n s = Some (Inr (s\<lparr>pq_links := h'\<rparr>)) \<and> list_at h' root (pq_insert s n ns)
     \<and> (\<forall>x. x \<notin> set (root # n # ns) \<longrightarrow> h' x = pq_links s x)"
  using assms
proof (induction ns arbitrary: root)
  case Nil
  then show ?case by (subst priority_queue_add.simps) (auto simp: pq_insert_def list_at_Cons)
next
  case (Cons x ns)
  then have l: "pq_links s root = Some x" "list_at (pq_links s) x ns" "root \<noteq> x" "root \<notin> set ns"
    by (auto simp: list_at_Cons)
  show ?case
  proof (cases "pq_priority (pq_nodes s x) > pq_priority (pq_nodes s n)")
    case True
    have "list_at ((pq_links s)(n := Some x, root := Some n)) root (n # x # ns)"
      using list_at_insert_first [OF Cons.prems] l(1) by simp
    moreover have "pq_insert s n (x # ns) = n # x # ns" using True by (auto simp: pq_insert_def)
    ultimately show ?thesis using l(1) Cons.prems(2) True
      by (subst priority_queue_add.simps) (auto simp del: fun_upd_apply simp: fun_upd_other)
  next
    case False
    from Cons.IH [OF l(2)] Cons.prems(2) obtain h' where h':
      "priority_queue_add x n s = Some (Inr (s\<lparr>pq_links := h'\<rparr>))" "list_at h' x (pq_insert s n ns)"
      "\<forall>y. y \<notin> set (x # n # ns) \<longrightarrow> h' y = pq_links s y" by auto
    have "h' root = Some x" using h'(3) l Cons.prems(2) by auto
    moreover have "root \<notin> set (pq_insert s n ns)"
      using l Cons.prems(2) by (auto simp: pq_insert_def dest: set_takeWhileD set_dropWhileD)
    ultimately have "list_at h' root (x # pq_insert s n ns)" using h'(2) l(3) by (intro list_at_under) auto
    moreover have "pq_insert s n (x # ns) = x # pq_insert s n ns" using False by (auto simp: pq_insert_def)
    ultimately show ?thesis using l(1) h' Cons.prems(2) False
      by (subst priority_queue_add.simps) auto
  qed
qed

lemma pq_insert_sorted:
  assumes "sorted (map (\<lambda>x. pq_priority (pq_nodes s x)) ns)"
  shows "sorted (map (\<lambda>x. pq_priority (pq_nodes s x)) (pq_insert s n ns))"
  using assms
proof (induction ns)
  case (Cons u ns)
  show ?case
  proof (cases "pq_priority (pq_nodes s u) \<le> pq_priority (pq_nodes s n)")
    case True
    have "set (pq_insert s n ns) \<subseteq> insert n (set ns)"
      by (auto simp: pq_insert_def dest: set_takeWhileD set_dropWhileD)
    with Cons True show ?thesis by (auto simp: pq_insert_def)
  next
    case False
    with Cons show ?thesis by (auto simp: pq_insert_def)
  qed
qed (simp add: pq_insert_def)

lemma priority_queue_remove_head_at:
  assumes "list_at (pq_links s) root (n # ns)"
  shows "\<exists>s'. priority_queue_remove_head root s = (Some n, s') \<and> list_at (pq_links s') root ns \<and> pq_nodes s' = pq_nodes s"
  using list_remove_head_Cons(2) [OF assms] assms by (auto simp: priority_queue_remove_head_def list_at_Cons)

lemma priority_queue_remove_at:
  assumes "list_at (pq_links s) root ns"
  shows "\<exists>h'. priority_queue_remove root node s = Some (s\<lparr>pq_links := h'\<rparr>) \<and> list_at h' root (remove1 node ns)
     \<and> (node \<in> set ns \<longrightarrow> h' node = None) \<and> (\<forall>x. x \<notin> set (root # ns) \<longrightarrow> h' x = pq_links s x)"
  using assms
proof (induction ns arbitrary: root)
  case Nil
  then show ?case by (subst priority_queue_remove.simps) (auto intro: exI [of _ "pq_links s"])
next
  case (Cons x ns)
  then have l: "pq_links s root = Some x" "list_at (pq_links s) x ns" "root \<noteq> x" "root \<notin> set ns"
    by (auto simp: list_at_Cons)
  show ?case
  proof (cases "x = node")
    case True
    have "list_at ((pq_links s)(root := pq_links s node, node := None)) root ns"
    proof -
      have "node \<notin> set ns" using l(2) True by (simp add: list_at_def)
      then show ?thesis using l True by (simp add: list_at_def)
    qed
    then show ?thesis using l True by (subst priority_queue_remove.simps) auto
  next
    case False
    from Cons.IH [OF l(2)] obtain h' where h':
      "priority_queue_remove x node s = Some (s\<lparr>pq_links := h'\<rparr>)" "list_at h' x (remove1 node ns)"
      "node \<in> set ns \<longrightarrow> h' node = None" "\<forall>y. y \<notin> set (x # ns) \<longrightarrow> h' y = pq_links s y" by auto
    have "list_at h' root (x # remove1 node ns)"
      using h'(2,4) l by (intro list_at_under) (auto dest: notin_set_remove1)
    with h' l False show ?thesis by (subst priority_queue_remove.simps) auto
  qed
qed

end
