(* ===== verification/Core_Kernel_Inv.thy ===== *)
theory Core_Kernel_Inv
  imports Core_Mbox
begin

text \<open>
  Well-formed kernel states and the operations of the kernel on them.  On top of the invariant of the run
  queues, every thread in a waiting list has a state that fits the list, and only mutexes carry the
  marker \<open>MUTEX_LOCKED\<close>.  A state is scheduled when a scheduler run is requested or the active thread is the
  first one of the best run queue.  Each operation is shown to end without a fault in such a state.
\<close>

unbundle bit_operations_syntax

section \<open>Total correctness of code that may fault or not return\<close>

definition valid :: "c_fault + 'a \<Rightarrow> ('a \<Rightarrow> bool) \<Rightarrow> bool" where
  "valid r Q \<longleftrightarrow> (\<exists>a. r = Inr a \<and> Q a)"

definition ends :: "(c_fault + 'a) option \<Rightarrow> ('a \<Rightarrow> bool) \<Rightarrow> bool" where
  "ends r Q \<longleftrightarrow> (\<exists>x. r = Some x \<and> valid x Q)"

lemma valid_simps [simp]: "valid (Inr a) Q = Q a" "valid (Inl e) Q = False"
  by (simp_all add: valid_def)

lemma ends_simps [simp]: "ends (Some x) Q = valid x Q" "ends None Q = False"
  by (simp_all add: ends_def)

lemma valid_ebind [simp]: "valid (ebind r f) Q = valid r (\<lambda>a. valid (f a) Q)"
  by (cases r) simp_all

lemma ends_obind [simp]: "ends (obind r f) Q = ends r (\<lambda>a. ends (f a) Q)"
  by (cases r rule: option.exhaust; simp; case_tac x2; simp)

lemma valid_mono: "valid r P \<Longrightarrow> (\<And>a. P a \<Longrightarrow> Q a) \<Longrightarrow> valid r Q"
  by (auto simp: valid_def)

lemma ends_mono: "ends r P \<Longrightarrow> (\<And>a. P a \<Longrightarrow> Q a) \<Longrightarrow> ends r Q"
  by (auto simp: ends_def intro: valid_mono)

lemma valid_conj: "valid r P \<Longrightarrow> valid r Q \<Longrightarrow> valid r (\<lambda>a. P a \<and> Q a)"
  by (auto simp: valid_def)

section \<open>Well-formed states\<close>

text \<open>The states of the threads in a waiting list.\<close>

fun wait_states :: "list_node \<Rightarrow> thread_status_t set" where
  "wait_states (Queue _) = {STATUS_MUTEX_BLOCKED, STATUS_COND_BLOCKED, STATUS_MBOX_BLOCKED}"
| "wait_states (Msg_waiters _) = {STATUS_SEND_BLOCKED, STATUS_REPLY_BLOCKED}"
| "wait_states _ = {}"

lemma wait_states_mem [simp]:
  "STATUS_MUTEX_BLOCKED \<in> wait_states (Queue a)" "STATUS_COND_BLOCKED \<in> wait_states (Queue a)"
  "STATUS_MBOX_BLOCKED \<in> wait_states (Queue a)" "STATUS_SEND_BLOCKED \<in> wait_states (Msg_waiters t)"
  "STATUS_REPLY_BLOCKED \<in> wait_states (Msg_waiters t)"
  by simp_all

declare wait_states.simps [simp del]

definition waits_ok :: "kernel \<Rightarrow> (list_node \<Rightarrow> tcb list) \<Rightarrow> bool" where
  "waits_ok k qs \<longleftrightarrow> (\<forall>q t. wait_head q \<longrightarrow> t \<in> set (qs q) \<longrightarrow> status (tcbs k t) \<in> wait_states q)"

definition heads_ok :: "(u32 \<Rightarrow> bool) \<Rightarrow> kernel \<Rightarrow> bool" where
  "heads_ok is_mutex k \<longleftrightarrow>
     (\<forall>a. \<not> is_mutex a \<longrightarrow> links k (Queue a) \<noteq> Some Mutex_locked)
     \<and> (\<forall>t. links k (Msg_waiters t) \<noteq> Some Mutex_locked)"

definition kernel_wf :: "(u32 \<Rightarrow> bool) \<Rightarrow> kernel \<Rightarrow> (list_node \<Rightarrow> tcb list) \<Rightarrow> bool" where
  "kernel_wf M k qs \<longleftrightarrow> kernel_inv k qs \<and> waits_ok k qs \<and> heads_ok M k"

text \<open>States in which a blocked thread is in no list.\<close>

definition unlisted :: "thread_status_t set" where
  "unlisted = {STATUS_STOPPED, STATUS_ZOMBIE, STATUS_SLEEPING, STATUS_RECEIVE_BLOCKED,
               STATUS_FLAG_BLOCKED_ANY, STATUS_FLAG_BLOCKED_ALL}"

lemma wf_inv: "kernel_wf M k qs \<Longrightarrow> kernel_inv k qs"
  by (simp add: kernel_wf_def)

lemma queue_at_empty: "kernel_inv k qs \<Longrightarrow> qs (Rq_entry t) = [] \<and> qs Mutex_locked = []"
proof -
  assume "kernel_inv k qs"
  then have "queue_at (links k) q (qs q)" for q using inv_queues by (auto simp: queues_at_def)
  from this [of "Rq_entry t"] this [of Mutex_locked] show ?thesis by simp
qed

lemma wait_states_blocked: "st \<in> wait_states q \<Longrightarrow> st < STATUS_ON_RUNQUEUE \<and> st \<notin> unlisted"
  by (cases q) (auto simp: wait_states.simps unlisted_def less_thread_status_t_def)

lemma unlisted_no_queue:
  assumes "kernel_wf M k qs" "status (tcbs k t) \<in> unlisted"
  shows "t \<notin> set (qs q)"
proof (cases "wait_head q")
  case True
  then show ?thesis using assms wait_states_blocked by (auto simp: kernel_wf_def waits_ok_def)
next
  case False
  have "\<not> STATUS_ON_RUNQUEUE \<le> status (tcbs k t)"
    using assms(2) by (auto simp: unlisted_def less_eq_thread_status_t_def)
  with False show ?thesis using assms(1) queue_at_empty [OF wf_inv [OF assms(1)]]
    by (cases q) (auto simp: kernel_wf_def kernel_inv_def)
qed

lemma not_waiting_no_queue:
  assumes "kernel_wf M k qs" "\<not> runnable k t" "\<And>q. wait_head q \<Longrightarrow> t \<notin> set (qs q)"
  shows "t \<notin> set (qs q)"
proof (cases q)
  case (Runqueue p)
  then show ?thesis using assms(2) inv_in_runqueue [OF wf_inv [OF assms(1)], of t p] by simp
qed (use assms queue_at_empty [OF wf_inv [OF assms(1)]] in auto)

text \<open>Changes that do not concern the queues.\<close>

lemma wf_env [simp]:
  "kernel_wf M (k\<lparr>pendsv := b\<rparr>) qs = kernel_wf M k qs"
  "kernel_wf M (k\<lparr>sched_context_switch_request := b\<rparr>) qs = kernel_wf M k qs"
  "kernel_wf M (k\<lparr>sched_active_thread := a\<rparr>) qs = kernel_wf M k qs"
  "kernel_wf M (k\<lparr>sched_threads := f\<rparr>) qs = kernel_wf M k qs"
  "kernel_wf M (k\<lparr>sched_num_threads := n\<rparr>) qs = kernel_wf M k qs"
  "kernel_wf M (k\<lparr>msgs := m\<rparr>) qs = kernel_wf M k qs"
  "kernel_wf M (k\<lparr>in_irq := b\<rparr>) qs = kernel_wf M k qs"
  "kernel_wf M (thread_yield_higher k) qs = kernel_wf M k qs"
  "kernel_wf M (set_sender_pid a' p k) qs = kernel_wf M k qs"
  by (simp_all add: kernel_wf_def waits_ok_def heads_ok_def thread_yield_higher_def set_sender_pid_def)

lemma kernel_wf_cong:
  assumes "links k' = links k" "runqueue_bitcache k' = runqueue_bitcache k"
    and "\<And>t. status (tcbs k' t) = status (tcbs k t)" "\<And>t. priority (tcbs k' t) = priority (tcbs k t)"
  shows "kernel_wf M k' qs = kernel_wf M k qs"
  using assms by (simp add: kernel_wf_def waits_ok_def heads_ok_def kernel_inv_def)

lemma wf_upd_tcb [simp]:
  assumes "\<And>th. status (f th) = status th" "\<And>th. priority (f th) = priority th"
  shows "kernel_wf M (upd_tcb t f k) qs = kernel_wf M k qs"
  using assms by (intro kernel_wf_cong) (auto simp: upd_tcb_def)

section \<open>The primitives\<close>

lemma wf_wake:
  assumes "kernel_wf M k qs" "st \<ge> STATUS_ON_RUNQUEUE" "\<And>q. t \<notin> set (qs q)"
  shows "valid (sched_set_status t st k) (\<lambda>k'. kernel_wf M k' (qs(runq k t := qs (runq k t) @ [t])) \<and> same_env k k'
     \<and> tcbs k' = (tcbs k)(t := (tcbs k t)\<lparr>status := st\<rparr>) \<and> same_heads k k')"
proof -
  from set_status_wake [OF wf_inv [OF assms(1)] assms(2,3)] obtain k' where k':
    "sched_set_status t st k = Inr k'" "kernel_inv k' (qs(runq k t := qs (runq k t) @ [t]))" "same_env k k'"
    "tcbs k' = (tcbs k)(t := (tcbs k t)\<lparr>status := st\<rparr>)" "same_heads k k'" by blast
  have "waits_ok k' (qs(runq k t := qs (runq k t) @ [t]))"
    using assms(1,3) unfolding waits_ok_def kernel_wf_def k'(4) by (auto simp: runq_def wait_head_neq)
  moreover have "heads_ok M k'" using assms(1) k'(5) by (simp add: kernel_wf_def heads_ok_def same_heads_def)
  ultimately show ?thesis using k' by (simp add: kernel_wf_def)
qed

lemma wf_block:
  assumes "kernel_wf M k qs" "st < STATUS_ON_RUNQUEUE" "qs (runq k t) = t # ts"
  shows "valid (sched_set_status t st k) (\<lambda>k'. kernel_wf M k' (qs(runq k t := ts)) \<and> same_env k k'
     \<and> tcbs k' = (tcbs k)(t := (tcbs k t)\<lparr>status := st\<rparr>) \<and> same_heads k k' \<and> (\<forall>q. t \<notin> set ((qs(runq k t := ts)) q)))"
proof -
  from set_status_block [OF wf_inv [OF assms(1)] assms(2,3)] obtain k' where k':
    "sched_set_status t st k = Inr k'" "kernel_inv k' (qs(runq k t := ts))" "same_env k k'"
    "tcbs k' = (tcbs k)(t := (tcbs k t)\<lparr>status := st\<rparr>)" "same_heads k k'" by blast
  have t: "t \<notin> set ((qs(runq k t := ts)) q)" for q
    using queues_at_unique [OF inv_queues [OF wf_inv [OF assms(1)]], of t "runq k t" q] assms(3)
      queues_at_distinct [OF inv_queues [OF wf_inv [OF assms(1)]], of "runq k t"] by auto
  have tw: "t \<notin> set (qs q)" if "wait_head q" for q
    using t [of q] wait_head_neq(2) [OF that] by (auto simp: runq_def)
  have "waits_ok k' (qs(runq k t := ts))"
    using assms(1) tw unfolding waits_ok_def kernel_wf_def k'(4) by (auto simp: runq_def wait_head_neq)
  moreover have "heads_ok M k'" using assms(1) k'(5) by (simp add: kernel_wf_def heads_ok_def same_heads_def)
  ultimately show ?thesis using k' t by (simp add: kernel_wf_def)
qed

lemma wf_keep:
  assumes "kernel_wf M k qs" "runnable k t \<longleftrightarrow> st \<ge> STATUS_ON_RUNQUEUE" "\<And>q. wait_head q \<Longrightarrow> t \<notin> set (qs q)"
  shows "valid (sched_set_status t st k) (\<lambda>k'. kernel_wf M k' qs \<and> k' = upd_tcb t (status_update (\<lambda>_. st)) k)"
proof -
  note k = set_status_keep [OF wf_inv [OF assms(1)] assms(2)]
  have "waits_ok (upd_tcb t (status_update (\<lambda>_. st)) k) qs"
    using assms(1,3) unfolding waits_ok_def kernel_wf_def upd_tcb_def by auto
  moreover have "heads_ok M (upd_tcb t (status_update (\<lambda>_. st)) k)"
    using assms(1) by (simp add: kernel_wf_def heads_ok_def upd_tcb_def)
  ultimately show ?thesis using k by (simp add: kernel_wf_def)
qed

lemma wf_add:
  assumes "kernel_wf M k qs" "wait_head q" "links k q \<noteq> Some Mutex_locked" "\<And>q. t \<notin> set (qs q)"
    and "status (tcbs k t) \<in> wait_states q"
  shows "ends (thread_add_to_list q t k) (\<lambda>k'. kernel_wf M k' (qs(q := insert_waiter k t (qs q))) \<and> same_env k k'
     \<and> tcbs k' = tcbs k \<and> (\<forall>q'. wait_head q' \<longrightarrow> q' \<noteq> q \<longrightarrow> links k' q' = links k q'))"
proof -
  from thread_add_to_list_ok [OF wf_inv [OF assms(1)] assms(2-4)] obtain k' where k':
    "thread_add_to_list q t k = Some (Inr k')" "kernel_inv k' (qs(q := insert_waiter k t (qs q)))" "same_env k k'"
    "tcbs k' = tcbs k" "\<And>q'. wait_head q' \<Longrightarrow> q' \<noteq> q \<Longrightarrow> links k' q' = links k q'"
    "list_at (links k') q (map Rq_entry (insert_waiter k t (qs q)))" by blast
  have "waits_ok k' (qs(q := insert_waiter k t (qs q)))"
    using assms(1,5) by (auto simp: kernel_wf_def waits_ok_def k'(4))
  moreover have "links k' q \<noteq> Some Mutex_locked"
    using k'(6) by (cases "insert_waiter k t (qs q)") (auto simp: list_at_Cons)
  then have "heads_ok M k'"
    using assms(1) k'(5) unfolding kernel_wf_def heads_ok_def by (metis wait_head_Queue)
  ultimately show ?thesis using k' by (simp add: kernel_wf_def)
qed

lemma wf_remove_head:
  assumes "kernel_wf M k qs" "wait_head q" "qs q = t # ts"
  shows "\<exists>h. list_remove_head (links k) q = (Some (Rq_entry t), h) \<and> kernel_wf M (k\<lparr>links := h\<rparr>) (qs(q := ts))
     \<and> (\<forall>q'. t \<notin> set ((qs(q := ts)) q')) \<and> (\<forall>q'. q' \<noteq> q \<longrightarrow> h q' = links k q') \<and> list_at h q (map Rq_entry ts)"
proof -
  from list_remove_head_ok [OF wf_inv [OF assms(1)] assms(2,3)] obtain h where h:
    "list_remove_head (links k) q = (Some (Rq_entry t), h)" "kernel_inv (k\<lparr>links := h\<rparr>) (qs(q := ts))"
    "list_at h q (map Rq_entry ts)" "\<And>q'. q' \<noteq> q \<Longrightarrow> h q' = links k q'" by blast
  have t: "t \<notin> set ((qs(q := ts)) q')" for q'
    using queues_at_unique [OF inv_queues [OF wf_inv [OF assms(1)]], of t q q'] assms(3)
      queues_at_distinct [OF inv_queues [OF wf_inv [OF assms(1)]], of q] by auto
  have "h q \<noteq> Some Mutex_locked" using h(3) by (cases ts) (auto simp: list_at_Cons)
  then have "heads_ok M (k\<lparr>links := h\<rparr>)"
    using assms(1) h(4) [of "Queue _"] h(4) [of "Msg_waiters _"] unfolding kernel_wf_def heads_ok_def by fastforce
  moreover have "waits_ok (k\<lparr>links := h\<rparr>) (qs(q := ts))"
    using assms(1,3) by (auto simp: kernel_wf_def waits_ok_def)
  ultimately show ?thesis using h t by (simp add: kernel_wf_def)
qed

lemma wf_empty_head:
  assumes "kernel_wf M k qs" "wait_head q" "qs q = []" "links k q \<noteq> Some Mutex_locked"
  shows "list_remove_head (links k) q = (None, links k)"
  using inv_wait_list [OF wf_inv [OF assms(1)] assms(2,4)] assms(3) by (simp add: list_remove_head_Nil)

section \<open>Scheduled states\<close>

definition current :: "(list_node \<Rightarrow> tcb list) \<Rightarrow> tcb \<Rightarrow> nat \<Rightarrow> bool" where
  "current qs a p \<longleftrightarrow> (\<exists>ts. qs (Runqueue p) = a # ts) \<and> (\<forall>p' < p. qs (Runqueue p') = [])"

definition scheduled :: "kernel \<Rightarrow> (list_node \<Rightarrow> tcb list) \<Rightarrow> bool" where
  "scheduled k qs \<longleftrightarrow> pendsv k \<or> sched_context_switch_request k
     \<or> (\<exists>a. sched_active_thread k = Some a \<and> current qs a (unat (priority (tcbs k a))))"

text \<open>What an operation achieves: outside of interrupts a requested switch has been triggered.\<close>

definition step_ok :: "(u32 \<Rightarrow> bool) \<Rightarrow> kernel \<Rightarrow> kernel \<Rightarrow> bool" where
  "step_ok M k k' \<longleftrightarrow> (\<exists>qs'. kernel_wf M k' qs' \<and> scheduled k' qs') \<and> in_irq k' = in_irq k
     \<and> (sched_context_switch_request k' \<longrightarrow> sched_context_switch_request k \<or> in_irq k \<or> pendsv k')"

text \<open>The active thread executes, in the order of the priorities.\<close>

definition running :: "(u32 \<Rightarrow> bool) \<Rightarrow> kernel \<Rightarrow> (list_node \<Rightarrow> tcb list) \<Rightarrow> tcb \<Rightarrow> bool" where
  "running M k qs me \<longleftrightarrow> kernel_wf M k qs \<and> sched_active_thread k = Some me
     \<and> current qs me (unat (priority (tcbs k me)))"

lemma current_append: "current qs a p \<Longrightarrow> p \<le> p' \<Longrightarrow> current (qs(Runqueue p' := qs (Runqueue p') @ ws)) a p"
  by (auto simp: current_def)

lemma current_wait [simp]: "wait_head q \<Longrightarrow> current (qs(q := ts)) a p = current qs a p"
proof -
  assume "wait_head q"
  then have "(qs(q := ts)) (Runqueue p') = qs (Runqueue p')" for p' using wait_head_neq(2) [of q p'] by simp
  then show ?thesis by (simp add: current_def)
qed

lemma running_head: "running M k qs me \<Longrightarrow> \<exists>ts. qs (runq k me) = me # ts"
  by (auto simp: running_def current_def runq_def)

lemma running_wf: "running M k qs me \<Longrightarrow> kernel_wf M k qs"
  by (simp add: running_def)

lemma running_active: "running M k qs me \<Longrightarrow> sched_active_thread k = Some me"
  by (simp add: running_def)

lemma running_runnable: "running M k qs me \<Longrightarrow> runnable k me"
  using running_head [of M k qs me] inv_runnable [OF wf_inv [OF running_wf], of M k qs me me] by auto

lemma running_scheduled: "running M k qs me \<Longrightarrow> scheduled k qs"
  by (auto simp: running_def scheduled_def)

lemma running_upd:
  assumes "\<And>th. status (f th) = status th" "\<And>th. priority (f th) = priority th"
  shows "running M (upd_tcb t f k) qs me = running M k qs me"
proof -
  have "priority (tcbs (upd_tcb t f k) me) = priority (tcbs k me)"
    "sched_active_thread (upd_tcb t f k) = sched_active_thread k"
    using assms(2) by (simp_all add: upd_tcb_def)
  then show ?thesis using assms by (simp add: running_def)
qed

lemma running_env [simp]:
  "running M (k\<lparr>msgs := m\<rparr>) qs me = running M k qs me" "running M (k\<lparr>sched_threads := f\<rparr>) qs me = running M k qs me"
  "running M (k\<lparr>sched_num_threads := n\<rparr>) qs me = running M k qs me"
  "running M (set_sender_pid x p k) qs me = running M k qs me"
  by (simp_all add: running_def set_sender_pid_def)

lemma step_ok_yield:
  assumes "kernel_wf M k' qs'" "in_irq k' = in_irq k"
  shows "step_ok M k (thread_yield_higher k')"
proof -
  have "scheduled (thread_yield_higher k') qs'" by (simp add: scheduled_def thread_yield_higher_def)
  with assms show ?thesis by (auto simp: step_ok_def thread_yield_higher_def)
qed

lemma step_okI:
  assumes "kernel_wf M k' qs'" "scheduled k' qs'" "in_irq k' = in_irq k"
    "sched_context_switch_request k' = sched_context_switch_request k"
  shows "step_ok M k k'"
  using assms by (auto simp: step_ok_def)

text \<open>After a switch towards priority \<open>m\<close>, the state is scheduled if no thread above it has been woken up.\<close>

lemma switch_ok:
  assumes wf: "kernel_wf M k' qs'" and act: "sched_active_thread k' = Some a"
    and cur: "scheduled k' qs' \<or> m < ucast (priority (tcbs k' a))"
    and env: "in_irq k' = in_irq k" "sched_context_switch_request k' = sched_context_switch_request k"
  shows "valid (sched_switch m k') (step_ok M k)"
proof (cases "\<not> runnable k' a \<or> ucast (priority (tcbs k' a)) > m")
  case True
  show ?thesis
  proof (cases "in_irq k'")
    case irq: True
    have "step_ok M k (k'\<lparr>sched_context_switch_request := True\<rparr>)"
      using wf env irq by (auto simp: step_ok_def scheduled_def)
    then show ?thesis using True irq by (simp add: sched_switch_eq [OF act])
  next
    case False
    then show ?thesis using True step_ok_yield [OF wf env(1)]
      by (simp add: sched_switch_eq [OF act] thread_yield_higher_def)
  qed
next
  case False
  with cur have "step_ok M k k'" by (intro step_okI [OF wf _ env]) auto
  then show ?thesis using False by (simp add: sched_switch_eq [OF act])
qed

text \<open>Appending a thread to its run queue keeps the active thread first unless the thread has a better priority.\<close>

lemma scheduled_wake:
  assumes "scheduled k qs" "same_env k k'" "\<And>u. priority (tcbs k' u) = priority (tcbs k u)"
    and "sched_active_thread k = Some a" "\<not> priority (tcbs k t) < priority (tcbs k a)"
  shows "scheduled k' (qs(runq k t := qs (runq k t) @ [t]))"
proof -
  have "unat (priority (tcbs k a)) \<le> unat (priority (tcbs k t))"
    using assms(5) by (simp add: word_less_nat_alt)
  note cur = current_append [OF _ this, of qs a "[t]"]
  have a: "sched_active_thread k' = Some a" "pendsv k' = pendsv k"
    "sched_context_switch_request k' = sched_context_switch_request k" using assms(2,4) by (simp_all add: same_env_def)
  show ?thesis using assms(1,4) cur unfolding scheduled_def a assms(3) runq_def by auto
qed

lemma wake_switch_ok:
  assumes wf: "kernel_wf M k qs" and sched: "scheduled k qs" and act: "sched_active_thread k = Some a"
    and t: "\<And>q. t \<notin> set (qs q)" and st: "st \<ge> STATUS_ON_RUNQUEUE"
  shows "valid (sched_set_status t st k) (\<lambda>k'. valid (sched_switch (ucast (priority (tcbs k' t))) k') (step_ok M k))"
proof (rule valid_mono [OF wf_wake [OF wf st t]])
  fix k' assume k': "kernel_wf M k' (qs(runq k t := qs (runq k t) @ [t])) \<and> same_env k k'
     \<and> tcbs k' = (tcbs k)(t := (tcbs k t)\<lparr>status := st\<rparr>) \<and> same_heads k k'"
  then have p: "priority (tcbs k' u) = priority (tcbs k u)" for u by simp
  from k' have env: "same_env k k'" and wf': "kernel_wf M k' (qs(runq k t := qs (runq k t) @ [t]))" by simp_all
  have "scheduled k' (qs(runq k t := qs (runq k t) @ [t])) \<or> priority (tcbs k t) < priority (tcbs k a)"
    using scheduled_wake [OF sched env p act, where t = t] by blast
  then have "scheduled k' (qs(runq k t := qs (runq k t) @ [t]))
      \<or> ucast (priority (tcbs k' t)) < (ucast (priority (tcbs k' a)) :: u16)"
    unfolding p ucast_u8_less .
  with env act show "valid (sched_switch (ucast (priority (tcbs k' t))) k') (step_ok M k)"
    by (intro switch_ok [OF wf']) (simp_all add: same_env_def)
qed

end
