(* ===== verification/Core_Kernel_Ops.thy ===== *)
theory Core_Kernel_Ops
  imports Core_Kernel_Inv
begin

text \<open>
  The operations on threads, mutexes and condition variables in well-formed states: each ends without a
  fault and leaves a well-formed, scheduled state.
\<close>

section \<open>Threads\<close>

text \<open>The active thread is the first one of its run queue, which is all a blocking operation needs.\<close>

definition leads :: "(u32 \<Rightarrow> bool) \<Rightarrow> kernel \<Rightarrow> (list_node \<Rightarrow> tcb list) \<Rightarrow> tcb \<Rightarrow> bool" where
  "leads M k qs me \<longleftrightarrow> kernel_wf M k qs \<and> sched_active_thread k = Some me \<and> (\<exists>ts. qs (runq k me) = me # ts)"

lemma running_leads: "running M k qs me \<Longrightarrow> leads M k qs me"
  using running_head by (auto simp: leads_def running_def)

lemma leads_block:
  assumes "leads M k qs me" "st < STATUS_ON_RUNQUEUE"
  shows "valid (sched_set_status me st k) (\<lambda>k'. (\<exists>qs'. kernel_wf M k' qs' \<and> (\<forall>q. me \<notin> set (qs' q))
     \<and> (\<forall>q. wait_head q \<longrightarrow> qs' q = qs q)) \<and> same_env k k'
     \<and> tcbs k' = (tcbs k)(me := (tcbs k me)\<lparr>status := st\<rparr>) \<and> same_heads k k')"
proof -
  from assms(1) obtain ts where wf: "kernel_wf M k qs" and ts: "qs (runq k me) = me # ts" by (auto simp: leads_def)
  have keep: "(qs(runq k me := ts)) q = qs q" if "wait_head q" for q
    using wait_head_neq(2) [OF that] by (simp add: runq_def)
  show ?thesis
    by (rule valid_mono [OF wf_block [where st = st, OF wf assms(2) ts]]) (use keep in blast)
qed

lemma leads_sleep:
  assumes "leads M k qs me" "st < STATUS_ON_RUNQUEUE" "in_irq k = in_irq k0"
  shows "valid (sched_set_status me st k) (\<lambda>k'. step_ok M k0 (thread_yield_higher k'))"
  using assms(3) by (intro valid_mono [OF leads_block [OF assms(1,2)]]) (auto intro!: step_ok_yield simp: same_env_def)

lemma below_runqueue [simp]:
  "STATUS_STOPPED < STATUS_ON_RUNQUEUE" "STATUS_ZOMBIE < STATUS_ON_RUNQUEUE" "STATUS_SLEEPING < STATUS_ON_RUNQUEUE"
  "STATUS_MUTEX_BLOCKED < STATUS_ON_RUNQUEUE" "STATUS_RECEIVE_BLOCKED < STATUS_ON_RUNQUEUE"
  "STATUS_SEND_BLOCKED < STATUS_ON_RUNQUEUE" "STATUS_REPLY_BLOCKED < STATUS_ON_RUNQUEUE"
  "STATUS_FLAG_BLOCKED_ANY < STATUS_ON_RUNQUEUE" "STATUS_FLAG_BLOCKED_ALL < STATUS_ON_RUNQUEUE"
  "STATUS_MBOX_BLOCKED < STATUS_ON_RUNQUEUE" "STATUS_COND_BLOCKED < STATUS_ON_RUNQUEUE"
  "STATUS_ON_RUNQUEUE \<le> STATUS_PENDING"
  by (simp_all add: less_thread_status_t_def less_eq_thread_status_t_def)

lemma wf_advance:
  assumes "kernel_wf M k qs"
  shows "kernel_wf M (sched_runq_advance p k) (qs(Runqueue (unat p) := rotate1 (qs (Runqueue (unat p)))))"
proof -
  let ?q = "qs(Runqueue (unat p) := rotate1 (qs (Runqueue (unat p))))" and ?h = "clist_lpoprpush (links k) (Runqueue (unat p))"
  have "queues_at ?h ?q" by (rule queues_at_advance [OF inv_queues [OF wf_inv [OF assms]]])
  moreover have "set (?q q) = set (qs q)" "?q q = [] \<longleftrightarrow> qs q = []" for q by auto
  moreover have "?h q = links k q" if "q \<noteq> Runqueue (unat p)" for q
    using that by (simp add: clist_lpoprpush_def split: option.splits)
  ultimately show ?thesis using assms
    unfolding kernel_wf_def kernel_inv_def waits_ok_def heads_ok_def sched_runq_advance_def by simp
qed

lemma thread_yield_ok:
  assumes "kernel_wf M k qs" "sched_active_thread k = Some me" "in_irq k = in_irq k0"
  shows "valid (thread_yield k) (step_ok M k0)"
proof -
  have "\<exists>qs'. kernel_wf M (if STATUS_ON_RUNQUEUE \<le> status (tcbs k me)
      then sched_runq_advance (priority (tcbs k me)) k else k) qs'"
    using wf_advance [OF assms(1), of "priority (tcbs k me)"] assms(1) by auto
  then obtain qs' where "kernel_wf M (if STATUS_ON_RUNQUEUE \<le> status (tcbs k me)
      then sched_runq_advance (priority (tcbs k me)) k else k) qs'" ..
  from step_ok_yield [OF this, of k0] assms(2,3) show ?thesis
    by (simp add: thread_yield_def sched_runq_advance_def split: if_splits)
qed

lemma thread_sleep_ok:
  assumes "leads M k qs me" "\<not> in_irq k"
  shows "valid (thread_sleep k) (step_ok M k)"
  using leads_sleep [OF assms(1), of STATUS_SLEEPING k] assms by (simp add: thread_sleep_def leads_def)

lemma thread_zombify_ok:
  assumes "leads M k qs me" "\<not> in_irq k"
  shows "valid (thread_zombify k) (step_ok M k)"
  using leads_sleep [OF assms(1), of STATUS_ZOMBIE k] assms by (simp add: thread_zombify_def leads_def)

lemma sched_task_exit_ok:
  assumes "leads M k qs me"
  shows "valid (sched_task_exit k) (step_ok M k)"
proof -
  let ?k = "k\<lparr>sched_threads := (sched_threads k)(sched_active_pid k := None), sched_num_threads := sched_num_threads k - 1\<rparr>"
  have "leads M ?k qs me" using assms by (simp add: leads_def runq_def)
  from leads_block [OF this, of STATUS_STOPPED]
  have "valid (sched_set_status me STATUS_STOPPED ?k) (\<lambda>k'. step_ok M k (thread_yield_higher (k'\<lparr>sched_active_thread := None\<rparr>)))"
  proof (rule valid_mono, goal_cases)
    case (2 k')
    then obtain qs' where "kernel_wf M k' qs'" "in_irq k' = in_irq k" by (auto simp: same_env_def)
    then show ?case by (intro step_ok_yield [of M _ qs']) simp_all
  qed simp
  with assms show ?thesis by (simp add: sched_task_exit_def leads_def Let_def)
qed

lemma thread_wakeup_ok:
  assumes "kernel_wf M k qs" "scheduled k qs" "sched_active_thread k = Some a"
  shows "valid (thread_wakeup p k) (\<lambda>(_, k'). step_ok M k k')"
proof -
  have same: "step_ok M k k" using assms(1,2) by (auto simp: step_ok_def)
  have "valid (sched_set_status t STATUS_RUNNING k)
      (\<lambda>k'. valid (sched_switch (ucast (priority (tcbs k' t))) k') (step_ok M k))"
    if "status (tcbs k t) = STATUS_SLEEPING" for t
    by (rule wake_switch_ok [OF assms unlisted_no_queue [OF assms(1)]]) (simp_all add: that unlisted_def)
  with same show ?thesis by (auto simp: thread_wakeup_def split: option.splits)
qed

lemma thread_kill_zombie_ok:
  assumes "kernel_wf M k qs" "scheduled k qs"
  shows "valid (thread_kill_zombie p k) (\<lambda>(_, k'). step_ok M k k')"
proof -
  have same: "step_ok M k k" using assms(1,2) by (auto simp: step_ok_def)
  let ?k = "k\<lparr>sched_threads := (sched_threads k)(p := None), sched_num_threads := sched_num_threads k - 1\<rparr>"
  have "valid (sched_set_status t STATUS_STOPPED ?k) (step_ok M k)" if "status (tcbs k t) = STATUS_ZOMBIE" for t
  proof (rule valid_mono [OF wf_keep [of M ?k qs]])
    show "t \<notin> set (qs q)" for q using unlisted_no_queue [OF assms(1), of t] that by (simp add: unlisted_def)
    fix k' assume k': "kernel_wf M k' qs \<and> k' = upd_tcb t (status_update (\<lambda>_. STATUS_STOPPED)) ?k"
    moreover from k' assms(2) have "scheduled k' qs" by (auto simp: scheduled_def upd_tcb_def)
    moreover from k' have "in_irq k' = in_irq k" "sched_context_switch_request k' = sched_context_switch_request k"
      by (auto simp: upd_tcb_def)
    ultimately show "step_ok M k k'" by (intro step_okI [of M k' qs]) blast+
  qed (use assms that in \<open>simp_all add: runnable_def less_eq_thread_status_t_def\<close>)
  with same show ?thesis by (auto simp: thread_kill_zombie_def split: option.splits)
qed

section \<open>Mutexes\<close>

lemma wf_set_head:
  assumes "kernel_wf M k qs" "qs (Queue a) = []" "v = None \<or> v = Some Mutex_locked \<and> M a"
  shows "kernel_wf M (k\<lparr>links := (links k)(Queue a := v)\<rparr>) qs"
proof -
  have "kernel_inv (k\<lparr>links := (links k)(Queue a := v)\<rparr>) qs"
    using assms(3) by (intro kernel_inv_set_head [OF wf_inv [OF assms(1)] _ assms(2)]) auto
  then show ?thesis using assms(1,3) by (auto simp: kernel_wf_def waits_ok_def heads_ok_def)
qed

lemma heads_ok_mutex:
  assumes "heads_ok M k" "M a" "\<And>q. wait_head q \<Longrightarrow> q \<noteq> Queue a \<Longrightarrow> links k' q = links k q"
  shows "heads_ok M k'"
proof -
  have "links k' (Queue b) = links k (Queue b)" if "\<not> M b" for b using assms(2,3) that by force
  then show ?thesis using assms(1,3) by (simp add: heads_ok_def)
qed

lemma mutex_abs_locked: "links k (Queue a) \<noteq> None \<Longrightarrow> mutex_abs k qs a = Some (qs (Queue a))"
  by (simp add: mutex_abs_def)

lemma mutex_block_wf:
  assumes "leads M k qs me" "M a" "links k (Queue a) \<noteq> None" "in_irq k = in_irq k0"
  shows "ends (mutex_block a k) (step_ok M k0)"
proof -
  from assms(1) obtain ts where l: "kernel_wf M k qs" "sched_active_thread k = Some me" "qs (runq k me) = me # ts"
    by (auto simp: leads_def)
  let ?qs = "qs(runq k me := ts, Queue a := insert_waiter k me (qs (Queue a)))"
  from mutex_block_ok [OF wf_inv [OF l(1)] l(2,3) mutex_abs_locked [OF assms(3)]] obtain k' where k':
    "mutex_block a k = Some (Inr k')" "kernel_inv k' ?qs" "pendsv k'" "in_irq k' = in_irq k"
    "tcbs k' = (tcbs k)(me := (tcbs k me)\<lparr>status := STATUS_MUTEX_BLOCKED\<rparr>)"
    "\<And>q. wait_head q \<Longrightarrow> q \<noteq> Queue a \<Longrightarrow> links k' q = links k q" by blast
  have me: "me \<notin> set (qs q)" if "wait_head q" for q
    using queues_at_unique [OF inv_queues [OF wf_inv [OF l(1)]], of me "runq k me" q] l(3) wait_head_neq(2) [OF that]
    by (auto simp: runq_def)
  have "waits_ok k' ?qs"
    using l(1) me unfolding waits_ok_def kernel_wf_def k'(5) by (auto simp: runq_def wait_head_neq)
  moreover have "heads_ok M k'"
    by (rule heads_ok_mutex [where M = M and a = a and k = k, OF _ assms(2) k'(6)]) (use l(1) in \<open>simp add: kernel_wf_def\<close>)
  ultimately have "kernel_wf M k' ?qs" using k'(2) by (simp add: kernel_wf_def)
  with k'(1,3,4) assms(4) show ?thesis by (auto simp: step_ok_def scheduled_def)
qed

lemma mutex_lock_internal_ok:
  assumes "running M k qs me" "M a"
  shows "ends (mutex_lock_internal a block k) (\<lambda>(_, k'). step_ok M k k')"
proof (cases "links k (Queue a) = None")
  case True
  have wf: "kernel_wf M k qs" using assms(1) by (simp add: running_def)
  have "qs (Queue a) = []" by (rule inv_head_None [OF wf_inv [OF wf]]) (simp_all add: True)
  from wf_set_head [OF wf this, of "Some Mutex_locked"] assms(2)
  have "kernel_wf M (k\<lparr>links := (links k)(Queue a := MUTEX_LOCKED)\<rparr>) qs" by simp
  moreover have "scheduled (k\<lparr>links := (links k)(Queue a := MUTEX_LOCKED)\<rparr>) qs"
    using running_scheduled [OF assms(1)] by (simp add: scheduled_def)
  ultimately show ?thesis using True by (auto simp: mutex_lock_internal_def intro!: step_okI)
next
  case False
  from running_scheduled [OF assms(1)] running_wf [OF assms(1)] have "step_ok M k k" by (auto simp: step_ok_def)
  with mutex_block_wf [OF running_leads [OF assms(1)] assms(2) False refl] False show ?thesis
    by (auto simp: mutex_lock_internal_def)
qed

lemma wake_first_wf:
  assumes "kernel_wf M k qs" "M a" "links k (Queue a) \<noteq> None" "links k (Queue a) \<noteq> Some Mutex_locked"
  shows "\<exists>w ws. qs (Queue a) = w # ws \<and> valid (wake_first a k) (\<lambda>(t, k'). t = w
     \<and> kernel_wf M k' (qs(Queue a := ws, runq k w := qs (runq k w) @ [w])) \<and> same_env k k'
     \<and> (\<forall>u. priority (tcbs k' u) = priority (tcbs k u)))"
proof -
  have "qs (Queue a) \<noteq> []" by (rule inv_head_waiting [OF wf_inv [OF assms(1)]]) (use assms in simp_all)
  then obtain w ws where w: "qs (Queue a) = w # ws" by (cases "qs (Queue a)") auto
  let ?qs = "qs(Queue a := ws, runq k w := qs (runq k w) @ [w])"
  from wake_first_ok [OF wf_inv [OF assms(1)], of a w ws] mutex_abs_locked [OF assms(3), of qs] w obtain k' where k':
    "wake_first a k = Inr (w, k')" "kernel_inv k' ?qs" "same_env k k'"
    "tcbs k' = (tcbs k)(w := (tcbs k w)\<lparr>status := STATUS_PENDING\<rparr>)"
    "\<And>q. wait_head q \<Longrightarrow> q \<noteq> Queue a \<Longrightarrow> links k' q = links k q" by metis
  have uq: "w \<notin> set (qs q)" if "q \<noteq> Queue a" for q
    using queues_at_unique [OF inv_queues [OF wf_inv [OF assms(1)]], of w "Queue a" q] w that by auto
  have "w \<notin> set ws" using queues_at_distinct [OF inv_queues [OF wf_inv [OF assms(1)]], of "Queue a"] w by simp
  then have "waits_ok k' ?qs"
    using assms(1) w uq unfolding waits_ok_def kernel_wf_def k'(4) by (auto simp: runq_def wait_head_neq)
  moreover have "heads_ok M k'"
    by (rule heads_ok_mutex [where M = M and a = a and k = k, OF _ assms(2) k'(5)]) (use assms(1) in \<open>simp add: kernel_wf_def\<close>)
  ultimately have "kernel_wf M k' ?qs" using k'(2) by (simp add: kernel_wf_def)
  with k' w show ?thesis by simp
qed

text \<open>An unlock that nobody waits for reads nothing of the active thread.\<close>

lemma mutex_unlock_unwaited:
  assumes wf: "kernel_wf M k qs" and sched: "scheduled k qs" and h: "links k (Queue a) = None \<or> links k (Queue a) = Some Mutex_locked"
  shows "valid (mutex_unlock a k) (step_ok M k)"
proof (cases "links k (Queue a) = None")
  case True
  then show ?thesis using wf sched by (auto simp: mutex_unlock_def step_ok_def)
next
  case False
  with h have single: "links k (Queue a) = Some Mutex_locked" by simp
  have "qs (Queue a) = []" by (rule inv_head_None [OF wf_inv [OF wf]]) (simp_all add: single)
  from wf_set_head [OF wf this, of None] sched have "step_ok M k (k\<lparr>links := (links k)(Queue a := None)\<rparr>)"
    by (intro step_okI [of M _ qs]) (simp_all add: scheduled_def)
  with single show ?thesis by (simp add: mutex_unlock_def)
qed

lemma mutex_unlock_ok:
  assumes wf: "kernel_wf M k qs" and sched: "scheduled k qs" and act: "sched_active_thread k = Some a'" and M: "M a"
  shows "valid (mutex_unlock a k) (step_ok M k)"
proof -
  consider (unwaited) "links k (Queue a) = None \<or> links k (Queue a) = Some Mutex_locked"
    | (waiting) "links k (Queue a) \<noteq> None" "links k (Queue a) \<noteq> Some Mutex_locked" by blast
  then show ?thesis
  proof cases
    case waiting
    from wake_first_wf [OF wf M waiting] obtain w ws where w: "qs (Queue a) = w # ws" "valid (wake_first a k) (\<lambda>(t, k'). t = w
     \<and> kernel_wf M k' (qs(Queue a := ws, runq k w := qs (runq k w) @ [w])) \<and> same_env k k'
     \<and> (\<forall>u. priority (tcbs k' u) = priority (tcbs k u)))" by blast
    have "valid (wake_first a k) (\<lambda>(t, k'). valid (sched_switch (ucast (priority (tcbs k' t))) k') (step_ok M k))"
    proof (rule valid_mono [OF w(2)], clarify)
      fix k' assume k': "kernel_wf M k' (qs(Queue a := ws, runq k w := qs (runq k w) @ [w]))" "same_env k k'"
        "\<forall>u. priority (tcbs k' u) = priority (tcbs k u)"
      then have p: "priority (tcbs k' u) = priority (tcbs k u)" for u by simp
      have "scheduled k (qs(Queue a := ws))" using sched by (simp add: scheduled_def)
      from scheduled_wake [OF this k'(2) p act, of w]
      have "scheduled k' (qs(Queue a := ws, runq k w := qs (runq k w) @ [w])) \<or> priority (tcbs k w) < priority (tcbs k a')"
        by auto
      with k' act show "valid (sched_switch (ucast (priority (tcbs k' w))) k') (step_ok M k)"
        by (intro switch_ok [OF k'(1)]) (auto simp: same_env_def ucast_u8_less)
    qed
    with waiting show ?thesis by (auto simp: mutex_unlock_def case_prod_unfold)
  qed (rule mutex_unlock_unwaited [OF wf sched])
qed

text \<open>Unlocking keeps the active thread first in its queue, so that it may block next.\<close>

lemma leads_wake:
  assumes "leads M k qs me" "kernel_wf M k' (qs(Queue a := ws, runq k w := qs (runq k w) @ [w]))" "same_env k k'"
    "\<And>u. priority (tcbs k' u) = priority (tcbs k u)"
  shows "leads M k' (qs(Queue a := ws, runq k w := qs (runq k w) @ [w])) me"
  using assms by (auto simp: leads_def same_env_def runq_def)

lemma leads_unlock:
  assumes lead: "leads M k qs me" and M: "M a"
  shows "valid (if links k (Queue a) = None then Inr k
          else if links k (Queue a) = Some Mutex_locked then Inr (k\<lparr>links := (links k)(Queue a := None)\<rparr>)
          else ebind (wake_first a k) (\<lambda>(_, k). Inr k))
     (\<lambda>k'. (\<exists>qs'. leads M k' qs' me) \<and> in_irq k' = in_irq k)"
proof -
  have wf: "kernel_wf M k qs" using lead by (simp add: leads_def)
  consider (free) "links k (Queue a) = None" | (single) "links k (Queue a) = Some Mutex_locked"
    | (waiting) "links k (Queue a) \<noteq> None" "links k (Queue a) \<noteq> Some Mutex_locked" by blast
  then show ?thesis
  proof cases
    case single
    have "qs (Queue a) = []" by (rule inv_head_None [OF wf_inv [OF wf]]) (simp_all add: single)
    from wf_set_head [OF wf this, of None] lead have "leads M (k\<lparr>links := (links k)(Queue a := None)\<rparr>) qs me"
      by (simp add: leads_def runq_def)
    with single show ?thesis by auto
  next
    case waiting
    from wake_first_wf [OF wf M waiting] obtain w ws where w: "valid (wake_first a k) (\<lambda>(t, k'). t = w
     \<and> kernel_wf M k' (qs(Queue a := ws, runq k w := qs (runq k w) @ [w])) \<and> same_env k k'
     \<and> (\<forall>u. priority (tcbs k' u) = priority (tcbs k u)))" by blast
    have "valid (wake_first a k) (\<lambda>(_, k'). (\<exists>qs'. leads M k' qs' me) \<and> in_irq k' = in_irq k)"
      by (rule valid_mono [OF w]) (auto simp: same_env_def dest!: leads_wake [OF lead])
    with waiting show ?thesis by (auto simp: case_prod_unfold)
  qed (use lead in auto)
qed

lemma mutex_unlock_and_sleep_ok:
  assumes "leads M k qs me" "M a"
  shows "valid (mutex_unlock_and_sleep a k) (step_ok M k)"
proof -
  have "valid (if links k (Queue a) \<noteq> None then
          if links k (Queue a) = MUTEX_LOCKED then Inr (k\<lparr>links := (links k)(Queue a := None)\<rparr>)
          else ebind (wake_first a k) (\<lambda>(_, k). Inr k)
        else Inr k) (\<lambda>k'. (\<exists>qs'. leads M k' qs' me) \<and> in_irq k' = in_irq k)"
    using leads_unlock [OF assms] by (simp split: if_splits)
  then show ?thesis unfolding mutex_unlock_and_sleep_def valid_ebind
  proof (rule valid_mono, goal_cases)
    case (1 k')
    then obtain qs' where "leads M k' qs' me" "in_irq k' = in_irq k" by auto
    from leads_sleep [OF this(1) _ this(2), of STATUS_SLEEPING] this(1) show ?case by (simp add: leads_def)
  qed
qed

text \<open>Cancelling the wait of a thread takes it out of the middle of the queue.\<close>

lemma wf_remove:
  assumes wf: "kernel_wf M k qs" and q: "wait_head q" "links k q \<noteq> Some Mutex_locked"
  shows "\<exists>h. list_remove (links k) q (Rq_entry t) = Some (if t \<in> set (qs q) then Some (Rq_entry t) else None, h)
     \<and> kernel_wf M (k\<lparr>links := h\<rparr>) (qs(q := remove1 t (qs q)))"
proof -
  note l = inv_wait_list [OF wf_inv [OF wf] q]
  from list_remove_at [OF l, of "Rq_entry t"] obtain h where h:
    "list_remove (links k) q (Rq_entry t) = Some (if Rq_entry t \<in> set (map Rq_entry (qs q)) then Some (Rq_entry t) else None, h)"
    "list_at h q (remove1 (Rq_entry t) (map Rq_entry (qs q)))"
    "\<forall>x. x \<notin> set (q # map Rq_entry (qs q)) \<longrightarrow> h x = links k x" by auto
  have r: "remove1 (Rq_entry t) (map Rq_entry ts) = map Rq_entry (remove1 t ts)" for ts
    by (induction ts) auto
  have m: "Rq_entry t \<in> set (map Rq_entry (qs q)) \<longleftrightarrow> t \<in> set (qs q)" by auto
  let ?qs = "qs(q := remove1 t (qs q))"
  have "queues_at h ?qs"
  proof (rule queues_at_update [OF inv_queues [OF wf_inv [OF wf]], where T = "set (qs q)"])
    show "queue_at h q (remove1 t (qs q))" using h(2) by (simp add: r queue_at_wait [OF q(1)])
    show "distinct (remove1 t (qs q))" using queues_at_distinct [OF inv_queues [OF wf_inv [OF wf]]] by simp
    show "h x = links k x" if "x \<noteq> q" "x \<notin> Rq_entry ` set (qs q)" for x using h(3) that by auto
  qed (use queues_at_unique [OF inv_queues [OF wf_inv [OF wf]]] wait_head_neq [OF q(1)] in \<open>auto dest: set_remove1_subset [THEN subsetD]\<close>)
  then have "kernel_inv (k\<lparr>links := h\<rparr>) ?qs" by (intro kernel_inv_wait_update [OF wf_inv [OF wf] _ q(1)]) simp_all
  moreover have "waits_ok (k\<lparr>links := h\<rparr>) ?qs" using wf by (auto simp: kernel_wf_def waits_ok_def dest: notin_set_remove1)
  moreover have "h x = links k x" if "wait_head x" "x \<noteq> q" for x
    using h(3) that wait_head_neq(1) [OF that(1)] by auto
  then have "heads_ok M (k\<lparr>links := h\<rparr>)"
  proof -
    assume same: "\<And>x. wait_head x \<Longrightarrow> x \<noteq> q \<Longrightarrow> h x = links k x"
    have "h q \<noteq> Some Mutex_locked" using h(2) unfolding r by (cases "remove1 t (qs q)") (auto simp: list_at_Cons)
    then have imp: "links k x = Some Mutex_locked" if "h x = Some Mutex_locked" "wait_head x" for x
      using same [OF that(2)] that(1) by (cases "x = q") auto
    show ?thesis using wf unfolding kernel_wf_def heads_ok_def by (auto dest!: imp)
  qed
  ultimately show ?thesis using h(1) unfolding m by (auto simp: kernel_wf_def)
qed

lemma step_ok_links: "step_ok M (k\<lparr>links := h\<rparr>) = step_ok M k"
  by (auto simp: step_ok_def fun_eq_iff)

lemma mutex_cancel_unwaited:
  assumes wf: "kernel_wf M k qs" and sched: "scheduled k qs" and t: "mc_thread mc \<notin> set (qs (Queue (mc_mutex mc)))"
  shows "ends (mutex_cancel mc k) (\<lambda>(mc', k'). cancelled mc' \<and> step_ok M k k')"
proof (cases "thread_is_active (tcbs k (mc_thread mc)) \<or> links k (Queue (mc_mutex mc)) = Some Mutex_locked
    \<or> links k (Queue (mc_mutex mc)) = None")
  case True
  then show ?thesis using wf sched by (auto simp: mutex_cancel_def Let_def step_ok_def)
next
  case False
  from wf_remove [OF wf, of "Queue (mc_mutex mc)" "mc_thread mc"] False t obtain h where h:
    "list_remove (links k) (Queue (mc_mutex mc)) (Rq_entry (mc_thread mc)) = Some (None, h)"
    "kernel_wf M (k\<lparr>links := h\<rparr>) qs" by (auto simp: remove1_idem)
  then have "step_ok M k (k\<lparr>links := h\<rparr>)" using sched by (intro step_okI [OF h(2)]) (simp_all add: scheduled_def)
  moreover have "mutex_cancel mc k = Some (Inr (mc\<lparr>cancelled := True\<rparr>, k\<lparr>links := h\<rparr>))"
    using False h(1) by (simp add: mutex_cancel_def Let_def)
  ultimately show ?thesis by simp
qed

lemma mutex_cancel_ok:
  assumes wf: "kernel_wf M k qs" and sched: "scheduled k qs" and act: "sched_active_thread k = Some a'"
    and M: "M (mc_mutex mc)"
  shows "ends (mutex_cancel mc k) (\<lambda>(mc', k'). cancelled mc' \<and> step_ok M k k')"
proof -
  let ?a = "mc_mutex mc" and ?t = "mc_thread mc"
  have same: "step_ok M k k" using wf sched by (auto simp: step_ok_def)
  show ?thesis
  proof (cases "thread_is_active (tcbs k ?t) \<or> links k (Queue ?a) = Some Mutex_locked \<or> links k (Queue ?a) = None")
    case True
    then show ?thesis using same by (auto simp: mutex_cancel_def Let_def)
  next
    case False
    from wf_remove [OF wf, of "Queue ?a" ?t] False obtain h where h:
      "list_remove (links k) (Queue ?a) (Rq_entry ?t) = Some (if ?t \<in> set (qs (Queue ?a)) then Some (Rq_entry ?t) else None, h)"
      "kernel_wf M (k\<lparr>links := h\<rparr>) (qs(Queue ?a := remove1 ?t (qs (Queue ?a))))" by auto
    let ?h = "if h (Queue ?a) = None then h(Queue ?a := Some Mutex_locked) else h" and ?qs = "qs(Queue ?a := remove1 ?t (qs (Queue ?a)))"
    show ?thesis
    proof (cases "?t \<in> set (qs (Queue ?a))")
      case True
      have e: "?qs (Queue ?a) = []" if "h (Queue ?a) = None"
        using inv_head_None [OF wf_inv [OF h(2)], of "Queue ?a"] that by simp
      have wf': "kernel_wf M (k\<lparr>links := ?h\<rparr>) ?qs"
      proof (cases "h (Queue ?a) = None")
        case True
        with wf_set_head [OF h(2) e, of "Some Mutex_locked"] M show ?thesis by (simp del: fun_upd_apply)
      qed (use h(2) in auto)
      have "scheduled (k\<lparr>links := ?h\<rparr>) ?qs" using sched by (simp add: scheduled_def)
      moreover have "?t \<notin> set (?qs q)" for q
      proof (cases "q = Queue ?a")
        case True
        then show ?thesis using queues_at_distinct [OF inv_queues [OF wf_inv [OF wf]], of "Queue ?a"] by simp
      next
        case False
        then show ?thesis
          using queues_at_unique [OF inv_queues [OF wf_inv [OF wf]] \<open>?t \<in> set (qs (Queue ?a))\<close>, of q] by auto
      qed
      ultimately have "valid (sched_set_status ?t STATUS_PENDING (k\<lparr>links := ?h\<rparr>))
          (\<lambda>k'. valid (sched_switch (ucast (priority (tcbs k' ?t))) k') (step_ok M (k\<lparr>links := ?h\<rparr>)))"
        using act by (intro wake_switch_ok [OF wf', where a = a']) simp_all
      then have w: "valid (sched_set_status ?t STATUS_PENDING (k\<lparr>links := ?h\<rparr>))
          (\<lambda>k'. valid (sched_switch (ucast (priority (tcbs k' ?t))) k') (step_ok M k))"
        unfolding step_ok_links .
      have "mutex_cancel mc k = obind (Some (sched_set_status ?t STATUS_PENDING (k\<lparr>links := ?h\<rparr>))) (\<lambda>k.
          obind (Some (sched_switch (ucast (priority (tcbs k ?t))) k)) (\<lambda>k. Some (Inr (mc\<lparr>cancelled := True\<rparr>, k))))"
        using True False h(1) by (simp add: mutex_cancel_def Let_def)
      with w show ?thesis by simp
    next
      case False
      then show ?thesis by (rule mutex_cancel_unwaited [OF wf sched])
    qed
  qed
qed

lemma mutex_lock_cancelable_ok:
  assumes "running M k qs me" "M (mc_mutex mc)"
  shows "ends (mutex_lock_cancelable mc k) (\<lambda>(_, k'). step_ok M k k')"
proof -
  from running_scheduled [OF assms(1)] running_wf [OF assms(1)] have same: "step_ok M k k" by (auto simp: step_ok_def)
  have b: "ends (mutex_block (mc_mutex mc) k) (step_ok M k)" if "links k (Queue (mc_mutex mc)) \<noteq> None"
    by (rule mutex_block_wf [OF running_leads [OF assms(1)] assms(2) that refl])
  have "step_ok M k (k\<lparr>links := (links k)(Queue (mc_mutex mc) := MUTEX_LOCKED)\<rparr>)"
    if "links k (Queue (mc_mutex mc)) = None"
    using mutex_lock_internal_ok [OF assms, of True] that by (simp add: mutex_lock_internal_def)
  with same b show ?thesis by (auto simp: mutex_lock_cancelable_def)
qed

section \<open>Condition variables\<close>

lemma leads_env:
  assumes "leads M k qs me" "links k' = links k" "tcbs k' = tcbs k" "runqueue_bitcache k' = runqueue_bitcache k"
    "sched_active_thread k' = sched_active_thread k"
  shows "leads M k' qs me"
  using assms kernel_wf_cong [of k' k M qs] by (simp add: leads_def runq_def)

lemma leads_mutex_unlock:
  assumes "leads M k qs me" "M a"
  shows "valid (mutex_unlock a k) (\<lambda>k'. (\<exists>qs'. leads M k' qs' me) \<and> in_irq k' = in_irq k)"
proof (cases "links k (Queue a) = None \<or> links k (Queue a) = Some Mutex_locked")
  case True
  with leads_unlock [OF assms] show ?thesis by (auto simp: mutex_unlock_def)
next
  case False
  with leads_unlock [OF assms]
  have "valid (wake_first a k) (\<lambda>(_, k'). (\<exists>qs'. leads M k' qs' me) \<and> in_irq k' = in_irq k)"
    by (auto simp: case_prod_unfold)
  then have "valid (wake_first a k) (\<lambda>(t, k'). valid (sched_switch (ucast (priority (tcbs k' t))) k')
      (\<lambda>k'. (\<exists>qs'. leads M k' qs' me) \<and> in_irq k' = in_irq k))"
  proof (rule valid_mono, clarify)
    fix t k' qs' assume k': "in_irq k' = in_irq k" "leads M k' qs' me"
    then have act: "sched_active_thread k' = Some me" by (simp add: leads_def)
    show "valid (sched_switch (ucast (priority (tcbs k' t))) k') (\<lambda>k'. (\<exists>qs'. leads M k' qs' me) \<and> in_irq k' = in_irq k)"
      using leads_env [OF k'(2)] k' by (auto simp: sched_switch_eq [OF act] intro!: exI [of _ qs'])
  qed
  with False show ?thesis by (auto simp: mutex_unlock_def case_prod_unfold)
qed

text \<open>Blocking on a waiting list.\<close>

lemma leads_wait:
  assumes lead: "leads M k qs me" and q: "wait_head q" "links k q \<noteq> Some Mutex_locked" and st: "st \<in> wait_states q"
  shows "valid (sched_set_status me st k) (\<lambda>k1. ends (thread_add_to_list q me k1) (\<lambda>k'. (\<exists>qs'. kernel_wf M k' qs'
     \<and> (\<forall>q'. wait_head q' \<longrightarrow> qs' q' = (qs(q := insert_waiter k me (qs q))) q'))
     \<and> same_env k k' \<and> tcbs k' = (tcbs k)(me := (tcbs k me)\<lparr>status := st\<rparr>)))"
proof (rule valid_mono [OF leads_block [OF lead]], goal_cases)
  case 1
  show ?case using wait_states_blocked [OF st] by simp
next
  case (2 k1)
  then obtain qs1 where k1: "kernel_wf M k1 qs1" "\<And>q. me \<notin> set (qs1 q)" "\<forall>q. wait_head q \<longrightarrow> qs1 q = qs q"
    "same_env k k1" "tcbs k1 = (tcbs k)(me := (tcbs k me)\<lparr>status := st\<rparr>)" "same_heads k k1" by blast
  have "links k1 q \<noteq> Some Mutex_locked" "status (tcbs k1 me) \<in> wait_states q"
    using k1(5,6) q st by (simp_all add: same_heads_def)
  note add = wf_add [OF k1(1) q(1) this(1) k1(2) this(2)]
  have "priority (tcbs k1 u) = priority (tcbs k u)" for u by (simp add: k1(5))
  then have ins: "insert_waiter k1 me (qs1 q) = insert_waiter k me (qs q)"
    using k1(3) q(1) by (simp add: insert_waiter_def)
  show ?case
  proof (rule ends_mono [OF add], goal_cases)
    case (1 k')
    then have "kernel_wf M k' (qs1(q := insert_waiter k me (qs q)))" unfolding ins by simp
    moreover have "(qs1(q := insert_waiter k me (qs q))) q' = (qs(q := insert_waiter k me (qs q))) q'"
      if "wait_head q'" for q' using k1(3) that by simp
    ultimately show ?case using 1 k1(4,5) same_env_trans by metis
  qed
qed

lemma cond_wait_ok:
  assumes "leads M k qs me" "M m" "\<not> M c"
  shows "ends (cond_wait c m k) (step_ok M k)"
proof -
  have act: "sched_active_thread k = Some me" using assms(1) by (simp add: leads_def)
  have "valid (mutex_unlock m k) (\<lambda>k1. valid (sched_set_status me STATUS_COND_BLOCKED k1)
      (\<lambda>k2. ends (thread_add_to_list (Queue c) me k2) (\<lambda>k3. step_ok M k (thread_yield_higher k3))))"
  proof (rule valid_mono [OF leads_mutex_unlock [OF assms(1,2)]], clarify)
    fix k1 qs1 assume k1: "in_irq k1 = in_irq k" "leads M k1 qs1 me"
    then have h: "links k1 (Queue c) \<noteq> Some Mutex_locked"
      using assms(3) by (simp add: leads_def kernel_wf_def heads_ok_def)
    show "valid (sched_set_status me STATUS_COND_BLOCKED k1)
      (\<lambda>k2. ends (thread_add_to_list (Queue c) me k2) (\<lambda>k3. step_ok M k (thread_yield_higher k3)))"
    proof (rule valid_mono [OF leads_wait [OF k1(2) _ h]], goal_cases)
      case (3 k2)
      then show ?case
      proof (rule ends_mono)
        fix k3 assume "(\<exists>qs'. kernel_wf M k3 qs' \<and> (\<forall>q'. wait_head q' \<longrightarrow>
            qs' q' = (qs1(Queue c := insert_waiter k1 me (qs1 (Queue c)))) q')) \<and> same_env k1 k3
            \<and> tcbs k3 = (tcbs k1)(me := (tcbs k1 me)\<lparr>status := STATUS_COND_BLOCKED\<rparr>)"
        then obtain qs' where "kernel_wf M k3 qs'" "same_env k1 k3" by blast
        then show "step_ok M k (thread_yield_higher k3)"
          using k1(1) by (intro step_ok_yield) (auto simp: same_env_def)
      qed
    qed simp_all
  qed
  with act show ?thesis by (simp add: cond_wait_def)
qed

text \<open>
  The loop of a signal wakes threads one after the other; it ends with the best of their priorities, so
  the active thread stays first or the following switch preempts it.
\<close>

lemma cond_signal_loop_ok:
  assumes "kernel_wf M k qs" "\<not> M c" "sched_active_thread k = Some a"
    "scheduled k qs \<or> m < ucast (priority (tcbs k a))"
  shows "ends (cond_signal_loop c b m k) (\<lambda>(m', k'). \<exists>qs'. kernel_wf M k' qs' \<and> same_env k k'
     \<and> (scheduled k' qs' \<or> m' < ucast (priority (tcbs k' a))) \<and> (\<forall>u. priority (tcbs k' u) = priority (tcbs k u)))"
  using assms
proof (induction "qs (Queue c)" arbitrary: k qs m)
  case Nil
  have "list_remove_head (links k) (Queue c) = (None, links k)"
    by (rule wf_empty_head [OF Nil.prems(1)]) (use Nil in \<open>auto simp: kernel_wf_def heads_ok_def\<close>)
  with Nil show ?case by (subst cond_signal_loop.simps) auto
next
  case (Cons w ws)
  from wf_remove_head [OF Cons.prems(1), of "Queue c" w ws] Cons.hyps(2) obtain h where h:
    "list_remove_head (links k) (Queue c) = (Some (Rq_entry w), h)" "kernel_wf M (k\<lparr>links := h\<rparr>) (qs(Queue c := ws))"
    "\<And>q. w \<notin> set ((qs(Queue c := ws)) q)" by auto
  let ?k = "k\<lparr>links := h\<rparr>" and ?q = "qs(Queue c := ws)"
  let ?q2 = "?q(runq ?k w := ?q (runq ?k w) @ [w])"
  from wf_wake [where qs = ?q and st = STATUS_PENDING, OF h(2) _ h(3)] obtain k2 where k2:
    "sched_set_status w STATUS_PENDING ?k = Inr k2" "kernel_wf M k2 ?q2" "same_env ?k k2"
    "tcbs k2 = (tcbs k)(w := (tcbs k w)\<lparr>status := STATUS_PENDING\<rparr>)" by (auto simp: valid_def)
  have p: "priority (tcbs k2 u) = priority (tcbs k u)" for u by (simp add: k2(4))
  have env: "same_env k k2" using k2(3) by (simp add: same_env_def)
  let ?m = "if ucast (priority (tcbs k2 w)) < m then ucast (priority (tcbs k2 w)) else m"
  have "scheduled ?k ?q \<longleftrightarrow> scheduled k qs" by (simp add: scheduled_def)
  with scheduled_wake [of ?k ?q k2 a w] k2(3) p Cons.prems(3,4)
  have "scheduled k2 ?q2 \<or> m < ucast (priority (tcbs k a)) \<or> priority (tcbs k w) < priority (tcbs k a)" by auto
  then have sch: "scheduled k2 ?q2 \<or> ?m < ucast (priority (tcbs k2 a))"
    unfolding p ucast_u8_less [symmetric] by auto
  have act: "sched_active_thread k2 = Some a" using env Cons.prems(3) by (simp add: same_env_def)
  have eq: "cond_signal_loop c b m k = (if \<not> b then Some (Inr (?m, k2)) else cond_signal_loop c b ?m k2)"
    using h(1) k2(1) by (subst cond_signal_loop.simps) (simp add: Let_def)
  have ws: "ws = ?q2 (Queue c)" by simp
  show ?case
  proof (cases b)
    case False
    with eq sch k2(2) env p show ?thesis by auto
  next
    case True
    have "ends (cond_signal_loop c b ?m k2) (\<lambda>(m', k'). \<exists>qs'. kernel_wf M k' qs' \<and> same_env k k'
     \<and> (scheduled k' qs' \<or> m' < ucast (priority (tcbs k' a))) \<and> (\<forall>u. priority (tcbs k' u) = priority (tcbs k u)))"
    proof (rule ends_mono [OF Cons.hyps(1) [OF ws k2(2) Cons.prems(2) act sch]], clarify)
      fix m' :: u16 and k' qs' assume k': "kernel_wf M k' qs'" "same_env k2 k'" "scheduled k' qs' \<or> m' < ucast (priority (tcbs k' a))"
        "\<forall>u. priority (tcbs k' u) = priority (tcbs k2 u)"
      then show "\<exists>qs'. kernel_wf M k' qs' \<and> same_env k k' \<and> (scheduled k' qs' \<or> m' < ucast (priority (tcbs k' a)))
          \<and> (\<forall>u. priority (tcbs k' u) = priority (tcbs k u))"
        using same_env_trans [OF env k'(2)] p by auto
    qed
    with eq True show ?thesis by simp
  qed
qed

lemma cond_signal_unwaited:
  assumes "links k (Queue c) = None"
  shows "cond_signal_internal c b k = Some (Inr k)"
proof -
  have "list_remove_head (links k) (Queue c) = (None, links k)" using assms by (simp add: list_remove_head_def)
  then have "cond_signal_loop c b m k = Some (Inr (m, k))" for m by (subst cond_signal_loop.simps) simp
  then show ?thesis by (simp add: cond_signal_internal_def c_const)
qed

lemma cond_signal_ok:
  assumes wf: "kernel_wf M k qs" and sched: "scheduled k qs" and act: "sched_active_thread k = Some a" and M: "\<not> M c"
  shows "ends (cond_signal_internal c b k) (step_ok M k)"
proof -
  have "ends (cond_signal_loop c b (THREAD_PRIORITY_MIN + 1) k) (\<lambda>(min_prio, k').
      valid (if min_prio \<le> THREAD_PRIORITY_MIN then sched_switch min_prio k' else Inr k') (step_ok M k))"
  proof (rule ends_mono [OF cond_signal_loop_ok [OF wf M act disjI1 [OF sched]]], clarify)
    fix m' :: u16 and k' qs' assume k': "kernel_wf M k' qs'" "same_env k k'" "scheduled k' qs' \<or> m' < ucast (priority (tcbs k' a))"
      "\<forall>u. priority (tcbs k' u) = priority (tcbs k u)"
    have act': "sched_active_thread k' = Some a" using k'(2) act by (simp add: same_env_def)
    show "valid (if m' \<le> THREAD_PRIORITY_MIN then sched_switch m' k' else Inr k') (step_ok M k)"
    proof (cases "m' \<le> THREAD_PRIORITY_MIN")
      case True
      with switch_ok [OF k'(1) act' k'(3)] k'(2) show ?thesis by (simp add: same_env_def)
    next
      case False
      have "unat (priority (tcbs k' a)) < 16" using inv_prio [OF wf_inv [OF k'(1)]] .
      then have "(ucast (priority (tcbs k' a)) :: u16) \<le> 15"
        by (simp add: word_le_nat_alt unsigned_ucast_eq take_bit_nat_eq_self)
      with False have "\<not> m' < ucast (priority (tcbs k' a))" by (simp add: c_const)
      with k' False show ?thesis by (auto intro!: step_okI simp: same_env_def)
    qed
  qed
  moreover have "cond_signal_internal c b k = obind (cond_signal_loop c b (THREAD_PRIORITY_MIN + 1) k)
      (\<lambda>(min_prio, k). Some (if min_prio \<le> THREAD_PRIORITY_MIN then sched_switch min_prio k else Inr k))"
    by (simp add: cond_signal_internal_def if_distrib [of Some])
  ultimately show ?thesis by (simp add: case_prod_unfold)
qed

section \<open>New threads\<close>

text \<open>A control block that is not in use is stopped and has no waiting senders.\<close>

lemma wf_create:
  assumes wf: "kernel_wf M k qs" and t: "status (tcbs k t) = STATUS_STOPPED" "links k (Msg_waiters t) = None"
    and f: "status (f (tcbs k t)) = STATUS_STOPPED" "unat (priority (f (tcbs k t))) < SCHED_PRIO_LEVELS"
    and k': "links k' = (links k)(Rq_entry t := None, Msg_waiters t := None)" "tcbs k' = (tcbs k)(t := f (tcbs k t))"
      "runqueue_bitcache k' = runqueue_bitcache k"
  shows "kernel_wf M k' qs"
proof -
  have un: "t \<notin> set (qs q)" for q by (rule unlisted_no_queue [OF wf]) (simp add: t unlisted_def)
  have e: "qs (Msg_waiters t) = []" by (rule inv_head_None [OF wf_inv [OF wf]]) (simp_all add: t)
  have "queue_at (links k') q (qs q)" for q
  proof (cases "\<exists>u. q = Rq_entry u")
    case True
    then show ?thesis using queue_at_empty [OF wf_inv [OF wf]] by auto
  next
    case False
    have "queue_at (links k) q (qs q)" using inv_queues [OF wf_inv [OF wf]] by (simp add: queues_at_def)
    moreover have "links k' q = links k q" using False t(2) by (auto simp: k'(1))
    moreover have "links k' (Rq_entry u) = links k (Rq_entry u)" if "u \<in> set (qs q)" for u
      using that un by (auto simp: k'(1))
    ultimately show ?thesis using queue_at_cong [of "links k'" q "links k" "qs q"] by blast
  qed
  then have "queues_at (links k') qs" using inv_queues [OF wf_inv [OF wf]] by (simp add: queues_at_def)
  moreover have "u \<in> set (qs (Runqueue p)) \<longleftrightarrow> status (tcbs k' u) \<ge> STATUS_ON_RUNQUEUE \<and> p = unat (priority (tcbs k' u))" for u p
    using un [of "Runqueue p"] f(1) wf by (auto simp: k'(2) kernel_wf_def kernel_inv_def less_eq_thread_status_t_def)
  ultimately have "kernel_inv k' qs" using wf f(2) by (auto simp: kernel_wf_def kernel_inv_def k'(2,3))
  moreover have "waits_ok k' qs" using wf un by (auto simp: kernel_wf_def waits_ok_def k'(2))
  moreover have "heads_ok M k'" using wf by (auto simp: kernel_wf_def heads_ok_def k'(1))
  ultimately show ?thesis by (simp add: kernel_wf_def)
qed

end
