(* ===== verification/Core_Kernel_Msg.thy ===== *)
theory Core_Kernel_Msg
  imports Core_Kernel_Ops
begin

text \<open>
  Thread creation, priority changes, thread flags, messages and mailboxes in well-formed states: each
  operation ends without a fault and leaves a well-formed, scheduled state.
\<close>

unbundle bit_operations_syntax

section \<open>Creating threads\<close>

text \<open>A state change of a blocked thread that is in no waiting list concerns no queue.\<close>

lemma keep_step_ok:
  assumes "kernel_wf M k qs" "scheduled k qs" "\<not> runnable k t" "\<And>q. t \<notin> set (qs q)" "st < STATUS_ON_RUNQUEUE"
  shows "valid (sched_set_status t st k) (step_ok M k)"
proof (rule valid_mono [OF wf_keep [where st = st, OF assms(1)]])
  show "runnable k t = (STATUS_ON_RUNQUEUE \<le> st)" using assms(3,5) by simp
  fix k' assume k': "kernel_wf M k' qs \<and> k' = upd_tcb t (status_update (\<lambda>_. st)) k"
  moreover from this assms(2) have "scheduled k' qs" by (auto simp: scheduled_def upd_tcb_def)
  moreover from k' have "in_irq k' = in_irq k" "sched_context_switch_request k' = sched_context_switch_request k"
    by (auto simp: upd_tcb_def)
  ultimately show "step_ok M k k'" by (intro step_okI [of M k' qs]) blast+
qed (rule assms(4))

text \<open>Waking a thread up without a switch is sound when the scheduler is going to run anyway.\<close>

lemma wake_step_ok:
  assumes wf: "kernel_wf M k qs" and sched: "scheduled k qs" and t: "\<And>q. t \<notin> set (qs q)"
    and act: "sched_active_thread k = Some a \<or> w" and w: "w \<Longrightarrow> pendsv k"
  shows "valid (sched_set_status t STATUS_PENDING k) (\<lambda>k'.
      valid (if w then Inr k' else sched_switch (ucast (priority (tcbs k t))) k') (step_ok M k))"
proof (cases w)
  case True
  have "valid (sched_set_status t STATUS_PENDING k) (step_ok M k)"
  proof (rule valid_mono [OF wf_wake [where st = STATUS_PENDING, OF wf _ t]])
    fix k' assume k': "kernel_wf M k' (qs(runq k t := qs (runq k t) @ [t])) \<and> same_env k k'
      \<and> tcbs k' = (tcbs k)(t := tcbs k t\<lparr>status := STATUS_PENDING\<rparr>) \<and> same_heads k k'"
    then have e: "in_irq k' = in_irq k" "sched_context_switch_request k' = sched_context_switch_request k"
      "pendsv k'" using w [OF True] by (auto simp: same_env_def)
    then have "scheduled k' (qs(runq k t := qs (runq k t) @ [t]))" by (simp add: scheduled_def)
    with k' e show "step_ok M k k'" by (intro step_okI) blast+
  qed simp
  with True show ?thesis by simp
next
  case False
  with act have a: "sched_active_thread k = Some a" by simp
  have "valid (sched_set_status t STATUS_PENDING k) (\<lambda>k'. valid (sched_switch (ucast (priority (tcbs k' t))) k') (step_ok M k)
      \<and> priority (tcbs k' t) = priority (tcbs k t))"
    by (rule valid_conj [OF wake_switch_ok [where st = STATUS_PENDING, OF wf sched a t]
          valid_mono [OF wf_wake [where st = STATUS_PENDING, OF wf _ t]]]) simp_all
  then show ?thesis by (rule valid_mono) (use False in auto)
qed

text \<open>The control block \<open>thread_create\<close> uses, at the end of the stack.\<close>

definition new_tcb :: "u32 \<Rightarrow> int \<Rightarrow> tcb" where
  "new_tcb stack stacksize = (case thread_create_layout stack stacksize of (stack, stacksize) \<Rightarrow> stack + word_of_int stacksize)"

lemma thread_create_ok:
  assumes wf: "kernel_wf M k qs" and sched: "scheduled k qs"
    and t: "status (tcbs k (new_tcb stk sz)) = STATUS_STOPPED" "links k (Msg_waiters (new_tcb stk sz)) = None"
    and act: "sched_active_thread k = Some a \<and> a \<noteq> new_tcb stk sz \<or> flag_set fl THREAD_CREATE_WOUT_YIELD"
    and yld: "flag_set fl THREAD_CREATE_WOUT_YIELD \<Longrightarrow> pendsv k"
  shows "valid (thread_create tsi stk sz prio fl fn arg k) (\<lambda>(_, k'). step_ok M k k')"
proof -
  obtain stk' sz' where lay: "thread_create_layout stk sz = (stk', sz')" by force
  define t' where "t' = stk' + word_of_int sz'"
  have new: "new_tcb stk sz = t'" by (simp add: new_tcb_def lay t'_def)
  note t = t [unfolded new] and act = act [unfolded new]
  let ?p = "first_free_pid k" and ?w = "flag_set fl THREAD_CREATE_WOUT_YIELD"
  let ?f = "\<lambda>th. th\<lparr>pid := ?p, sp := tsi fn arg stk' sz', priority := prio, status := STATUS_STOPPED, wait_data := 0,
      msg_queue := CIB_INIT 0, msg_array := 0\<rparr>"
  define k1 where "k1 = k\<lparr>sched_threads := (sched_threads k)(?p \<mapsto> t'), tcbs := (tcbs k)(t' := ?f (tcbs k t')),
      links := (links k)(Rq_entry t' := None, Msg_waiters t' := None), sched_num_threads := sched_num_threads k + 1\<rparr>"
  have same: "step_ok M k k" using wf sched by (auto simp: step_ok_def)
  show ?thesis
  proof (cases "unat prio \<ge> SCHED_PRIO_LEVELS \<or> ?p = KERNEL_PID_UNDEF")
    case True
    with same show ?thesis by (auto simp: thread_create_def lay Let_def)
  next
    case False
    have wf1: "kernel_wf M k1 qs"
      by (rule wf_create [OF wf t, where f = ?f]) (use False in \<open>simp_all add: k1_def\<close>)
    have un: "t' \<notin> set (qs q)" for q by (rule unlisted_no_queue [OF wf]) (simp add: t unlisted_def)
    have st1: "status (tcbs k1 t') = STATUS_STOPPED" "priority (tcbs k1 t') = prio" by (simp_all add: k1_def)
    have env: "in_irq k1 = in_irq k" "sched_context_switch_request k1 = sched_context_switch_request k"
      "pendsv k1 = pendsv k" "sched_active_thread k1 = sched_active_thread k" by (simp_all add: k1_def)
    have sch1: "scheduled k1 qs" using sched act yld by (auto simp: scheduled_def k1_def)
    have one: "step_ok M k1 = step_ok M k" unfolding step_ok_def env ..
    have "valid (sched_set_status t' STATUS_SLEEPING k1) (step_ok M k)"
      unfolding one [symmetric] using un
      by (intro keep_step_ok [OF wf1 sch1]) (simp_all add: runnable_def st1 less_eq_thread_status_t_def)
    moreover have "valid (sched_set_status t' STATUS_PENDING k1) (\<lambda>k'.
        valid (if ?w then Inr k' else sched_switch (ucast prio) k') (step_ok M k))"
      using wake_step_ok [where w = ?w and a = a, OF wf1 sch1 un] act yld unfolding one st1 env by blast
    moreover have "thread_create tsi stk sz prio fl fn arg k =
        (if flag_set fl THREAD_CREATE_SLEEPING then ebind (sched_set_status t' STATUS_SLEEPING k1) (\<lambda>k. Inr (?p, k))
         else ebind (sched_set_status t' STATUS_PENDING k1) (\<lambda>k.
           ebind (if ?w then Inr k else sched_switch (ucast prio) k) (\<lambda>k. Inr (?p, k))))"
      using False by (cases ?w) (simp_all add: thread_create_def lay Let_def upd_tcb_def k1_def t'_def)
    ultimately show ?thesis by simp
  qed
qed

section \<open>Changing priorities\<close>

text \<open>The first thread of a run queue moves to the end of another one.\<close>

lemma wf_change_priority:
  assumes wf: "kernel_wf M k qs" and q: "qs (runq k t) = t # ts" and p: "unat prio < SCHED_PRIO_LEVELS"
    and ne: "priority (tcbs k t) \<noteq> prio"
  shows "valid (runqueue_pop t k) (\<lambda>k1. let k' = upd_tcb t (priority_update (\<lambda>_. prio)) (runqueue_push t prio k1) in
      kernel_wf M k' (qs(runq k t := ts, Runqueue (unat prio) := qs (Runqueue (unat prio)) @ [t])) \<and> same_env k k'
      \<and> tcbs k' = (tcbs k)(t := (tcbs k t)\<lparr>priority := prio\<rparr>))"
proof -
  from runqueue_pop_inv [OF wf_inv [OF wf] q] obtain k1 where k1:
    "runqueue_pop t k = Inr k1" "queues_at (links k1) (qs(runq k t := ts))"
    "\<And>i. i < 32 \<Longrightarrow> bit (runqueue_bitcache k1) i \<longleftrightarrow> (qs(runq k t := ts)) (Runqueue (31 - i)) \<noteq> []"
    "same_env k k1" "tcbs k1 = tcbs k" "same_heads k k1" by blast
  let ?q = "qs(runq k t := ts)" and ?r = "Runqueue (unat prio)"
  let ?q' = "?q(?r := ?q ?r @ [t])" and ?k = "upd_tcb t (priority_update (\<lambda>_. prio)) (runqueue_push t prio k1)"
  have r: "?r \<noteq> runq k t" "runq k t \<noteq> ?r" using ne by (auto simp: runq_def dest: unsigned_word_eqI)
  have run: "runnable k t" using inv_runnable [OF wf_inv [OF wf], of t] q by simp
  have un: "t \<notin> set (?q q')" for q'
    using queues_at_unique [OF inv_queues [OF wf_inv [OF wf]], of t "runq k t" q'] q
      queues_at_distinct [OF inv_queues [OF wf_inv [OF wf]], of "runq k t"] by auto
  have lk: "links ?k = clist_rpush (links k1) ?r (Rq_entry t)" "tcbs ?k = (tcbs k)(t := (tcbs k t)\<lparr>priority := prio\<rparr>)"
    "runqueue_bitcache ?k = runqueue_bitcache k1 OR drop_bit (unat prio) BIT31"
    by (simp_all add: upd_tcb_def runqueue_push_def set_runqueue_bit_def k1(5))
  have "queues_at (links ?k) ?q'" unfolding lk by (rule queues_at_rpush [OF k1(2) un])
  moreover have "u \<in> set (?q' (Runqueue p)) \<longleftrightarrow> STATUS_ON_RUNQUEUE \<le> status (tcbs ?k u) \<and> p = unat (priority (tcbs ?k u))" for u p
  proof (cases "u = t")
    case True
    then show ?thesis using un [of "Runqueue p"] run by (auto simp: lk runnable_def)
  next
    case False
    have "u \<in> set (?q' (Runqueue p)) \<longleftrightarrow> u \<in> set (qs (Runqueue p))" using False q by (auto simp: runq_def)
    then show ?thesis using inv_in_runqueue [OF wf_inv [OF wf], of u p] False by (auto simp: lk runnable_def runq_def)
  qed
  moreover have "bit (runqueue_bitcache ?k) i \<longleftrightarrow> ?q' (Runqueue (31 - i)) \<noteq> []" if "i < 32" for i
  proof -
    have "unat prio < 32" using p by (simp add: SCHED_PRIO_LEVELS_def)
    with bit_BIT31 [OF this, of i] that have "bit (drop_bit (unat prio) BIT31) i \<longleftrightarrow> Runqueue (31 - i) = ?r" by auto
    with k1(3) [OF that] show ?thesis by (auto simp: lk bit_or_iff)
  qed
  ultimately have "kernel_inv ?k ?q'" using wf p by (auto simp: kernel_inv_def kernel_wf_def lk)
  moreover have h: "links ?k q' = links k q'" if "wait_head q'" for q'
    using that k1(6) unfolding lk
    by (subst clist_rpush_frame [OF queues_at_Runqueue [OF k1(2)]]) (auto simp: wait_head_def same_heads_def)
  moreover from wf have "heads_ok M ?k" unfolding kernel_wf_def heads_ok_def by (metis h wait_head_Queue)
  moreover have "waits_ok ?k ?q'" using wf unfolding kernel_wf_def waits_ok_def lk by (auto simp: runq_def wait_head_neq)
  ultimately have "kernel_wf M ?k ?q'" by (simp add: kernel_wf_def)
  moreover have "?q ?r = qs ?r" using r by simp
  moreover have "same_env k ?k" using k1(4) by (simp add: same_env_def upd_tcb_def runqueue_push_def set_runqueue_bit_def)
  ultimately show ?thesis by (simp add: k1(1) lk Let_def)
qed

lemma wf_blocked_priority:
  assumes "kernel_wf M k qs" "\<not> runnable k t" "unat prio < SCHED_PRIO_LEVELS"
  shows "kernel_wf M (upd_tcb t (priority_update (\<lambda>_. prio)) k) qs"
  using assms unfolding kernel_wf_def kernel_inv_def waits_ok_def heads_ok_def upd_tcb_def runnable_def by auto

lemma current_remove:
  assumes "current qs a p" "qs (Runqueue p') = t # ts" "t \<noteq> a"
  shows "current (qs(Runqueue p' := ts)) a p"
proof -
  have "p' \<noteq> p" "\<not> p' < p" using assms by (auto simp: current_def)
  with assms(1) show ?thesis by (auto simp: current_def)
qed

text \<open>The last part of \<open>sched_change_priority\<close>: the scheduler runs if the change can matter.\<close>

lemma priority_changed_ok:
  assumes sched: "scheduled k qs" and k': "kernel_wf M k' qs'" "same_env k k'" "tcbs k' = (tcbs k)(t := (tcbs k t)\<lparr>priority := prio\<rparr>)"
    and cur: "\<And>a p. current qs a p \<Longrightarrow> a \<noteq> t \<Longrightarrow> thread_is_active (tcbs k' t) \<longrightarrow> p \<le> unat prio \<Longrightarrow> current qs' a p"
  shows "step_ok M k (if sched_active_thread k' = Some t \<or> (case sched_active_thread k' of
      Some a \<Rightarrow> priority (tcbs k' a) > prio \<and> thread_is_active (tcbs k' t) | None \<Rightarrow> False)
    then thread_yield_higher k' else k')" (is "step_ok M k (if ?y then _ else _)")
proof (cases ?y)
  case True
  with step_ok_yield [OF k'(1), of k] k'(2) show ?thesis by (simp add: same_env_def)
next
  case False
  have "current qs' a (unat (priority (tcbs k' a)))"
    if a: "sched_active_thread k = Some a" "current qs a (unat (priority (tcbs k a)))" for a
  proof -
    have "a \<noteq> t" using False k'(2) a by (auto simp: same_env_def)
    with False k' a show ?thesis by (auto intro!: cur simp: same_env_def word_less_nat_alt)
  qed
  with sched k'(2) have "scheduled k' qs'" by (auto simp: scheduled_def same_env_def)
  with k'(1,2) have "step_ok M k k'" by (intro step_okI) (simp_all add: same_env_def)
  with False show ?thesis by simp
qed

lemma sched_change_priority_ok:
  assumes wf: "kernel_wf M k qs" and sched: "scheduled k qs" and p: "unat prio < SCHED_PRIO_LEVELS"
    and first: "runnable k t \<Longrightarrow> \<exists>ts. qs (runq k t) = t # ts"
  shows "valid (sched_change_priority t prio k) (step_ok M k)"
proof (cases "priority (tcbs k t) = prio")
  case True
  have "step_ok M k k" using wf sched by (auto simp: step_ok_def)
  with p True show ?thesis by (simp add: sched_change_priority_def)
next
  case ne: False
  show ?thesis
  proof (cases "runnable k t")
    case False
    have "same_env k (upd_tcb t (priority_update (\<lambda>_. prio)) k)"
      "tcbs (upd_tcb t (priority_update (\<lambda>_. prio)) k) = (tcbs k)(t := (tcbs k t)\<lparr>priority := prio\<rparr>)"
      by (simp_all add: same_env_def upd_tcb_def)
    from priority_changed_ok [OF sched wf_blocked_priority [OF wf False p] this] p ne False show ?thesis
      by (simp add: sched_change_priority_def thread_is_active_def runnable_def Let_def)
  next
    case True
    from first [OF True] obtain ts where ts: "qs (runq k t) = t # ts" by blast
    let ?q = "qs(runq k t := ts, Runqueue (unat prio) := qs (Runqueue (unat prio)) @ [t])"
    have r: "runq k t \<noteq> Runqueue (unat prio)" using ne by (auto simp: runq_def dest: unsigned_word_eqI)
    have cur: "current ?q a p" if "current qs a p" "a \<noteq> t" "p \<le> unat prio" for a p
      using current_append [OF current_remove [OF that(1) ts [unfolded runq_def]] that(3), of "[t]"] that(2) r
      by (simp add: runq_def)
    have act: "thread_is_active (tcbs k t\<lparr>priority := prio\<rparr>)"
      using True by (simp add: thread_is_active_def runnable_def)
    have "valid (runqueue_pop t k) (\<lambda>k1. let k' = upd_tcb t (priority_update (\<lambda>_. prio)) (runqueue_push t prio k1)
        in step_ok M k (if sched_active_thread k' = Some t \<or> (case sched_active_thread k' of
            Some a \<Rightarrow> priority (tcbs k' a) > prio \<and> thread_is_active (tcbs k' t) | None \<Rightarrow> False)
          then thread_yield_higher k' else k'))"
      unfolding Let_def
      by (rule valid_mono [OF wf_change_priority [OF wf ts p ne, unfolded Let_def]],
          rule priority_changed_ok [OF sched, where qs' = ?q]) (use act in \<open>auto intro!: cur\<close>)
    with p ne True show ?thesis
      by (simp add: sched_change_priority_def thread_is_active_def runnable_def Let_def)
  qed
qed

section \<open>Thread flags\<close>

text \<open>Changes of messages and of parts of the control blocks that concern no queue, and a wake-up that requests the scheduler.\<close>

definition quiet :: "kernel \<Rightarrow> kernel \<Rightarrow> bool" where
  "quiet k k' \<longleftrightarrow> links k' = links k \<and> runqueue_bitcache k' = runqueue_bitcache k
     \<and> (\<forall>t. status (tcbs k' t) = status (tcbs k t) \<and> priority (tcbs k' t) = priority (tcbs k t))
     \<and> in_irq k' = in_irq k \<and> pendsv k' = pendsv k \<and> sched_context_switch_request k' = sched_context_switch_request k
     \<and> sched_active_thread k' = sched_active_thread k \<and> sched_active_pid k' = sched_active_pid k
     \<and> sched_threads k' = sched_threads k"

definition woken :: "(u32 \<Rightarrow> bool) \<Rightarrow> kernel \<Rightarrow> kernel \<Rightarrow> bool" where
  "woken M k k' \<longleftrightarrow> (\<exists>qs'. kernel_wf M k' qs') \<and> sched_context_switch_request k'
     \<and> in_irq k' = in_irq k \<and> sched_active_thread k' = sched_active_thread k"

lemma quiet_refl [simp]: "quiet k k"
  by (simp add: quiet_def)

lemma quiet_trans: "quiet k k' \<Longrightarrow> quiet k' k'' \<Longrightarrow> quiet k k''"
  by (simp add: quiet_def)

lemma quiet_upd [simp]:
  "(\<And>th. status (f th) = status th) \<Longrightarrow> (\<And>th. priority (f th) = priority th) \<Longrightarrow> quiet k (upd_tcb t f k)"
  "quiet k (k\<lparr>msgs := m\<rparr>)" "quiet k (set_sender_pid a p k)"
  by (simp_all add: quiet_def upd_tcb_def set_sender_pid_def)

lemma quiet_upd_trans:
  "quiet k k' \<Longrightarrow> (\<And>th. status (f th) = status th) \<Longrightarrow> (\<And>th. priority (f th) = priority th) \<Longrightarrow> quiet k (upd_tcb t f k')"
  "quiet k k' \<Longrightarrow> quiet k (k'\<lparr>msgs := m\<rparr>)"
  by (simp_all add: quiet_def upd_tcb_def)

lemma quiet_wf: "quiet k k' \<Longrightarrow> kernel_wf M k' qs = kernel_wf M k qs"
  by (intro kernel_wf_cong) (simp_all add: quiet_def)

lemma quiet_scheduled: "quiet k k' \<Longrightarrow> scheduled k' qs = scheduled k qs"
  by (simp add: quiet_def scheduled_def)

lemma quiet_leads: "quiet k k' \<Longrightarrow> leads M k' qs me = leads M k qs me"
  using quiet_wf [of k k' M qs] by (simp add: leads_def quiet_def runq_def)

lemma quiet_step: "quiet k k' \<Longrightarrow> step_ok M k' = step_ok M k"
  by (intro ext) (simp add: quiet_def step_ok_def)

lemma quiet_woken: "quiet k k' \<Longrightarrow> woken M k' = woken M k"
  by (intro ext) (simp add: quiet_def woken_def)

lemma quiet_same: "kernel_wf M k qs \<Longrightarrow> scheduled k qs \<Longrightarrow> quiet k k' \<Longrightarrow> step_ok M k k'"
  using quiet_wf [of k k' M qs] quiet_scheduled [of k k' qs]
  by (intro step_okI [of M k' qs]) (simp_all add: quiet_def)

lemma woken_yield: "woken M k k' \<Longrightarrow> step_ok M k (thread_yield_higher k')"
  by (auto simp: woken_def intro: step_ok_yield)

lemma woken_irq: "woken M k k' \<Longrightarrow> in_irq k \<Longrightarrow> step_ok M k k'"
  by (auto simp: woken_def step_ok_def scheduled_def)

definition flag_blocked :: "thread_t \<Rightarrow> bool" where
  "flag_blocked th \<longleftrightarrow> status th = STATUS_FLAG_BLOCKED_ANY \<or> status th = STATUS_FLAG_BLOCKED_ALL"

lemma thread_flags_wake_ok:
  assumes "kernel_wf M k qs"
  shows "valid (thread_flags_wake t k) (\<lambda>(w, k'). if w = 0 then k' = k else woken M k k' \<and> flag_blocked (tcbs k t))"
proof (cases "flag_blocked (tcbs k t)")
  case True
  then have un: "t \<notin> set (qs q)" for q
    by (intro unlisted_no_queue [OF assms]) (auto simp: flag_blocked_def unlisted_def)
  have "valid (sched_set_status t STATUS_PENDING k) (\<lambda>k'. woken M k (k'\<lparr>sched_context_switch_request := True\<rparr>))"
    by (rule valid_mono [OF wf_wake [where st = STATUS_PENDING, OF assms _ un]]) (auto simp: woken_def same_env_def)
  with True show ?thesis by (simp add: thread_flags_wake_def Let_def)
next
  case False
  then show ?thesis
    by (cases "status (tcbs k t)") (simp_all add: thread_flags_wake_def flag_blocked_def Let_def)
qed

lemma thread_flags_set_ok:
  assumes "kernel_wf M k qs" "scheduled k qs"
  shows "valid (thread_flags_set t fmask k) (step_ok M k)"
proof -
  let ?k = "upd_tcb t (tflags_update (\<lambda>f. f OR fmask)) k"
  have q: "quiet k ?k" by simp
  have "valid (thread_flags_wake t ?k) (\<lambda>(w, k'). step_ok M k (if w \<noteq> 0 then thread_yield_higher k' else k'))"
    using thread_flags_wake_ok [of M ?k qs t] assms quiet_wf [OF q, of M qs] quiet_same [OF assms q]
      woken_yield [of M ?k] quiet_step [OF q, of M]
    by (auto simp: valid_def split: if_splits)
  then show ?thesis by (simp add: thread_flags_set_def case_prod_unfold)
qed

lemma thread_flags_wait_ok:
  assumes "leads M k qs me" "st < STATUS_ON_RUNQUEUE"
  shows "valid (thread_flags_wait fmask me st k) (step_ok M k)"
proof -
  let ?k = "upd_tcb me (wait_data_update (\<lambda>_. ucast fmask)) k"
  have "leads M ?k qs me" using assms(1) by (subst quiet_leads [of k]) simp_all
  from leads_sleep [OF this assms(2), of k] show ?thesis by (simp add: thread_flags_wait_def upd_tcb_def)
qed

lemma thread_flags_ok:
  assumes "leads M k qs me" "scheduled k qs"
  shows "valid (thread_flags_clear fmask k) (\<lambda>(_, k'). step_ok M k k')"
    "valid (thread_flags_wait_any fmask k) (\<lambda>(_, k'). step_ok M k k')"
    "valid (thread_flags_wait_one fmask k) (\<lambda>(_, k'). step_ok M k k')"
    "valid (thread_flags_wait_all fmask k) (\<lambda>(_, k'). step_ok M k k')"
proof -
  have act: "sched_active_thread k = Some me" and wf: "kernel_wf M k qs" using assms(1) by (simp_all add: leads_def)
  have clr: "step_ok M k (snd (thread_flags_clear_atomic me f k))" for f
    by (rule quiet_same [OF wf assms(2)]) (simp add: thread_flags_clear_atomic_def Let_def)
  note w = thread_flags_wait_ok [OF assms(1), of STATUS_FLAG_BLOCKED_ANY fmask]
    thread_flags_wait_ok [OF assms(1), of STATUS_FLAG_BLOCKED_ALL fmask]
  show "valid (thread_flags_clear fmask k) (\<lambda>(_, k'). step_ok M k k')"
    using clr act by (simp add: thread_flags_clear_def case_prod_unfold)
  show "valid (thread_flags_wait_any fmask k) (\<lambda>(_, k'). step_ok M k k')"
    using clr act w by (simp add: thread_flags_wait_any_def thread_flags_wait_any_internal_def case_prod_unfold)
  show "valid (thread_flags_wait_one fmask k) (\<lambda>(_, k'). step_ok M k k')"
    using clr act w by (simp add: thread_flags_wait_one_def thread_flags_wait_any_internal_def
        thread_flags_wait_one_rest_def case_prod_unfold Let_def)
  show "valid (thread_flags_wait_all fmask k) (\<lambda>(_, k'). step_ok M k k')"
    using clr act w by (simp add: thread_flags_wait_all_def case_prod_unfold)
qed

section \<open>Messages\<close>

lemma upd_tcb_env [simp]:
  "in_irq (upd_tcb t f k) = in_irq k" "sched_active_thread (upd_tcb t f k) = sched_active_thread k"
  "links (upd_tcb t f k) = links k" "sched_threads (upd_tcb t f k) = sched_threads k"
  "sched_context_switch_request (upd_tcb t f k) = sched_context_switch_request k"
  by (simp_all add: upd_tcb_def)

text \<open>Queueing a message changes no queue of threads unless it wakes up a thread that waits for a flag.\<close>

lemma queue_msg_ok:
  assumes "kernel_wf M k qs"
  shows "valid (queue_msg target m k) (\<lambda>(r, k'). quiet k k' \<and> (r = 0 \<or> r = 1)
     \<or> r = 1 \<and> woken M k k' \<and> flag_blocked (tcbs k target))"
proof -
  obtain n cib where c: "cib_put (msg_queue (tcbs k target)) = (n, cib)" by force
  let ?k1 = "upd_tcb target (msg_queue_update (\<lambda>_. cib)) k"
  let ?k2 = "?k1\<lparr>msgs := (msgs ?k1)(msg_slot (msg_array (tcbs ?k1 target)) n := msgs ?k1 m)\<rparr>"
  let ?k3 = "upd_tcb target (tflags_update (\<lambda>f. f OR THREAD_FLAG_MSG_WAITING)) ?k2"
  have q1: "quiet k ?k1" by simp
  have q: "quiet k ?k3" by (intro quiet_upd_trans) simp_all
  have fb: "flag_blocked (tcbs ?k3 target) = flag_blocked (tcbs k target)" by (simp add: flag_blocked_def upd_tcb_def)
  have "valid (thread_flags_wake target ?k3) (\<lambda>(_, k'). quiet k k' \<or> woken M k k' \<and> flag_blocked (tcbs k target))"
    using thread_flags_wake_ok [of M ?k3 qs target] quiet_wf [OF q, of M qs] quiet_woken [OF q, of M] q fb assms
    by (auto simp: valid_def split: if_splits)
  then have "valid (ebind (thread_flags_wake target ?k3) (\<lambda>(_, k). Inr (1 :: int, k))) (\<lambda>(r, k'). quiet k k' \<and> (r = 0 \<or> r = 1)
     \<or> r = 1 \<and> woken M k k' \<and> flag_blocked (tcbs k target))"
    unfolding valid_ebind by (rule valid_mono) auto
  then show ?thesis using q1 by (simp add: queue_msg_def c Let_def)
qed

lemma msg_send_to_self_ok:
  assumes "leads M k qs me" "scheduled k qs"
  shows "valid (msg_send_to_self m k) (\<lambda>(_, k'). step_ok M k k')"
proof -
  let ?k = "set_sender_pid m (sched_active_pid k) k"
  have wf: "kernel_wf M k qs" and act: "sched_active_thread k = Some me" using assms(1) by (simp_all add: leads_def)
  have "runnable k me" using assms(1) inv_runnable [OF wf_inv [OF wf], of me] by (auto simp: leads_def)
  then have "\<not> flag_blocked (tcbs ?k me)"
    by (auto simp: flag_blocked_def runnable_def set_sender_pid_def less_eq_thread_status_t_def)
  with queue_msg_ok [of M ?k qs me m] wf have "valid (queue_msg me m ?k) (\<lambda>(_, k'). quiet ?k k')"
    by (auto simp: valid_def)
  then have "valid (queue_msg me m ?k) (\<lambda>(_, k'). step_ok M k k')"
    by (rule valid_mono) (auto intro!: quiet_same [OF wf assms(2)] intro: quiet_trans [OF quiet_upd(3)])
  with act show ?thesis by (simp add: msg_send_to_self_def Let_def set_sender_pid_def)
qed

lemma msg_copy_ok:
  assumes "kernel_wf M k qs" "\<And>q. t \<notin> set (qs q)"
  shows "valid (msg_copy_to_waiting m t k) (\<lambda>k'. (\<exists>qs'. kernel_wf M k' qs') \<and> in_irq k' = in_irq k
     \<and> sched_active_thread k' = sched_active_thread k)"
proof -
  let ?k = "k\<lparr>msgs := (msgs k)(wait_data (tcbs k t) := msgs k m)\<rparr>"
  have wf: "kernel_wf M ?k qs" using assms(1) by simp
  show ?thesis unfolding msg_copy_to_waiting_def Let_def
    by (rule valid_mono [OF wf_wake [where st = STATUS_PENDING, OF wf _ assms(2)]]) (auto simp: same_env_def)
qed

lemma receiver_unlisted:
  "kernel_wf M k qs \<Longrightarrow> status (tcbs k t) = STATUS_RECEIVE_BLOCKED \<Longrightarrow> t \<notin> set (qs q)"
  using unlisted_no_queue [of M k qs t q] by (simp add: unlisted_def)

lemma thread_get_table: "in_thread_table p \<Longrightarrow> thread_get_unchecked k p = Inr (sched_threads k p)"
  by (simp add: thread_get_unchecked_def)

lemma msg_send_oneway_ok:
  assumes "kernel_wf M k qs" "scheduled k qs" "in_thread_table p"
  shows "valid (msg_send_oneway m p k) (\<lambda>(_, k'). \<exists>qs'. kernel_wf M k' qs' \<and> scheduled k' qs' \<and> in_irq k' = in_irq k)"
proof (cases "sched_threads k p")
  case None
  with assms show ?thesis by (auto simp: msg_send_oneway_def thread_get_table)
next
  case (Some t)
  show ?thesis
  proof (cases "status (tcbs k t) = STATUS_RECEIVE_BLOCKED")
    case True
    from msg_copy_ok [OF assms(1) receiver_unlisted [OF assms(1) True], of m]
    have "valid (msg_copy_to_waiting m t k) (\<lambda>k'. \<exists>qs'. kernel_wf M (k'\<lparr>sched_context_switch_request := True\<rparr>) qs'
        \<and> scheduled (k'\<lparr>sched_context_switch_request := True\<rparr>) qs' \<and> in_irq k' = in_irq k)"
      by (rule valid_mono) (auto simp: scheduled_def)
    with Some True assms(3) show ?thesis by (simp add: msg_send_oneway_def thread_get_table)
  next
    case False
    have "valid (queue_msg t m k) (\<lambda>(_, k'). \<exists>qs'. kernel_wf M k' qs' \<and> scheduled k' qs' \<and> in_irq k' = in_irq k)"
    proof (rule valid_mono [OF queue_msg_ok [OF assms(1), of t m]], clarify)
      fix r k' assume "quiet k k' \<and> (r = 0 \<or> r = 1) \<or> r = (1 :: int) \<and> woken M k k' \<and> flag_blocked (tcbs k t)"
      then show "\<exists>qs'. kernel_wf M k' qs' \<and> scheduled k' qs' \<and> in_irq k' = in_irq k"
      proof
        assume q: "quiet k k' \<and> (r = 0 \<or> r = 1)"
        then show ?thesis using assms quiet_wf [of k k' M qs] quiet_scheduled [of k k' qs] by (auto simp: quiet_def)
      qed (auto simp: woken_def scheduled_def)
    qed
    with Some False assms(3) show ?thesis by (simp add: msg_send_oneway_def thread_get_table)
  qed
qed

lemma msg_send_int_ok:
  assumes "kernel_wf M k qs" "scheduled k qs" "in_irq k" "in_thread_table p"
  shows "valid (msg_send_int m p k) (\<lambda>(_, k'). step_ok M k k')"
proof -
  let ?k = "set_sender_pid m KERNEL_PID_ISR k"
  have "kernel_wf M ?k qs" "scheduled ?k qs" "in_irq ?k"
    using assms quiet_scheduled [of k ?k qs] by (simp_all add: set_sender_pid_def)
  from msg_send_oneway_ok [OF this(1,2) assms(4), of m] this(3) assms(3) show ?thesis
    unfolding msg_send_int_def by (elim valid_mono) (auto simp: step_ok_def)
qed

text \<open>The sender of a message: a running thread, or one that has just been blocked for the reply.\<close>

definition sender :: "(u32 \<Rightarrow> bool) \<Rightarrow> kernel \<Rightarrow> (list_node \<Rightarrow> tcb list) \<Rightarrow> tcb \<Rightarrow> bool" where
  "sender M k qs me \<longleftrightarrow> leads M k qs me \<and> scheduled k qs
     \<or> kernel_wf M k qs \<and> sched_active_thread k = Some me \<and> status (tcbs k me) = STATUS_REPLY_BLOCKED \<and> (\<forall>q. me \<notin> set (qs q))"

lemma sender_wf: "sender M k qs me \<Longrightarrow> kernel_wf M k qs \<and> sched_active_thread k = Some me"
  by (auto simp: sender_def leads_def)

lemma quiet_sender: "quiet k k' \<Longrightarrow> sender M k' qs me = sender M k qs me"
  using quiet_leads [of k k' M qs me] quiet_wf [of k k' M qs] quiet_scheduled [of k k' qs]
  by (simp add: sender_def quiet_def)

lemma sender_waits:
  assumes snd: "sender M k qs me"
  shows "valid (sched_set_status me (if status (tcbs k me) = STATUS_REPLY_BLOCKED then STATUS_REPLY_BLOCKED
      else STATUS_SEND_BLOCKED) k) (\<lambda>k1. ends (thread_add_to_list (Msg_waiters t) me k1)
        (\<lambda>k'. (\<exists>qs'. kernel_wf M k' qs') \<and> in_irq k' = in_irq k))"
proof -
  have wf: "kernel_wf M k qs" using sender_wf [OF snd] by simp
  have h: "links k (Msg_waiters t) \<noteq> Some Mutex_locked" using wf by (simp add: kernel_wf_def heads_ok_def)
  show ?thesis
  proof (cases "leads M k qs me")
    case True
    have "runnable k me" using True inv_runnable [OF wf_inv [OF wf], of me] by (auto simp: leads_def)
    then have "status (tcbs k me) \<noteq> STATUS_REPLY_BLOCKED" by (auto simp: runnable_def less_eq_thread_status_t_def)
    moreover have "valid (sched_set_status me STATUS_SEND_BLOCKED k) (\<lambda>k1. ends (thread_add_to_list (Msg_waiters t) me k1)
        (\<lambda>k'. (\<exists>qs'. kernel_wf M k' qs') \<and> in_irq k' = in_irq k))"
      by (rule valid_mono [OF leads_wait [OF True _ h]])
        (auto elim: ends_mono simp: same_env_def)
    ultimately show ?thesis by simp
  next
    case False
    with snd have st: "status (tcbs k me) = STATUS_REPLY_BLOCKED" and un: "\<And>q. me \<notin> set (qs q)" by (auto simp: sender_def)
    have "valid (sched_set_status me STATUS_REPLY_BLOCKED k) (\<lambda>k1. ends (thread_add_to_list (Msg_waiters t) me k1)
        (\<lambda>k'. (\<exists>qs'. kernel_wf M k' qs') \<and> in_irq k' = in_irq k))"
    proof (rule valid_mono [OF wf_keep [where st = STATUS_REPLY_BLOCKED, OF wf]])
      fix k1 assume "kernel_wf M k1 qs \<and> k1 = upd_tcb me (status_update (\<lambda>_. STATUS_REPLY_BLOCKED)) k"
      then have k1: "kernel_wf M k1 qs" "links k1 (Msg_waiters t) \<noteq> Some Mutex_locked"
        "status (tcbs k1 me) \<in> wait_states (Msg_waiters t)" "in_irq k1 = in_irq k" using h by (auto simp: upd_tcb_def)
      show "ends (thread_add_to_list (Msg_waiters t) me k1) (\<lambda>k'. (\<exists>qs'. kernel_wf M k' qs') \<and> in_irq k' = in_irq k)"
        by (rule ends_mono [OF wf_add [OF k1(1) _ k1(2) un k1(3)]]) (use k1(4) in \<open>auto simp: same_env_def\<close>)
    qed (use st un in \<open>simp_all add: runnable_def less_eq_thread_status_t_def\<close>)
    with st show ?thesis by simp
  qed
qed

lemma msg_send_block_ok:
  assumes "sender M k qs me"
  shows "ends (msg_send_block m t me k) (\<lambda>(_, k'). step_ok M k k')"
proof -
  let ?k = "upd_tcb me (wait_data_update (\<lambda>_. m)) k"
  let ?st = "if status (tcbs ?k me) = STATUS_REPLY_BLOCKED then STATUS_REPLY_BLOCKED else STATUS_SEND_BLOCKED"
  let ?f = "tflags_update (\<lambda>f. f OR THREAD_FLAG_MSG_WAITING)"
  have "sender M ?k qs me" using assms by (subst quiet_sender [of k]) simp_all
  note w = sender_waits [OF this, of t]
  have "valid (sched_set_status me ?st ?k) (\<lambda>k1. ends (thread_add_to_list (Msg_waiters t) me k1)
      (\<lambda>k2. valid (thread_flags_wake t (upd_tcb t ?f k2)) (\<lambda>(_, k3). step_ok M k (thread_yield_higher k3))))"
  proof (rule valid_mono [OF w], erule ends_mono, clarify)
    fix k2 qs' assume wf: "kernel_wf M k2 qs'" and irq: "in_irq k2 = in_irq ?k"
    have "kernel_wf M (upd_tcb t ?f k2) qs'" using wf by simp
    from thread_flags_wake_ok [OF this, of t]
    show "valid (thread_flags_wake t (upd_tcb t ?f k2)) (\<lambda>(_, k3). step_ok M k (thread_yield_higher k3))"
    proof (rule valid_mono, clarify)
      fix w k3 assume "if w = 0 then k3 = upd_tcb t ?f k2 else woken M (upd_tcb t ?f k2) k3 \<and> flag_blocked (tcbs (upd_tcb t ?f k2) t)"
      then have "(\<exists>qs'. kernel_wf M k3 qs') \<and> in_irq k3 = in_irq k"
        using wf irq by (auto simp: woken_def split: if_splits)
      then show "step_ok M k (thread_yield_higher k3)" by (auto intro: step_ok_yield)
    qed
  qed
  then show ?thesis by (simp add: msg_send_block_def Let_def case_prod_unfold)
qed

lemma sender_idle:
  assumes "sender M k qs me" "status (tcbs k me) \<noteq> STATUS_REPLY_BLOCKED" "quiet k k'"
  shows "step_ok M k k'"
  using assms(1,2) quiet_same [OF _ _ assms(3)] by (auto simp: sender_def leads_def)

text \<open>The target does not wait for a message: it is queued, refused, or the sender waits.\<close>

lemma msg_send_unready_ok:
  assumes snd: "sender M k qs me" and blk: "status (tcbs k me) = STATUS_REPLY_BLOCKED \<Longrightarrow> block"
  shows "valid (queue_msg t m k) (\<lambda>(queued, k1). ends
     (if queued \<noteq> (0 :: int) then
        Some (deref (sched_active_thread k1) (\<lambda>me. Inr (1 :: int, if status (tcbs k1 me) = STATUS_REPLY_BLOCKED
          \<or> sched_context_switch_request k1 then thread_yield_higher k1 else k1)))
      else if \<not> block then Some (Inr (0, k1))
      else case sched_active_thread k1 of None \<Rightarrow> Some (Inl NullDeref) | Some me \<Rightarrow> msg_send_block m t me k1)
     (\<lambda>(_, k'). step_ok M k k'))"
proof (rule valid_mono [OF queue_msg_ok [of M k qs t m]], use sender_wf [OF snd] in simp, clarify)
  fix r :: int and k1
  have act: "sched_active_thread k = Some me" using sender_wf [OF snd] by simp
  assume "quiet k k1 \<and> (r = 0 \<or> r = 1) \<or> r = 1 \<and> woken M k k1 \<and> flag_blocked (tcbs k t)"
  then show "ends (if r \<noteq> 0 then
        Some (deref (sched_active_thread k1) (\<lambda>me. Inr (1 :: int, if status (tcbs k1 me) = STATUS_REPLY_BLOCKED
          \<or> sched_context_switch_request k1 then thread_yield_higher k1 else k1)))
      else if \<not> block then Some (Inr (0, k1))
      else case sched_active_thread k1 of None \<Rightarrow> Some (Inl NullDeref) | Some me \<Rightarrow> msg_send_block m t me k1)
     (\<lambda>(_, k'). step_ok M k k')"
  proof
    assume q: "quiet k k1 \<and> (r = 0 \<or> r = 1)"
    have a1: "sched_active_thread k1 = Some me" "status (tcbs k1 me) = status (tcbs k me)" "in_irq k1 = in_irq k"
      using q act by (simp_all add: quiet_def)
    have snd1: "sender M k1 qs me" using snd quiet_sender [of k k1] q by simp
    have "ends (msg_send_block m t me k1) (\<lambda>(_, k'). step_ok M k k')"
      using msg_send_block_ok [OF snd1, of m t] quiet_step [of k k1 M] q by simp
    moreover have "step_ok M k (thread_yield_higher k1)"
      using sender_wf [OF snd1] a1(3) by (intro step_ok_yield [of M k1 qs]) simp_all
    ultimately show ?thesis using sender_idle [OF snd, of k1] blk q a1 by auto
  next
    assume w: "r = 1 \<and> woken M k k1 \<and> flag_blocked (tcbs k t)"
    then have "step_ok M k (thread_yield_higher k1)" "sched_active_thread k1 = Some me" "sched_context_switch_request k1"
      using woken_yield [of M k k1] act by (auto simp: woken_def)
    with w show ?thesis by simp
  qed
qed

lemma msg_send_internal_ok:
  assumes snd: "sender M k qs me" and p: "in_thread_table p"
    and ex: "status (tcbs k me) = STATUS_REPLY_BLOCKED \<Longrightarrow> block \<and> sched_threads k p \<noteq> None"
  shows "ends (msg_send_internal m p block k) (\<lambda>(_, k'). step_ok M k k')"
proof -
  let ?k = "set_sender_pid m (sched_active_pid k) k"
  have q: "quiet k ?k" by simp
  have snd': "sender M ?k qs me" using snd by (subst quiet_sender [OF q])
  have wf: "kernel_wf M ?k qs" using sender_wf [OF snd'] by simp
  have get: "thread_get_unchecked ?k p = Inr (sched_threads k p)" "tcbs ?k = tcbs k" "in_irq ?k = in_irq k"
    using p by (simp_all add: thread_get_table set_sender_pid_def)
  show ?thesis
  proof (cases "sched_threads k p")
    case None
    with ex sender_idle [OF snd _ q] show ?thesis by (auto simp: msg_send_internal_def Let_def get)
  next
    case (Some t)
    have "valid (msg_copy_to_waiting m t ?k) (\<lambda>k'. step_ok M k (thread_yield_higher k'))"
      if "status (tcbs k t) = STATUS_RECEIVE_BLOCKED"
      by (rule valid_mono [OF msg_copy_ok [OF wf receiver_unlisted [OF wf]]])
        (use that in \<open>auto intro!: step_ok_yield simp: get\<close>)
    with Some msg_send_unready_ok [OF snd', of block t m] ex show ?thesis
      by (simp add: msg_send_internal_def Let_def get quiet_step [OF q] case_prod_unfold)
  qed
qed

lemma leads_sender:
  assumes "leads M k qs me" "scheduled k qs"
  shows "sender M k qs me" "status (tcbs k me) \<noteq> STATUS_REPLY_BLOCKED"
proof -
  have "runnable k me" using assms(1) inv_runnable [OF wf_inv, of M k qs me] by (auto simp: leads_def)
  then show "status (tcbs k me) \<noteq> STATUS_REPLY_BLOCKED" by (auto simp: runnable_def less_eq_thread_status_t_def)
qed (use assms in \<open>simp add: sender_def\<close>)

lemma msg_send_ok:
  assumes "kernel_wf M k qs" "scheduled k qs" "\<not> in_irq k \<Longrightarrow> \<exists>me. leads M k qs me" "in_thread_table p"
  shows "ends (msg_send m p k) (\<lambda>(_, k'). step_ok M k k')" "ends (msg_try_send m p k) (\<lambda>(_, k'). step_ok M k k')"
proof -
  have "ends (msg_send m p k) (\<lambda>(_, k'). step_ok M k k') \<and> ends (msg_try_send m p k) (\<lambda>(_, k'). step_ok M k k')"
  proof (cases "in_irq k")
    case True
    with msg_send_int_ok [OF assms(1,2) _ assms(4)] show ?thesis by (simp add: msg_send_def msg_try_send_def)
  next
    case False
    with assms(3) obtain me where me: "leads M k qs me" by blast
    note s = leads_sender [OF me assms(2)]
    from s(2) msg_send_internal_ok [OF s(1) assms(4), of _ m] msg_send_to_self_ok [OF me assms(2), of m] False
    show ?thesis by (simp add: msg_send_def msg_try_send_def)
  qed
  then show "ends (msg_send m p k) (\<lambda>(_, k'). step_ok M k k')" "ends (msg_try_send m p k) (\<lambda>(_, k'). step_ok M k k')"
    by simp_all
qed

lemma msg_send_receive_ok:
  assumes "leads M k qs me" "sched_active_pid k \<noteq> p" "in_thread_table p" "sched_threads k p \<noteq> None"
  shows "ends (msg_send_receive m r p k) (\<lambda>(_, k'). step_ok M k k')"
proof -
  have act: "sched_active_thread k = Some me" using assms(1) by (simp add: leads_def)
  let ?g = "\<lambda>k1. let k2 = upd_tcb me (wait_data_update (\<lambda>_. r)) k1 in k2\<lparr>msgs := (msgs k2)(r := msgs k2 m)\<rparr>"
  have "valid (sched_set_status me STATUS_REPLY_BLOCKED k) (\<lambda>k1. ends (msg_send_internal r p True (?g k1)) (\<lambda>(_, k'). step_ok M k k'))"
  proof (rule valid_mono [OF leads_block [OF assms(1)]], simp, clarify)
    fix k1 qs' assume k1: "same_env k k1" "tcbs k1 = (tcbs k)(me := (tcbs k me)\<lparr>status := STATUS_REPLY_BLOCKED\<rparr>)"
      "kernel_wf M k1 qs'" "\<forall>q. me \<notin> set (qs' q)"
    then have "sender M k1 qs' me" using act by (simp add: sender_def same_env_def)
    moreover have q: "quiet k1 (?g k1)" unfolding Let_def by (intro quiet_upd_trans) simp_all
    ultimately have "sender M (?g k1) qs' me" by (simp add: quiet_sender)
    moreover have "sched_threads (?g k1) p \<noteq> None"
      using assms(4) k1(1) q by (simp add: quiet_def same_env_def)
    ultimately have "ends (msg_send_internal r p True (?g k1)) (\<lambda>(_, k'). step_ok M (?g k1) k')"
      using assms(3) by (intro msg_send_internal_ok) auto
    moreover have "step_ok M (?g k1) = step_ok M k"
      using quiet_step [OF q, of M] k1(1) by (auto simp: step_ok_def same_env_def fun_eq_iff)
    ultimately show "ends (msg_send_internal r p True (?g k1)) (\<lambda>(_, k'). step_ok M k k')" by simp
  qed
  with assms(2) act show ?thesis by (simp add: msg_send_receive_def Let_def)
qed

lemma msg_reply_ok:
  assumes wf: "kernel_wf M k qs" and sched: "scheduled k qs"
    and t: "thread_get_unchecked k (sender_pid (msgs k m)) = Inr (Some t)"
    and un: "status (tcbs k t) = STATUS_REPLY_BLOCKED \<Longrightarrow> (\<And>q. wait_head q \<Longrightarrow> t \<notin> set (qs q))"
  shows "sched_active_thread k = Some a \<Longrightarrow> valid (msg_reply m r k) (\<lambda>(_, k'). step_ok M k k')"
    "in_irq k \<Longrightarrow> valid (msg_reply_int m r k) (\<lambda>(_, k'). step_ok M k k')"
proof -
  let ?k = "k\<lparr>msgs := (msgs k)(wait_data (tcbs k t) := msgs k r)\<rparr>"
  have same: "step_ok M k k" using wf sched by (auto simp: step_ok_def)
  have q: "quiet k ?k" by simp
  have un': "t \<notin> set (qs q)" if "status (tcbs k t) = STATUS_REPLY_BLOCKED" for q
    by (rule not_waiting_no_queue [OF wf]) (use that un in \<open>auto simp: runnable_def less_eq_thread_status_t_def\<close>)
  have w: "valid (msg_copy_to_waiting r t k) (\<lambda>k'. valid (sched_switch (ucast (priority (tcbs k' t))) k') (step_ok M k))"
    if "sched_active_thread k = Some a" "status (tcbs k t) = STATUS_REPLY_BLOCKED"
    using wake_switch_ok [of M ?k qs a t STATUS_PENDING] wf sched that(1) un' [OF that(2)] quiet_scheduled [OF q] quiet_step [OF q]
    by (simp add: msg_copy_to_waiting_def Let_def)
  show "valid (msg_reply m r k) (\<lambda>(_, k'). step_ok M k k')" if "sched_active_thread k = Some a"
    using same w [OF that] t by (simp add: msg_reply_def)
  show "valid (msg_reply_int m r k) (\<lambda>(_, k'). step_ok M k k')" if "in_irq k"
  proof -
    have "valid (msg_copy_to_waiting r t k) (\<lambda>k'. step_ok M k (k'\<lparr>sched_context_switch_request := True\<rparr>))"
      if "status (tcbs k t) = STATUS_REPLY_BLOCKED"
      by (rule valid_mono [OF msg_copy_ok [OF wf un' [OF that]]])
        (use \<open>in_irq k\<close> in \<open>auto simp: step_ok_def scheduled_def\<close>)
    with same t show ?thesis by (simp add: msg_reply_int_def)
  qed
qed

text \<open>Waking a thread of the lowest priority needs no switch.\<close>

lemma wake_idle_ok:
  assumes wf: "kernel_wf M k qs" and sched: "scheduled k qs" and act: "sched_active_thread k = Some a"
    and t: "\<And>q. t \<notin> set (qs q)" and p: "\<not> (ucast (priority (tcbs k t)) :: u16) < THREAD_PRIORITY_IDLE"
  shows "valid (sched_set_status t STATUS_PENDING k) (step_ok M k)"
proof (rule valid_mono [OF wf_wake [where st = STATUS_PENDING, OF wf _ t]])
  fix k' assume k': "kernel_wf M k' (qs(runq k t := qs (runq k t) @ [t])) \<and> same_env k k'
     \<and> tcbs k' = (tcbs k)(t := (tcbs k t)\<lparr>status := STATUS_PENDING\<rparr>) \<and> same_heads k k'"
  have "\<not> priority (tcbs k t) < 15"
    using p ucast_u8_less [of "priority (tcbs k t)" 15] by (simp add: c_const)
  then have "\<not> priority (tcbs k t) < priority (tcbs k a)"
    using inv_prio [OF wf_inv [OF wf], of a] by (simp add: word_less_nat_alt)
  from scheduled_wake [OF sched _ _ act this, of k'] k'
  have "scheduled k' (qs(runq k t := qs (runq k t) @ [t]))" by simp
  with k' show "step_ok M k k'" by (intro step_okI) (auto simp: same_env_def)
qed simp

lemma msg_take_from_sender_ok:
  assumes wf: "kernel_wf M k qs" and sched: "scheduled k qs" and act: "sched_active_thread k = Some me"
    and s: "\<And>q. s \<notin> set (qs q)"
  shows "valid (msg_take_from_sender m me s qi k) (\<lambda>(_, k'). step_ok M k k')"
proof -
  obtain n cib where c: "cib_put (msg_queue (tcbs k me)) = (n, cib)" by force
  define k1 where "k1 = (if qi \<ge> 0 then upd_tcb me (msg_queue_update (\<lambda>_. cib)) k else k)"
  define m1 where "m1 = (if qi \<ge> 0 then msg_slot (msg_array (tcbs k me)) n else m)"
  define k2 where "k2 = k1\<lparr>msgs := (msgs k1)(m1 := msgs k1 (wait_data (tcbs k1 s)))\<rparr>"
  define k3 where "k3 = upd_tcb s (wait_data_update (\<lambda>_. 0)) k2"
  have q2: "quiet k k2" by (simp add: k2_def k1_def quiet_def upd_tcb_def)
  have q3: "quiet k k3" unfolding k3_def using q2 by (intro quiet_upd_trans) simp_all
  have k3: "kernel_wf M k3 qs" "scheduled k3 qs" "sched_active_thread k3 = Some me"
    using wf sched act quiet_wf [OF q3, of M qs] quiet_scheduled [OF q3, of qs] q3 by (simp_all add: quiet_def)
  have p: "valid (sched_set_status s STATUS_PENDING k3) (\<lambda>k'. priority (tcbs k' s) = priority (tcbs k3 s))"
    by (rule valid_mono [OF wf_wake [where st = STATUS_PENDING, OF k3(1) _ s]]) simp_all
  have "valid (sched_set_status s STATUS_PENDING k3) (\<lambda>k4. let sender_prio = ucast (priority (tcbs k4 s)) in
      valid (if sender_prio < THREAD_PRIORITY_IDLE then ebind (sched_switch sender_prio k4) (\<lambda>k. Inr (1 :: int, k))
             else Inr (1, k4)) (\<lambda>(_, k'). step_ok M k k'))"
  proof (cases "(ucast (priority (tcbs k3 s)) :: u16) < THREAD_PRIORITY_IDLE")
    case True
    show ?thesis
      by (rule valid_mono [OF valid_conj [OF p wake_switch_ok [where st = STATUS_PENDING, OF k3 s]]])
        (use True quiet_step [OF q3, of M] in \<open>auto simp: Let_def\<close>)
  next
    case False
    show ?thesis
      by (rule valid_mono [OF valid_conj [OF p wake_idle_ok [OF k3 s False]]])
        (use False quiet_step [OF q3, of M] in \<open>auto simp: Let_def\<close>)
  qed
  moreover have "(if qi \<ge> 0 then case cib_put (msg_queue (tcbs k me)) of (n, cib) \<Rightarrow>
      (msg_slot (msg_array (tcbs k me)) n, upd_tcb me (msg_queue_update (\<lambda>_. cib)) k) else (m, k)) = (m1, k1)"
    by (simp add: c m1_def k1_def)
  then have "msg_take_from_sender m me s qi k = (if status (tcbs k2 s) \<noteq> STATUS_REPLY_BLOCKED then
      ebind (sched_set_status s STATUS_PENDING k3) (\<lambda>k. let sender_prio = ucast (priority (tcbs k s))
        in if sender_prio < THREAD_PRIORITY_IDLE then ebind (sched_switch sender_prio k) (\<lambda>k. Inr (1, k)) else Inr (1, k))
      else Inr (1, k2))"
    by (simp add: msg_take_from_sender_def k2_def k3_def Let_def)
  ultimately show ?thesis using quiet_same [OF wf sched q2] by (simp add: Let_def)
qed

lemma msg_receive_internal_ok:
  assumes lead: "leads M k qs me" and sched: "scheduled k qs"
  shows "valid (msg_receive_internal m block k) (\<lambda>(_, k'). step_ok M k k')"
proof -
  have wf: "kernel_wf M k qs" and act: "sched_active_thread k = Some me" using lead by (simp_all add: leads_def)
  obtain qi k1 where q1: "(if thread_has_msg_queue (tcbs k me) then
      case cib_get (msg_queue (tcbs k me)) of (n, cib) \<Rightarrow> (n, upd_tcb me (msg_queue_update (\<lambda>_. cib)) k) else (-1, k)) = (qi, k1)"
    by force
  have "quiet k k1" using q1 by (auto split: if_splits prod.splits)
  define k2 where "k2 = (if qi \<ge> 0 then k1\<lparr>msgs := (msgs k1)(m := msgs k1 (msg_slot (msg_array (tcbs k1 me)) qi))\<rparr>
      else upd_tcb me (wait_data_update (\<lambda>_. m)) k1)"
  have q2: "quiet k k2" unfolding k2_def using \<open>quiet k k1\<close> by (simp add: quiet_upd_trans)
  have wf2: "kernel_wf M k2 qs" and lead2: "leads M k2 qs me" and sch2: "scheduled k2 qs"
    using wf lead sched quiet_wf [OF q2] quiet_leads [OF q2] quiet_scheduled [OF q2] by simp_all
  have h: "links k2 (Msg_waiters me) \<noteq> Some Mutex_locked" using wf2 by (simp add: kernel_wf_def heads_ok_def)
  obtain nxt h' where rm: "list_remove_head (links k2) (Msg_waiters me) = (nxt, h')" by force
  have eq: "msg_receive_internal m block k = (if \<not> block \<and> links k1 (Msg_waiters me) = None \<and> qi = -1 then Inr (-1, k1)
      else case nxt of
        None \<Rightarrow> if qi < 0 then ebind (sched_set_status me STATUS_RECEIVE_BLOCKED (k2\<lparr>links := h'\<rparr>)) (\<lambda>k. Inr (1, thread_yield_higher k))
                else Inr (1, k2\<lparr>links := h'\<rparr>)
      | Some n \<Rightarrow> deref (container_of_rq_entry n) (\<lambda>s. msg_take_from_sender m me s qi (k2\<lparr>links := h'\<rparr>)))"
    by (simp only: msg_receive_internal_def act deref_simps q1 Let_def prod.case k2_def [symmetric] rm)
  have "valid (case nxt of
        None \<Rightarrow> if qi < 0 then ebind (sched_set_status me STATUS_RECEIVE_BLOCKED (k2\<lparr>links := h'\<rparr>)) (\<lambda>k. Inr (1 :: int, thread_yield_higher k))
                else Inr (1, k2\<lparr>links := h'\<rparr>)
      | Some n \<Rightarrow> deref (container_of_rq_entry n) (\<lambda>s. msg_take_from_sender m me s qi (k2\<lparr>links := h'\<rparr>))) (\<lambda>(_, k'). step_ok M k k')"
  proof (cases "qs (Msg_waiters me)")
    case Nil
    with rm wf_empty_head [OF wf2 _ Nil h] have "nxt = None" "h' = links k2" by auto
    moreover have "in_irq k2 = in_irq k" using q2 by (simp add: quiet_def)
    ultimately show ?thesis using leads_sleep [OF lead2, of STATUS_RECEIVE_BLOCKED k] quiet_same [OF wf sched q2] by simp
  next
    case (Cons s ss)
    from wf_remove_head [OF wf2 _ Cons] rm have nxt: "nxt = Some (Rq_entry s)"
      "kernel_wf M (k2\<lparr>links := h'\<rparr>) (qs(Msg_waiters me := ss))" "\<And>q. s \<notin> set ((qs(Msg_waiters me := ss)) q)" by auto
    have "scheduled (k2\<lparr>links := h'\<rparr>) (qs(Msg_waiters me := ss))" using sch2 by (simp add: scheduled_def)
    from msg_take_from_sender_ok [OF nxt(2) this _ nxt(3), of me m qi] act q2
    show ?thesis by (simp add: nxt(1) step_ok_links quiet_step [OF q2] quiet_def)
  qed
  then show ?thesis using eq quiet_same [OF wf sched \<open>quiet k k1\<close>] by simp
qed

lemma msg_init_queue_ok:
  assumes "kernel_wf M k qs" "scheduled k qs" "sched_active_thread k = Some me" "cib_init (word_of_int num) \<noteq> None"
  shows "valid (msg_init_queue a num k) (step_ok M k)"
  using assms(3,4) quiet_same [OF assms(1,2)] by (auto simp: msg_init_queue_def)

text \<open>The loop over the subscribers of a bus.\<close>

lemma send_bus_loop_ok:
  assumes "list_at (bus_links b) e ss" "kernel_wf M k qs" "scheduled k qs"
    and pids: "\<forall>s \<in> set ss. in_thread_table (entry_pid (entries b s))"
  shows "ends (send_bus_loop b m ev (bus_links b e) c k)
     (\<lambda>(_, k'). \<exists>qs'. kernel_wf M k' qs' \<and> scheduled k' qs' \<and> in_irq k' = in_irq k)"
  using assms
proof (induction ss arbitrary: e c k qs)
  case Nil
  then show ?case by (subst send_bus_loop.simps) auto
next
  case (Cons s ss)
  from Cons.prems(1) have e: "bus_links b e = Some s" and ss: "list_at (bus_links b) s ss" by (auto simp: list_at_Cons)
  show ?case
  proof (cases "event_mask (entries b s) AND ev = 0")
    case True
    with Cons.IH [OF ss Cons.prems(2,3), of c] Cons.prems(4) e show ?thesis by (subst send_bus_loop.simps) simp
  next
    case False
    from msg_send_oneway_ok [OF Cons.prems(2,3), of "entry_pid (entries b s)" m] Cons.prems(4) obtain r k1 qs1 where k1:
      "msg_send_oneway m (entry_pid (entries b s)) k = Inr (r, k1)" "kernel_wf M k1 qs1" "scheduled k1 qs1"
      "in_irq k1 = in_irq k" by (auto simp: valid_def)
    from Cons.IH [OF ss k1(2,3), of "if r > 0 then c + 1 else c"] Cons.prems(4) e False k1(1,4) show ?thesis
      by (subst send_bus_loop.simps) simp
  qed
qed

lemma msg_send_bus_ok:
  assumes "kernel_wf M k qs" "scheduled k qs" "list_at (bus_links b) (subs bus) ss"
    and "\<forall>s \<in> set ss. in_thread_table (entry_pid (entries b s))"
  shows "ends (msg_send_bus m bus b k) (\<lambda>(_, k'). step_ok M k k')"
proof -
  let ?k = "set_sender_pid m (to_kernel_pid (pid_word (if in_irq k then KERNEL_PID_ISR else sched_active_pid k) OR MSB_BUS_PID_FLAG)) k"
  have k: "kernel_wf M ?k qs" "scheduled ?k qs" "in_irq ?k = in_irq k"
    using assms quiet_scheduled [of k ?k qs] by (simp_all add: set_sender_pid_def)
  have fin: "step_ok M k (if sched_context_switch_request k' \<and> \<not> in_irq k then thread_yield_higher k' else k')"
    if "kernel_wf M k' qs'" "scheduled k' qs'" "in_irq k' = in_irq k" for k' qs'
    using that step_ok_yield [OF that(1,3)] by (auto simp: step_ok_def)
  have "ends (send_bus_loop b m (push_bit (unat (msg_type (msgs k m) AND 31)) 1) (bus_links b (subs bus)) 0 ?k)
      (\<lambda>(_, k'). step_ok M k (if sched_context_switch_request k' \<and> \<not> in_irq k then thread_yield_higher k' else k'))"
  proof (rule ends_mono [OF send_bus_loop_ok [OF assms(3) k(1,2) assms(4)]], clarify)
    fix c k' qs' assume k': "kernel_wf M k' qs'" "scheduled k' qs'" "in_irq k' = in_irq ?k"
    show "step_ok M k (if sched_context_switch_request k' \<and> \<not> in_irq k then thread_yield_higher k' else k')"
      by (rule fin [OF k'(1,2)]) (simp add: k' k)
  qed
  then show ?thesis by (simp add: msg_send_bus_def Let_def case_prod_unfold)
qed

section \<open>Mailboxes\<close>

lemma wake_waiter_ok:
  assumes "kernel_wf M k qs" "scheduled k qs" "sched_active_thread k = Some a" "\<And>q. t \<notin> set (qs q)"
  shows "valid (wake_waiter t k) (step_ok M k)"
  using wake_switch_ok [OF assms, of STATUS_PENDING] by (simp add: wake_waiter_def)

lemma mbox_wait_ok:
  assumes "leads M k qs me" "\<not> M l"
  shows "ends (mbox_wait l k) (step_ok M k)"
proof -
  have act: "sched_active_thread k = Some me" using assms(1) by (simp add: leads_def)
  have h: "links k (Queue l) \<noteq> Some Mutex_locked" using assms by (simp add: leads_def kernel_wf_def heads_ok_def)
  have "valid (sched_set_status me STATUS_MBOX_BLOCKED k) (\<lambda>k1. ends (thread_add_to_list (Queue l) me k1)
      (\<lambda>k2. valid (thread_yield k2) (step_ok M k)))"
  proof (rule valid_mono [OF leads_wait [OF assms(1) _ h]], goal_cases)
    case (3 k1)
    then show ?case
    proof (rule ends_mono, clarify)
      fix k2 qs' assume "kernel_wf M k2 qs'" "same_env k k2"
      then show "valid (thread_yield k2) (step_ok M k)"
        using act by (intro thread_yield_ok) (simp_all add: same_env_def)
    qed
  qed simp_all
  with act show ?thesis by (simp add: mbox_wait_def)
qed

lemma mbox_put_loop_ok:
  assumes "kernel_wf M k qs" "scheduled k qs" "\<not> M (writers mb)" "blocking \<Longrightarrow> \<exists>me. leads M k qs me"
  shows "ends (mbox_put_loop mb m blocking k) (\<lambda>(_, _, k'). step_ok M k k')"
proof -
  have put: "step_ok M k (set_sender_pid m (sched_active_pid k) k\<lparr>msgs := ms\<rparr>)" for ms
    by (rule quiet_same [OF assms(1,2)]) (intro quiet_upd_trans, simp)
  have same: "step_ok M k k" using quiet_same [OF assms(1,2)] by simp
  have "blocking \<Longrightarrow> ends (mbox_wait (writers mb) k) (step_ok M k)" using assms(3,4) mbox_wait_ok by blast
  with put same show ?thesis by (simp add: mbox_put_loop_def Let_def case_prod_unfold)
qed

text \<open>With no thread on the other side a mailbox call reads nothing of the active thread, unless it has to wait.\<close>

lemma mbox_put_unwaited:
  assumes wf: "kernel_wf M k qs" and sched: "scheduled k qs" and e: "qs (Queue (readers mb)) = []"
    and M: "\<not> M (readers mb)" "\<not> M (writers mb)" and blk: "blocking \<Longrightarrow> \<exists>me. leads M k qs me"
  shows "ends (mbox_put_internal mb m blocking k) (\<lambda>(_, _, k'). step_ok M k k')"
proof -
  have h: "links k (Queue (readers mb)) \<noteq> Some Mutex_locked" using wf M by (simp add: kernel_wf_def heads_ok_def)
  from wf_empty_head [OF wf _ e h] mbox_put_loop_ok [OF wf sched M(2) blk, where m = m] show ?thesis
    by (simp add: mbox_put_internal_def)
qed

lemma mbox_put_ok:
  assumes wf: "kernel_wf M k qs" and sched: "scheduled k qs" and act: "sched_active_thread k = Some a"
    and M: "\<not> M (readers mb)" "\<not> M (writers mb)" and blk: "blocking \<Longrightarrow> \<exists>me. leads M k qs me"
  shows "ends (mbox_put_internal mb m blocking k) (\<lambda>(_, _, k'). step_ok M k k')"
proof -
  show ?thesis
  proof (cases "qs (Queue (readers mb))")
    case Nil
    then show ?thesis by (rule mbox_put_unwaited [OF wf sched _ M blk])
  next
    case (Cons t ts)
    from wf_remove_head [OF wf _ Cons] obtain h' where h':
      "list_remove_head (links k) (Queue (readers mb)) = (Some (Rq_entry t), h')"
      "kernel_wf M (k\<lparr>links := h'\<rparr>) (qs(Queue (readers mb) := ts))" "\<And>q. t \<notin> set ((qs(Queue (readers mb) := ts)) q)" by auto
    let ?k = "k\<lparr>links := h', msgs := (msgs k)(wait_data (tcbs k t) := msgs k m)\<rparr>"
    have wf': "kernel_wf M ?k (qs(Queue (readers mb) := ts))" using h'(2) by (subst kernel_wf_cong [of _ "k\<lparr>links := h'\<rparr>"]) simp_all
    have "scheduled ?k (qs(Queue (readers mb) := ts))" using sched by (simp add: scheduled_def)
    note w = wake_waiter_ok [OF wf' this _ h'(3)]
    have "step_ok M ?k = step_ok M k" by (simp add: step_ok_def fun_eq_iff)
    with w act h'(1) show ?thesis by (simp add: mbox_put_internal_def Let_def)
  qed
qed

lemma mbox_get_empty:
  assumes wf: "kernel_wf M k qs" and sched: "scheduled k qs" and av: "cib_avail (mb_cib mb) = 0"
    and M: "\<not> M (readers mb)" and blk: "blocking \<Longrightarrow> \<exists>me. leads M k qs me"
  shows "ends (mbox_get_internal mb m blocking k) (\<lambda>(_, _, k'). step_ok M k k')"
proof (cases blocking)
  case True
  with blk obtain me where me: "leads M k qs me" by blast
  then have "leads M (upd_tcb me (wait_data_update (\<lambda>_. m)) k) qs me" by (subst quiet_leads [of k]) simp_all
  from mbox_wait_ok [OF this M] me av True quiet_step [of k "upd_tcb me (wait_data_update (\<lambda>_. m)) k" M] show ?thesis
    by (simp add: mbox_get_internal_def leads_def)
qed (use av quiet_same [OF wf sched] in \<open>simp add: mbox_get_internal_def\<close>)

lemma mbox_get_unwaited:
  assumes wf: "kernel_wf M k qs" and sched: "scheduled k qs" and e: "qs (Queue (writers mb)) = []"
    and M: "\<not> M (readers mb)" "\<not> M (writers mb)" and blk: "blocking \<Longrightarrow> \<exists>me. leads M k qs me"
  shows "ends (mbox_get_internal mb m blocking k) (\<lambda>(_, _, k'). step_ok M k k')"
proof (cases "cib_avail (mb_cib mb) \<noteq> 0")
  case True
  obtain n cib where c: "cib_get_unsafe (mb_cib mb) = (n, cib)" by force
  let ?k = "k\<lparr>msgs := (msgs k)(m := msgs k (msg_slot (mb_array mb) n))\<rparr>"
  have wf': "kernel_wf M ?k qs" using wf by simp
  have h: "links ?k (Queue (writers mb)) \<noteq> Some Mutex_locked" using wf M by (simp add: kernel_wf_def heads_ok_def)
  from wf_empty_head [OF wf' _ e h] have "list_remove_head (links k) (Queue (writers mb)) = (None, links k)" by simp
  moreover have "step_ok M k ?k" by (rule quiet_same [OF wf sched]) simp
  ultimately show ?thesis using True c by (simp add: mbox_get_internal_def Let_def)
next
  case False
  then have "cib_avail (mb_cib mb) = 0" by simp
  then show ?thesis by (rule mbox_get_empty [OF wf sched _ M(1) blk])
qed

lemma mbox_get_ok:
  assumes wf: "kernel_wf M k qs" and sched: "scheduled k qs" and act: "sched_active_thread k = Some a"
    and M: "\<not> M (readers mb)" "\<not> M (writers mb)" and blk: "blocking \<Longrightarrow> \<exists>me. leads M k qs me"
  shows "ends (mbox_get_internal mb m blocking k) (\<lambda>(_, _, k'). step_ok M k k')"
proof (cases "cib_avail (mb_cib mb) = 0 \<or> qs (Queue (writers mb)) = []")
  case True
  show ?thesis
  proof (cases "qs (Queue (writers mb)) = []")
    case True
    then show ?thesis by (rule mbox_get_unwaited [OF wf sched _ M blk])
  next
    case False
    with True have av: "cib_avail (mb_cib mb) = 0" by simp
    show ?thesis by (rule mbox_get_empty [OF wf sched av M(1) blk])
  qed
next
  case False
  then obtain t ts where av: "cib_avail (mb_cib mb) \<noteq> 0" and Cons: "qs (Queue (writers mb)) = t # ts"
    by (cases "qs (Queue (writers mb))") auto
  obtain n cib where c: "cib_get_unsafe (mb_cib mb) = (n, cib)" by force
  let ?k = "k\<lparr>msgs := (msgs k)(m := msgs k (msg_slot (mb_array mb) n))\<rparr>"
  have wf': "kernel_wf M ?k qs" and sch': "scheduled ?k qs" using wf sched by (simp_all add: scheduled_def)
  have one: "step_ok M ?k = step_ok M k" by (rule quiet_step) simp
  from wf_remove_head [OF wf' _ Cons] obtain h' where h':
    "list_remove_head (links k) (Queue (writers mb)) = (Some (Rq_entry t), h')"
    "kernel_wf M (?k\<lparr>links := h'\<rparr>) (qs(Queue (writers mb) := ts))" "\<And>q. t \<notin> set ((qs(Queue (writers mb) := ts)) q)" by auto
  have "scheduled (?k\<lparr>links := h'\<rparr>) (qs(Queue (writers mb) := ts))" using sch' by (simp add: scheduled_def)
  from wake_waiter_ok [OF h'(2) this _ h'(3)] act h'(1) av c show ?thesis
    by (simp add: mbox_get_internal_def Let_def step_ok_links one)
qed

end
