(* ===== verification/Core_Kernel.thy ===== *)
theory Core_Kernel
  imports Core_Kernel_Msg
begin

text \<open>
  The kernel as a transition system.  A step is a call of a kernel function by the running thread, by an
  interrupt handler, the entry or the end of an interrupt, or a run of the scheduler in the
  \<open>PendSV\<close> exception.  A kernel call disables interrupts around its changes of the queues and is one step.
  Every reachable state is well formed, no call faults in it, and the scheduler always picks the first
  thread of the best run queue.
\<close>

section \<open>Kernel calls\<close>

datatype api =
    Yield | Sleep | Zombify | Exit
  | Wakeup int | Kill_zombie int
  | Create u32 int u8 int u32 u32 | Change_priority tcb u8
  | Mutex_lock u32 | Mutex_trylock u32 | Mutex_unlock u32 | Mutex_unlock_and_sleep u32
  | Mutex_lock_cancelable mutex_cancel_t | Mutex_cancel mutex_cancel_t
  | Cond_wait u32 u32 | Cond_signal u32 | Cond_broadcast u32
  | Flags_set tcb u16 | Flags_clear u16 | Flags_wait_any u16 | Flags_wait_one u16 | Flags_wait_all u16
  | Msg_send u32 int | Msg_try_send u32 int | Msg_send_receive u32 u32 int | Msg_send_bus u32 msg_bus_t buses
  | Msg_reply u32 u32 | Msg_reply_int u32 u32 | Msg_receive u32 | Msg_try_receive u32 | Msg_init_queue u32 int
  | Mbox_put mbox_t u32 | Mbox_try_put mbox_t u32 | Mbox_get mbox_t u32 | Mbox_try_get mbox_t u32

definition state_of :: "(c_fault + ('a \<times> kernel)) option \<Rightarrow> (c_fault + kernel) option" where
  "state_of x = obind x (\<lambda>r. Some (Inr (snd r)))"

text \<open>What a call does to the kernel; \<open>thread_stack_init\<close> is a parameter of \<open>thread_create\<close>.\<close>

fun api_exec :: "(u32 \<Rightarrow> u32 \<Rightarrow> u32 \<Rightarrow> int \<Rightarrow> u32) \<Rightarrow> api \<Rightarrow> kernel \<Rightarrow> (c_fault + kernel) option" where
  "api_exec tsi Yield k = Some (thread_yield k)"
| "api_exec tsi Sleep k = Some (thread_sleep k)"
| "api_exec tsi Zombify k = Some (thread_zombify k)"
| "api_exec tsi Exit k = Some (sched_task_exit k)"
| "api_exec tsi (Wakeup p) k = state_of (Some (thread_wakeup p k))"
| "api_exec tsi (Kill_zombie p) k = state_of (Some (thread_kill_zombie p k))"
| "api_exec tsi (Create stk sz prio fl fn arg) k = state_of (Some (thread_create tsi stk sz prio fl fn arg k))"
| "api_exec tsi (Change_priority t prio) k = Some (sched_change_priority t prio k)"
| "api_exec tsi (Mutex_lock a) k = mutex_lock a k"
| "api_exec tsi (Mutex_trylock a) k = state_of (mutex_trylock a k)"
| "api_exec tsi (Mutex_unlock a) k = Some (mutex_unlock a k)"
| "api_exec tsi (Mutex_unlock_and_sleep a) k = Some (mutex_unlock_and_sleep a k)"
| "api_exec tsi (Mutex_lock_cancelable mc) k = state_of (mutex_lock_cancelable mc k)"
| "api_exec tsi (Mutex_cancel mc) k = state_of (mutex_cancel mc k)"
| "api_exec tsi (Cond_wait c a) k = cond_wait c a k"
| "api_exec tsi (Cond_signal c) k = cond_signal c k"
| "api_exec tsi (Cond_broadcast c) k = cond_broadcast c k"
| "api_exec tsi (Flags_set t f) k = Some (thread_flags_set t f k)"
| "api_exec tsi (Flags_clear f) k = state_of (Some (thread_flags_clear f k))"
| "api_exec tsi (Flags_wait_any f) k = state_of (Some (thread_flags_wait_any f k))"
| "api_exec tsi (Flags_wait_one f) k = state_of (Some (thread_flags_wait_one f k))"
| "api_exec tsi (Flags_wait_all f) k = state_of (Some (thread_flags_wait_all f k))"
| "api_exec tsi (Msg_send m p) k = state_of (msg_send m p k)"
| "api_exec tsi (Msg_try_send m p) k = state_of (msg_try_send m p k)"
| "api_exec tsi (Msg_send_receive m r p) k = state_of (msg_send_receive m r p k)"
| "api_exec tsi (Msg_send_bus m bus b) k = state_of (msg_send_bus m bus b k)"
| "api_exec tsi (Msg_reply m r) k = state_of (Some (msg_reply m r k))"
| "api_exec tsi (Msg_reply_int m r) k = state_of (Some (msg_reply_int m r k))"
| "api_exec tsi (Msg_receive m) k = state_of (Some (msg_receive m k))"
| "api_exec tsi (Msg_try_receive m) k = state_of (Some (msg_try_receive m k))"
| "api_exec tsi (Msg_init_queue a n) k = Some (msg_init_queue a n k)"
| "api_exec tsi (Mbox_put mb m) k = state_of (obind (mbox_put mb m k) (\<lambda>(r, b, k). Some (Inr ((r, b), k))))"
| "api_exec tsi (Mbox_try_put mb m) k = state_of (obind (mbox_try_put mb m k) (\<lambda>(r, b, k). Some (Inr ((r, b), k))))"
| "api_exec tsi (Mbox_get mb m) k = state_of (obind (mbox_get mb m k) (\<lambda>(r, b, k). Some (Inr ((r, b), k))))"
| "api_exec tsi (Mbox_try_get mb m) k = state_of (obind (mbox_try_get mb m k) (\<lambda>(r, b, k). Some (Inr ((r, b), k))))"

text \<open>The calls that an interrupt handler may make; the others are for threads, except \<open>msg_reply_int\<close>.\<close>

fun irq_api :: "api \<Rightarrow> bool" where
  "irq_api (Wakeup _) = True"
| "irq_api (Mutex_unlock _) = True"
| "irq_api (Mutex_cancel _) = True"
| "irq_api (Cond_signal _) = True"
| "irq_api (Cond_broadcast _) = True"
| "irq_api (Flags_set _ _) = True"
| "irq_api (Msg_send _ _) = True"
| "irq_api (Msg_try_send _ _) = True"
| "irq_api (Msg_send_bus _ _ _) = True"
| "irq_api (Msg_reply_int _ _) = True"
| "irq_api (Mbox_try_put _ _) = True"
| "irq_api (Mbox_try_get _ _) = True"
| "irq_api _ = False"

definition thread_api :: "api \<Rightarrow> bool" where
  "thread_api c \<longleftrightarrow> (\<forall>m r. c \<noteq> Msg_reply_int m r)"

definition waiting_in :: "kernel \<Rightarrow> list_node \<Rightarrow> tcb \<Rightarrow> bool" where
  "waiting_in k q t \<longleftrightarrow> (\<exists>ts. list_at (links k) q (map Rq_entry ts) \<and> t \<in> set ts)"

text \<open>The thread that a reply goes to.\<close>

definition reply_pre :: "kernel \<Rightarrow> u32 \<Rightarrow> bool" where
  "reply_pre k m \<longleftrightarrow> (\<exists>t. thread_get_unchecked k (sender_pid (msgs k m)) = Inr (Some t)
     \<and> (status (tcbs k t) = STATUS_REPLY_BLOCKED \<longrightarrow> (\<forall>q. wait_head q \<longrightarrow> \<not> waiting_in k q t)))"

text \<open>
  The obligations of the caller.  \<open>M\<close> tells which addresses hold mutexes: a mutex function is called on a
  mutex, and the functions of condition variables and mailboxes are not.  A new thread gets a control block that is not in
  use, and the scheduler runs afterwards.  A thread changes the priority of itself or of a blocked thread.  The thread
  identifiers that messages are sent to, also those of the subscribers of a bus, are indices of the thread table, as
  \<open>thread_get_unchecked\<close> does not test them.  A request is sent to an existing thread.  A reply goes to a thread that
  waits for it.
\<close>

fun arg_pre :: "(u32 \<Rightarrow> bool) \<Rightarrow> api \<Rightarrow> kernel \<Rightarrow> bool" where
  "arg_pre M (Create stk sz prio fl fn arg) k \<longleftrightarrow>
     status (tcbs k (new_tcb stk sz)) = STATUS_STOPPED \<and> links k (Msg_waiters (new_tcb stk sz)) = None
     \<and> sched_active_thread k \<noteq> Some (new_tcb stk sz) \<and> \<not> flag_set fl THREAD_CREATE_WOUT_YIELD"
| "arg_pre M (Change_priority t prio) k \<longleftrightarrow>
     unat prio < SCHED_PRIO_LEVELS \<and> (thread_is_active (tcbs k t) \<longrightarrow> sched_active_thread k = Some t)"
| "arg_pre M (Mutex_lock a) k \<longleftrightarrow> M a"
| "arg_pre M (Mutex_trylock a) k \<longleftrightarrow> M a"
| "arg_pre M (Mutex_unlock a) k \<longleftrightarrow> M a"
| "arg_pre M (Mutex_unlock_and_sleep a) k \<longleftrightarrow> M a"
| "arg_pre M (Mutex_lock_cancelable mc) k \<longleftrightarrow> M (mc_mutex mc)"
| "arg_pre M (Mutex_cancel mc) k \<longleftrightarrow> M (mc_mutex mc)"
| "arg_pre M (Cond_wait c a) k \<longleftrightarrow> \<not> M c \<and> M a"
| "arg_pre M (Cond_signal c) k \<longleftrightarrow> \<not> M c"
| "arg_pre M (Cond_broadcast c) k \<longleftrightarrow> \<not> M c"
| "arg_pre M (Msg_send m p) k \<longleftrightarrow> in_thread_table p"
| "arg_pre M (Msg_try_send m p) k \<longleftrightarrow> in_thread_table p"
| "arg_pre M (Msg_send_receive m r p) k \<longleftrightarrow>
     sched_active_pid k \<noteq> p \<and> in_thread_table p \<and> sched_threads k p \<noteq> None"
| "arg_pre M (Msg_send_bus m bus b) k \<longleftrightarrow>
     (\<exists>ss. list_at (bus_links b) (subs bus) ss \<and> (\<forall>s \<in> set ss. in_thread_table (entry_pid (entries b s))))"
| "arg_pre M (Msg_reply m r) k \<longleftrightarrow> reply_pre k m"
| "arg_pre M (Msg_reply_int m r) k \<longleftrightarrow> reply_pre k m"
| "arg_pre M (Msg_init_queue a n) k \<longleftrightarrow> cib_init (word_of_int n) \<noteq> None"
| "arg_pre M (Mbox_put mb m) k \<longleftrightarrow> \<not> M (readers mb) \<and> \<not> M (writers mb)"
| "arg_pre M (Mbox_try_put mb m) k \<longleftrightarrow> \<not> M (readers mb) \<and> \<not> M (writers mb)"
| "arg_pre M (Mbox_get mb m) k \<longleftrightarrow> \<not> M (readers mb) \<and> \<not> M (writers mb)"
| "arg_pre M (Mbox_try_get mb m) k \<longleftrightarrow> \<not> M (readers mb) \<and> \<not> M (writers mb)"
| "arg_pre M _ k \<longleftrightarrow> True"

text \<open>
  The calls that wake a thread in the given state.  They tell the scheduler through \<open>sched_switch\<close>, which reads the active
  thread without a test.  An interrupt handler may make such a call only while there is one: there is none between the end of
  a thread in \<open>sched_task_exit\<close> and the next scheduling decision, which includes the time the scheduler idles in between.
\<close>

fun wakes :: "api \<Rightarrow> kernel \<Rightarrow> bool" where
  "wakes (Wakeup p) k \<longleftrightarrow> thread_getstatus k p = Some STATUS_SLEEPING"
| "wakes (Mutex_unlock a) k \<longleftrightarrow> links k (Queue a) \<noteq> None \<and> links k (Queue a) \<noteq> MUTEX_LOCKED"
| "wakes (Mutex_cancel mc) k \<longleftrightarrow> waiting_in k (Queue (mc_mutex mc)) (mc_thread mc)"
| "wakes (Cond_signal c) k \<longleftrightarrow> links k (Queue c) \<noteq> None"
| "wakes (Cond_broadcast c) k \<longleftrightarrow> links k (Queue c) \<noteq> None"
| "wakes (Mbox_try_put mb m) k \<longleftrightarrow> links k (Queue (readers mb)) \<noteq> None"
| "wakes (Mbox_try_get mb m) k \<longleftrightarrow> cib_avail (mb_cib mb) \<noteq> 0 \<and> links k (Queue (writers mb)) \<noteq> None"
| "wakes _ k \<longleftrightarrow> False"

definition api_pre :: "(u32 \<Rightarrow> bool) \<Rightarrow> api \<Rightarrow> kernel \<Rightarrow> bool" where
  "api_pre M c k \<longleftrightarrow> arg_pre M c k \<and> (in_irq k \<and> wakes c k \<longrightarrow> sched_active_thread k \<noteq> None)"

section \<open>Every call ends\<close>

lemma ends_state_of [simp]: "ends (state_of x) Q \<longleftrightarrow> ends x (\<lambda>r. Q (snd r))"
  by (simp add: state_of_def)

lemma ends_Some_ok: "valid x (\<lambda>(_, k'). Q k') \<Longrightarrow> ends (state_of (Some x)) Q" "ends y (\<lambda>(_, k'). Q k') \<Longrightarrow> ends (state_of y) Q"
  by (simp_all add: case_prod_unfold)

lemma ends_mbox: "ends y (\<lambda>(_, _, k'). Q k') \<Longrightarrow> ends (state_of (obind y (\<lambda>(r, b, k). Some (Inr ((r, b), k))))) Q"
  by (simp add: case_prod_unfold)

text \<open>A thread that is not in the list of a queue is not in its abstraction.\<close>

lemma wf_not_waiting:
  assumes wf: "kernel_wf M k qs" and q: "wait_head q" and t: "\<not> waiting_in k q t"
  shows "t \<notin> set (qs q)"
proof (cases "links k q = Some Mutex_locked")
  case True
  have "queue_at (links k) q (qs q)" using inv_queues [OF wf_inv [OF wf]] by (simp add: queues_at_def)
  then have "list_at (links k) q (map Rq_entry (qs q)) \<or> qs q = []" using queue_at_wait [OF q] by blast
  with True show ?thesis by (cases "qs q") (auto simp: list_at_Cons)
next
  case False
  with t inv_wait_list [OF wf_inv [OF wf] q] show ?thesis by (auto simp: waiting_in_def)
qed

lemma reply_pre_unlisted:
  assumes "kernel_wf M k qs" "reply_pre k m"
  obtains t where "thread_get_unchecked k (sender_pid (msgs k m)) = Inr (Some t)"
    "status (tcbs k t) = STATUS_REPLY_BLOCKED \<Longrightarrow> (\<And>q. wait_head q \<Longrightarrow> t \<notin> set (qs q))"
  using assms(2) wf_not_waiting [OF assms(1)] unfolding reply_pre_def by blast

text \<open>The running thread calls the kernel.\<close>

lemma thread_call_ok:
  assumes run: "running M k qs me" and irq: "\<not> in_irq k" and c: "thread_api c" "arg_pre M c k"
  shows "ends (api_exec tsi c k) (step_ok M k)"
proof -
  have wf: "kernel_wf M k qs" and act: "sched_active_thread k = Some me" and lead: "leads M k qs me" and sch: "scheduled k qs"
    using run running_leads running_scheduled by (auto simp: running_def)
  have l: "\<exists>me. leads M k qs me" using lead ..
  show ?thesis
  proof (cases c)
    case (Create stk sz prio fl fn arg)
    with c(2) act thread_create_ok [OF wf sch, of stk sz me fl tsi prio fn arg] show ?thesis by (auto simp: case_prod_unfold)
  next
    case (Change_priority t prio)
    have "\<exists>ts. qs (runq k t) = t # ts" if "runnable k t"
      using that c(2) Change_priority act running_head [OF run] by (auto simp: thread_is_active_def runnable_def)
    with c(2) Change_priority sched_change_priority_ok [OF wf sch, of prio t] show ?thesis by simp
  next
    case (Msg_reply m r)
    with c(2) have "reply_pre k m" by simp
    from reply_pre_unlisted [OF wf this] msg_reply_ok(1) [OF wf sch, of m _ me r] act Msg_reply show ?thesis
      by (metis api_exec.simps(27) ends_Some_ok(1))
  next
    case (Mutex_lock a)
    with c(2) mutex_lock_internal_ok [OF run, of a True] show ?thesis by (simp add: mutex_lock_def case_prod_unfold)
  next
    case (Mutex_trylock a)
    with c(2) mutex_lock_internal_ok [OF run, of a False] show ?thesis by (simp add: mutex_trylock_def case_prod_unfold)
  next
    case (Mutex_cancel mc)
    with c(2) mutex_cancel_ok [OF wf sch act, of mc] show ?thesis by (auto simp: case_prod_unfold elim: ends_mono)
  next
    case (Msg_send_bus m bus b)
    with c(2) msg_send_bus_ok [OF wf sch] show ?thesis by (auto simp: case_prod_unfold)
  next
    case (Msg_reply_int m r)
    with c(1) show ?thesis by (simp add: thread_api_def)
  next
    case (Mbox_put mb m)
    with c(2) show ?thesis by (simp only: api_exec.simps mbox_put_def) (intro ends_mbox mbox_put_ok [OF wf sch act], simp_all add: l)
  next
    case (Mbox_try_put mb m)
    with c(2) show ?thesis by (simp only: api_exec.simps mbox_try_put_def) (intro ends_mbox mbox_put_ok [OF wf sch act], simp_all)
  next
    case (Mbox_get mb m)
    with c(2) show ?thesis by (simp only: api_exec.simps mbox_get_def) (intro ends_mbox mbox_get_ok [OF wf sch act], simp_all add: l)
  next
    case (Mbox_try_get mb m)
    with c(2) show ?thesis by (simp only: api_exec.simps mbox_try_get_def) (intro ends_mbox mbox_get_ok [OF wf sch act], simp_all)
  qed (use c(2) lead irq l thread_yield_ok [OF wf act, of k] thread_sleep_ok [OF lead irq] thread_zombify_ok [OF lead irq]
      sched_task_exit_ok [OF lead] thread_wakeup_ok [OF wf sch act] thread_kill_zombie_ok [OF wf sch]
      mutex_unlock_ok [OF wf sch act] mutex_unlock_and_sleep_ok [OF lead] mutex_lock_cancelable_ok [OF run]
      cond_wait_ok [OF lead] cond_signal_ok [OF wf sch act] thread_flags_set_ok [OF wf sch] thread_flags_ok [OF lead sch]
      msg_send_ok [OF wf sch] msg_send_receive_ok [OF lead] msg_receive_internal_ok [OF lead sch] msg_init_queue_ok [OF wf sch act]
    in \<open>simp_all add: case_prod_unfold cond_signal_def cond_broadcast_def msg_receive_def msg_try_receive_def\<close>)
qed

text \<open>An interrupt handler calls the kernel.\<close>

lemma idle_irq_call_ok:
  assumes wf: "kernel_wf M k qs" and sch: "scheduled k qs" and irq: "in_irq k"
    and c: "irq_api c" "arg_pre M c k" "\<not> wakes c k"
  shows "ends (api_exec tsi c k) (step_ok M k)"
proof (cases c)
  case (Wakeup p)
  have "step_ok M k k" using wf sch by (auto simp: step_ok_def)
  with Wakeup c(3) show ?thesis by (auto simp: thread_wakeup_def thread_getstatus_def state_of_def split: option.splits)
next
  case (Mutex_unlock a)
  with c(3) mutex_unlock_unwaited [OF wf sch, of a] show ?thesis by auto
next
  case (Mutex_cancel mc)
  with c(3) wf_not_waiting [OF wf, of "Queue (mc_mutex mc)"] mutex_cancel_unwaited [OF wf sch, of mc] show ?thesis
    by (auto simp: case_prod_unfold elim: ends_mono)
next
  case (Cond_signal a)
  with c(3) wf sch show ?thesis by (auto simp: cond_signal_def cond_signal_unwaited step_ok_def)
next
  case (Cond_broadcast a)
  with c(3) wf sch show ?thesis by (auto simp: cond_broadcast_def cond_signal_unwaited step_ok_def)
next
  case (Msg_reply_int m r)
  with c(2) have "reply_pre k m" by simp
  from reply_pre_unlisted [OF wf this] msg_reply_ok(2) [OF wf sch, of m _ r] irq Msg_reply_int show ?thesis
    by (metis api_exec.simps(28) ends_Some_ok(1))
next
  case (Msg_send_bus m bus b)
  with c(2) msg_send_bus_ok [OF wf sch] show ?thesis by (auto simp: case_prod_unfold)
next
  case (Mbox_try_put mb m)
  with c(3) have "qs (Queue (readers mb)) = []" by (intro inv_head_None [OF wf_inv [OF wf]]) simp_all
  with Mbox_try_put c(2) show ?thesis
    by (simp only: api_exec.simps mbox_try_put_def) (intro ends_mbox mbox_put_unwaited [OF wf sch], simp_all)
next
  case (Mbox_try_get mb m)
  consider "cib_avail (mb_cib mb) = 0" | "links k (Queue (writers mb)) = None" using Mbox_try_get c(3) by auto
  then show ?thesis
  proof cases
    case 1
    with Mbox_try_get c(2) show ?thesis
      by (simp only: api_exec.simps mbox_try_get_def) (intro ends_mbox mbox_get_empty [OF wf sch], simp_all)
  next
    case 2
    then have "qs (Queue (writers mb)) = []" by (intro inv_head_None [OF wf_inv [OF wf]]) simp_all
    with Mbox_try_get c(2) show ?thesis
      by (simp only: api_exec.simps mbox_try_get_def) (intro ends_mbox mbox_get_unwaited [OF wf sch], simp_all)
  qed
qed (use c irq thread_flags_set_ok [OF wf sch] msg_send_ok [OF wf sch] in \<open>simp_all add: case_prod_unfold\<close>)

lemma irq_call_ok:
  assumes wf: "kernel_wf M k qs" and sch: "scheduled k qs" and irq: "in_irq k"
    and c: "irq_api c" "api_pre M c k"
  shows "ends (api_exec tsi c k) (step_ok M k)"
proof (cases "wakes c k")
  case False
  with c show ?thesis by (intro idle_irq_call_ok [OF wf sch irq]) (simp_all add: api_pre_def)
next
  case True
  then obtain a where act: "sched_active_thread k = Some a" using c(2) irq by (auto simp: api_pre_def)
  have ap: "arg_pre M c k" using c(2) by (simp add: api_pre_def)
  show ?thesis
  proof (cases c)
    case (Mutex_cancel mc)
    with ap mutex_cancel_ok [OF wf sch act, of mc] show ?thesis by (auto simp: case_prod_unfold elim: ends_mono)
  next
    case (Mbox_try_put mb m)
    with ap show ?thesis by (simp only: api_exec.simps mbox_try_put_def) (intro ends_mbox mbox_put_ok [OF wf sch act], simp_all)
  next
    case (Mbox_try_get mb m)
    with ap show ?thesis by (simp only: api_exec.simps mbox_try_get_def) (intro ends_mbox mbox_get_ok [OF wf sch act], simp_all)
  qed (use True c ap thread_wakeup_ok [OF wf sch act] mutex_unlock_ok [OF wf sch act] cond_signal_ok [OF wf sch act]
    in \<open>simp_all add: case_prod_unfold cond_signal_def cond_broadcast_def\<close>)
qed

section \<open>The scheduler\<close>

text \<open>
  What the kernel relies on while it idles: the interrupts that \<open>sched_arch_idle\<close> lets in keep the state well
  formed and do not change the active thread.
\<close>

definition idle_ok :: "(u32 \<Rightarrow> bool) \<Rightarrow> (kernel \<Rightarrow> kernel) \<Rightarrow> bool" where
  "idle_ok M idle \<longleftrightarrow> (\<forall>k qs. kernel_wf M k qs \<longrightarrow> (\<exists>qs'. kernel_wf M (idle k) qs')
     \<and> sched_active_thread (idle k) = sched_active_thread k \<and> in_irq (idle k) = in_irq k)"

lemma idle_loop_ok:
  assumes "idle_loop idle k = Some k'" "idle_ok M idle" "kernel_wf M k qs"
  shows "(\<exists>qs'. kernel_wf M k' qs') \<and> sched_active_thread k' = sched_active_thread k \<and> in_irq k' = in_irq k
     \<and> runqueue_bitcache k' \<noteq> 0"
proof -
  let ?Q = "\<lambda>idle k k'. \<forall>qs. idle_ok M idle \<longrightarrow> kernel_wf M k qs \<longrightarrow> (\<exists>qs'. kernel_wf M k' qs')
     \<and> sched_active_thread k' = sched_active_thread k \<and> in_irq k' = in_irq k \<and> runqueue_bitcache k' \<noteq> 0"
  have "?Q idle k k'"
  proof (rule idle_loop.raw_induct [where P = ?Q, OF _ assms(1)])
    fix il idle k k'
    assume IH: "\<And>idle k k'. il idle k = Some k' \<Longrightarrow> ?Q idle k k'"
      and body: "(let k = idle k in if runqueue_bitcache k = 0 then il idle k else Some k) = Some k'"
    show "?Q idle k k'"
    proof (intro allI impI)
      fix qs assume ok: "idle_ok M idle" and wf: "kernel_wf M k qs"
      then obtain qs' where k1: "kernel_wf M (idle k) qs'" "sched_active_thread (idle k) = sched_active_thread k"
        "in_irq (idle k) = in_irq k" unfolding idle_ok_def by blast
      show "(\<exists>qs'. kernel_wf M k' qs') \<and> sched_active_thread k' = sched_active_thread k \<and> in_irq k' = in_irq k
        \<and> runqueue_bitcache k' \<noteq> 0"
      proof (cases "runqueue_bitcache (idle k) = 0")
        case True
        with body have "il idle (idle k) = Some k'" by (simp add: Let_def)
        from IH [OF this] ok k1(1) have "(\<exists>qs'. kernel_wf M k' qs') \<and> sched_active_thread k' = sched_active_thread (idle k)
          \<and> in_irq k' = in_irq (idle k) \<and> runqueue_bitcache k' \<noteq> 0" by blast
        with k1(2,3) show ?thesis by simp
      next
        case False
        with body have "k' = idle k" by (simp add: Let_def)
        with k1 False show ?thesis by blast
      qed
    qed
  qed
  with assms(2,3) show ?thesis by blast
qed

text \<open>The loop ends as soon as an interrupt has made a thread runnable.\<close>

lemma idle_loop_returns:
  "runqueue_bitcache ((idle ^^ Suc n) k) \<noteq> 0 \<Longrightarrow> \<exists>k'. idle_loop idle k = Some k'"
proof (induction n arbitrary: k)
  case 0
  then show ?case by (subst idle_loop.simps) (simp add: Let_def)
next
  case (Suc n)
  show ?case
  proof (cases "runqueue_bitcache (idle k) = 0")
    case True
    from Suc.prems have "runqueue_bitcache ((idle ^^ Suc n) (idle k)) \<noteq> 0" by (simp add: funpow_swap1)
    from Suc.IH [OF this] True show ?thesis by (subst idle_loop.simps) (simp add: Let_def)
  next
    case False
    then show ?thesis by (subst idle_loop.simps) (simp add: Let_def)
  qed
qed

lemma wf_on_runqueue:
  assumes "kernel_wf M k qs" "runnable k t" "st \<ge> STATUS_ON_RUNQUEUE"
  shows "kernel_wf M (upd_tcb t (status_update (\<lambda>_. st)) k) qs"
proof -
  have "t \<notin> set (qs q)" if "wait_head q" for q
    using inv_blocked_queue [OF wf_inv [OF assms(1)], of t q] wait_head_neq(2) [OF that] assms(2) by auto
  with wf_keep [OF assms(1), of t st] assms(2,3) show ?thesis by (auto simp: valid_def)
qed

lemma wf_unschedule: "kernel_wf M k qs \<Longrightarrow> kernel_wf M (unschedule a k) qs"
  unfolding unschedule_def by (auto intro!: wf_on_runqueue simp: runnable_def less_eq_thread_status_t_def)

lemma unschedule_env [simp]:
  "sched_active_thread (unschedule a k) = sched_active_thread k" "in_irq (unschedule a k) = in_irq k"
  "runqueue_bitcache (unschedule a k) = runqueue_bitcache k" "pendsv (unschedule a k) = pendsv k"
  "links (unschedule a k) = links k" "priority (tcbs (unschedule a k) t) = priority (tcbs k t)"
  by (simp_all add: unschedule_def upd_tcb_def)

lemma kernel_wf_pid: "kernel_wf M (k\<lparr>sched_active_pid := p\<rparr>) qs = kernel_wf M k qs"
  by (rule kernel_wf_cong) simp_all

text \<open>The decision: the first thread of the best run queue becomes the active one.\<close>

lemma sched_run_next_wf:
  assumes wf: "kernel_wf M k qs" and ne: "runqueue_bitcache k \<noteq> 0"
    and act: "active = None \<or> active = prev" and prev: "prev = sched_active_thread k"
  obtains t k' where "sched_run_next active prev k = Inr (t, k')" "running M k' qs t"
    "status (tcbs k' t) = STATUS_RUNNING" "\<not> sched_context_switch_request k'" "in_irq k' = in_irq k" "pendsv k' = pendsv k"
    "\<And>u. priority (tcbs k' u) = priority (tcbs k u) \<and> (runnable k' u \<longleftrightarrow> runnable k u)"
proof -
  let ?p = "unat (get_prio_queue_from_runqueue k)"
  note best = get_prio_best(1) [OF wf_inv [OF wf] ne]
  then obtain t ts where ts: "qs (Runqueue ?p) = t # ts" by (auto simp: best_queue_def neq_Nil_conv)
  obtain k' where k':
    "sched_run_next active prev k = Inr (t, k')" "kernel_inv k' qs" "status (tcbs k' t) = STATUS_RUNNING"
    "prev = Some t \<or> sched_active_thread k' = Some t" "prev = Some t \<Longrightarrow> sched_active_thread k' = sched_active_thread k"
    "pendsv k' = pendsv k" "in_irq k' = in_irq k" "sched_threads k' = sched_threads k"
    "\<And>u. u \<noteq> t \<Longrightarrow> active \<noteq> Some u \<Longrightarrow> tcbs k' u = tcbs k u"
    "\<And>u. (runnable k' u \<longleftrightarrow> runnable k u) \<and> priority (tcbs k' u) = priority (tcbs k u)"
    "\<not> sched_context_switch_request k'"
    by (rule sched_run_next_ok [OF wf_inv [OF wf] best ts act], rule that) simp_all
  have t: "runnable k t" "runq k t = Runqueue ?p"
    using inv_in_runqueue [OF wf_inv [OF wf], of t ?p] ts by auto
  let ?k1 = "upd_tcb t (status_update (\<lambda>_. STATUS_RUNNING)) (k\<lparr>sched_context_switch_request := False\<rparr>)"
  have wf1: "kernel_wf M ?k1 qs"
    using wf t(1) by (intro wf_on_runqueue) (simp_all add: runnable_def less_eq_thread_status_t_def)
  then have "kernel_wf M (case active of Some a \<Rightarrow> unschedule a ?k1 | None \<Rightarrow> ?k1) qs"
    using wf_unschedule by (auto split: option.splits)
  moreover from k'(1) have "k' = ?k1 \<or> (\<exists>p. k' = (case active of Some a \<Rightarrow> unschedule a ?k1 | None \<Rightarrow> ?k1)
      \<lparr>sched_active_pid := p, sched_active_thread := Some t\<rparr>)"
    unfolding sched_run_next_def Let_def deref_def by (simp split: option.splits if_splits; blast)
  ultimately have "kernel_wf M k' qs" using wf1 by (elim disjE exE) (simp_all add: kernel_wf_pid)
  moreover have "sched_active_thread k' = Some t" using k'(4,5) prev by auto
  moreover have "current qs t (unat (priority (tcbs k' t)))"
    using t(2) ts best k'(10) [of t] by (auto simp: current_def best_queue_def runq_def)
  ultimately have "running M k' qs t" by (simp add: running_def)
  then show thesis using k'(3,6,7,10,11) by (intro that [OF k'(1)]) simp_all
qed

lemma sched_run_ok:
  assumes wf: "kernel_wf M k qs" and idle: "idle_ok M idle" and run: "sched_run idle k = Some r"
  obtains t k' qs' where "r = Inr (t, k')" "running M k' qs' t" "\<not> sched_context_switch_request k'" "in_irq k' = in_irq k"
proof (cases "runqueue_bitcache k = 0")
  case False
  from sched_run_next_wf [OF wf False disjI2 [OF refl] refl] obtain t k' where k':
    "sched_run_next (sched_active_thread k) (sched_active_thread k) k = Inr (t, k')" "running M k' qs t"
    "\<not> sched_context_switch_request k'" "in_irq k' = in_irq k" by blast
  from run False k'(1) have "r = Inr (t, k')" by (simp add: sched_run_def Let_def)
  then show thesis using that k' by blast
next
  case True
  let ?k = "case sched_active_thread k of Some a \<Rightarrow> unschedule a k | None \<Rightarrow> k"
  have wf1: "kernel_wf M ?k qs" using wf wf_unschedule by (auto split: option.splits)
  from run True obtain k1 where k1: "idle_loop idle ?k = Some k1" "r = sched_run_next None (sched_active_thread k) k1"
    by (auto simp: sched_run_def Let_def)
  from idle_loop_ok [OF k1(1) idle wf1] obtain qs' where k2: "kernel_wf M k1 qs'" "runqueue_bitcache k1 \<noteq> 0"
    "sched_active_thread k = sched_active_thread k1" "in_irq k1 = in_irq k" by (auto split: option.splits)
  from sched_run_next_wf [OF k2(1,2) disjI1 [OF refl] k2(3)] obtain t k' where k':
    "sched_run_next None (sched_active_thread k) k1 = Inr (t, k')" "running M k' qs' t"
    "\<not> sched_context_switch_request k'" "in_irq k' = in_irq k1" by blast
  with k1(2) k2(4) show thesis using that by simp
qed

end
