(* ===== verification/Core_Kernel_Steps.thy ===== *)
theory Core_Kernel_Steps
  imports Core_Kernel
begin

text \<open>
  The start of the kernel (\<open>core/lib/init.c\<close>), its steps and the states they reach.  In every reachable
  state the queues are well formed, and outside of interrupts with no scheduler run pending the active thread is
  runnable and no runnable thread has a better priority.  Threads of the best priority that yield take turns.
\<close>

unbundle bit_operations_syntax

section \<open>Start\<close>

definition THREAD_PRIORITY_MAIN :: u8 where [c_const]: "THREAD_PRIORITY_MAIN = 15 - 16 div 2"
definition THREAD_CREATE_STACKTEST :: int where [c_const]: "THREAD_CREATE_STACKTEST = 8"

text \<open>The zero-initialised data of the kernel.\<close>

definition boot_thread :: thread_t where
  "boot_thread = \<lparr>sp = 0, status = STATUS_STOPPED, priority = 0, pid = 0, tflags = 0, wait_data = 0,
     msg_queue = CIB_INIT 0, msg_array = 0\<rparr>"

definition boot_kernel :: kernel where
  "boot_kernel = \<lparr>sched_active_pid = 0, sched_active_thread = None, sched_threads = (\<lambda>_. None), sched_num_threads = 0,
     sched_context_switch_request = False, runqueue_bitcache = 0, links = (\<lambda>_. None), tcbs = (\<lambda>_. boot_thread),
     msgs = (\<lambda>_. \<lparr>sender_pid = 0, msg_type = 0, msg_content = 0\<rparr>), pendsv = False, in_irq = False\<rparr>"

definition cpu_switch_context_exit :: "kernel \<Rightarrow> kernel" where
  "cpu_switch_context_exit k = thread_yield_higher k"

text \<open>The idle thread is not compiled in: the scheduler idles itself.\<close>

definition kernel_init ::
    "(u32 \<Rightarrow> u32 \<Rightarrow> u32 \<Rightarrow> int \<Rightarrow> u32) \<Rightarrow> u32 \<Rightarrow> int \<Rightarrow> u32 \<Rightarrow> kernel \<Rightarrow> c_fault + kernel" where
  "kernel_init thread_stack_init main_stack sizeof_main_stack main_trampoline k =
     ebind (thread_create thread_stack_init main_stack sizeof_main_stack THREAD_PRIORITY_MAIN
              (THREAD_CREATE_WOUT_YIELD OR THREAD_CREATE_STACKTEST) main_trampoline 0 k) (\<lambda>(_, k).
       Inr (cpu_switch_context_exit k))"

definition cortexm_isr_end :: "kernel \<Rightarrow> kernel" where
  "cortexm_isr_end k = (if sched_context_switch_request k then thread_yield_higher k else k)"

section \<open>Steps\<close>

inductive kernel_step :: "(u32 \<Rightarrow> bool) \<Rightarrow> (u32 \<Rightarrow> u32 \<Rightarrow> u32 \<Rightarrow> int \<Rightarrow> u32) \<Rightarrow> kernel \<Rightarrow> kernel \<Rightarrow> bool"
  for M tsi where
  Call: "\<not> in_irq k \<Longrightarrow> \<not> pendsv k \<Longrightarrow> thread_api c \<Longrightarrow> api_pre M c k \<Longrightarrow> api_exec tsi c k = Some (Inr k')
    \<Longrightarrow> kernel_step M tsi k k'"
| Irq_start: "\<not> in_irq k \<Longrightarrow> kernel_step M tsi k (k\<lparr>in_irq := True\<rparr>)"
| Irq_call: "in_irq k \<Longrightarrow> irq_api c \<Longrightarrow> api_pre M c k \<Longrightarrow> api_exec tsi c k = Some (Inr k')
    \<Longrightarrow> kernel_step M tsi k k'"
| Irq_end: "in_irq k \<Longrightarrow> kernel_step M tsi k (cortexm_isr_end k\<lparr>in_irq := False\<rparr>)"
| Pendsv: "\<not> in_irq k \<Longrightarrow> pendsv k \<Longrightarrow> idle_ok M idle \<Longrightarrow> sched_run idle (k\<lparr>pendsv := False\<rparr>) = Some (Inr (t, k'))
    \<Longrightarrow> kernel_step M tsi k k'"

inductive_cases kernel_stepE: "kernel_step M tsi k k'"

inductive kernel_reachable :: "(u32 \<Rightarrow> bool) \<Rightarrow> (u32 \<Rightarrow> u32 \<Rightarrow> u32 \<Rightarrow> int \<Rightarrow> u32) \<Rightarrow> kernel \<Rightarrow> bool"
  for M tsi where
  Start: "kernel_init tsi stk sz fn boot_kernel = Inr k \<Longrightarrow> kernel_reachable M tsi k"
| Step: "kernel_reachable M tsi k \<Longrightarrow> kernel_step M tsi k k' \<Longrightarrow> kernel_reachable M tsi k'"

section \<open>The invariant\<close>

definition kernel_ok :: "(u32 \<Rightarrow> bool) \<Rightarrow> kernel \<Rightarrow> bool" where
  "kernel_ok M k \<longleftrightarrow> (\<exists>qs. kernel_wf M k qs \<and> scheduled k qs)
     \<and> (in_irq k \<or> (sched_context_switch_request k \<longrightarrow> pendsv k))"

lemma step_ok_kernel_ok: "kernel_ok M k \<Longrightarrow> \<not> pendsv k \<or> in_irq k \<Longrightarrow> step_ok M k k' \<Longrightarrow> kernel_ok M k'"
  by (auto simp: kernel_ok_def step_ok_def)

lemma kernel_ok_running:
  assumes "kernel_ok M k" "\<not> in_irq k" "\<not> pendsv k"
  obtains qs me where "running M k qs me"
  using assms by (auto simp: kernel_ok_def scheduled_def running_def)

lemma running_kernel_ok: "running M k qs me \<Longrightarrow> \<not> sched_context_switch_request k \<or> pendsv k \<Longrightarrow> kernel_ok M k"
  using running_scheduled [of M k qs me] by (auto simp: kernel_ok_def running_def)

lemma boot_wf: "kernel_wf M boot_kernel (\<lambda>_. [])"
proof -
  have "queue_at (links boot_kernel) q []" for q by (cases q) (simp_all add: boot_kernel_def)
  then have "queues_at (links boot_kernel) (\<lambda>_. [])" by (simp add: queues_at_def)
  then show ?thesis
    by (auto simp: kernel_wf_def kernel_inv_def waits_ok_def heads_ok_def boot_kernel_def boot_thread_def
        SCHED_PRIO_LEVELS_def less_eq_thread_status_t_def)
qed

lemma start_flags: "flag_set (THREAD_CREATE_WOUT_YIELD OR THREAD_CREATE_STACKTEST) THREAD_CREATE_WOUT_YIELD"
  "\<not> flag_set (THREAD_CREATE_WOUT_YIELD OR THREAD_CREATE_STACKTEST) THREAD_CREATE_SLEEPING"
  by (simp_all add: flag_set_def c_const)

lemma boot_pid: "first_free_pid boot_kernel = 1"
  by (simp add: first_free_pid_def boot_kernel_def KERNEL_PID_FIRST_def KERNEL_PID_LAST_def KERNEL_PID_UNDEF_def
      MAXTHREADS_def upto.simps)

text \<open>The start creates the main thread, which is then the only runnable one.\<close>

lemma kernel_init_ok:
  obtains k qs where "kernel_init tsi stk sz fn boot_kernel = Inr k" "kernel_wf M k qs" "pendsv k" "\<not> in_irq k"
    "\<not> sched_context_switch_request k" "qs (Runqueue 7) = [new_tcb stk sz]" "\<And>p. p \<noteq> 7 \<Longrightarrow> qs (Runqueue p) = []"
proof -
  obtain stk' sz' where lay: "thread_create_layout stk sz = (stk', sz')" by force
  define t where "t = stk' + word_of_int sz'"
  let ?f = "\<lambda>th. th\<lparr>pid := 1, sp := tsi fn 0 stk' sz', priority := THREAD_PRIORITY_MAIN, status := STATUS_STOPPED,
      wait_data := 0, msg_queue := CIB_INIT 0, msg_array := 0\<rparr>"
  define k1 where "k1 = boot_kernel\<lparr>sched_threads := (sched_threads boot_kernel)(1 \<mapsto> t),
      tcbs := (tcbs boot_kernel)(t := ?f (tcbs boot_kernel t)),
      links := (links boot_kernel)(Rq_entry t := None, Msg_waiters t := None), sched_num_threads := sched_num_threads boot_kernel + 1\<rparr>"
  have new: "new_tcb stk sz = t" by (simp add: new_tcb_def lay t_def)
  have p: "unat (priority (tcbs k1 t)) = 7" by (simp add: k1_def c_const)
  have wf: "kernel_wf M k1 (\<lambda>_. [])"
    by (rule wf_create [OF boot_wf, where f = ?f and t = t])
      (simp_all add: k1_def boot_kernel_def boot_thread_def c_const SCHED_PRIO_LEVELS_def)
  from wf_wake [where st = STATUS_PENDING and t = t, OF wf] obtain k2 where k2:
    "sched_set_status t STATUS_PENDING k1 = Inr k2" "kernel_wf M k2 ((\<lambda>_. [])(runq k1 t := [t]))" "same_env k1 k2"
    by (auto simp: valid_def)
  have "kernel_init tsi stk sz fn boot_kernel = Inr (thread_yield_higher k2)"
    using k2(1) start_flags
    by (simp add: kernel_init_def thread_create_def lay Let_def boot_pid upd_tcb_def k1_def t_def cpu_switch_context_exit_def
        SCHED_PRIO_LEVELS_def KERNEL_PID_UNDEF_def THREAD_PRIORITY_MAIN_def)
  moreover have "in_irq k2 = False" "sched_context_switch_request k2 = False"
    using k2(3) by (simp_all add: same_env_def k1_def boot_kernel_def)
  ultimately show thesis using k2(2) p
    by (intro that [of "thread_yield_higher k2" "(\<lambda>_. [])(runq k1 t := [t])"]) (simp_all add: new runq_def thread_yield_higher_def)
qed

text \<open>Progress and preservation: a call that meets its obligations ends without a fault and keeps the invariant.\<close>

lemma kernel_call_ok:
  assumes "kernel_ok M k" "api_pre M c k"
    and "\<not> in_irq k \<and> \<not> pendsv k \<and> thread_api c \<or> in_irq k \<and> irq_api c"
  shows "ends (api_exec tsi c k) (kernel_ok M)"
  using assms(3)
proof
  assume t: "\<not> in_irq k \<and> \<not> pendsv k \<and> thread_api c"
  from kernel_ok_running [OF assms(1)] t obtain qs me where run: "running M k qs me" by blast
  show ?thesis
    by (rule ends_mono [OF thread_call_ok [OF run]]) (use t assms(2) step_ok_kernel_ok [OF assms(1)] in \<open>auto simp: api_pre_def\<close>)
next
  assume t: "in_irq k \<and> irq_api c"
  from assms(1) obtain qs where qs: "kernel_wf M k qs" "scheduled k qs" by (auto simp: kernel_ok_def)
  show ?thesis
    by (rule ends_mono [OF irq_call_ok [OF qs _ _ assms(2)]]) (use t step_ok_kernel_ok [OF assms(1)] in auto)
qed

lemma kernel_step_ok:
  assumes "kernel_step M tsi k k'" "kernel_ok M k"
  shows "kernel_ok M k'"
  using assms(1)
proof cases
  case (Call c)
  with kernel_call_ok [OF assms(2), of c tsi] show ?thesis by (simp add: ends_def valid_def)
next
  case Irq_start
  from assms(2) obtain qs where "kernel_wf M k qs" "scheduled k qs" by (auto simp: kernel_ok_def)
  with Irq_start show ?thesis by (auto simp: kernel_ok_def scheduled_def)
next
  case (Irq_call c)
  with kernel_call_ok [OF assms(2), of c tsi] show ?thesis by (simp add: ends_def valid_def)
next
  case Irq_end
  from assms(2) obtain qs where "kernel_wf M k qs" "scheduled k qs" by (auto simp: kernel_ok_def)
  with Irq_end show ?thesis by (auto simp: kernel_ok_def scheduled_def cortexm_isr_end_def thread_yield_higher_def)
next
  case (Pendsv idle t)
  from assms(2) obtain qs where "kernel_wf M (k\<lparr>pendsv := False\<rparr>) qs" by (auto simp: kernel_ok_def)
  from sched_run_ok [OF this Pendsv(3,4)] obtain qs' where "running M k' qs' t" "\<not> sched_context_switch_request k'" by auto
  then show ?thesis using running_kernel_ok by blast
qed

lemma kernel_reachable_ok: "kernel_reachable M tsi k \<Longrightarrow> kernel_ok M k"
proof (induction rule: kernel_reachable.induct)
  case (Start stk sz fn k)
  obtain k' qs where "kernel_init tsi stk sz fn boot_kernel = Inr k'" "kernel_wf M k' qs" "pendsv k'"
    by (rule kernel_init_ok)
  with Start show ?case by (auto simp: kernel_ok_def scheduled_def)
next
  case (Step k k')
  then show ?case by (blast intro: kernel_step_ok)
qed

text \<open>The running thread has the best priority of all runnable threads.\<close>

lemma running_best:
  assumes "running M k qs me" "runnable k t"
  shows "priority (tcbs k me) \<le> priority (tcbs k t)"
proof -
  have "t \<in> set (qs (runq k t))" using assms inv_runnable [OF wf_inv [OF running_wf [OF assms(1)]]] by blast
  then have "qs (Runqueue (unat (priority (tcbs k t)))) \<noteq> []" by (auto simp: runq_def)
  with assms(1) have "\<not> unat (priority (tcbs k t)) < unat (priority (tcbs k me))" by (auto simp: running_def current_def)
  then show ?thesis by (simp add: word_le_nat_alt)
qed

section \<open>Taking turns\<close>

text \<open>The running thread yields and the scheduler runs.\<close>

definition yield_run :: "kernel \<Rightarrow> kernel" where
  "yield_run k =
     (case thread_yield k of
        Inl _ \<Rightarrow> k
      | Inr k1 \<Rightarrow> (case sched_run id (k1\<lparr>pendsv := False\<rparr>) of Some (Inr (_, k2)) \<Rightarrow> k2 | _ \<Rightarrow> k1))"

lemma running_yields:
  assumes "running M k qs me" "p = unat (priority (tcbs k me))"
  shows "running M (yield_run k) (qs(Runqueue p := rotate1 (qs (Runqueue p)))) (hd (rotate1 (qs (Runqueue p))))"
    "\<And>t. priority (tcbs (yield_run k) t) = priority (tcbs k t)" "\<not> pendsv (yield_run k)"
    "in_irq (yield_run k) = in_irq k"
proof -
  let ?q = "qs(Runqueue p := rotate1 (qs (Runqueue p)))"
  let ?k = "sched_runq_advance (priority (tcbs k me)) k"
  have act: "sched_active_thread k = Some me" and on: "STATUS_ON_RUNQUEUE \<le> status (tcbs k me)"
    using assms(1) running_runnable by (auto simp: running_def runnable_def)
  have y: "thread_yield k = Inr (thread_yield_higher ?k)" using act on by (simp add: thread_yield_def)
  let ?k1 = "thread_yield_higher ?k\<lparr>pendsv := False\<rparr>"
  have wf1: "kernel_wf M ?k1 ?q" using wf_advance [OF running_wf [OF assms(1)], of "priority (tcbs k me)"] assms(2) by simp
  obtain ts where ts: "qs (Runqueue p) = me # ts" using assms by (auto simp: running_def current_def)
  have ne: "runqueue_bitcache ?k1 \<noteq> 0"
    using inv_bitcache_zero [OF wf_inv [OF wf1]] ts by (auto dest: spec [of _ p])
  have tcb: "tcbs ?k1 = tcbs k" "in_irq ?k1 = in_irq k" by (simp_all add: sched_runq_advance_def thread_yield_higher_def)
  from sched_run_next_wf [OF wf1 ne disjI2 [OF refl] refl] obtain t k' where k':
    "sched_run_next (sched_active_thread ?k1) (sched_active_thread ?k1) ?k1 = Inr (t, k')" "running M k' ?q t"
    "in_irq k' = in_irq ?k1" "pendsv k' = pendsv ?k1"
    "\<forall>u. priority (tcbs k' u) = priority (tcbs ?k1 u) \<and> (runnable k' u \<longleftrightarrow> runnable ?k1 u)" by metis
  have "sched_run id ?k1 = Some (Inr (t, k'))" using k'(1) ne by (simp add: sched_run_def Let_def)
  then have yr: "yield_run k = k'" by (simp add: yield_run_def y)
  have cur: "current qs me p" using assms by (simp add: running_def)
  have "current ?q t (unat (priority (tcbs k' t)))" using k'(2) by (simp add: running_def)
  moreover have "?q (Runqueue p') = []" if "p' < p" for p' using cur that by (auto simp: current_def)
  ultimately have "unat (priority (tcbs k' t)) = p"
    using ts by (auto simp: current_def) (metis (no_types, lifting) fun_upd_apply linorder_neqE_nat list.distinct(1) snoc_eq_iff_butlast)
  then have "t = hd (rotate1 (qs (Runqueue p)))" using k'(2) by (auto simp: running_def current_def)
  then show "running M (yield_run k) ?q (hd (rotate1 (qs (Runqueue p))))"
    "\<And>t. priority (tcbs (yield_run k) t) = priority (tcbs k t)" "\<not> pendsv (yield_run k)" "in_irq (yield_run k) = in_irq k"
    using k' tcb by (simp_all add: yr)
qed

text \<open>After \<open>n\<close> yields the run queue of the best priority is rotated by \<open>n\<close>.\<close>

lemma running_yields_funpow:
  assumes "running M k qs me" "p = unat (priority (tcbs k me))"
  shows "running M ((yield_run ^^ n) k) (qs(Runqueue p := rotate n (qs (Runqueue p)))) (hd (rotate n (qs (Runqueue p))))
     \<and> (\<forall>t. priority (tcbs ((yield_run ^^ n) k) t) = priority (tcbs k t)) \<and> in_irq ((yield_run ^^ n) k) = in_irq k"
proof (induction n)
  case 0
  from assms have "hd (qs (Runqueue p)) = me" by (auto simp: running_def current_def)
  with assms(1) show ?case by simp
next
  case (Suc n)
  let ?k = "(yield_run ^^ n) k" and ?q = "qs(Runqueue p := rotate n (qs (Runqueue p)))" and ?t = "hd (rotate n (qs (Runqueue p)))"
  have wf: "kernel_wf M k qs" using assms(1) by (rule running_wf)
  have ne: "qs (Runqueue p) \<noteq> []" using assms by (auto simp: running_def current_def)
  then have "?t \<in> set (qs (Runqueue p))" using hd_in_set [of "rotate n (qs (Runqueue p))"] by simp
  then have "unat (priority (tcbs k ?t)) = p" using inv_in_runqueue [OF wf_inv [OF wf]] by (auto simp: runq_def)
  with Suc have pe: "p = unat (priority (tcbs ?k ?t))" by simp
  from Suc have run: "running M ?k ?q ?t" by blast
  have e: "rotate1 (?q (Runqueue p)) = rotate (Suc n) (qs (Runqueue p))" by (simp add: rotate_def)
  note y = running_yields [OF run pe]
  show ?case
    unfolding funpow.simps o_apply
    by (intro conjI, rule y(1) [unfolded e fun_upd_upd]) (use y(2,4) Suc in simp_all)
qed

end
