(* ===== verification/Core_Properties.thy ===== *)
theory Core_Properties
  imports Core_Kernel_Steps
begin

text \<open>
  The correctness theorems of the kernel, with concrete kernel states that show that their hypotheses can
  hold.
\<close>

unbundle bit_operations_syntax

section \<open>A kernel with two threads\<close>

text \<open>
  The main thread, with its control block at \<open>0x13d8\<close>, and a second thread of the same priority at \<open>0x23d8\<close>.
\<close>

named_theorems kernel_eval "definitions that evaluate a kernel call on a concrete state"

lemmas [kernel_eval] = Let_def upd_tcb_def less_eq_thread_status_t_def less_thread_status_t_def SCHED_PRIO_LEVELS_def
  KERNEL_PID_UNDEF_def sched_set_status_def runqueue_push_def runqueue_pop_def set_runqueue_bit_def clear_runqueue_bit_def
  clist_rpush_def clist_lpop_def BIT31_def thread_yield_higher_def sched_switch_def

definition no_stack :: "u32 \<Rightarrow> u32 \<Rightarrow> u32 \<Rightarrow> int \<Rightarrow> u32" where
  "no_stack f a s n = 0"

definition one_mutex :: "u32 \<Rightarrow> bool" where
  "one_mutex a \<longleftrightarrow> a = 0x4000"

definition demo_thread :: "int \<Rightarrow> thread_status_t \<Rightarrow> u8 \<Rightarrow> thread_t" where
  "demo_thread p st prio = boot_thread\<lparr>pid := p, status := st, priority := prio\<rparr>"

definition demo_boot :: kernel where
  "demo_boot = boot_kernel\<lparr>sched_threads := [1 \<mapsto> 0x13d8], sched_num_threads := 1, runqueue_bitcache := 0x1000000,
     links := [Runqueue 7 \<mapsto> Rq_entry 0x13d8, Rq_entry 0x13d8 \<mapsto> Rq_entry 0x13d8],
     tcbs := (tcbs boot_kernel)(0x13d8 := demo_thread 1 STATUS_PENDING 7), pendsv := True\<rparr>"

definition demo_main :: kernel where
  "demo_main = demo_boot\<lparr>tcbs := (tcbs boot_kernel)(0x13d8 := demo_thread 1 STATUS_RUNNING 7), pendsv := False,
     sched_active_pid := 1, sched_active_thread := Some 0x13d8\<rparr>"

definition demo_two :: kernel where
  "demo_two = demo_main\<lparr>sched_threads := [1 \<mapsto> 0x13d8, 2 \<mapsto> 0x23d8], sched_num_threads := 2,
     links := [Runqueue 7 \<mapsto> Rq_entry 0x23d8, Rq_entry 0x13d8 \<mapsto> Rq_entry 0x23d8, Rq_entry 0x23d8 \<mapsto> Rq_entry 0x13d8],
     tcbs := (tcbs demo_main)(0x23d8 := demo_thread 2 STATUS_PENDING 7)\<rparr>"

lemma demo_init: "kernel_init no_stack 0x1000 1024 0 boot_kernel = Inr demo_boot"
  by (simp add: kernel_eval kernel_init_def thread_create_def thread_create_layout_def sizeof_thread_t_def boot_pid
      flag_set_def no_stack_def cpu_switch_context_exit_def c_const)
    (auto simp: demo_boot_def boot_kernel_def boot_thread_def demo_thread_def fun_eq_iff)

lemma idle_id: "idle_ok M id"
  by (auto simp: idle_ok_def)

lemma msb_bit24: "31 - bitarithm_msb 0x1000000 = 7"
proof -
  have "(0x1000000 :: u32) = 2 ^ 24" by simp
  then have "is_msb 0x1000000 24" by (simp only: is_msb_def bit_exp_iff) simp
  from bitarithm_msb_correct [OF this] show ?thesis by simp
qed

lemma demo_start: "sched_run id (demo_boot\<lparr>pendsv := False\<rparr>) = Some (Inr (0x13d8, demo_main))"
  by (simp add: kernel_eval sched_run_def sched_run_next_def get_prio_queue_from_runqueue_def msb_bit24 demo_boot_def demo_main_def
      boot_kernel_def boot_thread_def demo_thread_def)

lemma demo_pid: "first_free_pid demo_main = 2"
  by (simp add: first_free_pid_def demo_main_def demo_boot_def KERNEL_PID_FIRST_def KERNEL_PID_LAST_def
      KERNEL_PID_UNDEF_def MAXTHREADS_def upto.simps)

lemma flag_set_0: "flag_set 0 f = False"
  by (simp add: flag_set_def)

lemma demo_create: "api_exec no_stack (Create 0x2000 1024 7 0 0 0) demo_main = Some (Inr demo_two)"
  by (simp add: kernel_eval thread_create_def thread_create_layout_def sizeof_thread_t_def no_stack_def demo_pid flag_set_0 state_of_def)
    (auto simp: kernel_eval demo_two_def demo_main_def demo_boot_def boot_kernel_def boot_thread_def demo_thread_def fun_eq_iff)

lemma demo_reachable:
  "kernel_reachable one_mutex no_stack demo_boot" "kernel_reachable one_mutex no_stack demo_main"
  "kernel_reachable one_mutex no_stack demo_two"
proof -
  show b: "kernel_reachable one_mutex no_stack demo_boot" by (rule Start [OF demo_init])
  have "kernel_step one_mutex no_stack demo_boot demo_main"
    by (rule Pendsv [OF _ _ idle_id demo_start]) (simp_all add: demo_boot_def boot_kernel_def)
  with b show m: "kernel_reachable one_mutex no_stack demo_main" by (rule Step)
  have "kernel_step one_mutex no_stack demo_main demo_two"
  proof (rule Call [OF _ _ _ _ demo_create])
    show "api_pre one_mutex (Create 0x2000 1024 7 0 0 0) demo_main"
      by (simp add: api_pre_def new_tcb_def thread_create_layout_def sizeof_thread_t_def flag_set_def demo_main_def demo_boot_def
          boot_kernel_def boot_thread_def Let_def)
  qed (simp_all add: thread_api_def api_pre_def demo_main_def demo_boot_def boot_kernel_def)
  with m show "kernel_reachable one_mutex no_stack demo_two" by (rule Step)
qed

section \<open>The kernel as a whole\<close>

text \<open>
  C29: no kernel call faults.  In every state the kernel can reach from its start, by any interleaving of calls of the
  running thread, interrupts, calls of interrupt handlers and scheduler runs, a call that meets its obligations ends
  without a null dereference, an index outside the thread table, a failed assertion or an endless loop, and the state
  it leaves is reachable again.  The obligations \<open>api_pre\<close> are those of the caller: arguments of the right kind, thread
  identifiers inside the thread table, and, for an interrupt handler whose call wakes a thread through \<open>sched_switch\<close>,
  that some thread is active.  The kernel does not provide the last one: see C14.
\<close>

theorem kernel_calls_end:
  assumes "kernel_reachable M tsi k" and "api_pre M c k"
    and "\<not> in_irq k \<and> \<not> pendsv k \<and> thread_api c \<or> in_irq k \<and> irq_api c"
  shows "\<exists>k'. api_exec tsi c k = Some (Inr k') \<and> kernel_reachable M tsi k'"
proof -
  from kernel_call_ok [OF kernel_reachable_ok [OF assms(1)] assms(2,3)] obtain k' where
    k': "api_exec tsi c k = Some (Inr k')" by (auto simp: ends_def valid_def)
  from assms(3) have "kernel_step M tsi k k'"
    using assms(2) k' by (auto intro: kernel_step.intros)
  with k' assms(1) show ?thesis by (auto intro: kernel_reachable.intros)
qed

theorem kernel_calls_end_witness:
  "\<exists>k'. api_exec no_stack (Msg_receive 0x3000) demo_two = Some (Inr k') \<and> kernel_reachable one_mutex no_stack k'"
  by (rule kernel_calls_end [OF demo_reachable(3)])
    (simp_all add: thread_api_def api_pre_def demo_two_def demo_main_def demo_boot_def boot_kernel_def)

text \<open>
  The main thread creates a sleeping second thread and ends.  Before the pending scheduler run an interrupt arrives.
\<close>

definition demo_sleeper :: kernel where
  "demo_sleeper = demo_main\<lparr>sched_threads := [1 \<mapsto> 0x13d8, 2 \<mapsto> 0x23d8], sched_num_threads := 2,
     tcbs := (tcbs demo_main)(0x23d8 := demo_thread 2 STATUS_SLEEPING 7)\<rparr>"

lemmas demo_sleeper_defs = demo_sleeper_def demo_main_def demo_boot_def boot_kernel_def boot_thread_def demo_thread_def

lemma demo_sleeper_reachable: "kernel_reachable one_mutex no_stack demo_sleeper"
proof -
  have fl: "flag_set THREAD_CREATE_SLEEPING THREAD_CREATE_SLEEPING" "\<not> flag_set THREAD_CREATE_SLEEPING THREAD_CREATE_WOUT_YIELD"
    by (simp_all add: flag_set_def c_const)
  have "api_exec no_stack (Create 0x2000 1024 7 THREAD_CREATE_SLEEPING 0 0) demo_main = Some (Inr demo_sleeper)"
    by (simp add: kernel_eval thread_create_def thread_create_layout_def sizeof_thread_t_def no_stack_def demo_pid fl state_of_def)
      (auto simp: kernel_eval demo_sleeper_defs fun_eq_iff)
  then have "kernel_step one_mutex no_stack demo_main demo_sleeper"
    by (rule Call [rotated 4])
      (simp_all add: thread_api_def api_pre_def new_tcb_def thread_create_layout_def sizeof_thread_t_def fl demo_sleeper_defs Let_def)
  with demo_reachable(2) show ?thesis by (rule Step)
qed

lemma demo_exit:
  obtains k where "kernel_reachable one_mutex no_stack k" "\<not> in_irq k" "sched_active_thread k = None"
    "sched_threads k 2 = Some 0x23d8" "status (tcbs k 0x23d8) = STATUS_SLEEPING"
proof -
  obtain k where k: "api_exec no_stack Exit demo_sleeper = Some (Inr k)" "\<not> in_irq k" "sched_active_thread k = None"
    "sched_threads k 2 = Some 0x23d8" "status (tcbs k 0x23d8) = STATUS_SLEEPING"
    by (simp add: kernel_eval sched_task_exit_def demo_sleeper_defs)
  have "kernel_step one_mutex no_stack demo_sleeper k"
    by (rule Call [OF _ _ _ _ k(1)]) (simp_all add: thread_api_def api_pre_def demo_sleeper_defs)
  with demo_sleeper_reachable have "kernel_reachable one_mutex no_stack k" by (rule Step)
  with k(2-) show thesis by (intro that)
qed

lemma wakeup_needs_active:
  assumes "sched_active_thread k = None" "thread_get k p = Some t" "status (tcbs k t) = STATUS_SLEEPING"
  shows "api_exec tsi (Wakeup p) k = Some (Inl NullDeref)"
  using assms
  by (simp add: kernel_eval thread_wakeup_def state_of_def)

text \<open>
  C14: the wake-up of a thread can read through a null pointer.  The kernel reaches a state in which an interrupt is
  served while no thread is active and a thread sleeps: the running thread has ended and the scheduler has not run since.
  There the call \<open>thread_wakeup\<close>, which interrupt handlers may make and whose argument is as required, ends in the null
  dereference of \<open>sched_switch\<close>.
\<close>

theorem wakeup_without_active_thread:
  "\<exists>k. kernel_reachable one_mutex no_stack k \<and> in_irq k \<and> sched_active_thread k = None
     \<and> irq_api (Wakeup 2) \<and> arg_pre one_mutex (Wakeup 2) k \<and> thread_getstatus k 2 = Some STATUS_SLEEPING
     \<and> api_exec no_stack (Wakeup 2) k = Some (Inl NullDeref)"
proof -
  obtain k where k: "kernel_reachable one_mutex no_stack k" "\<not> in_irq k" "sched_active_thread k = None"
    "sched_threads k 2 = Some 0x23d8" "status (tcbs k 0x23d8) = STATUS_SLEEPING" by (rule demo_exit)
  let ?k = "k\<lparr>in_irq := True\<rparr>"
  have "kernel_reachable one_mutex no_stack ?k" using k(1) Irq_start [OF k(2)] by (rule Step)
  moreover have "thread_get ?k 2 = Some 0x23d8"
    using k(4) by (simp add: thread_get_valid pid_is_valid_def KERNEL_PID_FIRST_def KERNEL_PID_LAST_def MAXTHREADS_def
        KERNEL_PID_UNDEF_def)
  ultimately show ?thesis
    using k(3,5) wakeup_needs_active [of ?k 2 "0x23d8" no_stack]
    by (intro exI [of _ ?k]) (simp add: thread_getstatus_def)
qed

text \<open>
  C30: threads run in the order of their priorities.  In every reachable state, outside of interrupts and with no
  scheduler run pending, there is an active thread, it is runnable and no runnable thread has a better
  priority.  In all reachable states the bit cache tells which priorities have runnable threads.
\<close>

theorem kernel_priority_order:
  assumes "kernel_reachable M tsi k"
  shows "(\<not> in_irq k \<and> \<not> pendsv k \<longrightarrow> (\<exists>a. sched_active_thread k = Some a \<and> status (tcbs k a) \<ge> STATUS_ON_RUNQUEUE
       \<and> (\<forall>t. status (tcbs k t) \<ge> STATUS_ON_RUNQUEUE \<longrightarrow> priority (tcbs k a) \<le> priority (tcbs k t))))
     \<and> (\<forall>p < 32. bit (runqueue_bitcache k) (31 - p) \<longleftrightarrow>
          (\<exists>t. status (tcbs k t) \<ge> STATUS_ON_RUNQUEUE \<and> unat (priority (tcbs k t)) = p))"
proof (intro conjI impI allI)
  note ok = kernel_reachable_ok [OF assms]
  show "\<exists>a. sched_active_thread k = Some a \<and> status (tcbs k a) \<ge> STATUS_ON_RUNQUEUE
      \<and> (\<forall>t. status (tcbs k t) \<ge> STATUS_ON_RUNQUEUE \<longrightarrow> priority (tcbs k a) \<le> priority (tcbs k t))"
    if m: "\<not> in_irq k \<and> \<not> pendsv k"
  proof -
    from kernel_ok_running [OF ok] m obtain qs a where run: "running M k qs a" by blast
    from running_active [OF run] running_runnable [OF run] running_best [OF run] show ?thesis
      by (auto simp: runnable_def)
  qed
  from ok obtain qs where inv: "kernel_inv k qs" by (auto simp: kernel_ok_def kernel_wf_def)
  fix p :: nat assume p: "p < 32"
  then have "bit (runqueue_bitcache k) (31 - p) \<longleftrightarrow> qs (Runqueue p) \<noteq> []" using inv by (simp add: kernel_inv_def)
  also have "\<dots> \<longleftrightarrow> (\<exists>t. t \<in> set (qs (Runqueue p)))" by (cases "qs (Runqueue p)") auto
  finally show "bit (runqueue_bitcache k) (31 - p) \<longleftrightarrow>
      (\<exists>t. status (tcbs k t) \<ge> STATUS_ON_RUNQUEUE \<and> unat (priority (tcbs k t)) = p)"
    using inv by (auto simp: kernel_inv_def)
qed

theorem kernel_priority_order_witness:
  "sched_active_thread demo_two = Some 0x13d8 \<and> priority (tcbs demo_two 0x13d8) \<le> priority (tcbs demo_two 0x23d8)
   \<and> bit (runqueue_bitcache demo_two) 24 \<and> \<not> bit (runqueue_bitcache demo_two) 25"
proof -
  have e: "31 - (6 :: nat) = 25" "31 - (7 :: nat) = 24" by simp_all
  have st: "\<not> in_irq demo_two" "\<not> pendsv demo_two" "sched_active_thread demo_two = Some 0x13d8"
    "STATUS_ON_RUNQUEUE \<le> status (tcbs demo_two 0x23d8)" "unat (priority (tcbs demo_two 0x23d8)) = 7"
    "\<And>t. unat (priority (tcbs demo_two t)) \<noteq> 6"
    by (simp_all add: demo_two_def demo_main_def demo_boot_def boot_kernel_def demo_thread_def boot_thread_def less_eq_thread_status_t_def)
  from kernel_priority_order [OF demo_reachable(3), THEN conjunct2, rule_format, of 6] st(6)
  have "\<not> bit (runqueue_bitcache demo_two) 25" by (simp add: e)
  moreover from kernel_priority_order [OF demo_reachable(3), THEN conjunct2, rule_format, of 7] st(4,5)
  have "bit (runqueue_bitcache demo_two) 24" by (auto simp: e)
  moreover from kernel_priority_order [OF demo_reachable(3), THEN conjunct1] st(1-4)
  have "priority (tcbs demo_two 0x13d8) \<le> priority (tcbs demo_two 0x23d8)" by auto
  ultimately show ?thesis using st(3) by simp
qed

text \<open>
  C31: the scheduling decision.  When a scheduler run is pending in a reachable state and a thread is runnable, the run
  returns whatever idling would do; the thread it returns is runnable, has the best priority, is marked as running and
  becomes the active thread, no thread becomes or ceases to be runnable, and the request is served.
\<close>

theorem sched_run_picks_best:
  assumes "kernel_reachable M tsi k" and "runqueue_bitcache k \<noteq> 0"
  shows "\<exists>t k'. sched_run idle (k\<lparr>pendsv := False\<rparr>) = Some (Inr (t, k')) \<and> sched_active_thread k' = Some t
     \<and> status (tcbs k t) \<ge> STATUS_ON_RUNQUEUE \<and> status (tcbs k' t) = STATUS_RUNNING
     \<and> (\<forall>u. status (tcbs k u) \<ge> STATUS_ON_RUNQUEUE \<longrightarrow> priority (tcbs k t) \<le> priority (tcbs k u))
     \<and> (\<forall>u. (status (tcbs k' u) \<ge> STATUS_ON_RUNQUEUE \<longleftrightarrow> status (tcbs k u) \<ge> STATUS_ON_RUNQUEUE)
          \<and> priority (tcbs k' u) = priority (tcbs k u))
     \<and> \<not> sched_context_switch_request k' \<and> \<not> pendsv k'"
proof -
  let ?k = "k\<lparr>pendsv := False\<rparr>"
  from kernel_reachable_ok [OF assms(1)] obtain qs where wf: "kernel_wf M ?k qs" by (auto simp: kernel_ok_def)
  have ne: "runqueue_bitcache ?k \<noteq> 0" using assms(2) by simp
  from sched_run_next_wf [OF wf ne disjI2 [OF refl] refl] obtain t k' where k':
    "sched_run_next (sched_active_thread ?k) (sched_active_thread ?k) ?k = Inr (t, k')" "running M k' qs t"
    "status (tcbs k' t) = STATUS_RUNNING" "\<not> sched_context_switch_request k'" "pendsv k' = pendsv ?k"
    "\<forall>u. priority (tcbs k' u) = priority (tcbs ?k u) \<and> (runnable k' u \<longleftrightarrow> runnable ?k u)" by metis
  have "sched_run idle ?k = Some (Inr (t, k'))" using k'(1) ne by (simp add: sched_run_def Let_def)
  moreover have "\<forall>u. runnable k u \<longrightarrow> priority (tcbs k t) \<le> priority (tcbs k u)"
    using running_best [OF k'(2)] k'(6) by (auto simp: runnable_def)
  moreover have "runnable k t" using running_runnable [OF k'(2)] k'(6) by (simp add: runnable_def)
  ultimately show ?thesis using running_active [OF k'(2)] k'(3-6) by (auto simp: runnable_def)
qed

theorem sched_run_picks_best_witness:
  "\<exists>k'. sched_run (\<lambda>k. k) (demo_boot\<lparr>pendsv := False\<rparr>) = Some (Inr (0x13d8, k')) \<and> status (tcbs k' 0x13d8) = STATUS_RUNNING"
proof -
  have ne: "runqueue_bitcache demo_boot \<noteq> 0" by (simp add: demo_boot_def)
  have only: "t = 0x13d8" if "STATUS_ON_RUNQUEUE \<le> status (tcbs demo_boot t)" for t
    using that by (auto simp: demo_boot_def boot_kernel_def boot_thread_def less_eq_thread_status_t_def split: if_splits)
  from sched_run_picks_best [OF demo_reachable(1) ne, of "\<lambda>k. k"] only show ?thesis by blast
qed

text \<open>
  C32: threads of equal priority take turns.  In a reachable state outside of interrupts with no scheduler run pending, if the
  threads that run do nothing but yield, every runnable thread of the best priority runs after fewer yields than there
  are such threads.
\<close>

theorem yielding_threads_take_turns:
  assumes "kernel_reachable M tsi k" and "\<not> in_irq k" and "\<not> pendsv k"
    and "sched_active_thread k = Some a" and "status (tcbs k t) \<ge> STATUS_ON_RUNQUEUE"
    and "priority (tcbs k t) = priority (tcbs k a)"
  shows "\<exists>n < card {u. status (tcbs k u) \<ge> STATUS_ON_RUNQUEUE \<and> priority (tcbs k u) = priority (tcbs k a)}.
     sched_active_thread ((yield_run ^^ n) k) = Some t"
proof -
  from kernel_ok_running [OF kernel_reachable_ok [OF assms(1)] assms(2,3)] obtain qs where run: "running M k qs a"
    using assms(4) running_active by (metis option.inject)
  let ?p = "unat (priority (tcbs k a))"
  have inv: "kernel_inv k qs" by (rule wf_inv [OF running_wf [OF run]])
  have set: "u \<in> set (qs (Runqueue ?p)) \<longleftrightarrow> status (tcbs k u) \<ge> STATUS_ON_RUNQUEUE \<and> priority (tcbs k u) = priority (tcbs k a)" for u
    using inv by (auto simp: kernel_inv_def dest: unsigned_word_eqI)
  have "distinct (qs (Runqueue ?p))" by (rule queues_at_distinct [OF inv_queues [OF inv]])
  then have "length (qs (Runqueue ?p)) = card (set (qs (Runqueue ?p)))" by (rule distinct_card [symmetric])
  moreover have "set (qs (Runqueue ?p)) = {u. status (tcbs k u) \<ge> STATUS_ON_RUNQUEUE \<and> priority (tcbs k u) = priority (tcbs k a)}"
    using set by blast
  ultimately have len: "length (qs (Runqueue ?p))
      = card {u. status (tcbs k u) \<ge> STATUS_ON_RUNQUEUE \<and> priority (tcbs k u) = priority (tcbs k a)}" by simp
  from set assms(5,6) obtain n where n: "n < length (qs (Runqueue ?p))" "qs (Runqueue ?p) ! n = t"
    by (auto simp: in_set_conv_nth)
  then have "hd (rotate n (qs (Runqueue ?p))) = t" by (subst hd_rotate_conv_nth) auto
  with running_yields_funpow [OF run refl, of n] have "sched_active_thread ((yield_run ^^ n) k) = Some t"
    using running_active by fastforce
  with n(1) len show ?thesis by auto
qed

theorem yielding_threads_take_turns_witness:
  "\<exists>n < 2. sched_active_thread ((yield_run ^^ n) demo_two) = Some 0x23d8"
proof -
  have st: "\<not> in_irq demo_two" "\<not> pendsv demo_two" "sched_active_thread demo_two = Some 0x13d8"
    "STATUS_ON_RUNQUEUE \<le> status (tcbs demo_two 0x23d8)" "priority (tcbs demo_two 0x23d8) = priority (tcbs demo_two 0x13d8)"
    by (simp_all add: demo_two_def demo_main_def demo_boot_def boot_kernel_def demo_thread_def boot_thread_def less_eq_thread_status_t_def)
  have "{u. status (tcbs demo_two u) \<ge> STATUS_ON_RUNQUEUE \<and> priority (tcbs demo_two u) = priority (tcbs demo_two 0x13d8)}
      = {0x13d8, 0x23d8}"
    by (auto simp: demo_two_def demo_main_def demo_boot_def boot_kernel_def demo_thread_def boot_thread_def less_eq_thread_status_t_def
        split: if_splits)
  then have "card {u. status (tcbs demo_two u) \<ge> STATUS_ON_RUNQUEUE \<and> priority (tcbs demo_two u) = priority (tcbs demo_two 0x13d8)} = 2"
    by simp
  with yielding_threads_take_turns [OF demo_reachable(3) st] show ?thesis by simp
qed

section \<open>Mutexes\<close>

text \<open>
  The abstract state of a mutex: \<open>None\<close> when it is free, otherwise the threads that wait for it, the next owner first.
\<close>

fun mutex_rep :: "kernel \<Rightarrow> u32 \<Rightarrow> tcb list option \<Rightarrow> bool" where
  "mutex_rep k a None \<longleftrightarrow> links k (Queue a) = None"
| "mutex_rep k a (Some []) \<longleftrightarrow> links k (Queue a) = Some Mutex_locked"
| "mutex_rep k a (Some (w # ws)) \<longleftrightarrow> list_at (links k) (Queue a) (map Rq_entry (w # ws))"

lemma list_at_threads_unique:
  "list_at h l (map Rq_entry ts) \<Longrightarrow> list_at h l (map Rq_entry us) \<Longrightarrow> ts = us"
proof (induction ts arbitrary: l us)
  case Nil
  then show ?case by (cases us) (auto simp: list_at_Cons)
next
  case (Cons t ts)
  then show ?case by (cases us) (auto simp: list_at_Cons)
qed

lemma mutex_rep_abs:
  assumes "kernel_inv k qs"
  shows "mutex_rep k a s \<longleftrightarrow> mutex_abs k qs a = s"
proof -
  have "queue_at (links k) (Queue a) (qs (Queue a))" using inv_queues [OF assms] unfolding queues_at_def by blast
  then have q: "list_at (links k) (Queue a) (map Rq_entry (qs (Queue a))) \<or> qs (Queue a) = [] \<and> links k (Queue a) = Some Mutex_locked"
    by simp
  show ?thesis
  proof (cases "(k, a, s)" rule: mutex_rep.cases)
    case (3 _ _ w ws)
    with q list_at_threads_unique [of "links k" "Queue a" "w # ws" "qs (Queue a)"] show ?thesis
      by (auto simp: mutex_abs_def list_at_Cons)
  qed (use q inv_head_None [OF assms, of "Queue a"] in \<open>auto simp: mutex_abs_def\<close>)
qed

text \<open>The operations on the abstract state.\<close>

definition spec_lock :: "kernel \<Rightarrow> tcb \<Rightarrow> tcb list option \<Rightarrow> tcb list option" where
  "spec_lock k me s = (case s of None \<Rightarrow> Some [] | Some ws \<Rightarrow> Some (insert_waiter k me ws))"

fun spec_unlock :: "tcb list option \<Rightarrow> tcb list option" where
  "spec_unlock (Some (w # ws)) = Some ws"
| "spec_unlock _ = None"

lemma mutex_lock_refines:
  assumes run: "running M k qs me" and s: "mutex_rep k a s"
  shows "\<exists>k'. mutex_lock_internal a True k = Some (Inr (True, k')) \<and> mutex_rep k' a (spec_lock k me s)
     \<and> (if s = None then k' = k\<lparr>links := (links k)(Queue a := MUTEX_LOCKED)\<rparr>
        else status (tcbs k' me) = STATUS_MUTEX_BLOCKED \<and> pendsv k')"
proof -
  have inv: "kernel_inv k qs" by (rule wf_inv [OF running_wf [OF run]])
  have abs: "mutex_abs k qs a = s" using mutex_rep_abs [OF inv] s by simp
  show ?thesis
  proof (cases s)
    case None
    note l = mutex_lock_free [OF inv abs [unfolded None]]
    from l(1) [of True] l(3) None mutex_rep_abs [OF l(2), of a "Some []"] show ?thesis by (auto simp: spec_lock_def)
  next
    case (Some ws)
    from running_head [OF run] obtain ts where ts: "qs (runq k me) = me # ts" by blast
    from mutex_block_ok [OF inv running_active [OF run] ts abs [unfolded Some]] obtain k' where k':
      "mutex_block a k = Some (Inr k')" "kernel_inv k' (qs(runq k me := ts, Queue a := insert_waiter k me ws))"
      "mutex_abs k' (qs(runq k me := ts, Queue a := insert_waiter k me ws)) a = Some (insert_waiter k me ws)"
      "pendsv k'" "tcbs k' = (tcbs k)(me := (tcbs k me)\<lparr>status := STATUS_MUTEX_BLOCKED\<rparr>)" by blast
    have "links k (Queue a) \<noteq> None" using abs Some by (simp add: mutex_abs_def split: if_splits)
    with k' Some show ?thesis by (auto simp: mutex_lock_internal_def spec_lock_def mutex_rep_abs [OF k'(2)])
  qed
qed

lemma mutex_unlock_refines:
  assumes inv: "kernel_inv k qs" and act: "sched_active_thread k = Some me" and s: "mutex_rep k a s"
  shows "\<exists>k'. mutex_unlock a k = Inr k' \<and> mutex_rep k' a (spec_unlock s)
     \<and> (\<forall>w ws. s = Some (w # ws) \<longrightarrow> status (tcbs k' w) = STATUS_PENDING)"
proof (cases "(k, a, s)" rule: mutex_rep.cases)
  case (3 _ _ w ws)
  have "mutex_abs k qs a = Some (w # ws)" using mutex_rep_abs [OF inv] s 3 by simp
  from wake_first_ok [OF inv this] obtain k' where k': "wake_first a k = Inr (w, k')"
    "kernel_inv k' (qs(Queue a := ws, runq k w := qs (runq k w) @ [w]))"
    "mutex_abs k' (qs(Queue a := ws, runq k w := qs (runq k w) @ [w])) a = Some ws" "same_env k k'"
    "tcbs k' = (tcbs k)(w := (tcbs k w)\<lparr>status := STATUS_PENDING\<rparr>)" by blast
  have rep: "mutex_rep k' a (Some ws)" using k'(3) mutex_rep_abs [OF k'(2)] by simp
  have a': "sched_active_thread k' = Some me" using act k'(4) by (simp add: same_env_def)
  have ch: "mutex_rep (k'\<lparr>pendsv := b\<rparr>) a (Some ws)" "mutex_rep (k'\<lparr>sched_context_switch_request := b\<rparr>) a (Some ws)" for b
    using rep by (cases ws; simp)+
  have "links k (Queue a) \<noteq> None" "links k (Queue a) \<noteq> MUTEX_LOCKED" using s 3 by (auto simp: list_at_Cons)
  then have "mutex_unlock a k = sched_switch (ucast (priority (tcbs k' w))) k'" using k'(1) by (auto simp: mutex_unlock_def)
  with 3 rep ch show ?thesis
    by (auto simp: sched_switch_eq [OF a'] thread_yield_higher_def k'(5))
qed (use s in \<open>auto simp: mutex_unlock_def\<close>)

text \<open>
  C33: mutexes refine their contract.  In a reachable state, the running thread that locks a free mutex gets it at once; if the
  mutex is taken it is blocked behind the waiting threads of the same or a better priority and the scheduler runs; trying to lock
  a taken mutex fails and changes nothing; unlocking hands the mutex over to the first waiting thread, which becomes
  runnable, and frees it when nobody waits.
\<close>

theorem mutex_refines_contract:
  assumes "kernel_reachable M tsi k" and "\<not> in_irq k" and "\<not> pendsv k" and "sched_active_thread k = Some me"
    and "mutex_rep k a s"
  shows "(\<exists>k'. mutex_lock a k = Some (Inr k') \<and> mutex_rep k' a (spec_lock k me s)
       \<and> (if s = None then status (tcbs k' me) = status (tcbs k me) \<and> \<not> pendsv k'
          else status (tcbs k' me) = STATUS_MUTEX_BLOCKED \<and> pendsv k'))
     \<and> (\<exists>k'. mutex_trylock a k = Some (Inr (s = None, k'))
          \<and> (if s = None then mutex_rep k' a (spec_lock k me s) \<and> \<not> pendsv k' else k' = k))
     \<and> (\<exists>k'. mutex_unlock a k = Inr k' \<and> mutex_rep k' a (spec_unlock s)
          \<and> (\<forall>w ws. s = Some (w # ws) \<longrightarrow> status (tcbs k' w) = STATUS_PENDING))"
proof -
  from kernel_ok_running [OF kernel_reachable_ok [OF assms(1)] assms(2,3)] obtain qs where run: "running M k qs me"
    using assms(4) running_active by (metis option.inject)
  have inv: "kernel_inv k qs" by (rule wf_inv [OF running_wf [OF run]])
  have "s = None \<longleftrightarrow> links k (Queue a) = None" using assms(5) by (cases "(k, a, s)" rule: mutex_rep.cases) (auto simp: list_at_Cons)
  with mutex_lock_refines [OF run assms(5)] mutex_unlock_refines [OF inv assms(4,5)] assms(3) show ?thesis
    by (auto simp: mutex_lock_def mutex_trylock_def mutex_lock_internal_def spec_lock_def split: if_splits)
qed

theorem mutex_refines_contract_witness:
  "\<exists>k'. mutex_lock 0x4000 demo_two = Some (Inr k') \<and> mutex_rep k' 0x4000 (Some [])"
proof -
  have "\<not> in_irq demo_two" "\<not> pendsv demo_two" "sched_active_thread demo_two = Some 0x13d8" "mutex_rep demo_two 0x4000 None"
    by (simp_all add: demo_two_def demo_main_def demo_boot_def boot_kernel_def)
  from mutex_refines_contract [OF demo_reachable(3) this] show ?thesis by (auto simp: spec_lock_def)
qed

end
