(* ===== verification/Core_Msg_Properties.thy ===== *)
theory Core_Msg_Properties
  imports Core_Properties
begin

text \<open>
  The order in which messages are received, and two calls that fall short of their contracts: requests to missing threads and
  priority changes of threads that are not the first of their queue.
\<close>

unbundle bit_operations_syntax

section \<open>Receiving messages\<close>

text \<open>
  The messages a thread has yet to receive: those in its queue, and those of the threads that wait to send, in the order of
  the waiting list.
\<close>

definition msg_slots :: "kernel \<Rightarrow> tcb \<Rightarrow> int \<Rightarrow> msg_t" where
  "msg_slots k t n = msgs k (msg_slot (msg_array (tcbs k t)) n)"

definition queued_msgs :: "kernel \<Rightarrow> tcb \<Rightarrow> msg_t list" where
  "queued_msgs k t = (if thread_has_msg_queue (tcbs k t) then cib_items (msg_slots k t, msg_queue (tcbs k t)) else [])"

definition waiting_msgs :: "kernel \<Rightarrow> tcb list \<Rightarrow> msg_t list" where
  "waiting_msgs k ws = map (\<lambda>s. msgs k (wait_data (tcbs k s))) ws"

text \<open>
  The queue has a size that is a power of two, and neither the buffer \<open>m\<close> of the receiver nor a message that waits lies in the
  array of the queue or in each other.
\<close>

definition msg_layout :: "kernel \<Rightarrow> tcb \<Rightarrow> u32 \<Rightarrow> tcb list \<Rightarrow> bool" where
  "msg_layout k t m ws \<longleftrightarrow>
     (thread_has_msg_queue (tcbs k t) \<longrightarrow>
       (\<exists>j \<le> 28. cib_mask (msg_queue (tcbs k t)) = 2 ^ j - 1 \<and> unat (cib_avail (msg_queue (tcbs k t))) \<le> 2 ^ j
          \<and> (\<forall>n < 2 ^ j. \<forall>a \<in> insert m ((\<lambda>s. wait_data (tcbs k s)) ` set ws). a \<noteq> msg_slot (msg_array (tcbs k t)) (int n))))
     \<and> (\<forall>s \<in> set ws. wait_data (tcbs k s) \<noteq> m)"

lemma msg_slot_inj:
  assumes "i < 2 ^ 28" "j < 2 ^ 28" "msg_slot b (int i) = msg_slot b (int j)"
  shows "i = j"
proof -
  have "8 * of_nat i = (8 * of_nat j :: u32)" using assms(3) by (simp add: msg_slot_def)
  then have "(of_nat (8 * i) :: u32) = of_nat (8 * j)" by simp
  then have "unat (of_nat (8 * i) :: u32) = unat (of_nat (8 * j) :: u32)" by simp
  with assms(1,2) unat_of_nat_u32 [of "8 * i"] unat_of_nat_u32 [of "8 * j"] show ?thesis by simp
qed

text \<open>The index that the next message is taken from or put to.\<close>

lemma cib_index_less:
  assumes "j \<le> 30" "cib_mask cib = 2 ^ j - 1"
  shows "\<exists>n < 2 ^ j. sint (w AND cib_mask cib) = int n"
  using cib_slot [OF assms, of w 0] by (intro exI [of _ "unat w mod 2 ^ j"]) simp

text \<open>A switch only requests the scheduler.\<close>

lemma switch_frame:
  assumes "sched_active_thread k = Some a"
  shows "valid (sched_switch p k) (\<lambda>k'. tcbs k' = tcbs k \<and> msgs k' = msgs k \<and> links k' = links k
     \<and> (\<forall>M qs. kernel_wf M k' qs = kernel_wf M k qs))"
  by (simp add: sched_switch_eq [OF assms] thread_yield_higher_def)

text \<open>Taking the message of the first waiting sender.\<close>

lemma msg_take_from_sender_effect:
  assumes wf: "kernel_wf M k qs" and act: "sched_active_thread k = Some me" and s: "\<And>q. s \<notin> set (qs q)" "s \<noteq> me"
    and put: "cib_put (msg_queue (tcbs k me)) = (n, cib)"
  shows "valid (msg_take_from_sender m me s qi k) (\<lambda>(r, k'). r = 1
     \<and> (\<exists>qs'. kernel_wf M k' qs' \<and> (\<forall>q. wait_head q \<longrightarrow> qs' q = qs q))
     \<and> msgs k' = (msgs k)((if qi \<ge> 0 then msg_slot (msg_array (tcbs k me)) n else m) := msgs k (wait_data (tcbs k s)))
     \<and> tcbs k' me = (tcbs k me)\<lparr>msg_queue := (if qi \<ge> 0 then cib else msg_queue (tcbs k me))\<rparr>
     \<and> (\<forall>t. t \<noteq> s \<longrightarrow> wait_data (tcbs k' t) = wait_data (tcbs k t)))"
proof -
  define k1 where "k1 = (if qi \<ge> 0 then upd_tcb me (msg_queue_update (\<lambda>_. cib)) k else k)"
  define m1 where "m1 = (if qi \<ge> 0 then msg_slot (msg_array (tcbs k me)) n else m)"
  define k2 where "k2 = k1\<lparr>msgs := (msgs k1)(m1 := msgs k1 (wait_data (tcbs k1 s)))\<rparr>"
  define k3 where "k3 = upd_tcb s (wait_data_update (\<lambda>_. 0)) k2"
  have wf3: "kernel_wf M k3 qs" "kernel_wf M k2 qs" using wf by (simp_all add: k3_def k2_def k1_def)
  let ?Q = "\<lambda>k'. (\<exists>qs'. kernel_wf M k' qs' \<and> (\<forall>q. wait_head q \<longrightarrow> qs' q = qs q))
     \<and> msgs k' = (msgs k)(m1 := msgs k (wait_data (tcbs k s)))
     \<and> tcbs k' me = (tcbs k me)\<lparr>msg_queue := (if qi \<ge> 0 then cib else msg_queue (tcbs k me))\<rparr>
     \<and> (\<forall>t. t \<noteq> s \<longrightarrow> wait_data (tcbs k' t) = wait_data (tcbs k t))"
  have q2: "?Q k2" using wf3(2) s(2) by (auto simp: k2_def k1_def upd_tcb_def)
  have "valid (sched_set_status s STATUS_PENDING k3) (\<lambda>k'. ?Q k' \<and> sched_active_thread k' = Some me)"
  proof (rule valid_mono [OF wf_wake [where st = STATUS_PENDING, OF wf3(1) _ s(1)]])
    fix k' assume k': "kernel_wf M k' (qs(runq k3 s := qs (runq k3 s) @ [s])) \<and> same_env k3 k'
      \<and> tcbs k' = (tcbs k3)(s := (tcbs k3 s)\<lparr>status := STATUS_PENDING\<rparr>) \<and> same_heads k3 k'"
    have "wait_head q \<longrightarrow> (qs(runq k3 s := qs (runq k3 s) @ [s])) q = qs q" for q
      using wait_head_neq(2) [of q] by (auto simp: runq_def)
    moreover have "msgs k' = msgs k2" "sched_active_thread k' = Some me"
      using k' act by (auto simp: same_env_def k3_def k2_def k1_def upd_tcb_def)
    moreover have "tcbs k' t = tcbs k2 t" if "t \<noteq> s" for t using k' that by (simp add: k3_def upd_tcb_def)
    ultimately show "?Q k' \<and> sched_active_thread k' = Some me" using k' q2 s(2) by auto
  qed simp
  then have "valid (sched_set_status s STATUS_PENDING k3) (\<lambda>k4. let sender_prio = ucast (priority (tcbs k4 s)) in
      valid (if sender_prio < THREAD_PRIORITY_IDLE then ebind (sched_switch sender_prio k4) (\<lambda>k. Inr (1, k))
             else Inr (1, k4)) (\<lambda>(r, k'). r = (1 :: int) \<and> ?Q k'))"
  proof (rule valid_mono)
    fix k4 assume k4: "?Q k4 \<and> sched_active_thread k4 = Some me"
    have "valid (sched_switch p k4) (\<lambda>k'. ?Q k')" for p
      by (rule valid_mono [OF switch_frame]) (use k4 in auto)
    with k4 show "let sender_prio = ucast (priority (tcbs k4 s)) in
      valid (if sender_prio < THREAD_PRIORITY_IDLE then ebind (sched_switch sender_prio k4) (\<lambda>k. Inr (1, k))
             else Inr (1, k4)) (\<lambda>(r, k'). r = (1 :: int) \<and> ?Q k')" by (simp add: Let_def)
  qed
  moreover have "(if qi \<ge> 0 then case cib_put (msg_queue (tcbs k me)) of (n, cib) \<Rightarrow>
      (msg_slot (msg_array (tcbs k me)) n, upd_tcb me (msg_queue_update (\<lambda>_. cib)) k) else (m, k)) = (m1, k1)"
    by (simp add: put m1_def k1_def)
  then have "msg_take_from_sender m me s qi k = (if status (tcbs k2 s) \<noteq> STATUS_REPLY_BLOCKED then
      ebind (sched_set_status s STATUS_PENDING k3) (\<lambda>k. let sender_prio = ucast (priority (tcbs k s))
        in if sender_prio < THREAD_PRIORITY_IDLE then ebind (sched_switch sender_prio k) (\<lambda>k. Inr (1, k)) else Inr (1, k))
      else Inr (1, k2))"
    by (simp add: msg_take_from_sender_def k2_def k3_def Let_def)
  ultimately show ?thesis using q2 by (simp add: Let_def m1_def)
qed

lemma cib_items_cong:
  assumes "j \<le> 30" "cib_mask cib = 2 ^ j - 1" "\<And>n. n < 2 ^ j \<Longrightarrow> a (int n) = b (int n)"
  shows "cib_items (a, cib) = cib_items (b, cib)"
proof -
  have "a (sint (w AND cib_mask cib)) = b (sint (w AND cib_mask cib))" for w
    using cib_index_less [OF assms(1,2), of w] assms(3) by auto
  then show ?thesis by (simp add: cib_items_def)
qed

text \<open>The message queue after a message has been taken out, and after one has been put in.\<close>

lemma queue_taken:
  assumes q: "thread_has_msg_queue (tcbs k t)" "queued_msgs k t = x # xs"
    and j: "j \<le> 28" "cib_mask (msg_queue (tcbs k t)) = 2 ^ j - 1" "unat (cib_avail (msg_queue (tcbs k t))) \<le> 2 ^ j"
  obtains n cib where "cib_get (msg_queue (tcbs k t)) = (int n, cib)" "n < 2 ^ j" "msg_slots k t (int n) = x"
    "cib_items (msg_slots k t, cib) = xs" "cib_mask cib = 2 ^ j - 1" "unat (cib_avail cib) < 2 ^ j"
proof -
  let ?c = "msg_queue (tcbs k t)"
  have items: "cib_items (msg_slots k t, ?c) = x # xs" using q by (simp add: queued_msgs_def)
  then have av: "cib_avail ?c \<noteq> 0" by (auto simp: cib_items_def)
  have j30: "j \<le> 30" using j(1) by simp
  from cib_index_less [OF j30 j(2), of "read_count ?c"] obtain n where n: "n < 2 ^ j" "sint (read_count ?c AND cib_mask ?c) = int n"
    by blast
  let ?d = "?c\<lparr>read_count := read_count ?c + 1\<rparr>"
  have get: "cib_get ?c = (int n, ?d)" using av n(2) by (simp add: cib_get_def)
  then have deq: "cib_dequeue (msg_slots k t, ?c) = (msg_slots k t (int n), (msg_slots k t, ?d))" by (simp add: cib_dequeue_def)
  from cib_dequeue_ok [OF av deq] items j(2,3) show thesis
    by (intro that [OF get n(1)]) simp_all
qed

lemma queue_put:
  assumes j: "j \<le> 28" "cib_mask cib = 2 ^ j - 1" "unat (cib_avail cib) < 2 ^ j"
  obtains n cib' where "cib_put cib = (int n, cib')" "n < 2 ^ j" "cib_mask cib' = 2 ^ j - 1"
    "\<And>a x. cib_items (a(int n := x), cib') = cib_items (a, cib) @ [x]"
proof -
  have j30: "j \<le> 30" using j(1) by simp
  from cib_index_less [OF j30 j(2), of "write_count cib"] obtain n where n: "n < 2 ^ j" "sint (write_count cib AND cib_mask cib) = int n"
    by blast
  have "\<not> cib_full cib" using cib_full_iff [OF j30 j(2)] j(3) by simp
  then have put: "cib_put cib = (int n, cib\<lparr>write_count := write_count cib + 1\<rparr>)"
    using n(2) by (simp add: cib_put_eq cib_put_unsafe_def)
  show thesis
    using cib_enqueue_ok(1) [OF j30 j(2,3)] j(2) by (intro that [OF put n(1)]) (simp_all add: cib_enqueue_def put)
qed

text \<open>
  What receiving a message \<open>x\<close> with \<open>xs\<close> still to come means: the message is in the buffer, the receiver goes on, and
  \<open>xs\<close> is pending.
\<close>

definition received :: "(u32 \<Rightarrow> bool) \<Rightarrow> kernel \<Rightarrow> tcb \<Rightarrow> u32 \<Rightarrow> msg_t \<Rightarrow> msg_t list \<Rightarrow> int \<times> kernel \<Rightarrow> bool" where
  "received M k me m x xs res \<longleftrightarrow> (case res of (r, k') \<Rightarrow> r = 1 \<and> msgs k' m = x \<and> status (tcbs k' me) = status (tcbs k me)
     \<and> (\<exists>qs'. kernel_wf M k' qs' \<and> queued_msgs k' me @ waiting_msgs k' (qs' (Msg_waiters me)) = xs))"

text \<open>The slots of the queue after the message of a sender has been put behind the others.\<close>

lemma queue_refilled:
  assumes j: "j \<le> 28" "cib_mask cib' = 2 ^ j - 1" and n: "n' < 2 ^ j"
    and arr: "msg_array (tcbs k' me) = msg_array (tcbs k me)"
    and ms: "msgs k' = (msgs k)(m := x, msg_slot (msg_array (tcbs k me)) (int n') := y)"
    and off: "\<And>n. n < 2 ^ j \<Longrightarrow> m \<noteq> msg_slot (msg_array (tcbs k me)) (int n)"
  shows "cib_items (msg_slots k' me, cib') = cib_items ((msg_slots k me)(int n' := y), cib')"
proof (rule cib_items_cong [OF _ j(2)])
  fix i :: nat assume i: "i < 2 ^ j"
  have "i < 2 ^ 28" "n' < 2 ^ 28" using i n j(1) power_increasing [of j 28 "2 :: nat"] by simp_all
  with msg_slot_inj [of i n' "msg_array (tcbs k me)"] off [OF i]
  show "msg_slots k' me (int i) = ((msg_slots k me)(int n' := y)) (int i)" by (auto simp: msg_slots_def ms arr)
qed (use j(1) in simp)

lemma waiting_msgs_cong:
  assumes "\<And>s. s \<in> set us \<Longrightarrow> wait_data (tcbs k' s) = wait_data (tcbs k s)"
    "\<And>s. s \<in> set us \<Longrightarrow> msgs k' (wait_data (tcbs k s)) = msgs k (wait_data (tcbs k s))"
  shows "waiting_msgs k' us = waiting_msgs k us"
  using assms by (simp add: waiting_msgs_def)

text \<open>The queue has a message and a sender waits: its message moves into the queue.\<close>

lemma receive_refill:
  assumes wf: "kernel_wf M k qs" and act: "sched_active_thread k = Some me" and s: "\<And>q. s \<notin> set (qs q)" "s \<noteq> me"
    and has: "thread_has_msg_queue (tcbs k me)" and items: "queued_msgs k me = xs"
    and j: "j \<le> 28" "cib_mask (msg_queue (tcbs k me)) = 2 ^ j - 1" "unat (cib_avail (msg_queue (tcbs k me))) < 2 ^ j"
    and off: "\<And>n a. n < 2 ^ j \<Longrightarrow> a \<in> insert m ((\<lambda>s. wait_data (tcbs k s)) ` set (s # qs (Msg_waiters me)))
      \<Longrightarrow> a \<noteq> msg_slot (msg_array (tcbs k me)) (int n)"
    and sm: "\<forall>s \<in> set (qs (Msg_waiters me)). wait_data (tcbs k s) \<noteq> m" "msgs k m = x"
  shows "valid (msg_take_from_sender m me s (int n) k)
     (received M k me m x (xs @ waiting_msgs k (s # qs (Msg_waiters me))))"
proof -
  let ?arr = "msg_array (tcbs k me)" and ?y = "msgs k (wait_data (tcbs k s))"
  obtain n' cib' where put: "cib_put (msg_queue (tcbs k me)) = (int n', cib')" "n' < 2 ^ j" "cib_mask cib' = 2 ^ j - 1"
    "\<And>a x. cib_items (a(int n' := x :: msg_t), cib') = cib_items (a, msg_queue (tcbs k me)) @ [x]"
    by (rule queue_put [OF j]) blast
  show ?thesis
  proof (rule valid_mono [OF msg_take_from_sender_effect [OF wf act s put(1), of m "int n"]], clarify)
    fix k' qs' assume k': "kernel_wf M k' qs'" "\<forall>q. wait_head q \<longrightarrow> qs' q = qs q"
      "msgs k' = (msgs k)((if 0 \<le> int n then msg_slot ?arr (int n') else m) := ?y)"
      "tcbs k' me = (tcbs k me)\<lparr>msg_queue := (if 0 \<le> int n then cib' else msg_queue (tcbs k me))\<rparr>"
      "\<forall>t. t \<noteq> s \<longrightarrow> wait_data (tcbs k' t) = wait_data (tcbs k t)"
    have ms: "msgs k' = (msgs k)(m := x, msg_slot ?arr (int n') := ?y)" using k'(3) sm(2) by auto
    have "cib_items (msg_slots k' me, cib') = cib_items ((msg_slots k me)(int n' := ?y), cib')"
      by (rule queue_refilled [OF j(1) put(3,2) _ ms]) (use k'(4) off in auto)
    then have "queued_msgs k' me = xs @ [?y]" using k'(4) has put(4) items by (auto simp: queued_msgs_def thread_has_msg_queue_def)
    moreover have "waiting_msgs k' (qs (Msg_waiters me)) = waiting_msgs k (qs (Msg_waiters me))"
    proof (rule waiting_msgs_cong)
      fix u assume u: "u \<in> set (qs (Msg_waiters me))"
      with s(1) [of "Msg_waiters me"] k'(5) show "wait_data (tcbs k' u) = wait_data (tcbs k u)" by auto
      from u off [OF put(2), of "wait_data (tcbs k u)"] sm(1)
      show "msgs k' (wait_data (tcbs k u)) = msgs k (wait_data (tcbs k u))" by (auto simp: ms)
    qed
    moreover have "qs' (Msg_waiters me) = qs (Msg_waiters me)" "msgs k' m = x" using k'(2) off [OF put(2), of m] by (simp_all add: ms)
    ultimately show "received M k me m x (xs @ waiting_msgs k (s # qs (Msg_waiters me))) (1, k')"
      using k'(1,4) by (auto simp: received_def waiting_msgs_def)
  qed
qed

text \<open>The three ways a request to receive goes: from the queue, from the first waiting sender, or blocking.\<close>

lemma receive_queued:
  assumes run: "running M k qs me" and lay: "msg_layout k me m (qs (Msg_waiters me))"
    and q: "queued_msgs k me = x # xs"
  shows "valid (msg_receive_internal m b k) (received M k me m x (xs @ waiting_msgs k (qs (Msg_waiters me))))"
proof -
  have wf: "kernel_wf M k qs" and act: "sched_active_thread k = Some me" using run by (simp_all add: running_def)
  have has: "thread_has_msg_queue (tcbs k me)" using q by (simp add: queued_msgs_def split: if_splits)
  let ?slot = "msg_slot (msg_array (tcbs k me))" and ?ws = "qs (Msg_waiters me)"
  from lay has obtain j where j: "j \<le> 28" "cib_mask (msg_queue (tcbs k me)) = 2 ^ j - 1" "unat (cib_avail (msg_queue (tcbs k me))) \<le> 2 ^ j"
    and off: "\<And>n a. n < 2 ^ j \<Longrightarrow> a \<in> insert m ((\<lambda>s. wait_data (tcbs k s)) ` set ?ws) \<Longrightarrow> a \<noteq> ?slot (int n)"
    unfolding msg_layout_def by blast
  have offm: "\<And>s. s \<in> set ?ws \<Longrightarrow> wait_data (tcbs k s) \<noteq> m" using lay by (auto simp: msg_layout_def)
  obtain n cib where get: "cib_get (msg_queue (tcbs k me)) = (int n, cib)" "n < 2 ^ j" "msg_slots k me (int n) = x"
    "cib_items (msg_slots k me, cib) = xs" "cib_mask cib = 2 ^ j - 1" "unat (cib_avail cib) < 2 ^ j"
    by (rule queue_taken [OF has q j])
  define k2 where "k2 = upd_tcb me (msg_queue_update (\<lambda>_. cib)) k\<lparr>msgs := (msgs k)(m := x)\<rparr>"
  have k2: "links k2 = links k" "sched_active_thread k2 = Some me" "tcbs k2 me = (tcbs k me)\<lparr>msg_queue := cib\<rparr>"
    "\<And>t. wait_data (tcbs k2 t) = wait_data (tcbs k t)" "msgs k2 = (msgs k)(m := x)"
    using act by (simp_all add: k2_def upd_tcb_def)
  have x: "msgs k (?slot (int n)) = x" using get(3) by (simp add: msg_slots_def)
  have wf2: "kernel_wf M k2 qs" using wf by (simp add: k2_def)
  have h: "links k2 (Msg_waiters me) \<noteq> Some Mutex_locked" using wf2 by (simp add: kernel_wf_def heads_ok_def)
  have eq: "msg_receive_internal m b k = (case list_remove_head (links k2) (Msg_waiters me) of (nxt, h) \<Rightarrow>
      (case nxt of None \<Rightarrow> Inr (1, k2\<lparr>links := h\<rparr>)
       | Some nd \<Rightarrow> deref (container_of_rq_entry nd) (\<lambda>s. msg_take_from_sender m me s (int n) (k2\<lparr>links := h\<rparr>))))"
    using x by (simp add: msg_receive_internal_def act has get(1) k2_def upd_tcb_def Let_def split: prod.split option.split)
  have "cib_items (msg_slots k2 me, cib) = cib_items (msg_slots k me, cib)"
    by (rule cib_items_cong [OF _ get(5)]) (use off j(1) k2(3,5) in \<open>auto simp: msg_slots_def\<close>)
  then have items: "queued_msgs k2 me = xs" using get(4) has k2(3) by (simp add: queued_msgs_def thread_has_msg_queue_def)
  have w: "waiting_msgs k2 ?ws = waiting_msgs k ?ws" by (rule waiting_msgs_cong) (use k2(4,5) offm in auto)
  show ?thesis
  proof (cases ?ws)
    case Nil
    have "received M k me m x xs (1, k2)"
      unfolding received_def using wf2 items k2(3,5) Nil by (auto simp: waiting_msgs_def intro!: exI [of _ qs])
    with wf_empty_head [OF wf2 _ Nil h] Nil show ?thesis unfolding eq by (simp add: waiting_msgs_def)
  next
    case (Cons s ss)
    from wf_remove_head [OF wf2 _ Cons] obtain h' where h':
      "list_remove_head (links k2) (Msg_waiters me) = (Some (Rq_entry s), h')"
      "kernel_wf M (k2\<lparr>links := h'\<rparr>) (qs(Msg_waiters me := ss))" "\<And>q. s \<notin> set ((qs(Msg_waiters me := ss)) q)" by auto
    have sme: "s \<noteq> me"
      using inv_blocked_queue [OF wf_inv [OF wf], of s "Msg_waiters me"] Cons running_runnable [OF run] by auto
    let ?k = "k2\<lparr>links := h'\<rparr>"
    have fr: "queued_msgs ?k me = queued_msgs k2 me" "waiting_msgs ?k = waiting_msgs k2"
      by (simp_all add: queued_msgs_def waiting_msgs_def msg_slots_def [abs_def] fun_eq_iff)
    have "valid (msg_take_from_sender m me s (int n) ?k)
        (received M ?k me m x (xs @ waiting_msgs ?k (s # (qs(Msg_waiters me := ss)) (Msg_waiters me))))"
    proof (rule receive_refill [where j = j, OF h'(2) _ h'(3) sme])
      show "a \<noteq> msg_slot (msg_array (tcbs ?k me)) (int n)" if "n < 2 ^ j"
        "a \<in> insert m ((\<lambda>s. wait_data (tcbs ?k s)) ` set (s # (qs(Msg_waiters me := ss)) (Msg_waiters me)))" for n a
        using off [OF that(1), of a] that(2) k2(3,4) Cons by simp
    qed (use k2 items has j get(5,6) Cons offm fr in \<open>auto simp: thread_has_msg_queue_def\<close>)
    moreover have "received M ?k me m x = received M k me m x" using k2(3) by (simp add: received_def fun_eq_iff)
    ultimately show ?thesis unfolding eq h'(1) fr using w Cons by simp
  qed
qed

lemma queue_empty:
  assumes "queued_msgs k me = []" "thread_has_msg_queue (tcbs k me)"
  shows "cib_get (msg_queue (tcbs k me)) = (-1, msg_queue (tcbs k me))"
proof -
  have "cib_avail (msg_queue (tcbs k me)) = 0" using assms by (simp add: queued_msgs_def cib_items_def unsigned_eq_0_iff)
  then show ?thesis by (simp add: cib_get_def)
qed

lemma receive_unqueued:
  assumes act: "sched_active_thread k = Some me" and "queued_msgs k me = []"
  shows "msg_receive_internal m b k = (if \<not> b \<and> links k (Msg_waiters me) = None then Inr (-1, k)
     else case list_remove_head (links k) (Msg_waiters me) of (nxt, h) \<Rightarrow>
      (case nxt of
         None \<Rightarrow> ebind (sched_set_status me STATUS_RECEIVE_BLOCKED (upd_tcb me (wait_data_update (\<lambda>_. m)) k\<lparr>links := h\<rparr>))
                  (\<lambda>k. Inr (1, thread_yield_higher k))
       | Some nd \<Rightarrow> deref (container_of_rq_entry nd) (\<lambda>s. msg_take_from_sender m me s (-1) (upd_tcb me (wait_data_update (\<lambda>_. m)) k\<lparr>links := h\<rparr>))))"
proof -
  have k: "upd_tcb me (msg_queue_update (\<lambda>_. msg_queue (tcbs k me))) k = k" by (simp add: upd_tcb_def)
  have "(if thread_has_msg_queue (tcbs k me) then
      case cib_get (msg_queue (tcbs k me)) of (n, cib) \<Rightarrow> (n, upd_tcb me (msg_queue_update (\<lambda>_. cib)) k) else (-1, k)) = (-1, k)"
    using queue_empty [OF assms(2)] k by simp
  moreover have "links (upd_tcb me (wait_data_update (\<lambda>_. m)) k) = links k" by (simp add: upd_tcb_def)
  ultimately show ?thesis by (simp add: msg_receive_internal_def act Let_def cong: option.case_cong)
qed

lemma receive_direct:
  assumes run: "running M k qs me" and lay: "msg_layout k me m (qs (Msg_waiters me))"
    and q: "queued_msgs k me = []" and ws: "qs (Msg_waiters me) = s # ss"
  shows "valid (msg_receive_internal m b k) (received M k me m (msgs k (wait_data (tcbs k s))) (waiting_msgs k ss))"
proof -
  have wf: "kernel_wf M k qs" and act: "sched_active_thread k = Some me" using run by (simp_all add: running_def)
  define k2 where "k2 = upd_tcb me (wait_data_update (\<lambda>_. m)) k"
  have k2: "links k2 = links k" "sched_active_thread k2 = Some me" "tcbs k2 me = (tcbs k me)\<lparr>wait_data := m\<rparr>" "msgs k2 = msgs k"
    "\<And>t. t \<noteq> me \<Longrightarrow> wait_data (tcbs k2 t) = wait_data (tcbs k t)" using act by (simp_all add: k2_def upd_tcb_def)
  have wf2: "kernel_wf M k2 qs" using wf by (simp add: k2_def)
  have nme: "u \<noteq> me" if "u \<in> set (s # ss)" for u
    using inv_blocked_queue [OF wf_inv [OF wf], of u "Msg_waiters me"] ws that running_runnable [OF run] by auto
  have offm: "\<And>u. u \<in> set (s # ss) \<Longrightarrow> wait_data (tcbs k u) \<noteq> m" using lay ws by (auto simp: msg_layout_def)
  from wf_remove_head [OF wf2 _ ws] obtain h' where h':
    "list_remove_head (links k2) (Msg_waiters me) = (Some (Rq_entry s), h')"
    "kernel_wf M (k2\<lparr>links := h'\<rparr>) (qs(Msg_waiters me := ss))" "\<And>q. s \<notin> set ((qs(Msg_waiters me := ss)) q)" by auto
  obtain n cib where put: "cib_put (msg_queue (tcbs (k2\<lparr>links := h'\<rparr>) me)) = (n, cib)" by force
  have "links k (Msg_waiters me) \<noteq> None"
    using inv_wait_list [OF wf_inv [OF wf], of "Msg_waiters me"] ws wf by (auto simp: list_at_Cons kernel_wf_def heads_ok_def)
  then have eq: "msg_receive_internal m b k = msg_take_from_sender m me s (-1) (k2\<lparr>links := h'\<rparr>)"
    using h'(1) unfolding receive_unqueued [OF act q] k2(1) by (auto simp: k2_def)
  have ds: "s \<notin> set ss" using h'(3) [of "Msg_waiters me"] by simp
  show ?thesis unfolding eq
  proof (rule valid_mono [OF msg_take_from_sender_effect [OF h'(2) _ h'(3) nme put, where m = m and qi = "-1"]], goal_cases)
    case (3 r)
    then obtain k' qs' where k': "r = (1, k')" "kernel_wf M k' qs'" "\<forall>q. wait_head q \<longrightarrow> qs' q = (qs(Msg_waiters me := ss)) q"
      "msgs k' = (msgs k)(m := msgs k (wait_data (tcbs k s)))" "tcbs k' me = (tcbs k me)\<lparr>wait_data := m\<rparr>"
      "\<forall>t. t \<noteq> s \<longrightarrow> wait_data (tcbs k' t) = wait_data (tcbs k2 t)"
      using k2(3,4) k2(5) [OF nme, of s] by (cases r) auto
    have "waiting_msgs k' ss = waiting_msgs k ss"
    proof (rule waiting_msgs_cong)
      fix u assume u: "u \<in> set ss"
      then have "u \<noteq> s" "u \<noteq> me" using ds nme by auto
      with k'(6) k2(5) show "wait_data (tcbs k' u) = wait_data (tcbs k u)" by simp
      from u offm show "msgs k' (wait_data (tcbs k u)) = msgs k (wait_data (tcbs k u))" by (simp add: k'(4))
    qed
    moreover have "queued_msgs k' me = []"
      using q k'(5) by (auto simp: queued_msgs_def cib_items_def thread_has_msg_queue_def split: if_splits)
    ultimately show ?case using k'(2-5) by (auto simp: received_def k'(1))
  qed (use k2 in simp_all)
qed

lemma receive_blocks:
  assumes run: "running M k qs me" and q: "queued_msgs k me = []" and ws: "qs (Msg_waiters me) = []"
  shows "msg_receive_internal m False k = Inr (-1, k)"
    "valid (msg_receive_internal m True k) (\<lambda>(r, k'). r = 1 \<and> status (tcbs k' me) = STATUS_RECEIVE_BLOCKED
       \<and> wait_data (tcbs k' me) = m \<and> msgs k' = msgs k \<and> pendsv k')"
proof -
  have wf: "kernel_wf M k qs" and act: "sched_active_thread k = Some me" using run by (simp_all add: running_def)
  have h: "links k (Msg_waiters me) \<noteq> Some Mutex_locked" using wf by (simp add: kernel_wf_def heads_ok_def)
  have "links k (Msg_waiters me) = None"
    using inv_wait_list [OF wf_inv [OF wf] _ h] ws by simp
  then show "msg_receive_internal m False k = Inr (-1, k)" by (simp add: receive_unqueued [OF act q])
  define k2 where "k2 = upd_tcb me (wait_data_update (\<lambda>_. m)) k"
  have k2: "wait_data (tcbs k2 me) = m" "msgs k2 = msgs k" "k2\<lparr>links := links k\<rparr> = k2" by (simp_all add: k2_def upd_tcb_def)
  have "leads M k2 qs me" using running_leads [OF run] unfolding k2_def by (subst quiet_leads [of k]) simp_all
  then have "valid (sched_set_status me STATUS_RECEIVE_BLOCKED k2) (\<lambda>k'. same_env k2 k'
      \<and> tcbs k' = (tcbs k2)(me := (tcbs k2 me)\<lparr>status := STATUS_RECEIVE_BLOCKED\<rparr>))"
    by (rule valid_mono [OF leads_block]) simp_all
  then show "valid (msg_receive_internal m True k) (\<lambda>(r, k'). r = 1 \<and> status (tcbs k' me) = STATUS_RECEIVE_BLOCKED
       \<and> wait_data (tcbs k' me) = m \<and> msgs k' = msgs k \<and> pendsv k')"
    unfolding receive_unqueued [OF act q] wf_empty_head [OF wf _ ws h, simplified]
    using k2 by (auto simp: k2_def [symmetric] valid_def same_env_def thread_yield_higher_def)
qed

text \<open>
  C34: messages are received in order.  Let the running thread have some messages queued and some senders waiting, where
  the queue, the waiting messages and the buffer of the receiver do not overlap.  If there are any, receiving, blocking or not,
  stores the first queued message, or the message of the first waiting sender when none is queued, and the others stay
  pending in their order.  If there are none, \<open>msg_try_receive\<close> returns -1 and changes nothing, and \<open>msg_receive\<close>
  blocks the thread until a message for this buffer comes.
\<close>

theorem msg_receive_in_order:
  assumes "kernel_reachable M tsi k" and "\<not> in_irq k" and "\<not> pendsv k" and "sched_active_thread k = Some me"
    and "list_at (links k) (Msg_waiters me) (map Rq_entry ws)" and "msg_layout k me m ws"
  shows "case queued_msgs k me @ waiting_msgs k ws of
     [] \<Rightarrow> msg_try_receive m k = Inr (-1, k)
        \<and> (\<exists>k'. msg_receive m k = Inr (1, k') \<and> status (tcbs k' me) = STATUS_RECEIVE_BLOCKED
             \<and> wait_data (tcbs k' me) = m \<and> msgs k' = msgs k \<and> pendsv k')
   | x # xs \<Rightarrow> \<forall>receive \<in> {msg_receive, msg_try_receive}. \<exists>k' ws'. receive m k = Inr (1, k') \<and> msgs k' m = x
        \<and> status (tcbs k' me) = status (tcbs k me)
        \<and> list_at (links k') (Msg_waiters me) (map Rq_entry ws') \<and> queued_msgs k' me @ waiting_msgs k' ws' = xs"
proof -
  from kernel_ok_running [OF kernel_reachable_ok [OF assms(1)] assms(2,3)] obtain qs where run: "running M k qs me"
    using assms(4) running_active by (metis option.inject)
  have wl: "list_at (links k) (Msg_waiters t) (map Rq_entry (qs (Msg_waiters t)))" if "kernel_wf M k qs" for k qs t
    using that inv_wait_list [OF wf_inv [OF that], of "Msg_waiters t"] by (simp add: kernel_wf_def heads_ok_def)
  have ws: "qs (Msg_waiters me) = ws"
    by (rule list_at_threads_unique [OF wl [OF running_wf [OF run]] assms(5)])
  have rec: "\<exists>k' ws'. msg_receive_internal m b k = Inr (1, k') \<and> msgs k' m = x
        \<and> status (tcbs k' me) = status (tcbs k me)
        \<and> list_at (links k') (Msg_waiters me) (map Rq_entry ws') \<and> queued_msgs k' me @ waiting_msgs k' ws' = xs"
    if "valid (msg_receive_internal m b k) (received M k me m x xs)" for b x xs
    using that wl by (fastforce simp: valid_def received_def split: sum.splits)
  show ?thesis
  proof (cases "queued_msgs k me")
    case (Cons x xs)
    from receive_queued [OF run _ Cons, of m] assms(6) ws have "valid (msg_receive_internal m b k) (received M k me m x (xs @ waiting_msgs k ws))" for b
      by simp
    with rec Cons show ?thesis by (simp add: msg_receive_def msg_try_receive_def)
  next
    case q: Nil
    show ?thesis
    proof (cases ws)
      case Nil
      with receive_blocks [OF run q, of m] ws q show ?thesis
        by (auto simp: waiting_msgs_def msg_receive_def msg_try_receive_def valid_def split: sum.splits)
    next
      case (Cons s ss)
      with receive_direct [OF run _ q, of m s ss] assms(6) ws
      have "valid (msg_receive_internal m b k) (received M k me m (msgs k (wait_data (tcbs k s))) (waiting_msgs k ss))" for b by simp
      with rec Cons q show ?thesis by (simp add: msg_receive_def msg_try_receive_def waiting_msgs_def)
    qed
  qed
qed

text \<open>The main thread sends a message to the second thread, which then runs.\<close>

definition demo_send :: kernel where
  "demo_send = demo_two\<lparr>pendsv := True,
     links := [Runqueue 7 \<mapsto> Rq_entry 0x23d8, Rq_entry 0x23d8 \<mapsto> Rq_entry 0x23d8, Msg_waiters 0x23d8 \<mapsto> Rq_entry 0x13d8],
     tcbs := (tcbs demo_two)(0x13d8 := demo_thread 1 STATUS_SEND_BLOCKED 7\<lparr>wait_data := 0x3000\<rparr>,
       0x23d8 := demo_thread 2 STATUS_PENDING 7\<lparr>tflags := THREAD_FLAG_MSG_WAITING\<rparr>),
     msgs := (msgs demo_two)(0x3000 := \<lparr>sender_pid = 1, msg_type = 0, msg_content = 0\<rparr>)\<rparr>"

definition demo_waiting :: kernel where
  "demo_waiting = demo_send\<lparr>pendsv := False, sched_active_pid := 2, sched_active_thread := Some 0x23d8,
     tcbs := (tcbs demo_send)(0x23d8 := demo_thread 2 STATUS_RUNNING 7\<lparr>tflags := THREAD_FLAG_MSG_WAITING\<rparr>)\<rparr>"

lemma demo_waiting_reachable: "kernel_reachable one_mutex no_stack demo_waiting"
proof -
  have "api_exec no_stack (Msg_send 0x3000 2) demo_two = Some (Inr demo_send)"
    by (simp add: kernel_eval msg_send_def msg_send_internal_def set_sender_pid_def thread_get_unchecked_def in_thread_table_def KERNEL_PID_LAST_def KERNEL_PID_FIRST_def
        KERNEL_PID_UNDEF_def MAXTHREADS_def queue_msg_def cib_put_def cib_avail_def CIB_INIT_def msg_send_block_def thread_add_to_list_def add_to_list_pos.simps list_add_def
        thread_flags_wake_def state_of_def demo_two_def demo_main_def demo_boot_def boot_kernel_def boot_thread_def demo_thread_def)
      (auto simp: demo_send_def demo_two_def demo_main_def demo_boot_def boot_kernel_def boot_thread_def demo_thread_def CIB_INIT_def fun_eq_iff)
  then have "kernel_step one_mutex no_stack demo_two demo_send"
    by (rule Call [rotated 4]) (simp_all add: thread_api_def api_pre_def in_thread_table_def KERNEL_PID_LAST_def KERNEL_PID_FIRST_def
        KERNEL_PID_UNDEF_def MAXTHREADS_def demo_two_def demo_main_def demo_boot_def boot_kernel_def)
  with demo_reachable(3) have s: "kernel_reachable one_mutex no_stack demo_send" by (rule Step)
  have "sched_run id (demo_send\<lparr>pendsv := False\<rparr>) = Some (Inr (0x23d8, demo_waiting))"
    by (simp add: kernel_eval sched_run_def sched_run_next_def get_prio_queue_from_runqueue_def msb_bit24 unschedule_def demo_send_def demo_waiting_def
      demo_two_def demo_main_def demo_boot_def boot_kernel_def boot_thread_def demo_thread_def)
  then have "kernel_step one_mutex no_stack demo_send demo_waiting"
    by (rule Pendsv [OF _ _ idle_id, rotated 2]) (simp_all add: demo_send_def demo_two_def demo_main_def demo_boot_def boot_kernel_def)
  with s show ?thesis by (rule Step)
qed

theorem msg_receive_in_order_witness:
  "\<exists>k'. msg_receive 0x6000 demo_waiting = Inr (1, k') \<and> msgs k' 0x6000 = \<lparr>sender_pid = 1, msg_type = 0, msg_content = 0\<rparr>
     \<and> list_at (links k') (Msg_waiters 0x23d8) []"
proof -
  let ?k = demo_waiting
  note d = demo_waiting_def demo_send_def demo_two_def demo_main_def demo_boot_def boot_kernel_def demo_thread_def boot_thread_def
  have "\<not> in_irq ?k" "\<not> pendsv ?k" "sched_active_thread ?k = Some 0x23d8"
    "list_at (links ?k) (Msg_waiters 0x23d8) (map Rq_entry [0x13d8])" "msg_layout ?k 0x23d8 0x6000 [0x13d8]"
    by (simp_all add: d list_at_Cons msg_layout_def thread_has_msg_queue_def)
  from msg_receive_in_order [OF demo_waiting_reachable this]
  have "\<exists>k' ws'. msg_receive 0x6000 ?k = Inr (1, k') \<and> msgs k' 0x6000 = msgs ?k (wait_data (tcbs ?k 0x13d8))
      \<and> list_at (links k') (Msg_waiters 0x23d8) (map Rq_entry ws') \<and> queued_msgs k' 0x23d8 @ waiting_msgs k' ws' = []"
    by (auto simp: queued_msgs_def waiting_msgs_def thread_has_msg_queue_def d)
  moreover have "msgs ?k (wait_data (tcbs ?k 0x13d8)) = \<lparr>sender_pid = 1, msg_type = 0, msg_content = 0\<rparr>" by (simp add: d)
  ultimately show ?thesis by (auto simp: waiting_msgs_def)
qed

section \<open>Requests to missing threads\<close>

text \<open>
  C37: a request to a thread that does not exist blocks the caller although it returns.  In a reachable state, \<open>msg_send_receive\<close> to an
  identifier of the thread table without a thread returns the error -1 with the caller marked as waiting for a reply and taken out of its run queue, and
  requests no scheduler run.  The caller goes on as the active thread until the next scheduler run, which, if another thread is
  runnable, picks one that is not the caller.
\<close>

theorem msg_send_receive_missing:
  assumes "kernel_reachable M tsi k" and "\<not> in_irq k" and "\<not> pendsv k" and "sched_active_thread k = Some me"
    and "sched_active_pid k \<noteq> p" and "thread_get_unchecked k p = Inr None"
  shows "\<exists>k'. msg_send_receive m r p k = Some (Inr (-1, k')) \<and> sched_active_thread k' = Some me \<and> \<not> pendsv k'
     \<and> status (tcbs k' me) = STATUS_REPLY_BLOCKED
     \<and> (runqueue_bitcache k' \<noteq> 0 \<longrightarrow> (\<exists>t k''. sched_run idle k' = Some (Inr (t, k'')) \<and> t \<noteq> me))"
proof -
  from kernel_ok_running [OF kernel_reachable_ok [OF assms(1)] assms(2,3)] obtain qs where run: "running M k qs me"
    using assms(4) running_active by (metis option.inject)
  from leads_block [OF running_leads [OF run], of STATUS_REPLY_BLOCKED] obtain k1 qs1 where k1:
    "sched_set_status me STATUS_REPLY_BLOCKED k = Inr k1" "kernel_wf M k1 qs1" "same_env k k1"
    "tcbs k1 = (tcbs k)(me := (tcbs k me)\<lparr>status := STATUS_REPLY_BLOCKED\<rparr>)" by (auto simp: valid_def)
  define k2 where "k2 = set_sender_pid r (sched_active_pid k) (upd_tcb me (wait_data_update (\<lambda>_. r)) k1\<lparr>msgs := (msgs k1)(r := msgs k1 m)\<rparr>)"
  have k2: "sched_active_thread k2 = Some me" "\<not> pendsv k2" "status (tcbs k2 me) = STATUS_REPLY_BLOCKED"
    using k1(3,4) assms(3,4) by (simp_all add: k2_def set_sender_pid_def upd_tcb_def same_env_def)
  have "thread_get_unchecked k2 p = Inr None"
    using assms(6) k1(3) by (simp add: k2_def set_sender_pid_def upd_tcb_def same_env_def thread_get_unchecked_def split: if_splits)
  then have "msg_send_receive m r p k = Some (Inr (-1, k2))"
    using assms(4,5) k1(1,3) by (simp add: msg_send_receive_def msg_send_internal_def Let_def k2_def same_env_def upd_tcb_def set_sender_pid_def)
  moreover have "\<exists>t k''. sched_run idle k2 = Some (Inr (t, k'')) \<and> t \<noteq> me" if ne: "runqueue_bitcache k2 \<noteq> 0"
  proof -
    have wf: "kernel_wf M k2 qs1" using k1(2) by (simp add: k2_def set_sender_pid_def)
    from sched_run_next_wf [OF wf ne disjI2 [OF refl] refl] obtain t k'' where k'':
      "sched_run_next (sched_active_thread k2) (sched_active_thread k2) k2 = Inr (t, k'')" "running M k'' qs1 t"
      "\<forall>u. priority (tcbs k'' u) = priority (tcbs k2 u) \<and> (runnable k'' u \<longleftrightarrow> runnable k2 u)" by metis
    have "\<not> runnable k2 me" using k2(3) by (simp add: runnable_def less_eq_thread_status_t_def)
    then have "t \<noteq> me" using running_runnable [OF k''(2)] k''(3) by auto
    with k''(1) ne show ?thesis by (simp add: sched_run_def Let_def)
  qed
  ultimately show ?thesis using k2 by blast
qed

theorem msg_send_receive_missing_witness:
  "\<exists>k'. msg_send_receive 0x3000 0x3100 5 demo_two = Some (Inr (-1, k')) \<and> status (tcbs k' 0x13d8) = STATUS_REPLY_BLOCKED"
proof -
  have "\<not> in_irq demo_two" "\<not> pendsv demo_two" "sched_active_thread demo_two = Some 0x13d8" "sched_active_pid demo_two \<noteq> 5"
    "thread_get_unchecked demo_two 5 = Inr None"
    by (simp_all add: demo_two_def demo_main_def demo_boot_def boot_kernel_def thread_get_unchecked_def in_thread_table_def
        KERNEL_PID_LAST_def KERNEL_PID_FIRST_def KERNEL_PID_UNDEF_def MAXTHREADS_def)
  from msg_send_receive_missing [OF demo_reachable(3) this, of "0x3000" "0x3100"] show ?thesis by blast
qed

text \<open>
  Changing the priority of a runnable thread that is not the first of its run queue takes the first one out of the queue instead: here the
  running main thread is in no queue any more, and the thread whose priority became worse is scheduled in its place.
\<close>

lemma change_priority_loses_thread:
  "\<exists>k' k''. sched_change_priority 0x23d8 9 demo_two = Inr k' \<and> status (tcbs k' 0x13d8) = STATUS_RUNNING
     \<and> links k' (Runqueue 7) = Some (Rq_entry 0x23d8) \<and> links k' (Rq_entry 0x23d8) = Some (Rq_entry 0x23d8)
     \<and> links k' (Runqueue 9) = Some (Rq_entry 0x23d8)
     \<and> sched_run id k' = Some (Inr (0x23d8, k'')) \<and> priority (tcbs k'' 0x13d8) < priority (tcbs k'' 0x23d8)"
proof -
  have "bit (0x1400000 :: u32) m \<longleftrightarrow> m = 24 \<or> m = 22" for m
  proof -
    have "(0x1400000 :: u32) = 2 ^ 24 OR 2 ^ 22" by simp
    then show ?thesis by (simp only: bit_or_iff bit_exp_iff) auto
  qed
  then have "is_msb 0x1400000 24" by (auto simp: is_msb_def)
  from bitarithm_msb_correct [OF this] have msb: "31 - bitarithm_msb 0x1400000 = 7" by simp
  note d = kernel_eval sched_change_priority_def thread_is_active_def demo_two_def demo_main_def demo_boot_def boot_kernel_def
    boot_thread_def demo_thread_def
  obtain k' where k': "sched_change_priority 0x23d8 9 demo_two = Inr k'"
    "k' = demo_two\<lparr>runqueue_bitcache := 0x1400000, links := [Runqueue 7 \<mapsto> Rq_entry 0x23d8, Runqueue 9 \<mapsto> Rq_entry 0x23d8,
        Rq_entry 0x13d8 \<mapsto> Rq_entry 0x23d8, Rq_entry 0x23d8 \<mapsto> Rq_entry 0x23d8],
      tcbs := (tcbs demo_two)(0x23d8 := demo_thread 2 STATUS_PENDING 9)\<rparr>"
    by (auto simp: d fun_eq_iff)
  obtain k'' where "sched_run id k' = Some (Inr (0x23d8, k''))" "priority (tcbs k'' 0x13d8) < priority (tcbs k'' 0x23d8)"
    unfolding k'(2) by (simp add: d sched_run_def sched_run_next_def get_prio_queue_from_runqueue_def msb unschedule_def)
  moreover have "status (tcbs k' 0x13d8) = STATUS_RUNNING" "links k' (Runqueue 7) = Some (Rq_entry 0x23d8)"
    "links k' (Rq_entry 0x23d8) = Some (Rq_entry 0x23d8)" "links k' (Runqueue 9) = Some (Rq_entry 0x23d8)"
    unfolding k'(2) by (simp_all add: d)
  ultimately show ?thesis using k'(1) by blast
qed

end
