(* ===== verification/Core_Mbox_Properties.thy ===== *)
theory Core_Mbox_Properties
  imports Core_Msg_Properties
begin

text \<open>
  Mailboxes as bounded queues of messages: what putting and getting a message does in every case, and a run in which a
  reader is left waiting beside a message.
\<close>

unbundle bit_operations_syntax

section \<open>The contents of a mailbox\<close>

definition mbox_slots :: "kernel \<Rightarrow> mbox_t \<Rightarrow> int \<Rightarrow> msg_t" where
  "mbox_slots k mb n = msgs k (msg_slot (mb_array mb) n)"

definition mbox_items :: "kernel \<Rightarrow> mbox_t \<Rightarrow> msg_t list" where
  "mbox_items k mb = cib_items (mbox_slots k mb, mb_cib mb)"

text \<open>The size of the mailbox is a power of two, and the messages \<open>as\<close> lie outside its array.\<close>

definition mbox_layout :: "mbox_t \<Rightarrow> u32 set \<Rightarrow> bool" where
  "mbox_layout mb as \<longleftrightarrow> (\<exists>j \<le> 28. cib_mask (mb_cib mb) = 2 ^ j - 1 \<and> unat (cib_avail (mb_cib mb)) \<le> 2 ^ j
     \<and> (\<forall>n < 2 ^ j. \<forall>a \<in> as. a \<noteq> msg_slot (mb_array mb) (int n)))"

lemma length_mbox_items: "length (mbox_items k mb) = unat (cib_avail (mb_cib mb))"
  by (simp add: mbox_items_def cib_items_def)

text \<open>Changing a message outside of the array does not change the contents.\<close>

lemma mbox_items_outside:
  assumes "mbox_layout mb as" "a \<in> as" "msgs k' = (msgs k)(a := x)"
  shows "mbox_items k' mb = mbox_items k mb"
proof -
  from assms(1) obtain j where j: "j \<le> 28" "cib_mask (mb_cib mb) = 2 ^ j - 1"
    "\<forall>n < 2 ^ j. \<forall>a \<in> as. a \<noteq> msg_slot (mb_array mb) (int n)" unfolding mbox_layout_def by blast
  show ?thesis unfolding mbox_items_def
    by (rule cib_items_cong [OF _ j(2)]) (use j(1,3) assms(2,3) in \<open>auto simp: mbox_slots_def\<close>)
qed

lemma mbox_items_msgs: "msgs k' = msgs k \<Longrightarrow> mbox_items k' mb = mbox_items k mb"
  by (simp add: mbox_items_def mbox_slots_def [abs_def])

text \<open>Filling and emptying a slot.\<close>

lemma mbox_slot_filled:
  assumes "mbox_layout mb as" "m \<in> as" "\<not> cib_full (mb_cib mb)" "cib_put_unsafe (mb_cib mb) = (n, cib)"
    and "msgs k' = (msgs k)(m := x, msg_slot (mb_array mb) n := x)"
  shows "mbox_items k' (mb\<lparr>mb_cib := cib\<rparr>) = mbox_items k mb @ [x]"
proof -
  from assms(1) obtain j where j: "j \<le> 28" "cib_mask (mb_cib mb) = 2 ^ j - 1" "unat (cib_avail (mb_cib mb)) \<le> 2 ^ j"
    and off: "\<And>n. n < 2 ^ j \<Longrightarrow> m \<noteq> msg_slot (mb_array mb) (int n)" unfolding mbox_layout_def using assms(2) by blast
  have "unat (cib_avail (mb_cib mb)) < 2 ^ j" using cib_full_iff [OF _ j(2,3)] j(1,3) assms(3) by simp
  from queue_put [OF j(1,2) this] obtain i where i: "n = int i" "i < 2 ^ j" "cib_mask cib = 2 ^ j - 1"
    "\<And>a x. cib_items (a(int i := x :: msg_t), cib) = cib_items (a, mb_cib mb) @ [x]"
    using assms(3,4) by (metis cib_put_eq prod.inject)
  have "cib_items (mbox_slots k' (mb\<lparr>mb_cib := cib\<rparr>), cib) = cib_items ((mbox_slots k mb)(int i := x), cib)"
  proof (rule cib_items_cong [OF _ i(3)])
    fix l :: nat assume l: "l < 2 ^ j"
    have "l < 2 ^ 28" "i < 2 ^ 28" using l i(2) j(1) power_increasing [of j 28 "2 :: nat"] by simp_all
    with msg_slot_inj [of l i "mb_array mb"] off [OF l]
    show "mbox_slots k' (mb\<lparr>mb_cib := cib\<rparr>) (int l) = ((mbox_slots k mb)(int i := x)) (int l)"
      by (auto simp: mbox_slots_def assms(5) i(1))
  qed (use j(1) in simp)
  then show ?thesis by (simp add: mbox_items_def i(4))
qed

lemma mbox_slot_emptied:
  assumes "mbox_layout mb as" "m \<in> as" "mbox_items k mb = x # xs" "cib_get_unsafe (mb_cib mb) = (n, cib)"
    and "msgs k' = (msgs k)(m := msgs k (msg_slot (mb_array mb) n))"
  shows "msgs k' m = x" "mbox_items k' (mb\<lparr>mb_cib := cib\<rparr>) = xs"
proof -
  have av: "cib_avail (mb_cib mb) \<noteq> 0" using assms(3) length_mbox_items [of k mb] by auto
  have deq: "cib_dequeue (mbox_slots k mb, mb_cib mb) = (mbox_slots k mb n, mbox_slots k mb, cib)"
    using assms(4) by (simp add: cib_dequeue_def cib_get_eq [OF av])
  have it: "mbox_slots k mb n = x" "cib_items (mbox_slots k mb, cib) = xs" "cib_mask cib = cib_mask (mb_cib mb)"
    using cib_dequeue_ok [OF av deq] assms(3) by (simp_all add: mbox_items_def)
  show "msgs k' m = x" using it(1) by (simp add: assms(5) mbox_slots_def)
  from assms(1) obtain j where j: "j \<le> 28" "cib_mask (mb_cib mb) = 2 ^ j - 1"
    and off: "\<And>n. n < 2 ^ j \<Longrightarrow> m \<noteq> msg_slot (mb_array mb) (int n)" unfolding mbox_layout_def using assms(2) by blast
  have "cib_items (mbox_slots k' (mb\<lparr>mb_cib := cib\<rparr>), cib) = cib_items (mbox_slots k mb, cib)"
    by (rule cib_items_cong [of j]) (use j off it(3) in \<open>auto simp: mbox_slots_def assms(5)\<close>)
  then show "mbox_items k' (mb\<lparr>mb_cib := cib\<rparr>) = xs" using it(2) by (simp add: mbox_items_def)
qed

section \<open>Waking and waiting\<close>

lemma wake_waiter_effect:
  assumes wf: "kernel_wf M k qs" and act: "sched_active_thread k = Some me" and t: "\<And>q. t \<notin> set (qs q)"
  shows "valid (wake_waiter t k) (\<lambda>k'. tcbs k' = (tcbs k)(t := (tcbs k t)\<lparr>status := STATUS_PENDING\<rparr>) \<and> msgs k' = msgs k
     \<and> (\<exists>qs'. kernel_wf M k' qs' \<and> (\<forall>q. wait_head q \<longrightarrow> qs' q = qs q)))"
proof -
  have "valid (sched_set_status t STATUS_PENDING k) (\<lambda>k1. valid (sched_switch (ucast (priority (tcbs k1 t))) k1)
      (\<lambda>k'. tcbs k' = (tcbs k)(t := (tcbs k t)\<lparr>status := STATUS_PENDING\<rparr>) \<and> msgs k' = msgs k
        \<and> (\<exists>qs'. kernel_wf M k' qs' \<and> (\<forall>q. wait_head q \<longrightarrow> qs' q = qs q))))"
  proof (rule valid_mono [OF wf_wake [where st = STATUS_PENDING, OF wf _ t]])
    fix k1 assume k1: "kernel_wf M k1 (qs(runq k t := qs (runq k t) @ [t])) \<and> same_env k k1
      \<and> tcbs k1 = (tcbs k)(t := (tcbs k t)\<lparr>status := STATUS_PENDING\<rparr>) \<and> same_heads k k1"
    have "wait_head q \<longrightarrow> (qs(runq k t := qs (runq k t) @ [t])) q = qs q" for q
      using wait_head_neq(2) [of q] by (auto simp: runq_def)
    then have "\<exists>qs'. kernel_wf M k1 qs' \<and> (\<forall>q. wait_head q \<longrightarrow> qs' q = qs q)" using k1 by blast
    moreover have "sched_active_thread k1 = Some me" "msgs k1 = msgs k" using k1 act by (simp_all add: same_env_def)
    ultimately show "valid (sched_switch (ucast (priority (tcbs k1 t))) k1)
      (\<lambda>k'. tcbs k' = (tcbs k)(t := (tcbs k t)\<lparr>status := STATUS_PENDING\<rparr>) \<and> msgs k' = msgs k
        \<and> (\<exists>qs'. kernel_wf M k' qs' \<and> (\<forall>q. wait_head q \<longrightarrow> qs' q = qs q)))"
      using k1 by (simp add: sched_switch_eq thread_yield_higher_def)
  qed simp
  then show ?thesis by (simp add: wake_waiter_def)
qed

text \<open>The waiting lists of a well-formed kernel are what its links show.\<close>

lemma wf_wait_list:
  assumes "kernel_wf M k qs" "\<not> M l"
  shows "list_at (links k) (Queue l) (map Rq_entry (qs (Queue l)))"
  using inv_wait_list [OF wf_inv [OF assms(1)], of "Queue l"] assms by (simp add: kernel_wf_def heads_ok_def)

lemma mbox_wait_effect:
  assumes lead: "leads M k qs me" and l: "\<not> M l"
  shows "ends (mbox_wait l k) (\<lambda>k'. tcbs k' = (tcbs k)(me := (tcbs k me)\<lparr>status := STATUS_MBOX_BLOCKED\<rparr>)
     \<and> list_at (links k') (Queue l) (map Rq_entry (insert_waiter k me (qs (Queue l)))) \<and> msgs k' = msgs k \<and> pendsv k')"
proof -
  have act: "sched_active_thread k = Some me" using lead by (simp add: leads_def)
  have h: "links k (Queue l) \<noteq> Some Mutex_locked" using lead l by (simp add: leads_def kernel_wf_def heads_ok_def)
  have "valid (sched_set_status me STATUS_MBOX_BLOCKED k) (\<lambda>k1. ends (thread_add_to_list (Queue l) me k1)
      (\<lambda>k2. valid (thread_yield k2) (\<lambda>k'. tcbs k' = (tcbs k)(me := (tcbs k me)\<lparr>status := STATUS_MBOX_BLOCKED\<rparr>)
         \<and> list_at (links k') (Queue l) (map Rq_entry (insert_waiter k me (qs (Queue l)))) \<and> msgs k' = msgs k \<and> pendsv k')))"
  proof (rule valid_mono [OF leads_wait [OF lead _ h]], goal_cases)
    case (3 k1)
    then show ?case
    proof (rule ends_mono, clarify)
      fix k2 qs' assume k2: "kernel_wf M k2 qs'" "\<forall>q'. wait_head q' \<longrightarrow> qs' q' = (qs(Queue l := insert_waiter k me (qs (Queue l)))) q'"
        "same_env k k2" "tcbs k2 = (tcbs k)(me := (tcbs k me)\<lparr>status := STATUS_MBOX_BLOCKED\<rparr>)"
      have "list_at (links k2) (Queue l) (map Rq_entry (insert_waiter k me (qs (Queue l))))"
        using wf_wait_list [OF k2(1) l] k2(2) by simp
      with k2(3,4) act show "valid (thread_yield k2) (\<lambda>k'. tcbs k' = (tcbs k)(me := (tcbs k me)\<lparr>status := STATUS_MBOX_BLOCKED\<rparr>)
         \<and> list_at (links k') (Queue l) (map Rq_entry (insert_waiter k me (qs (Queue l)))) \<and> msgs k' = msgs k \<and> pendsv k')"
        by (simp add: thread_yield_def thread_yield_higher_def same_env_def less_eq_thread_status_t_def Let_def)
    qed
  qed simp_all
  with act show ?thesis by (simp add: mbox_wait_def)
qed

section \<open>Putting and getting\<close>

lemma put_hands_over:
  assumes wf: "kernel_wf M k qs" and act: "sched_active_thread k = Some me" and M: "\<not> M (readers mb)"
    and r: "qs (Queue (readers mb)) = r # rs"
  shows "\<exists>k'. mbox_put_internal mb m b k = Some (Inr (Some 1, mb, k')) \<and> msgs k' = (msgs k)(wait_data (tcbs k r) := msgs k m)
     \<and> status (tcbs k' r) = STATUS_PENDING \<and> list_at (links k') (Queue (readers mb)) (map Rq_entry rs)"
proof -
  from wf_remove_head [OF wf _ r] obtain h where h:
    "list_remove_head (links k) (Queue (readers mb)) = (Some (Rq_entry r), h)"
    "kernel_wf M (k\<lparr>links := h\<rparr>) (qs(Queue (readers mb) := rs))" "\<And>q. r \<notin> set ((qs(Queue (readers mb) := rs)) q)" by auto
  let ?k = "k\<lparr>links := h, msgs := (msgs k)(wait_data (tcbs k r) := msgs k m)\<rparr>"
  have wf': "kernel_wf M ?k (qs(Queue (readers mb) := rs))" using h(2) by (subst kernel_wf_cong [of _ "k\<lparr>links := h\<rparr>"]) simp_all
  have "sched_active_thread ?k = Some me" using act by simp
  from wake_waiter_effect [OF wf' this h(3)] obtain k' qs' where k': "wake_waiter r ?k = Inr k'" "msgs k' = msgs ?k"
    "status (tcbs k' r) = STATUS_PENDING" "kernel_wf M k' qs'" "qs' (Queue (readers mb)) = rs"
    by (auto simp: valid_def)
  from wf_wait_list [OF k'(4) M] k' h(1) show ?thesis by (simp add: mbox_put_internal_def Let_def)
qed

lemma put_queues:
  assumes run: "running M k qs me" and M: "\<not> M (readers mb)" "\<not> M (writers mb)" and r: "qs (Queue (readers mb)) = []"
    and lay: "mbox_layout mb as" "m \<in> as"
  shows "if cib_full (mb_cib mb)
     then mbox_put_internal mb m False k = Some (Inr (Some 0, mb, k))
       \<and> (\<exists>k'. mbox_put_internal mb m True k = Some (Inr (None, mb, k')) \<and> status (tcbs k' me) = STATUS_MBOX_BLOCKED
            \<and> list_at (links k') (Queue (writers mb)) (map Rq_entry (insert_waiter k me (qs (Queue (writers mb)))))
            \<and> msgs k' = msgs k \<and> pendsv k')
     else \<exists>mb' k'. mbox_put_internal mb m b k = Some (Inr (Some 1, mb', k')) \<and> tcbs k' = tcbs k \<and> links k' = links k
       \<and> mbox_items k' mb' = mbox_items k mb @ [(msgs k m)\<lparr>sender_pid := sched_active_pid k\<rparr>]"
proof -
  have wf: "kernel_wf M k qs" using run by (simp add: running_def)
  have h: "links k (Queue (readers mb)) \<noteq> Some Mutex_locked" using wf M by (simp add: kernel_wf_def heads_ok_def)
  have eq: "mbox_put_internal mb m b k = mbox_put_loop mb m b k" for b
    using wf_empty_head [OF wf _ r h] by (simp add: mbox_put_internal_def)
  show ?thesis
  proof (cases "cib_full (mb_cib mb)")
    case True
    from mbox_wait_effect [OF running_leads [OF run] M(2)] True show ?thesis
      by (auto simp: eq mbox_put_loop_def ends_def valid_def)
  next
    case False
    obtain n cib where c: "cib_put_unsafe (mb_cib mb) = (n, cib)" by force
    let ?x = "(msgs k m)\<lparr>sender_pid := sched_active_pid k\<rparr>"
    let ?k = "k\<lparr>msgs := (msgs k)(m := ?x, msg_slot (mb_array mb) n := ?x)\<rparr>"
    have "mbox_items ?k (mb\<lparr>mb_cib := cib\<rparr>) = mbox_items k mb @ [?x]"
      by (rule mbox_slot_filled [OF lay False c]) simp
    moreover have "mbox_put_loop mb m b k = Some (Inr (Some 1, mb\<lparr>mb_cib := cib\<rparr>, ?k))"
      using False c by (simp add: mbox_put_loop_def set_sender_pid_def Let_def)
    ultimately show ?thesis using False by (auto simp: eq)
  qed
qed

lemma get_takes:
  assumes wf: "kernel_wf M k qs" and act: "sched_active_thread k = Some me" and M: "\<not> M (writers mb)"
    and lay: "mbox_layout mb as" "m \<in> as" and x: "mbox_items k mb = x # xs"
  shows "\<exists>mb' k'. mbox_get_internal mb m b k = Some (Inr (Some 1, mb', k')) \<and> msgs k' m = x \<and> mbox_items k' mb' = xs
     \<and> (case qs (Queue (writers mb)) of [] \<Rightarrow> tcbs k' = tcbs k
        | w # ws \<Rightarrow> status (tcbs k' w) = STATUS_PENDING \<and> list_at (links k') (Queue (writers mb)) (map Rq_entry ws))"
proof -
  have av: "cib_avail (mb_cib mb) \<noteq> 0" using x length_mbox_items [of k mb] by auto
  obtain n cib where c: "cib_get_unsafe (mb_cib mb) = (n, cib)" by force
  let ?k = "k\<lparr>msgs := (msgs k)(m := msgs k (msg_slot (mb_array mb) n))\<rparr>" and ?mb = "mb\<lparr>mb_cib := cib\<rparr>"
  have it: "msgs k' m = x" "mbox_items k' ?mb = xs" if "msgs k' = msgs ?k" for k'
    using mbox_slot_emptied [OF lay x c, of k'] that by simp_all
  have wf': "kernel_wf M ?k qs" using wf by simp
  have h: "links ?k (Queue (writers mb)) \<noteq> Some Mutex_locked" using wf M by (simp add: kernel_wf_def heads_ok_def)
  show ?thesis
  proof (cases "qs (Queue (writers mb))")
    case Nil
    from wf_empty_head [OF wf' _ Nil h] have "mbox_get_internal mb m b k = Some (Inr (Some 1, ?mb, ?k))"
      using av c by (simp add: mbox_get_internal_def Let_def)
    with it [of ?k] Nil show ?thesis by simp
  next
    case (Cons w ws)
    from wf_remove_head [OF wf' _ Cons] obtain h' where h':
      "list_remove_head (links k) (Queue (writers mb)) = (Some (Rq_entry w), h')"
      "kernel_wf M (?k\<lparr>links := h'\<rparr>) (qs(Queue (writers mb) := ws))" "\<And>q. w \<notin> set ((qs(Queue (writers mb) := ws)) q)" by auto
    have "sched_active_thread (?k\<lparr>links := h'\<rparr>) = Some me" using act by simp
    from wake_waiter_effect [OF h'(2) this h'(3)] obtain k' qs' where k': "wake_waiter w (?k\<lparr>links := h'\<rparr>) = Inr k'"
      "msgs k' = msgs ?k" "status (tcbs k' w) = STATUS_PENDING" "kernel_wf M k' qs'" "qs' (Queue (writers mb)) = ws"
      by (auto simp: valid_def)
    have "mbox_get_internal mb m b k = Some (Inr (Some 1, ?mb, k'))"
      using av c h'(1) k'(1) by (simp add: mbox_get_internal_def Let_def)
    with it [OF k'(2)] wf_wait_list [OF k'(4) M] k'(3,5) Cons show ?thesis by simp
  qed
qed

lemma get_waits:
  assumes run: "running M k qs me" and M: "\<not> M (readers mb)" and x: "mbox_items k mb = []"
  shows "mbox_get_internal mb m False k = Some (Inr (Some 0, mb, k))"
    "\<exists>k'. mbox_get_internal mb m True k = Some (Inr (None, mb, k')) \<and> status (tcbs k' me) = STATUS_MBOX_BLOCKED
       \<and> wait_data (tcbs k' me) = m \<and> msgs k' = msgs k \<and> pendsv k'
       \<and> list_at (links k') (Queue (readers mb)) (map Rq_entry (insert_waiter k me (qs (Queue (readers mb)))))"
proof -
  have av: "cib_avail (mb_cib mb) = 0" using x length_mbox_items [of k mb] by (simp add: unsigned_eq_0_iff)
  then show "mbox_get_internal mb m False k = Some (Inr (Some 0, mb, k))" by (simp add: mbox_get_internal_def)
  let ?k = "upd_tcb me (wait_data_update (\<lambda>_. m)) k"
  have "leads M ?k qs me" using running_leads [OF run] by (subst quiet_leads [of k]) simp_all
  note w = mbox_wait_effect [OF this M]
  have "priority (tcbs ?k u) = priority (tcbs k u)" for u by (simp add: upd_tcb_def)
  then have ins: "insert_waiter ?k me = insert_waiter k me" by (simp add: insert_waiter_def fun_eq_iff)
  from w obtain k' where "mbox_wait (readers mb) ?k = Some (Inr k')"
    "tcbs k' = (tcbs ?k)(me := (tcbs ?k me)\<lparr>status := STATUS_MBOX_BLOCKED\<rparr>)" "msgs k' = msgs k" "pendsv k'"
    "list_at (links k') (Queue (readers mb)) (map Rq_entry (insert_waiter k me (qs (Queue (readers mb)))))"
    unfolding ins by (auto simp: ends_def valid_def upd_tcb_def)
  with av running_active [OF run] show "\<exists>k'. mbox_get_internal mb m True k = Some (Inr (None, mb, k'))
       \<and> status (tcbs k' me) = STATUS_MBOX_BLOCKED \<and> wait_data (tcbs k' me) = m \<and> msgs k' = msgs k \<and> pendsv k'
       \<and> list_at (links k') (Queue (readers mb)) (map Rq_entry (insert_waiter k me (qs (Queue (readers mb)))))"
    by (simp add: mbox_get_internal_def upd_tcb_def)
qed

text \<open>
  C35: a mailbox is a bounded queue with waiting threads.  In a reachable state, let \<open>rs\<close> and \<open>ws\<close> be the threads that wait to read
  and to write, and let the messages involved lie outside of the array of the mailbox.  Putting a message hands it to the first reader and makes it
  runnable; without readers it is added at the end with its sender, or if the mailbox is full the thread waits behind the writers of the
  same or a better priority, and the non-blocking call returns 0 and changes nothing.  Getting takes the first message and wakes the first writer;
  from an empty mailbox the thread waits with the readers, and the non-blocking call returns 0.
\<close>

theorem mbox_refines_queue:
  assumes "kernel_reachable M tsi k" and "\<not> in_irq k" and "\<not> pendsv k" and "sched_active_thread k = Some me"
    and "\<not> M (readers mb)" and "\<not> M (writers mb)"
    and "list_at (links k) (Queue (readers mb)) (map Rq_entry rs)" and "list_at (links k) (Queue (writers mb)) (map Rq_entry ws)"
    and "mbox_layout mb (insert m ((\<lambda>r. wait_data (tcbs k r)) ` set rs))"
  shows "(case rs of
       r # rs' \<Rightarrow> \<forall>put \<in> {mbox_put, mbox_try_put}. \<exists>k'. put mb m k = Some (Inr (Some 1, mb, k'))
         \<and> msgs k' (wait_data (tcbs k r)) = msgs k m \<and> mbox_items k' mb = mbox_items k mb
         \<and> status (tcbs k' r) = STATUS_PENDING \<and> list_at (links k') (Queue (readers mb)) (map Rq_entry rs')
     | [] \<Rightarrow> if length (mbox_items k mb) = unat (cib_size (mb_cib mb))
         then mbox_try_put mb m k = Some (Inr (Some 0, mb, k))
           \<and> (\<exists>k'. mbox_put mb m k = Some (Inr (None, mb, k')) \<and> status (tcbs k' me) = STATUS_MBOX_BLOCKED
                \<and> list_at (links k') (Queue (writers mb)) (map Rq_entry (insert_waiter k me ws)) \<and> msgs k' = msgs k \<and> pendsv k')
         else \<forall>put \<in> {mbox_put, mbox_try_put}. \<exists>mb' k'. put mb m k = Some (Inr (Some 1, mb', k'))
           \<and> tcbs k' = tcbs k \<and> links k' = links k
           \<and> mbox_items k' mb' = mbox_items k mb @ [(msgs k m)\<lparr>sender_pid := sched_active_pid k\<rparr>])
   \<and> (case mbox_items k mb of
       x # xs \<Rightarrow> \<forall>get \<in> {mbox_get, mbox_try_get}. \<exists>mb' k'. get mb m k = Some (Inr (Some 1, mb', k')) \<and> msgs k' m = x
         \<and> mbox_items k' mb' = xs
         \<and> (case ws of [] \<Rightarrow> tcbs k' = tcbs k
            | w # ws' \<Rightarrow> status (tcbs k' w) = STATUS_PENDING \<and> list_at (links k') (Queue (writers mb)) (map Rq_entry ws'))
     | [] \<Rightarrow> mbox_try_get mb m k = Some (Inr (Some 0, mb, k))
         \<and> (\<exists>k'. mbox_get mb m k = Some (Inr (None, mb, k')) \<and> status (tcbs k' me) = STATUS_MBOX_BLOCKED
              \<and> wait_data (tcbs k' me) = m \<and> msgs k' = msgs k \<and> pendsv k'
              \<and> list_at (links k') (Queue (readers mb)) (map Rq_entry (insert_waiter k me rs))))"
    (is "?put \<and> ?get")
proof
  from kernel_ok_running [OF kernel_reachable_ok [OF assms(1)] assms(2,3)] obtain qs where run: "running M k qs me"
    using assms(4) running_active by (metis option.inject)
  have wf: "kernel_wf M k qs" by (rule running_wf [OF run])
  have rs: "qs (Queue (readers mb)) = rs" by (rule list_at_threads_unique [OF wf_wait_list [OF wf assms(5)] assms(7)])
  have ws: "qs (Queue (writers mb)) = ws" by (rule list_at_threads_unique [OF wf_wait_list [OF wf assms(6)] assms(8)])
  have m: "m \<in> insert m ((\<lambda>r. wait_data (tcbs k r)) ` set rs)" by simp
  show ?get
  proof (cases "mbox_items k mb")
    case Nil
    with get_waits [OF run assms(5) Nil, of m] rs show ?thesis by (simp add: mbox_get_def mbox_try_get_def)
  next
    case (Cons x xs)
    with get_takes [OF wf assms(4,6,9) m Cons] ws show ?thesis by (simp add: mbox_get_def mbox_try_get_def)
  qed
  show ?put
  proof (cases rs)
    case Nil
    from assms(9) obtain j where j: "j \<le> 28" "cib_mask (mb_cib mb) = 2 ^ j - 1" "unat (cib_avail (mb_cib mb)) \<le> 2 ^ j"
      unfolding mbox_layout_def by blast
    have full: "cib_full (mb_cib mb) \<longleftrightarrow> length (mbox_items k mb) = unat (cib_size (mb_cib mb))"
      using cib_full_iff [OF _ j(2,3)] cib_size_pow2 [OF _ j(2)] j(1) by (simp add: length_mbox_items)
    show ?thesis
      using put_queues [OF run assms(5,6) _ assms(9) m] rs ws Nil full by (auto simp: mbox_put_def mbox_try_put_def split: if_splits)
  next
    case (Cons r rs')
    have "\<exists>k'. mbox_put_internal mb m b k = Some (Inr (Some 1, mb, k')) \<and> msgs k' (wait_data (tcbs k r)) = msgs k m
        \<and> mbox_items k' mb = mbox_items k mb
        \<and> status (tcbs k' r) = STATUS_PENDING \<and> list_at (links k') (Queue (readers mb)) (map Rq_entry rs')" for b
      using put_hands_over [OF wf assms(4,5), of r rs' m b] mbox_items_outside [OF assms(9), of "wait_data (tcbs k r)"] rs Cons by fastforce
    with Cons show ?thesis by (simp add: mbox_put_def mbox_try_put_def)
  qed
qed

definition demo_mbox :: mbox_t where
  "demo_mbox = \<lparr>readers = 0x7000, writers = 0x7004, mb_cib = CIB_INIT 1, mb_array = 0x8000\<rparr>"

theorem mbox_refines_queue_witness:
  "\<exists>mb' k'. mbox_put demo_mbox 0x3000 demo_two = Some (Inr (Some 1, mb', k')) \<and> map sender_pid (mbox_items k' mb') = [1]"
proof -
  let ?k = demo_two
  note d = demo_two_def demo_main_def demo_boot_def boot_kernel_def demo_mbox_def one_mutex_def
  have lay: "mbox_layout demo_mbox (insert 0x3000 ((\<lambda>r. wait_data (tcbs demo_two r)) ` set []))"
    by (auto simp: mbox_layout_def demo_mbox_def CIB_INIT_def cib_avail_def msg_slot_def intro!: exI [of _ 0])
  have "\<not> in_irq ?k" "\<not> pendsv ?k" "sched_active_thread ?k = Some 0x13d8" "\<not> one_mutex (readers demo_mbox)" "\<not> one_mutex (writers demo_mbox)"
    "list_at (links ?k) (Queue (readers demo_mbox)) (map Rq_entry [])" "list_at (links ?k) (Queue (writers demo_mbox)) (map Rq_entry [])"
    by (simp_all add: d)
  note r = mbox_refines_queue [OF demo_reachable(3) this lay, THEN conjunct1]
  have e: "mbox_items ?k demo_mbox = []" by (simp add: mbox_items_def cib_items_def demo_mbox_def CIB_INIT_def cib_avail_def)
  have "sched_active_pid ?k = 1" by (simp add: d)
  with r e show ?thesis by (auto simp: demo_mbox_def CIB_INIT_def cib_size_def)
qed

section \<open>A reader beside a message\<close>

text \<open>
  The states of a run of two threads of the same priority, which use a mailbox with one slot: the status and the waiting
  buffer of the main thread, the status of the other one, the active thread, a pending scheduler run, the links and the messages.
\<close>

definition lost :: "thread_status_t \<Rightarrow> u32 \<Rightarrow> thread_status_t \<Rightarrow> tcb \<Rightarrow> bool \<Rightarrow> (list_node \<rightharpoonup> list_node) \<Rightarrow> (u32 \<Rightarrow> msg_t) \<Rightarrow> kernel" where
  "lost st1 wd st2 a p h ms = boot_kernel\<lparr>sched_threads := [1 \<mapsto> 0x13d8, 2 \<mapsto> 0x23d8], sched_num_threads := 2,
     runqueue_bitcache := 0x1000000, sched_active_pid := (if a = 0x13d8 then 1 else 2), sched_active_thread := Some a, links := h,
     tcbs := (tcbs boot_kernel)(0x13d8 := demo_thread 1 st1 7\<lparr>wait_data := wd\<rparr>, 0x23d8 := demo_thread 2 st2 7), pendsv := p, msgs := ms\<rparr>"

definition from_main :: msg_t where "from_main = \<lparr>sender_pid = 1, msg_type = 0, msg_content = 0\<rparr>"

definition main_first :: "list_node \<rightharpoonup> list_node" where
  "main_first = [Runqueue 7 \<mapsto> Rq_entry 0x23d8, Rq_entry 0x13d8 \<mapsto> Rq_entry 0x23d8, Rq_entry 0x23d8 \<mapsto> Rq_entry 0x13d8]"

definition main_last :: "list_node \<rightharpoonup> list_node" where
  "main_last = [Runqueue 7 \<mapsto> Rq_entry 0x13d8, Rq_entry 0x13d8 \<mapsto> Rq_entry 0x23d8, Rq_entry 0x23d8 \<mapsto> Rq_entry 0x13d8]"

definition writer_waits :: "list_node \<rightharpoonup> list_node" where
  "writer_waits = [Runqueue 7 \<mapsto> Rq_entry 0x13d8, Rq_entry 0x13d8 \<mapsto> Rq_entry 0x13d8, Queue 0x7004 \<mapsto> Rq_entry 0x23d8]"

definition reader_waits :: "list_node \<rightharpoonup> list_node" where
  "reader_waits = [Runqueue 7 \<mapsto> Rq_entry 0x23d8, Rq_entry 0x23d8 \<mapsto> Rq_entry 0x23d8, Queue 0x7000 \<mapsto> Rq_entry 0x13d8]"

definition msgs1 :: "u32 \<Rightarrow> msg_t" where
  "msgs1 = (msgs boot_kernel)(0x3000 := from_main, 0x8000 := from_main)"

definition mbox1 :: mbox_t where "mbox1 = demo_mbox\<lparr>mb_cib := \<lparr>read_count = 0, write_count = 1, cib_mask = 0\<rparr>\<rparr>"
definition mbox2 :: mbox_t where "mbox2 = demo_mbox\<lparr>mb_cib := \<lparr>read_count = 1, write_count = 1, cib_mask = 0\<rparr>\<rparr>"

lemmas lost_eval = kernel_eval lost_def main_first_def main_last_def writer_waits_def reader_waits_def msgs1_def mbox1_def mbox2_def
  from_main_def demo_mbox_def demo_two_def demo_main_def demo_boot_def boot_kernel_def boot_thread_def demo_thread_def
  CIB_INIT_def cib_avail_def cib_full_def cib_put_unsafe_def cib_get_unsafe_def msg_slot_def list_remove_head_def

lemma lost_1: "mbox_put demo_mbox 0x3000 demo_two = Some (Inr (Some 1, mbox1, lost STATUS_RUNNING 0 STATUS_PENDING 0x13d8 False main_first msgs1))"
  by (simp add: mbox_put_def mbox_put_internal_def mbox_put_loop_def set_sender_pid_def lost_eval fun_eq_iff)

lemma lost_2: "thread_yield (lost STATUS_RUNNING 0 STATUS_PENDING 0x13d8 False main_first msgs1)
   = Inr (lost STATUS_RUNNING 0 STATUS_PENDING 0x13d8 True main_last msgs1)"
  by (simp add: thread_yield_def sched_runq_advance_def clist_lpoprpush_def lost_eval fun_eq_iff)

lemma lost_run:
  "sched_run id (lost STATUS_RUNNING 0 STATUS_PENDING 0x13d8 True main_last ms\<lparr>pendsv := False\<rparr>)
   = Some (Inr (0x23d8, lost STATUS_PENDING 0 STATUS_RUNNING 0x23d8 False main_last ms))"
  "sched_run id (lost STATUS_PENDING 0 STATUS_MBOX_BLOCKED 0x23d8 True writer_waits ms\<lparr>pendsv := False\<rparr>)
   = Some (Inr (0x13d8, lost STATUS_RUNNING 0 STATUS_MBOX_BLOCKED 0x13d8 False writer_waits ms))"
  "sched_run id (lost STATUS_MBOX_BLOCKED wd STATUS_PENDING 0x13d8 True reader_waits ms\<lparr>pendsv := False\<rparr>)
   = Some (Inr (0x23d8, lost STATUS_MBOX_BLOCKED wd STATUS_RUNNING 0x23d8 False reader_waits ms))"
  by (simp_all add: sched_run_def sched_run_next_def get_prio_queue_from_runqueue_def msb_bit24 unschedule_def lost_eval fun_eq_iff)

lemma lost_3: "mbox_put mbox1 0x3100 (lost STATUS_PENDING 0 STATUS_RUNNING 0x23d8 False main_last msgs1)
   = Some (Inr (None, mbox1, lost STATUS_PENDING 0 STATUS_MBOX_BLOCKED 0x23d8 True writer_waits msgs1))"
  by (simp add: mbox_put_def mbox_put_internal_def mbox_put_loop_def mbox_wait_def thread_yield_def thread_add_to_list_def
      add_to_list_pos.simps list_add_def lost_eval fun_eq_iff)

lemma lost_5: "mbox_get mbox1 0x3200 (lost STATUS_RUNNING 0 STATUS_MBOX_BLOCKED 0x13d8 False writer_waits msgs1)
   = Some (Inr (Some 1, mbox2, lost STATUS_RUNNING 0 STATUS_PENDING 0x13d8 False main_first (msgs1(0x3200 := from_main))))"
  by (simp add: mbox_get_def mbox_get_internal_def wake_waiter_def lost_eval fun_eq_iff)

lemma lost_6: "mbox_get mbox2 0x3300 (lost STATUS_RUNNING 0 STATUS_PENDING 0x13d8 False main_first ms)
   = Some (Inr (None, mbox2, lost STATUS_MBOX_BLOCKED 0x3300 STATUS_PENDING 0x13d8 True reader_waits ms))"
  by (simp add: mbox_get_def mbox_get_internal_def mbox_wait_def thread_yield_def thread_add_to_list_def
      add_to_list_pos.simps list_add_def lost_eval fun_eq_iff)

text \<open>
  C36: a reader can stay blocked beside a message.  The main thread fills a mailbox of one slot and yields; a second
  thread of the same priority waits to put a message; the main thread gets the first message, which wakes the writer, and waits for the next one;
  the writer, running again, continues behind its wait: it finds a free slot, queues its message and returns success without looking for readers.
  The main thread still waits to read although the mailbox is not empty.
\<close>

theorem mbox_reader_left_waiting:
  "\<exists>mb1 mb2 mb3 k1 k2 k3 k4 k5 k6 k7 k8.
     mbox_put demo_mbox 0x3000 demo_two = Some (Inr (Some 1, mb1, k1)) \<and> thread_yield k1 = Inr k2
   \<and> sched_run id (k2\<lparr>pendsv := False\<rparr>) = Some (Inr (0x23d8, k3)) \<and> mbox_put mb1 0x3100 k3 = Some (Inr (None, mb1, k4))
   \<and> sched_run id (k4\<lparr>pendsv := False\<rparr>) = Some (Inr (0x13d8, k5)) \<and> mbox_get mb1 0x3200 k5 = Some (Inr (Some 1, mb2, k6))
   \<and> (\<exists>k. mbox_get mb2 0x3300 k6 = Some (Inr (None, mb2, k)) \<and> sched_run id (k\<lparr>pendsv := False\<rparr>) = Some (Inr (0x23d8, k7)))
   \<and> mbox_put_loop mb2 0x3100 True k7 = Some (Inr (Some 1, mb3, k8))
   \<and> map sender_pid (mbox_items k8 mb3) = [2] \<and> status (tcbs k8 0x13d8) = STATUS_MBOX_BLOCKED
   \<and> list_at (links k8) (Queue (readers mb3)) [Rq_entry 0x13d8]"
proof -
  let ?m = "msgs1(0x3200 := from_main)"
  let ?k7 = "lost STATUS_MBOX_BLOCKED 0x3300 STATUS_RUNNING 0x23d8 False reader_waits ?m"
  let ?mb3 = "demo_mbox\<lparr>mb_cib := \<lparr>read_count = 1, write_count = 2, cib_mask = 0\<rparr>\<rparr>"
  let ?k8 = "lost STATUS_MBOX_BLOCKED 0x3300 STATUS_RUNNING 0x23d8 False reader_waits
    (?m(0x3100 := from_main\<lparr>sender_pid := 2\<rparr>, 0x8000 := from_main\<lparr>sender_pid := 2\<rparr>))"
  have put: "mbox_put_loop mbox2 0x3100 True ?k7 = Some (Inr (Some 1, ?mb3, ?k8))"
    by (simp add: mbox_put_loop_def set_sender_pid_def lost_eval fun_eq_iff)
  have items: "map sender_pid (mbox_items ?k8 ?mb3) = [2]"
    by (simp add: mbox_items_def mbox_slots_def cib_items_def lost_eval)
  have rd: "status (tcbs ?k8 0x13d8) = STATUS_MBOX_BLOCKED" "list_at (links ?k8) (Queue (readers ?mb3)) [Rq_entry 0x13d8]"
    by (simp_all add: lost_eval list_at_Cons)
  show ?thesis
    by (intro exI conjI) (rule lost_1, rule lost_2, rule lost_run(1), rule lost_3, rule lost_run(2), rule lost_5, rule lost_6,
      rule lost_run(3), rule put, rule items, rule rd(1), rule rd(2))
qed

end
