(* ===== verification/PRR_Words.thy ===== *)
theory PRR_Words
  imports PRR_Prelude
begin

text \<open>
  Loads and stores of 32-bit words in the byte memory, for the code that builds stack frames and relocates sections.
\<close>

definition store32 :: "memory \<Rightarrow> u32 \<Rightarrow> u32 \<Rightarrow> memory" where
  "store32 m a w = store_bytes m a (le_bytes 4 w)"

lemma load32_store32 [simp]: "load32 (store32 m a w) a = w"
  using bytes_at_store [of "le_bytes 4 w" m a] by (simp add: load32_def store32_def le_word_le_bytes_32)

lemma unat_diff_far:
  assumes "unat (b :: u32) + n \<le> unat a \<or> unat a + n \<le> unat b" "n \<le> 2 ^ 31" "unat a + n \<le> 2 ^ 32" "unat b + n \<le> 2 ^ 32"
  shows "n \<le> unat (a - b)"
  using assms unat_u32_less [of a] unat_u32_less [of b] by (auto simp: unat_sub_if_size word_size)

lemma store32_frame: "unat x < unat a \<or> unat a + 4 \<le> unat x \<Longrightarrow> unat a + 4 \<le> 2 ^ 32 \<Longrightarrow> store32 m a w x = m x"
  unfolding store32_def using unat_u32_less [of x]
  by (intro store_bytes_frame) (auto simp: unat_sub_if_size word_size)

lemma load32_cong: "(\<And>i. i < 4 \<Longrightarrow> m (a + of_nat i) = m' (a + of_nat i)) \<Longrightarrow> load32 m a = load32 m' a"
  by (simp add: load32_def bytes_at_cong [of 4 m a m'])

lemma unat_add_small: "unat (a :: u32) + n < 2 ^ 32 \<Longrightarrow> unat (a + of_nat n) = unat a + n"
  by (simp add: unat_word_ariths unat_of_nat)

lemma load32_store32_other:
  assumes "unat b + 4 \<le> unat a \<or> unat a + 4 \<le> unat b" "unat a + 4 \<le> 2 ^ 32" "unat b + 4 \<le> 2 ^ 32"
  shows "load32 (store32 m a w) b = load32 m b"
proof (rule load32_cong)
  fix i :: nat assume i: "i < 4"
  have "unat (b + of_nat i) = unat b + i" by (rule unat_add_small) (use i assms(3) in simp)
  then show "store32 m a w (b + of_nat i) = m (b + of_nat i)" by (intro store32_frame) (use i assms in auto)
qed

lemma unat_minus_4: "4 \<le> unat (a :: u32) \<Longrightarrow> unat (a - 4) = unat a - 4"
  by (simp add: unat_sub_if_size)

text \<open>Alignment.\<close>

lemma unat_and_7: "unat (a AND 7 :: u32) = unat a mod 8"
proof -
  have "a AND 7 = take_bit 3 a" by (simp add: take_bit_eq_mask mask_eq_exp_minus_1)
  then show ?thesis by (simp add: take_bit_eq_mod unat_mod)
qed

lemma unat_and_3: "unat (a AND 3 :: u32) = unat a mod 4"
proof -
  have "a AND 3 = take_bit 2 a" by (simp add: take_bit_eq_mask mask_eq_exp_minus_1)
  then show ?thesis by (simp add: take_bit_eq_mod unat_mod)
qed

lemma unat_and_not_3: "unat (a AND NOT 3 :: u32) = unat a - unat a mod 4"
proof -
  have "(a AND NOT 3) AND (a AND 3) = 0" by (rule bit_word_eqI) (auto simp: bit_simps)
  then have "(a AND NOT 3) + (a AND 3) = (a AND NOT 3) OR (a AND 3)" by (rule disjunctive_add_eq_or)
  also have "\<dots> = a" by (rule bit_word_eqI) (auto simp: bit_simps)
  finally have "a AND NOT 3 = a - (a AND 3)" by (simp add: eq_diff_eq)
  then show ?thesis using unat_and_3 [of a] by (simp add: unat_sub word_le_nat_alt)
qed

text \<open>Copying bytes in blocks.\<close>

lemma store_bytes_outside:
  assumes "unat x < unat a \<or> unat a + length bs \<le> unat x" "unat a + length bs \<le> 2 ^ 32"
  shows "store_bytes m a bs x = m x"
  using assms unat_u32_less [of x] by (intro store_bytes_frame) (auto simp: unat_sub_if_size word_size)

lemma bytes_at_unchanged:
  assumes "\<And>x. unat a \<le> unat x \<Longrightarrow> unat x < unat a + n \<Longrightarrow> m' x = m x" "unat a + n \<le> 2 ^ 32"
  shows "bytes_at m' a n = bytes_at m a n"
proof (rule bytes_at_cong)
  fix i assume i: "i < n"
  have "unat (a + of_nat i) = unat a + i" by (rule unat_add_small) (use i assms(2) in simp)
  with i show "m' (a + of_nat i) = m (a + of_nat i)" by (intro assms(1)) simp_all
qed

lemma load32_unchanged:
  assumes "\<And>x. unat a \<le> unat x \<Longrightarrow> unat x < unat a + 4 \<Longrightarrow> m' x = m x" "unat a + 4 \<le> 2 ^ 32"
  shows "load32 m' a = load32 m a"
  using bytes_at_unchanged [OF assms] by (simp add: load32_def)

lemma store_bytes_inside:
  assumes "i < length bs" "length bs \<le> 2 ^ 32"
  shows "store_bytes m a bs (a + of_nat i) = bs ! i"
proof -
  have "unat (of_nat i :: u32) = i" using assms by (simp add: unat_of_nat)
  with assms show ?thesis by (simp add: store_bytes_apply)
qed

text \<open>
  A loop that stores one word after the other: \<open>F i m\<close> is what is left to do at index \<open>i\<close>.  The values may depend on the memory outside of
  the words that are stored.
\<close>

lemma store_words:
  assumes base: "unat base + 4 * r \<le> 2 ^ 32"
    and step: "\<And>i m. i < r \<Longrightarrow> (\<forall>x. unat x < unat base \<or> unat base + 4 * r \<le> unat x \<longrightarrow> m x = m0 x)
      \<Longrightarrow> F (of_nat i) m = F (of_nat i + 1) (store32 m (base + 4 * of_nat i) (v i))"
    and "i \<le> r" "\<forall>x. unat x < unat base \<or> unat base + 4 * r \<le> unat x \<longrightarrow> m x = m0 x"
  shows "\<exists>m'. F (of_nat i :: u32) m = F (of_nat r) m'
     \<and> (\<forall>x. unat x < unat base + 4 * i \<or> unat base + 4 * r \<le> unat x \<longrightarrow> m' x = m x)
     \<and> (\<forall>j. i \<le> j \<and> j < r \<longrightarrow> load32 m' (base + 4 * of_nat j) = v j)"
  using assms(3,4)
proof (induction "r - i" arbitrary: i m)
  case 0
  then show ?case by auto
next
  case (Suc n)
  let ?a = "base + 4 * of_nat i" and ?m = "store32 m (base + 4 * of_nat i) (v i)"
  have i: "i < r" using Suc.hyps(2) by simp
  have "unat (base + of_nat (4 * i)) = unat base + 4 * i" by (rule unat_add_small) (use i base in simp)
  then have a: "unat ?a = unat base + 4 * i" by simp
  have fr: "?m x = m x" if "unat x < unat base + 4 * i \<or> unat base + 4 * Suc i \<le> unat x" for x
    by (rule store32_frame) (use that a i base in auto)
  have "\<forall>x. unat x < unat base \<or> unat base + 4 * r \<le> unat x \<longrightarrow> ?m x = m0 x"
  proof (intro allI impI)
    fix x :: u32 assume x: "unat x < unat base \<or> unat base + 4 * r \<le> unat x"
    have "?m x = m x" by (rule fr) (use x i in auto)
    with x Suc.prems(2) show "?m x = m0 x" by metis
  qed
  moreover have "n = r - Suc i" "Suc i \<le> r" using Suc.hyps(2) i by simp_all
  ultimately obtain m' where m': "F (of_nat (Suc i)) ?m = F (of_nat r) m'"
    "\<And>x. unat x < unat base + 4 * Suc i \<or> unat base + 4 * r \<le> unat x \<Longrightarrow> m' x = ?m x"
    "\<And>j. Suc i \<le> j \<Longrightarrow> j < r \<Longrightarrow> load32 m' (base + 4 * of_nat j) = v j"
    using Suc.hyps(1) [of "Suc i" ?m] by blast
  have "load32 m' ?a = load32 ?m ?a" by (rule load32_unchanged) (use m'(2) a i base in auto)
  then have "load32 m' (base + 4 * of_nat j) = v j" if "i \<le> j" "j < r" for j
    using m'(3) [of j] that by (cases "j = i") simp_all
  moreover have "m' x = m x" if "unat x < unat base + 4 * i \<or> unat base + 4 * r \<le> unat x" for x
  proof -
    have "m' x = ?m x" by (rule m'(2)) (use that in auto)
    also have "\<dots> = m x" by (rule fr) (use that i in auto)
    finally show ?thesis .
  qed
  moreover have "F (of_nat i) m = F (of_nat r) m'" using step [OF i Suc.prems(2)] m'(1) by (simp add: add.commute)
  ultimately show ?case by blast
qed

end
