(* ===== verification/Core_Stack.thy ===== *)
theory Core_Stack
  imports Core_Sched PRR_Words
begin

text \<open>
  The initial stack of a thread: the register frame that \<open>thread_stack_init\<close> of \<open>cpu/cortexm_common/thread_arch.c\<close> builds for
  a Cortex-M4, the fill pattern of \<open>thread_create\<close> in \<open>core/thread.c\<close> and what \<open>thread_measure_stack_free\<close> makes of
  it.  The function pointers are addresses; the address of \<open>sched_task_exit\<close> is an argument.
\<close>

unbundle bit_operations_syntax

section \<open>The code\<close>

definition STACK_MARKER :: u32 where [c_const]: "STACK_MARKER = 0x77777777"
definition INITIAL_XPSR :: u32 where [c_const]: "INITIAL_XPSR = 0x01000000"
definition EXCEPT_RET_TASK_MODE :: u32 where [c_const]: "EXCEPT_RET_TASK_MODE = 0xfffffffd"

text \<open>A sequence of \<open>stk--; *stk = w\<close>.\<close>

fun push_words :: "u32 list \<Rightarrow> u32 \<times> memory \<Rightarrow> u32 \<times> memory" where
  "push_words [] (stk, m) = (stk, m)"
| "push_words (w # ws) (stk, m) = push_words ws (stk - 4, store32 m (stk - 4) w)"

definition thread_stack_init :: "u32 \<Rightarrow> u32 \<Rightarrow> u32 \<Rightarrow> u32 \<Rightarrow> int \<Rightarrow> memory \<Rightarrow> u32 \<times> memory" where
  "thread_stack_init task_exit task_func arg stack_start stack_size m =
     (let stk = stack_start + word_of_int stack_size;
          stk = stk AND NOT 0x3;
          (stk, m) = push_words [STACK_MARKER] (stk, m);
          (stk, m) = (if stk AND 0x7 \<noteq> 0 then push_words [NOT STACK_MARKER] (stk, m) else (stk, m))
      in push_words ([INITIAL_XPSR, task_func, task_exit, 0] @ map of_nat (rev [1..<4]) @ [arg]
           @ [EXCEPT_RET_TASK_MODE] @ map of_nat (rev [4..<12])) (stk, m))"

text \<open>The fill pattern of a stack that is created with \<open>THREAD_CREATE_STACKTEST\<close>.\<close>

partial_function (option) stack_fill :: "u32 \<Rightarrow> u32 \<Rightarrow> memory \<Rightarrow> memory option" where
  "stack_fill stackp stackmax m =
     (if stackp < stackmax then stack_fill (stackp + 4) stackmax (store32 m stackp stackp) else Some m)"

section \<open>Pushing words\<close>

lemma push_words_append: "push_words (us @ ws) s = push_words ws (push_words us s)"
  by (induction us s rule: push_words.induct) simp_all

lemma push_words_at:
  assumes "4 * length ws \<le> unat stk" "push_words ws (stk, m) = (stk', m')"
  shows "unat stk' = unat stk - 4 * length ws
     \<and> (\<forall>i < length ws. load32 m' (stk' + of_nat (4 * i)) = rev ws ! i)
     \<and> (\<forall>x. unat x < unat stk' \<or> unat stk \<le> unat x \<longrightarrow> m' x = m x)"
  using assms
proof (induction ws arbitrary: stk m)
  case (Cons w ws)
  let ?m = "store32 m (stk - 4) w"
  have lt: "unat stk < 2 ^ 32" by (rule unat_u32_less)
  have 4: "unat (stk - 4) = unat stk - 4" using Cons.prems by (intro unat_minus_4) simp
  have len: "4 * length ws \<le> unat (stk - 4)" using Cons.prems 4 by simp
  have "push_words ws (stk - 4, ?m) = (stk', m')" using Cons.prems by simp
  from Cons.IH [OF len this] have IH: "unat stk' = unat stk - 4 - 4 * length ws"
    "\<And>i. i < length ws \<Longrightarrow> load32 m' (stk' + of_nat (4 * i)) = rev ws ! i"
    "\<And>x. unat x < unat stk' \<or> unat (stk - 4) \<le> unat x \<Longrightarrow> m' x = ?m x" using 4 by auto
  have "load32 m' (stk' + of_nat (4 * i)) = rev (w # ws) ! i" if i: "i < length (w # ws)" for i
  proof (cases "i < length ws")
    case True
    with IH(2) show ?thesis by (simp add: nth_append)
  next
    case False
    then have i: "i = length ws" using i by simp
    have "unat (stk' + of_nat (4 * i)) = unat (stk - 4)"
      using IH(1) 4 i lt Cons.prems(1) by (subst unat_add_small) auto
    then have a: "stk' + of_nat (4 * i) = stk - 4" by (rule unsigned_word_eqI)
    have "load32 m' (stk - 4) = load32 ?m (stk - 4)"
    proof (rule load32_cong, rule IH(3))
      fix j :: nat assume j: "j < 4"
      have "unat (stk - 4 + of_nat j) = unat (stk - 4) + j" by (rule unat_add_small) (use 4 Cons.prems(1) lt j in auto)
      then show "unat (stk - 4 + of_nat j) < unat stk' \<or> unat (stk - 4) \<le> unat (stk - 4 + of_nat j)" by simp
    qed
    with i show ?thesis unfolding a by (simp add: nth_append)
  qed
  moreover have "m' x = m x" if x: "unat x < unat stk' \<or> unat stk \<le> unat x" for x
  proof -
    have "unat x < unat stk' \<or> unat (stk - 4) \<le> unat x" using x 4 by linarith
    moreover have "unat x < unat (stk - 4) \<or> unat (stk - 4) + 4 \<le> unat x" "unat (stk - 4) + 4 \<le> 2 ^ 32"
      using x 4 IH(1) lt Cons.prems(1) by auto
    ultimately show ?thesis using IH(3) store32_frame by simp
  qed
  ultimately show ?case using IH(1) by auto
qed simp

section \<open>The initial frame\<close>

text \<open>The start marker, with a padding word where the stack would not be aligned to eight bytes.\<close>

lemma stack_marker_at:
  assumes "8 \<le> unat stk" "4 dvd unat stk"
    and "(case push_words [STACK_MARKER] (stk, m) of (stk, m) \<Rightarrow>
       if stk AND 0x7 \<noteq> 0 then push_words [NOT STACK_MARKER] (stk, m) else (stk, m)) = (stk', m')"
  shows "8 dvd unat stk'" "unat stk' + 4 \<le> unat stk" "unat stk \<le> unat stk' + 8"
    "\<And>x. unat x < unat stk' \<or> unat stk \<le> unat x \<Longrightarrow> m' x = m x"
proof -
  have lt: "unat stk < 2 ^ 32" by (rule unat_u32_less)
  have 4: "unat (stk - 4) = unat stk - 4" "unat (stk - 4 - 4) = unat stk - 8"
    using assms(1) unat_minus_4 [of stk] unat_minus_4 [of "stk - 4"] by simp_all
  let ?m = "store32 m (stk - 4) STACK_MARKER"
  have fr: "?m x = m x" if "unat x < unat (stk - 4) \<or> unat stk \<le> unat x" for x
    by (rule store32_frame) (use that 4 assms(1) lt in auto)
  have fr': "store32 ?m (stk - 4 - 4) w x = m x" if "unat x < unat stk - 8 \<or> unat stk \<le> unat x" for x w
  proof -
    have "store32 ?m (stk - 4 - 4) w x = ?m x" by (rule store32_frame; unfold 4; use that assms(1) lt in linarith)
    also have "?m x = m x" by (rule fr; unfold 4; use that in linarith)
    finally show ?thesis .
  qed
  have a: "stk - 4 AND 7 = 0 \<longleftrightarrow> 8 dvd unat stk - 4" using unat_and_7 [of "stk - 4"] 4(1)
    by (metis dvd_eq_mod_eq_0 unsigned_0 unsigned_word_eqI)
  have "8 dvd unat stk'" "unat stk' + 4 \<le> unat stk \<and> unat stk \<le> unat stk' + 8
      \<and> (\<forall>x. unat x < unat stk' \<or> unat stk \<le> unat x \<longrightarrow> m' x = m x)"
  proof -
    have "8 dvd unat stk - 4 \<or> 8 dvd unat stk - 8" using assms(1,2) by presburger
    with assms(3) a 4 show "8 dvd unat stk'" by (auto split: if_splits)
    from assms(3) a 4 assms(1) fr fr' show "unat stk' + 4 \<le> unat stk \<and> unat stk \<le> unat stk' + 8
      \<and> (\<forall>x. unat x < unat stk' \<or> unat stk \<le> unat x \<longrightarrow> m' x = m x)" by (auto split: if_splits)
  qed
  then show "8 dvd unat stk'" "unat stk' + 4 \<le> unat stk" "unat stk \<le> unat stk' + 8"
    "\<And>x. unat x < unat stk' \<or> unat stk \<le> unat x \<Longrightarrow> m' x = m x" by auto
qed

text \<open>The words that the context switch takes from the stack, in the order it takes them.\<close>

definition frame_words :: "u32 \<Rightarrow> u32 \<Rightarrow> u32 \<Rightarrow> u32 list" where
  "frame_words task_exit task_func arg =
     [4, 5, 6, 7, 8, 9, 10, 11, EXCEPT_RET_TASK_MODE, arg, 1, 2, 3, 0, task_exit, task_func, INITIAL_XPSR]"

lemma thread_stack_init_ok:
  assumes sz: "80 \<le> sz" "unat stk + nat sz < 2 ^ 32" and init: "thread_stack_init ex f arg stk sz m = (stk', m')"
  shows "unat stk < unat stk'" "unat stk' + 72 \<le> unat stk + nat sz" "4 dvd unat stk'" "8 dvd unat stk' + 36"
    "\<And>i. i < 17 \<Longrightarrow> load32 m' (stk' + of_nat (4 * i)) = frame_words ex f arg ! i"
    "\<And>x. unat x < unat stk' \<or> unat stk + nat sz \<le> unat x \<Longrightarrow> m' x = m x"
proof -
  let ?top = "stk + word_of_int sz"
  have "word_of_int sz = (of_nat (nat sz) :: u32)" using sz(1) by (simp add: of_nat_nat)
  then have top: "unat ?top = unat stk + nat sz" using unat_add_small [OF sz(2)] by simp
  define t where "t = ?top AND NOT 3"
  have t: "unat t = unat stk + nat sz - (unat stk + nat sz) mod 4" using unat_and_not_3 [of ?top] by (simp add: t_def top)
  have t4: "4 dvd unat t" unfolding t by (rule dvd_minus_mod)
  have tr: "unat stk + nat sz - 3 \<le> unat t" "unat t \<le> unat stk + nat sz" "80 \<le> nat sz"
    using t mod_less_divisor [of 4 "unat stk + nat sz"] sz(1) by linarith+
  obtain s m1 where s: "(case push_words [STACK_MARKER] (t, m) of (stk, m) \<Rightarrow>
       if stk AND 0x7 \<noteq> 0 then push_words [NOT STACK_MARKER] (stk, m) else (stk, m)) = (s, m1)" by force
  have t8: "8 \<le> unat t" using tr by simp
  note mk = stack_marker_at [OF t8 t4 s]
  let ?ws = "[INITIAL_XPSR, f, ex, 0] @ map of_nat (rev [1..<4]) @ [arg] @ [EXCEPT_RET_TASK_MODE] @ map of_nat (rev [4..<12])"
  have ws: "rev ?ws = frame_words ex f arg" "length ?ws = 17" by (simp_all add: frame_words_def upt_conv_Cons)
  have p: "push_words ?ws (s, m1) = (stk', m')" using init s by (simp add: thread_stack_init_def Let_def t_def del: push_words.simps split: prod.splits)
  have "4 * length ?ws \<le> unat s" unfolding ws(2) using mk(2,3) tr by simp
  from push_words_at [OF this p, unfolded ws] have at: "unat stk' = unat s - 68"
    "\<And>i. i < 17 \<Longrightarrow> load32 m' (stk' + of_nat (4 * i)) = frame_words ex f arg ! i"
    "\<And>x. unat x < unat stk' \<or> unat s \<le> unat x \<Longrightarrow> m' x = m1 x" by auto
  show "unat stk < unat stk'" "unat stk' + 72 \<le> unat stk + nat sz" using at(1) mk(2,3) tr by simp_all
  have "unat stk' + 68 = unat s" using at(1) mk(2,3) tr by simp
  with mk(1) show "4 dvd unat stk'" "8 dvd unat stk' + 36" by presburger+
  show "load32 m' (stk' + of_nat (4 * i)) = frame_words ex f arg ! i" if "i < 17" for i by (rule at(2) [OF that])
  show "m' x = m x" if "unat x < unat stk' \<or> unat stk + nat sz \<le> unat x" for x
  proof -
    have "unat x < unat stk' \<or> unat s \<le> unat x" "unat x < unat s \<or> unat t \<le> unat x" using that at(1) mk(2) tr by linarith+
    with at(3) mk(4) show ?thesis by simp
  qed
qed

text \<open>The stack pointer does not depend on the memory.\<close>

lemma push_words_pointer: "fst (push_words ws (stk, m)) = fst (push_words ws (stk, m'))"
  by (induction ws arbitrary: stk m m') simp_all

lemma stack_pointer_same:
  assumes "thread_stack_init ex f arg stk sz m = (t, m1)" "thread_stack_init ex f arg stk sz m' = (t', m1')"
  shows "t = t'"
proof -
  have "fst (thread_stack_init ex f arg stk sz m) = fst (thread_stack_init ex f arg stk sz m')"
    unfolding thread_stack_init_def Let_def by (simp del: append.simps add: case_prod_unfold) (meson push_words_pointer)
  with assms show ?thesis by simp
qed

section \<open>The fill pattern\<close>

lemma stack_fill_at:
  assumes "unat stackp = 4 * a" "unat stackmax = 4 * (a + n)"
  shows "\<exists>m'. stack_fill stackp stackmax m = Some m'
     \<and> (\<forall>x. unat x < unat stackp \<or> unat stackmax \<le> unat x \<longrightarrow> m' x = m x)
     \<and> (\<forall>i < n. load32 m' (stackp + of_nat (4 * i)) = stackp + of_nat (4 * i))"
  using assms
proof (induction n arbitrary: stackp a m)
  case 0
  then show ?case by (subst stack_fill.simps) (auto simp: word_less_nat_alt)
next
  case (Suc n)
  let ?m = "store32 m stackp stackp"
  have lt: "unat stackmax < 2 ^ 32" by (rule unat_u32_less)
  have p4: "unat (stackp + 4) = 4 * (a + 1)" using unat_add_small [of stackp 4] Suc.prems lt by simp
  have mx: "unat stackmax = 4 * (a + 1 + n)" using Suc.prems by simp
  from Suc.IH [OF p4 mx, of ?m] obtain m' where m': "stack_fill (stackp + 4) stackmax ?m = Some m'"
    "\<And>x. unat x < unat (stackp + 4) \<or> unat stackmax \<le> unat x \<Longrightarrow> m' x = ?m x"
    "\<And>i. i < n \<Longrightarrow> load32 m' (stackp + 4 + of_nat (4 * i)) = stackp + 4 + of_nat (4 * i)" by blast
  have eq: "stack_fill stackp stackmax m = Some m'"
    using m'(1) Suc.prems by (subst stack_fill.simps) (simp add: word_less_nat_alt)
  have fr: "m' x = m x" if "unat x < unat stackp \<or> unat stackmax \<le> unat x" for x
    using m'(2) [of x] store32_frame [of x stackp m stackp] that p4 Suc.prems lt by auto
  have "load32 m' stackp = stackp"
  proof -
    have "load32 m' stackp = load32 ?m stackp"
    proof (rule load32_cong, rule m'(2))
      fix j :: nat assume j: "j < 4"
      have "unat (stackp + of_nat j) = unat stackp + j" by (rule unat_add_small) (use j Suc.prems lt in auto)
      then show "unat (stackp + of_nat j) < unat (stackp + 4) \<or> unat stackmax \<le> unat (stackp + of_nat j)"
        using p4 Suc.prems j by simp
    qed
    then show ?thesis by simp
  qed
  then have "load32 m' (stackp + of_nat (4 * i)) = stackp + of_nat (4 * i)" if "i < Suc n" for i
    using m'(3) [of "i - 1"] that by (cases i) (simp_all add: algebra_simps)
  with eq fr show ?case by blast
qed

text \<open>Measuring stops at the first word that is not its own address.\<close>

lemma stack_free_loop_at:
  assumes "\<And>i. i < n \<Longrightarrow> load32 m (stackp + of_nat (4 * i)) = stackp + of_nat (4 * i)"
    and "load32 m (stackp + of_nat (4 * n)) \<noteq> stackp + of_nat (4 * n)"
  shows "stack_free_loop m stackp = Some (stackp + of_nat (4 * n))"
  using assms
proof (induction n arbitrary: stackp)
  case 0
  then show ?case by (subst stack_free_loop.simps) simp
next
  case (Suc n)
  have "stack_free_loop m (stackp + 4) = Some (stackp + 4 + of_nat (4 * n))"
  proof (rule Suc.IH)
    fix i assume "i < n"
    with Suc.prems(1) [of "Suc i"] show "load32 m (stackp + 4 + of_nat (4 * i)) = stackp + 4 + of_nat (4 * i)"
      by (simp add: algebra_simps)
  qed (use Suc.prems(2) in \<open>simp add: algebra_simps\<close>)
  with Suc.prems(1) [of 0] show ?case by (subst stack_free_loop.simps) (simp add: algebra_simps)
qed

lemma stack_measured:
  assumes "80 \<le> sz" and "unat stk + nat sz < 2 ^ 32" and "4 < unat stk"
    and "thread_stack_init ex f arg stk sz m = (stk', m')" and al: "4 dvd unat stk" "4 dvd sz"
  shows "\<exists>m0. stack_fill stk (stk + word_of_int sz) m = Some m0
      \<and> thread_measure_stack_free (snd (thread_stack_init ex f arg stk sz m0)) stk = Some (stk' - stk)"
proof -
  note ok = thread_stack_init_ok [OF assms(1,2,4)]
  have "4 dvd nat sz" using al(2) assms(1) by (auto elim!: dvdE simp: nat_mult_distrib)
  with al(1) obtain a n where an: "unat stk = 4 * a" "nat sz = 4 * n" by (auto elim!: dvdE)
  have "word_of_int sz = (of_nat (nat sz) :: u32)" using assms(1) by (simp add: of_nat_nat)
  then have "unat (stk + word_of_int sz) = 4 * (a + n)" using unat_add_small [OF assms(2)] an by simp
  from stack_fill_at [OF an(1) this, of m] obtain m0 where m0: "stack_fill stk (stk + word_of_int sz) m = Some m0"
    "\<And>i. i < n \<Longrightarrow> load32 m0 (stk + of_nat (4 * i)) = stk + of_nat (4 * i)" by blast
  obtain t1 m1 where init: "thread_stack_init ex f arg stk sz m0 = (t1, m1)" by force
  note ok1 = thread_stack_init_ok [OF assms(1,2) init]
  have same: "t1 = stk'" using stack_pointer_same [OF init assms(4)] .
  obtain b where b: "unat stk' = 4 * b" using ok(3) by (elim dvdE)
  have t: "stk + of_nat (4 * (b - a)) = stk'"
  proof (rule unsigned_word_eqI)
    have "unat (stk + of_nat (4 * (b - a))) = unat stk + 4 * (b - a)"
      by (rule unat_add_small) (use ok(1) an(1) b unat_u32_less [of stk'] in simp)
    then show "unat (stk + of_nat (4 * (b - a))) = unat stk'" using ok(1) an(1) b by simp
  qed
  have "stack_free_loop m1 stk = Some (stk + of_nat (4 * (b - a)))"
  proof (rule stack_free_loop_at)
    fix i assume i: "i < b - a"
    have "unat (stk + of_nat (4 * i)) = unat stk + 4 * i" by (rule unat_add_small) (use i an b unat_u32_less [of stk'] in simp)
    have "load32 m1 (stk + of_nat (4 * i)) = load32 m0 (stk + of_nat (4 * i))"
    proof (rule load32_cong, rule ok1(6))
      fix j :: nat assume j: "j < 4"
      have "unat (stk + of_nat (4 * i + j)) = unat stk + (4 * i + j)"
        by (rule unat_add_small) (use i j an b unat_u32_less [of stk'] in simp)
      then show "unat (stk + of_nat (4 * i) + of_nat j) < unat t1 \<or> unat stk + nat sz \<le> unat (stk + of_nat (4 * i) + of_nat j)"
        using i j an b same by (simp add: add.assoc) linarith
    qed
    moreover have "i < n" using i an b ok(2) by simp
    ultimately show "load32 m1 (stk + of_nat (4 * i)) = stk + of_nat (4 * i)" using m0(2) by simp
  next
    have "load32 m1 stk' = 4" using ok1(5) [of 0] same by (simp add: frame_words_def)
    moreover have "stk' \<noteq> 4" using ok(1) assms(3) by auto
    ultimately show "load32 m1 (stk + of_nat (4 * (b - a))) \<noteq> stk + of_nat (4 * (b - a))" unfolding t by simp
  qed
  then show "\<exists>m0. stack_fill stk (stk + word_of_int sz) m = Some m0
      \<and> thread_measure_stack_free (snd (thread_stack_init ex f arg stk sz m0)) stk = Some (stk' - stk)"
    using m0(1) init t by (simp add: thread_measure_stack_free_def)
qed

section \<open>The stack of a new thread\<close>

text \<open>
  C38: a new thread starts in its function.  Let the stack area have at least 80 bytes, end in the address space and not start at the very first
  words.  The stack pointer that \<open>thread_stack_init\<close> returns lies in the area and is aligned to words, and the part of the frame that the
  hardware pops is aligned to eight bytes.  Popping the frame gives the marked registers \<open>r4\<close> to \<open>r11\<close>, the return to thread mode, the argument in
  \<open>r0\<close>, the return address \<open>sched_task_exit\<close>, the thread's function as program counter and the Thumb state.  Nothing outside of the area is
  written.  When the area is aligned and was filled with the test pattern before, measuring ends and finds exactly the bytes below the stack pointer free.
\<close>

theorem thread_stack_frame:
  assumes "80 \<le> sz" and "unat stk + nat sz < 2 ^ 32" and "4 < unat stk"
    and "thread_stack_init ex f arg stk sz m = (stk', m')"
  shows "unat stk < unat stk' \<and> unat stk' + 72 \<le> unat stk + nat sz \<and> stk' AND 3 = 0 \<and> (stk' + 36) AND 7 = 0
     \<and> map (\<lambda>i. load32 m' (stk' + of_nat (4 * i))) [0..<17]
         = [4, 5, 6, 7, 8, 9, 10, 11, EXCEPT_RET_TASK_MODE, arg, 1, 2, 3, 0, ex, f, INITIAL_XPSR]
     \<and> (\<forall>x. unat x < unat stk \<or> unat stk + nat sz \<le> unat x \<longrightarrow> m' x = m x)
     \<and> (4 dvd unat stk \<and> 4 dvd sz \<longrightarrow> (\<exists>m0. stack_fill stk (stk + word_of_int sz) m = Some m0
          \<and> thread_measure_stack_free (snd (thread_stack_init ex f arg stk sz m0)) stk = Some (stk' - stk)))"
proof (intro conjI impI)
  note ok = thread_stack_init_ok [OF assms(1,2,4)]
  show "unat stk < unat stk'" "unat stk' + 72 \<le> unat stk + nat sz" by (rule ok)+
  from ok(3) show "stk' AND 3 = 0" using unat_and_3 [of stk'] by (metis dvd_imp_mod_0 unsigned_0 unsigned_word_eqI)
  have "unat (stk' + of_nat 36) = unat stk' + 36" by (rule unat_add_small) (use ok(2) assms(2) in simp)
  then show "(stk' + 36) AND 7 = 0" using unat_and_7 [of "stk' + 36"] ok(4)
    by (metis dvd_imp_mod_0 of_nat_numeral unsigned_0 unsigned_word_eqI)
  show "map (\<lambda>i. load32 m' (stk' + of_nat (4 * i))) [0..<17]
      = [4, 5, 6, 7, 8, 9, 10, 11, EXCEPT_RET_TASK_MODE, arg, 1, 2, 3, 0, ex, f, INITIAL_XPSR]"
    unfolding frame_words_def [symmetric] by (rule nth_equalityI) (use ok(5) in \<open>simp_all add: frame_words_def\<close>)
  show "\<forall>x. unat x < unat stk \<or> unat stk + nat sz \<le> unat x \<longrightarrow> m' x = m x" using ok(1,6) by (meson less_trans)
  show "\<exists>m0. stack_fill stk (stk + word_of_int sz) m = Some m0
      \<and> thread_measure_stack_free (snd (thread_stack_init ex f arg stk sz m0)) stk = Some (stk' - stk)" if "4 dvd unat stk \<and> 4 dvd sz"
    using stack_measured [OF assms] that by blast
qed

theorem thread_stack_frame_witness:
  "load32 (snd (thread_stack_init 0x100 0x200 0x300 0x20000000 1024 (\<lambda>_. 0)))
     (fst (thread_stack_init 0x100 0x200 0x300 0x20000000 1024 (\<lambda>_. 0)) + 60) = 0x200"
proof -
  obtain t m where i: "thread_stack_init 0x100 0x200 0x300 0x20000000 1024 (\<lambda>_. 0) = (t, m)" by force
  have "map (\<lambda>i. load32 m (t + of_nat (4 * i))) [0..<17]
      = [4, 5, 6, 7, 8, 9, 10, 11, EXCEPT_RET_TASK_MODE, 0x300, 1, 2, 3, 0, 0x100, 0x200, INITIAL_XPSR]"
    using thread_stack_frame [OF _ _ _ i] by simp
  then have "map (\<lambda>i. load32 m (t + of_nat (4 * i))) [0..<17] ! 15 = 0x200" by simp
  then show ?thesis by (simp add: i)
qed

end
