(* ===== verification/Crt0.thy ===== *)
theory Crt0
  imports PRR_Words
begin

text \<open>
  The start-up code \<open>06-rbpf-bench/crt0/crt0.c\<close>, which relocates a partition: it copies the initialised data to RAM, clears the
  uninitialised data, translates the global offset table and patches the pointers in the data, and branches to the entry
  point.  The interface structure and the metadata lie in memory at the offsets of \<open>interface.h\<close> and \<open>crt0.h\<close>;
  \<open>die\<close>, which never returns, is a value of \<open>crt0_error\<close>, and \<open>None\<close> is a loop that does not end.
\<close>

unbundle bit_operations_syntax

datatype crt0_error = NotEnoughRam | OffsetInNoSection | PointerInRom | OffsetInGot | UnalignedBlock

section \<open>Copying\<close>

text \<open>
  The three loops of \<open>memcpy\<close> copy blocks of 44, 8 and 1 bytes: the registers are loaded before they are stored.  The
  instructions that move more than one register, \<open>ldmia\<close>, \<open>stmia\<close>, \<open>ldrd\<close> and \<open>strd\<close>, fault at an address that is not a
  multiple of four; this is the result \<open>UnalignedBlock\<close>.  The other loops access one word at a time, which the processor does at
  any address.
\<close>

definition word_aligned :: "u32 \<Rightarrow> bool" where
  "word_aligned a \<longleftrightarrow> 4 dvd unat a"

function copy_loop :: "nat \<Rightarrow> u32 \<Rightarrow> u32 \<Rightarrow> u32 \<Rightarrow> memory \<Rightarrow> crt0_error + u32 \<times> u32 \<times> u32 \<times> memory" where
  "copy_loop c dest src n m =
     (if c = 0 \<or> unat n < c then Inr (dest, src, n, m)
      else if c > 1 \<and> \<not> (word_aligned src \<and> word_aligned dest) then Inl UnalignedBlock
      else copy_loop c (dest + of_nat c) (src + of_nat c) (n - of_nat c) (store_bytes m dest (bytes_at m src c)))"
  by pat_completeness auto

lemma unat_minus_le: "k \<le> unat (n :: u32) \<Longrightarrow> unat (n - of_nat k) = unat n - k"
  using unat_u32_less [of n] by (simp add: unat_sub_if_size unat_of_nat)

termination copy_loop
  by (relation "measure (\<lambda>(c, dest, src, n, m). unat n)") (auto simp: unat_minus_le)

declare copy_loop.simps [simp del]

definition crt0_memcpy :: "u32 \<Rightarrow> u32 \<Rightarrow> u32 \<Rightarrow> memory \<Rightarrow> crt0_error + u32 \<times> memory" where
  "crt0_memcpy dest src n m =
     ebind (copy_loop 44 dest src n m) (\<lambda>(dest, src, n, m).
     ebind (copy_loop 8 dest src n m) (\<lambda>(dest, src, n, m).
     ebind (copy_loop 1 dest src n m) (\<lambda>(dest, src, n, m). Inr (dest, m))))"

section \<open>Relocation\<close>

text \<open>The section addresses and sizes that \<open>_start\<close> computes.\<close>

record sections =
  romSecAddr :: u32
  romSecSize :: u32
  gotSecAddr :: u32
  gotSecSize :: u32
  romRamSecAddr :: u32
  romRamSecSize :: u32
  ramSecSize :: u32
  relGotSecAddr :: u32
  relRomRamSecAddr :: u32
  relRamSecAddr :: u32

definition sizeof_symbolTable_t :: u32 where [c_const]: "sizeof_symbolTable_t = 24"
definition sizeof_patchinfoEntry_t :: u32 where [c_const]: "sizeof_patchinfoEntry_t = 4"
definition sizeof_metadata_t :: u32 where [c_const]: "sizeof_metadata_t = 28"

definition entryNumber :: "u32 \<Rightarrow> memory \<Rightarrow> u32" where
  "entryNumber metadata m = load32 m (metadata + 24)"

definition ptrOff :: "u32 \<Rightarrow> memory \<Rightarrow> u32 \<Rightarrow> u32" where
  "ptrOff metadata m i = load32 m (metadata + 28 + 4 * i)"

definition layout :: "u32 \<Rightarrow> u32 \<Rightarrow> memory \<Rightarrow> sections" where
  "layout metadata unusedRamAddr m =
     (let romSz = load32 m (metadata + 4); romRamSz = load32 m (metadata + 8);
          ramSz = load32 m (metadata + 12); gotSz = load32 m (metadata + 16);
          rom = metadata + sizeof_symbolTable_t + 4 + entryNumber metadata m * sizeof_patchinfoEntry_t;
          got = rom + romSz;
          romRam = got + gotSz;
          relGot = unusedRamAddr;
          relRomRam = relGot + gotSz;
          relRam = relRomRam + romRamSz
      in \<lparr>romSecAddr = rom, romSecSize = romSz, gotSecAddr = got, gotSecSize = gotSz, romRamSecAddr = romRam,
          romRamSecSize = romRamSz, ramSecSize = ramSz, relGotSecAddr = relGot, relRomRamSecAddr = relRomRam,
          relRamSecAddr = relRam\<rparr>)"

definition enough_ram :: "sections \<Rightarrow> u32 \<Rightarrow> bool" where
  "enough_ram s ramEndAddr \<longleftrightarrow>
     \<not> (relGotSecAddr s + gotSecSize s > ramEndAddr \<or> relRomRamSecAddr s + romRamSecSize s > ramEndAddr
        \<or> relRamSecAddr s + ramSecSize s > ramEndAddr)"

partial_function (option) clear_loop :: "sections \<Rightarrow> u32 \<Rightarrow> memory \<Rightarrow> memory option" where
  "clear_loop s i m =
     (if push_bit 2 i < ramSecSize s then clear_loop s (i + 1) (store32 m (relRamSecAddr s + 4 * i) 0) else Some m)"

definition got_entry :: "sections \<Rightarrow> u32 \<Rightarrow> crt0_error + u32" where
  "got_entry s off =
     (if off < romSecSize s then Inr (romSecAddr s + off)
      else let off = off - romSecSize s
      in if off < gotSecSize s then Inr (relGotSecAddr s + off)
      else let off = off - gotSecSize s
      in if off < romRamSecSize s then Inr (relRomRamSecAddr s + off)
      else let off = off - romRamSecSize s
      in if off < ramSecSize s then Inr (relRamSecAddr s + off)
      else Inl OffsetInNoSection)"

partial_function (option) got_loop :: "sections \<Rightarrow> u32 \<Rightarrow> memory \<Rightarrow> (crt0_error + memory) option" where
  "got_loop s i m =
     (if push_bit 2 i < gotSecSize s then
        (case got_entry s (load32 m (gotSecAddr s + 4 * i)) of
           Inl e \<Rightarrow> Some (Inl e)
         | Inr addr \<Rightarrow> got_loop s (i + 1) (store32 m (relGotSecAddr s + 4 * i) addr))
      else Some (Inr m))"

text \<open>The address of a pointer to patch, and the address it is to hold.\<close>

definition pointer_addr :: "sections \<Rightarrow> u32 \<Rightarrow> crt0_error + u32" where
  "pointer_addr s off =
     (if off < romSecSize s then Inl PointerInRom
      else let off = off - romSecSize s
      in if off < gotSecSize s then Inl OffsetInGot
      else let off = off - gotSecSize s
      in if off < romRamSecSize s then Inr (relRomRamSecAddr s + off)
      else let off = off - romRamSecSize s
      in if off < ramSecSize s then Inr (relRamSecAddr s + off)
      else Inl OffsetInNoSection)"

definition pointed_addr :: "sections \<Rightarrow> u32 \<Rightarrow> crt0_error + u32" where
  "pointed_addr s off =
     (if off < romSecSize s then Inr (romSecAddr s + off)
      else let off = off - romSecSize s
      in if off < gotSecSize s then Inl OffsetInGot
      else let off = off - gotSecSize s
      in if off < romRamSecSize s then Inr (relRomRamSecAddr s + off)
      else let off = off - romRamSecSize s
      in if off < ramSecSize s then Inr (relRamSecAddr s + off)
      else Inl OffsetInNoSection)"

partial_function (option) patch_loop :: "u32 \<Rightarrow> sections \<Rightarrow> u32 \<Rightarrow> memory \<Rightarrow> (crt0_error + memory) option" where
  "patch_loop metadata s i m =
     (if i < entryNumber metadata m then
        (case ebind (pointer_addr s (ptrOff metadata m i)) (\<lambda>ptrAddr.
               ebind (pointed_addr s (load32 m (romSecAddr s + ptrOff metadata m i))) (\<lambda>addr.
                 Inr (store32 m ptrAddr addr))) of
           Inl e \<Rightarrow> Some (Inl e)
         | Inr m \<Rightarrow> patch_loop metadata s (i + 1) m)
      else Some (Inr m))"

text \<open>
  \<open>_start\<close> up to its branch: the memory, the entry point and the new value of the PIC register.  The interface has \<open>root\<close> at offset 20,
  \<open>unusedRomStart\<close> at 24, \<open>unusedRamStart\<close> at 32 and \<open>ramEnd\<close> at 36.
\<close>

definition crt0_start :: "u32 \<Rightarrow> u32 \<Rightarrow> memory \<Rightarrow> (crt0_error + memory \<times> u32 \<times> u32) option" where
  "crt0_start metadataOff interface m =
     (let binaryAddr = load32 m (interface + 20);
          unusedRamAddr = load32 m (interface + 32);
          ramEndAddr = load32 m (interface + 36);
          metadata = binaryAddr + metadataOff;
          entryPointOffset = load32 m metadata;
          s = layout metadata unusedRamAddr m;
          entryPointAddr = romSecAddr s + entryPointOffset
      in if \<not> enough_ram s ramEndAddr then Some (Inl NotEnoughRam)
         else
           let m = store32 m (interface + 32) (relRamSecAddr s + ramSecSize s);
               m = store32 m (interface + 24)
                     (load32 m (interface + 24) + metadataOff + sizeof_metadata_t + load32 m (metadata + 20))
           in case crt0_memcpy (relRomRamSecAddr s) (romRamSecAddr s) (romRamSecSize s) m of
             Inl e \<Rightarrow> Some (Inl e)
           | Inr (_, m) \<Rightarrow>
              Option.bind (clear_loop s 0 m) (\<lambda>m.
              Option.bind (got_loop s 0 m) (\<lambda>r.
                case r of
                  Inl e \<Rightarrow> Some (Inl e)
                | Inr m \<Rightarrow>
                    map_option (\<lambda>r. ebind r (\<lambda>m. Inr (m, entryPointAddr, relGotSecAddr s)))
                      (patch_loop metadata s 0 m))))"

section \<open>Copying is copying\<close>

lemma copy_append:
  assumes "unat dest + (p + q) \<le> 2 ^ 32" "unat src + (p + q) \<le> 2 ^ 32"
    and "unat dest + (p + q) \<le> unat src \<or> unat src + (p + q) \<le> unat dest"
  shows "store_bytes (store_bytes m dest (bytes_at m src p)) (dest + of_nat p)
      (bytes_at (store_bytes m dest (bytes_at m src p)) (src + of_nat p) q) = store_bytes m dest (bytes_at m src (p + q))"
proof (cases "q = 0")
  case False
  let ?m = "store_bytes m dest (bytes_at m src p)"
  have s: "unat (src + of_nat p) = unat src + p" by (rule unat_add_small) (use False assms(2) in simp)
  have "bytes_at ?m (src + of_nat p) q = bytes_at m (src + of_nat p) q"
    by (rule bytes_at_unchanged, rule store_bytes_outside) (use assms s in auto)
  then show ?thesis using store_bytes_append [of m dest "bytes_at m src p"] by (simp add: bytes_at_append)
qed simp

text \<open>A loop moves whole words at aligned addresses, or single bytes, or does not move anything.\<close>

definition blocks_aligned :: "nat \<Rightarrow> u32 \<Rightarrow> u32 \<Rightarrow> nat \<Rightarrow> bool" where
  "blocks_aligned c dest src n \<longleftrightarrow> c = 1 \<or> n < c \<or> 4 dvd c \<and> word_aligned dest \<and> word_aligned src"

lemma aligned_add_dvd: "word_aligned a \<Longrightarrow> 4 dvd c \<Longrightarrow> word_aligned (a + of_nat c)"
  by (simp add: word_aligned_def unat_word_ariths unat_of_nat take_bit_eq_mod dvd_mod)

lemma copy_loop_ok:
  assumes "0 < c" "unat dest + unat n \<le> 2 ^ 32" "unat src + unat n \<le> 2 ^ 32"
    and "unat dest + unat n \<le> unat src \<or> unat src + unat n \<le> unat dest"
    and "blocks_aligned c dest src (unat n)"
  shows "copy_loop c dest src n m = (let q = unat n - unat n mod c
     in Inr (dest + of_nat q, src + of_nat q, n - of_nat q, store_bytes m dest (bytes_at m src q)))"
  using assms
proof (induction c dest src n m rule: copy_loop.induct)
  case (1 c dest src n m)
  show ?case
  proof (cases "unat n < c")
    case True
    then show ?thesis by (subst copy_loop.simps) simp
  next
    case False
    let ?m = "store_bytes m dest (bytes_at m src c)"
    define q where "q = (unat n - c) - (unat n - c) mod c"
    have al: "\<not> (c > 1 \<and> \<not> (word_aligned src \<and> word_aligned dest))"
      "blocks_aligned c (dest + of_nat c) (src + of_nat c) j" for j
      using "1.prems"(5) False aligned_add_dvd by (auto simp: blocks_aligned_def)
    have n: "unat (n - of_nat c) = unat n - c" using False by (simp add: unat_minus_le)
    have q: "unat n - unat n mod c = c + q" unfolding q_def
      using False mod_less_eq_dividend [of "unat n - c" c] le_mod_geq [of c "unat n"] by linarith
    have "unat n - unat n mod c \<le> unat n" by (rule diff_le_self)
    then have qn: "c + q \<le> unat n" using q by simp
    have step: "copy_loop c dest src n m = copy_loop c (dest + of_nat c) (src + of_nat c) (n - of_nat c) ?m"
      using False "1.prems"(1) al(1) by (subst copy_loop.simps) auto
    show ?thesis
    proof (cases "unat n = c")
      case True
      then have "n - of_nat c = 0" using n by (simp add: unsigned_eq_0_iff)
      then have "copy_loop c (dest + of_nat c) (src + of_nat c) (n - of_nat c) ?m = Inr (dest + of_nat c, src + of_nat c, n - of_nat c, ?m)"
        using "1.prems"(1) by (subst copy_loop.simps) simp
      with True step show ?thesis by simp
    next
      case ne: False
      with False have lt: "c < unat n" by simp
      have d: "unat (dest + of_nat c) = unat dest + c" by (rule unat_add_small) (use lt "1.prems" in simp)
      have s: "unat (src + of_nat c) = unat src + c" by (rule unat_add_small) (use lt "1.prems" in simp)
      have dj: "unat dest + unat n \<le> unat src + c \<or> unat src + unat n \<le> unat dest + c" using "1.prems"(4) by linarith
      have IH: "copy_loop c (dest + of_nat c) (src + of_nat c) (n - of_nat c) ?m = Inr (dest + of_nat c + of_nat q, src + of_nat c + of_nat q,
          n - of_nat c - of_nat q, store_bytes ?m (dest + of_nat c) (bytes_at ?m (src + of_nat c) q))"
        using "1.IH" [OF _ al(1)] "1.prems"(1-4) lt n d s dj al(2) unfolding q_def by (simp add: Let_def)
      have "store_bytes ?m (dest + of_nat c) (bytes_at ?m (src + of_nat c) q) = store_bytes m dest (bytes_at m src (c + q))"
        by (rule copy_append) (use "1.prems" qn in auto)
      with IH q step show ?thesis by (simp add: Let_def add.assoc diff_diff_eq)
    qed
  qed
qed

text \<open>A loop copies some bytes and leaves less than a block; two copies in a row are one.\<close>

definition copied :: "nat \<Rightarrow> u32 \<Rightarrow> u32 \<Rightarrow> u32 \<Rightarrow> memory \<Rightarrow> u32 \<times> u32 \<times> u32 \<times> memory \<Rightarrow> bool" where
  "copied q dest src n m r \<longleftrightarrow> q \<le> unat n
     \<and> r = (dest + of_nat q, src + of_nat q, n - of_nat q, store_bytes m dest (bytes_at m src q))"

definition copy_apart :: "u32 \<Rightarrow> u32 \<Rightarrow> nat \<Rightarrow> bool" where
  "copy_apart dest src n \<longleftrightarrow> n = 0 \<or> unat dest + n \<le> 2 ^ 32 \<and> unat src + n \<le> 2 ^ 32
     \<and> (unat dest + n \<le> unat src \<or> unat src + n \<le> unat dest)"

lemma copy_loop_copied:
  assumes "0 < c" "copy_apart dest src (unat n)" "blocks_aligned c dest src (unat n)"
  shows "\<exists>r. copy_loop c dest src n m = Inr r \<and> copied (unat n - unat n mod c) dest src n m r"
proof (cases "unat n = 0")
  case True
  with assms(1) show ?thesis by (subst copy_loop.simps) (simp add: copied_def)
next
  case False
  with copy_loop_ok [of c dest n src m] assms show ?thesis by (auto simp: copied_def copy_apart_def Let_def)
qed

lemma copied_rest:
  assumes ap: "copy_apart dest src (unat n)" and c: "copied q dest src n m (d, s, n', m')"
  shows "unat n' = unat n - q" "copy_apart d s (unat n')"
    "4 dvd q \<Longrightarrow> word_aligned dest \<Longrightarrow> word_aligned d" "4 dvd q \<Longrightarrow> word_aligned src \<Longrightarrow> word_aligned s"
proof -
  have e: "q \<le> unat n" "d = dest + of_nat q" "s = src + of_nat q" "n' = n - of_nat q"
    using c by (simp_all add: copied_def)
  show n': "unat n' = unat n - q" unfolding e(4) by (rule unat_minus_le [OF e(1)])
  show "copy_apart d s (unat n')"
  proof (cases "q = unat n")
    case False
    then have "unat (dest + of_nat q) = unat dest + q" "unat (src + of_nat q) = unat src + q"
      using ap e(1) by (auto simp: copy_apart_def intro!: unat_add_small)
    then show ?thesis using ap e(1) False unfolding e(2,3) n' copy_apart_def by auto
  qed (use n' in \<open>simp add: copy_apart_def\<close>)
  show "4 dvd q \<Longrightarrow> word_aligned dest \<Longrightarrow> word_aligned d" "4 dvd q \<Longrightarrow> word_aligned src \<Longrightarrow> word_aligned s"
    by (simp_all add: e(2,3) aligned_add_dvd)
qed

lemma copied_then:
  assumes ap: "copy_apart dest src (unat n)" and c: "copied q dest src n m (d, s, n', m')"
    and loop: "copied q' d s n' m' r"
  shows "copied (q + q') dest src n m r"
proof -
  have e: "q \<le> unat n" "d = dest + of_nat q" "s = src + of_nat q" "n' = n - of_nat q" "m' = store_bytes m dest (bytes_at m src q)"
    using c by (simp_all add: copied_def)
  note n' = copied_rest(1) [OF ap c]
  from loop have f: "q' \<le> unat n'"
    "r = (d + of_nat q', s + of_nat q', n' - of_nat q', store_bytes m' d (bytes_at m' s q'))" by (simp_all add: copied_def)
  have "store_bytes m' d (bytes_at m' s q') = store_bytes m dest (bytes_at m src (q + q'))"
  proof (cases "unat n = 0")
    case True
    with f(1) n' e show ?thesis by simp
  next
    case False
    with ap f(1) n' e(1) show ?thesis unfolding e(2,3,5) by (intro copy_append) (auto simp: copy_apart_def)
  qed
  then show "copied (q + q') dest src n m r" using f n' e(1) by (simp add: copied_def e(2-4) add.assoc diff_diff_eq)
qed

lemma crt0_memcpy_ok:
  assumes ap: "copy_apart dest src (unat n)" and al: "unat n < 8 \<or> word_aligned dest \<and> word_aligned src"
  shows "crt0_memcpy dest src n m = Inr (dest + n, store_bytes m dest (bytes_at m src (unat n)))"
proof -
  define q1 where "q1 = unat n - unat n mod 44"
  have "blocks_aligned 44 dest src (unat n)" using al by (auto simp: blocks_aligned_def)
  from copy_loop_copied [OF _ ap this, of m] obtain d1 s1 n1 m1 where
    r1: "copy_loop 44 dest src n m = Inr (d1, s1, n1, m1)" "copied q1 dest src n m (d1, s1, n1, m1)"
    by (auto simp: q1_def)
  note p1 = copied_rest [OF ap r1(2)]
  have "44 dvd q1" by (simp add: q1_def minus_mod_eq_mult_div)
  then have "4 dvd q1" by (rule dvd_trans [rotated]) simp
  then have al1: "unat n1 < 8 \<or> word_aligned d1 \<and> word_aligned s1" using al p1 by auto
  define q2 where "q2 = unat n1 - unat n1 mod 8"
  have "blocks_aligned 8 d1 s1 (unat n1)" using al1 by (auto simp: blocks_aligned_def)
  from copy_loop_copied [OF _ p1(2) this, of m1] obtain d2 s2 n2 m2 where
    r2: "copy_loop 8 d1 s1 n1 m1 = Inr (d2, s2, n2, m2)" "copied q2 d1 s1 n1 m1 (d2, s2, n2, m2)"
    by (auto simp: q2_def)
  note p2 = copied_rest [OF p1(2) r2(2)]
  have "blocks_aligned 1 d2 s2 (unat n2)" by (simp add: blocks_aligned_def)
  from copy_loop_copied [OF _ p2(2) this, of m2] obtain r3 where
    r3: "copy_loop 1 d2 s2 n2 m2 = Inr r3" "copied (unat n2) d2 s2 n2 m2 r3" by auto
  have "copied (q1 + (q2 + unat n2)) dest src n m r3"
    by (rule copied_then [OF ap r1(2) copied_then [OF p1(2) r2(2) r3(2)]])
  moreover have "q1 \<le> unat n" "q2 \<le> unat n1" by (simp_all add: q1_def q2_def)
  then have "q1 + (q2 + unat n2) = unat n" using p1(1) p2(1) by simp
  ultimately have "r3 = (dest + n, src + n, 0, store_bytes m dest (bytes_at m src (unat n)))" by (simp add: copied_def)
  then show ?thesis unfolding crt0_memcpy_def r1(1) by (simp add: r2(1) r3(1) del: One_nat_def)
qed

text \<open>A block at an address that is not a multiple of four is not copied.\<close>

lemma crt0_memcpy_unaligned:
  assumes "8 \<le> unat n" "\<not> (word_aligned dest \<and> word_aligned src)"
  shows "crt0_memcpy dest src n m = Inl UnalignedBlock"
proof (cases "44 \<le> unat n")
  case True
  then have "copy_loop 44 dest src n m = Inl UnalignedBlock"
    using assms(2) by (subst copy_loop.simps) auto
  then show ?thesis by (simp add: crt0_memcpy_def)
next
  case False
  then have "copy_loop 44 dest src n m = Inr (dest, src, n, m)" by (subst copy_loop.simps) simp
  moreover have "copy_loop 8 dest src n m = Inl UnalignedBlock"
    using assms by (subst copy_loop.simps) auto
  ultimately show ?thesis by (simp add: crt0_memcpy_def)
qed

section \<open>The loops\<close>

text \<open>
  The sections follow each other in the binary and in RAM, end in the address space, and the binary and the RAM sections are apart.
  The sizes of the offset table and of the uninitialised data are multiples of the word size, and initialised data of eight bytes or
  more start at a multiple of the word size in the binary and in RAM.
\<close>

definition sections_ok :: "sections \<Rightarrow> bool" where
  "sections_ok s \<longleftrightarrow> gotSecAddr s = romSecAddr s + romSecSize s \<and> romRamSecAddr s = gotSecAddr s + gotSecSize s
     \<and> relRomRamSecAddr s = relGotSecAddr s + gotSecSize s \<and> relRamSecAddr s = relRomRamSecAddr s + romRamSecSize s
     \<and> unat (romSecAddr s) + unat (romSecSize s) + unat (gotSecSize s) + unat (romRamSecSize s) < 2 ^ 32
     \<and> unat (relGotSecAddr s) + unat (gotSecSize s) + unat (romRamSecSize s) + unat (ramSecSize s) < 2 ^ 32
     \<and> (unat (relGotSecAddr s) + unat (gotSecSize s) + unat (romRamSecSize s) + unat (ramSecSize s) \<le> unat (romSecAddr s)
        \<or> unat (romSecAddr s) + unat (romSecSize s) + unat (gotSecSize s) + unat (romRamSecSize s) \<le> unat (relGotSecAddr s))
     \<and> 4 dvd unat (gotSecSize s) \<and> 4 dvd unat (ramSecSize s)
     \<and> (unat (romRamSecSize s) < 8 \<or> word_aligned (relRomRamSecAddr s) \<and> word_aligned (romRamSecAddr s))"

lemma section_addrs:
  assumes "sections_ok s"
  shows "unat (gotSecAddr s) = unat (romSecAddr s) + unat (romSecSize s)"
    "unat (romRamSecAddr s) = unat (romSecAddr s) + unat (romSecSize s) + unat (gotSecSize s)"
    "unat (relRomRamSecAddr s) = unat (relGotSecAddr s) + unat (gotSecSize s)"
    "unat (relRamSecAddr s) = unat (relGotSecAddr s) + unat (gotSecSize s) + unat (romRamSecSize s)"
proof -
  show a: "unat (gotSecAddr s) = unat (romSecAddr s) + unat (romSecSize s)"
    and b: "unat (relRomRamSecAddr s) = unat (relGotSecAddr s) + unat (gotSecSize s)"
    using assms by (auto simp: sections_ok_def intro!: unat_add_u32)
  from a assms have "unat (gotSecAddr s + gotSecSize s) = unat (gotSecAddr s) + unat (gotSecSize s)"
    by (intro unat_add_u32) (auto simp: sections_ok_def)
  then show "unat (romRamSecAddr s) = unat (romSecAddr s) + unat (romSecSize s) + unat (gotSecSize s)"
    using a assms by (auto simp: sections_ok_def)
  from b assms have "unat (relRomRamSecAddr s + romRamSecSize s) = unat (relRomRamSecAddr s) + unat (romRamSecSize s)"
    by (intro unat_add_u32) (auto simp: sections_ok_def)
  then show "unat (relRamSecAddr s) = unat (relGotSecAddr s) + unat (gotSecSize s) + unat (romRamSecSize s)"
    using b assms by (auto simp: sections_ok_def)
qed

lemma word_index: "i < unat (sz :: u32) div 4 \<Longrightarrow> push_bit 2 (of_nat i :: u32) < sz"
  "4 dvd unat sz \<Longrightarrow> \<not> push_bit 2 (of_nat (unat sz div 4) :: u32) < sz"
proof -
  have p: "unat (push_bit 2 (of_nat k :: u32)) = 4 * k" if "4 * k < 2 ^ 32" for k
  proof -
    have "push_bit 2 (of_nat k :: u32) = of_nat (4 * k)" by (simp add: push_bit_eq_mult)
    then show ?thesis using that by (simp only: unat_of_nat) simp
  qed
  show "push_bit 2 (of_nat i :: u32) < sz" if "i < unat sz div 4"
    using that p [of i] unat_u32_less [of sz] by (simp add: word_less_nat_alt)
  show "\<not> push_bit 2 (of_nat (unat sz div 4) :: u32) < sz" if "4 dvd unat sz"
    using that p [of "unat sz div 4"] unat_u32_less [of sz] by (simp add: word_less_nat_alt)
qed

lemma clear_loop_ok:
  assumes s: "sections_ok s"
  shows "\<exists>m'. clear_loop s 0 m = Some m'
     \<and> (\<forall>x. unat x < unat (relRamSecAddr s) \<or> unat (relRamSecAddr s) + unat (ramSecSize s) \<le> unat x \<longrightarrow> m' x = m x)
     \<and> (\<forall>j < unat (ramSecSize s) div 4. load32 m' (relRamSecAddr s + 4 * of_nat j) = 0)"
proof -
  let ?r = "unat (ramSecSize s) div 4"
  have r: "4 * ?r = unat (ramSecSize s)" using s by (simp add: sections_ok_def)
  have "\<exists>m'. clear_loop s (of_nat 0) m = clear_loop s (of_nat ?r) m'
     \<and> (\<forall>x. unat x < unat (relRamSecAddr s) + 4 * 0 \<or> unat (relRamSecAddr s) + 4 * ?r \<le> unat x \<longrightarrow> m' x = m x)
     \<and> (\<forall>j. 0 \<le> j \<and> j < ?r \<longrightarrow> load32 m' (relRamSecAddr s + 4 * of_nat j) = 0)"
  proof (rule store_words [where ?m0.0 = m])
    show "unat (relRamSecAddr s) + 4 * ?r \<le> 2 ^ 32" using s section_addrs(4) [OF s] r by (simp add: sections_ok_def)
    show "clear_loop s (of_nat i) m = clear_loop s (of_nat i + 1) (store32 m (relRamSecAddr s + 4 * of_nat i) 0)" if "i < ?r" for i m
      using word_index(1) [OF that] by (subst clear_loop.simps) simp
  qed simp_all
  moreover have "clear_loop s (of_nat ?r) m' = Some m'" for m'
    using word_index(2) [of "ramSecSize s"] s by (subst clear_loop.simps) (simp add: sections_ok_def)
  ultimately show ?thesis unfolding r by auto
qed

text \<open>Where an offset in the binary is relocated to: code stays in place, data moves to RAM as a whole.\<close>

definition reloc :: "sections \<Rightarrow> u32 \<Rightarrow> u32" where
  "reloc s off = (if off < romSecSize s then romSecAddr s + off else relGotSecAddr s + (off - romSecSize s))"

definition offset_end :: "sections \<Rightarrow> nat" where
  "offset_end s = unat (romSecSize s) + unat (gotSecSize s) + unat (romRamSecSize s) + unat (ramSecSize s)"

lemma unat_diff_le: "b \<le> (a :: u32) \<Longrightarrow> unat (a - b) = unat a - unat b"
  by (simp add: unat_sub)

text \<open>The chain of tests, as one test of the offset.\<close>

lemma offset_tests:
  assumes s: "sections_ok s" and off: "\<not> off < romSecSize s"
  shows "unat (off - romSecSize s) = unat off - unat (romSecSize s)"
    "off - romSecSize s < gotSecSize s \<longleftrightarrow> unat off < unat (romSecSize s) + unat (gotSecSize s)"
    "\<not> off - romSecSize s < gotSecSize s \<Longrightarrow> off - romSecSize s - gotSecSize s < romRamSecSize s
       \<longleftrightarrow> unat off < unat (romSecSize s) + unat (gotSecSize s) + unat (romRamSecSize s)"
    "\<not> off - romSecSize s < gotSecSize s \<Longrightarrow> \<not> off - romSecSize s - gotSecSize s < romRamSecSize s
       \<Longrightarrow> off - romSecSize s - gotSecSize s - romRamSecSize s < ramSecSize s \<longleftrightarrow> unat off < offset_end s"
proof -
  show a: "unat (off - romSecSize s) = unat off - unat (romSecSize s)" using off by (intro unat_diff_le) simp
  have le: "unat (romSecSize s) \<le> unat off" using off by (simp add: word_less_nat_alt)
  show "off - romSecSize s < gotSecSize s \<longleftrightarrow> unat off < unat (romSecSize s) + unat (gotSecSize s)"
    using a le by (auto simp: word_less_nat_alt)
  assume g: "\<not> off - romSecSize s < gotSecSize s"
  have b: "unat (off - romSecSize s - gotSecSize s) = unat off - unat (romSecSize s) - unat (gotSecSize s)"
    unfolding a [symmetric] using g by (intro unat_diff_le) simp
  have le2: "unat (romSecSize s) + unat (gotSecSize s) \<le> unat off" using g a le by (simp add: word_less_nat_alt)
  show "off - romSecSize s - gotSecSize s < romRamSecSize s
      \<longleftrightarrow> unat off < unat (romSecSize s) + unat (gotSecSize s) + unat (romRamSecSize s)"
    using b le2 by (auto simp: word_less_nat_alt)
  assume rr: "\<not> off - romSecSize s - gotSecSize s < romRamSecSize s"
  have c: "unat (off - romSecSize s - gotSecSize s - romRamSecSize s)
      = unat off - unat (romSecSize s) - unat (gotSecSize s) - unat (romRamSecSize s)"
    unfolding b [symmetric] using rr by (intro unat_diff_le) simp
  have "unat (romSecSize s) + unat (gotSecSize s) + unat (romRamSecSize s) \<le> unat off"
    using rr b le2 by (auto simp: word_less_nat_alt)
  then show "off - romSecSize s - gotSecSize s - romRamSecSize s < ramSecSize s \<longleftrightarrow> unat off < offset_end s"
    using c by (auto simp: word_less_nat_alt offset_end_def)
qed

lemma got_entry_reloc:
  assumes "sections_ok s"
  shows "got_entry s off = (if unat off < offset_end s then Inr (reloc s off) else Inl OffsetInNoSection)"
proof -
  have rel: "relRomRamSecAddr s = relGotSecAddr s + gotSecSize s" "relRamSecAddr s = relGotSecAddr s + gotSecSize s + romRamSecSize s"
    using assms by (simp_all add: sections_ok_def)
  show ?thesis
  proof (cases "off < romSecSize s")
    case True
    then have "unat off < offset_end s" by (simp add: word_less_nat_alt offset_end_def)
    with True show ?thesis by (simp add: got_entry_def reloc_def)
  next
    case False
    note t = offset_tests [OF assms False]
    show ?thesis
      using False t by (auto simp: got_entry_def reloc_def rel Let_def offset_end_def)
  qed
qed

lemma pointer_addr_reloc:
  assumes "sections_ok s" "unat (romSecSize s) + unat (gotSecSize s) \<le> unat off" "unat off < offset_end s"
  shows "pointer_addr s off = Inr (reloc s off)" "pointed_addr s off = Inr (reloc s off)"
proof -
  have rel: "relRomRamSecAddr s = relGotSecAddr s + gotSecSize s" "relRamSecAddr s = relGotSecAddr s + gotSecSize s + romRamSecSize s"
    using assms by (simp_all add: sections_ok_def)
  have False: "\<not> off < romSecSize s" using assms(2) by (simp add: word_less_nat_alt)
  note t = offset_tests [OF assms(1) False]
  show "pointer_addr s off = Inr (reloc s off)" "pointed_addr s off = Inr (reloc s off)"
    using False t assms(2,3) by (auto simp: pointer_addr_def pointed_addr_def reloc_def rel Let_def)
qed

lemma pointed_addr_rom: "off < romSecSize s \<Longrightarrow> pointed_addr s off = Inr (reloc s off)"
  by (simp add: pointed_addr_def reloc_def)

lemma got_loop_ok:
  assumes s: "sections_ok s"
    and ent: "\<And>i. i < unat (gotSecSize s) div 4 \<Longrightarrow> unat (load32 m (gotSecAddr s + 4 * of_nat i)) < offset_end s"
  shows "\<exists>m'. got_loop s 0 m = Some (Inr m')
     \<and> (\<forall>x. unat x < unat (relGotSecAddr s) \<or> unat (relGotSecAddr s) + unat (gotSecSize s) \<le> unat x \<longrightarrow> m' x = m x)
     \<and> (\<forall>j < unat (gotSecSize s) div 4.
          load32 m' (relGotSecAddr s + 4 * of_nat j) = reloc s (load32 m (gotSecAddr s + 4 * of_nat j)))"
proof -
  let ?r = "unat (gotSecSize s) div 4" and ?v = "\<lambda>j. reloc s (load32 m (gotSecAddr s + 4 * of_nat j))"
  have r: "4 * ?r = unat (gotSecSize s)" using s by (simp add: sections_ok_def)
  have "\<exists>m'. got_loop s (of_nat 0) m = got_loop s (of_nat ?r) m'
     \<and> (\<forall>x. unat x < unat (relGotSecAddr s) + 4 * 0 \<or> unat (relGotSecAddr s) + 4 * ?r \<le> unat x \<longrightarrow> m' x = m x)
     \<and> (\<forall>j. 0 \<le> j \<and> j < ?r \<longrightarrow> load32 m' (relGotSecAddr s + 4 * of_nat j) = ?v j)"
  proof (rule store_words [where ?m0.0 = m])
    show "unat (relGotSecAddr s) + 4 * ?r \<le> 2 ^ 32" using s r by (simp add: sections_ok_def)
    fix i :: nat and m' :: memory assume i: "i < ?r"
      and fr: "\<forall>x. unat x < unat (relGotSecAddr s) \<or> unat (relGotSecAddr s) + 4 * ?r \<le> unat x \<longrightarrow> m' x = m x"
    have "unat (gotSecAddr s + of_nat (4 * i)) = unat (gotSecAddr s) + 4 * i"
      by (rule unat_add_small) (use i r s section_addrs(1) [OF s] in \<open>auto simp: sections_ok_def\<close>)
    then have a: "unat (gotSecAddr s + 4 * of_nat i) = unat (gotSecAddr s) + 4 * i" by simp
    have "load32 m' (gotSecAddr s + 4 * of_nat i) = load32 m (gotSecAddr s + 4 * of_nat i)"
    proof (rule load32_unchanged)
      fix x :: u32 assume x: "unat (gotSecAddr s + 4 * of_nat i) \<le> unat x" "unat x < unat (gotSecAddr s + 4 * of_nat i) + 4"
      have "unat x < unat (relGotSecAddr s) \<or> unat (relGotSecAddr s) + 4 * ?r \<le> unat x"
        using x a i r s section_addrs(1) [OF s] unfolding sections_ok_def by linarith
      then show "m' x = m x" using fr by blast
    qed (use a i r s section_addrs(1) [OF s] in \<open>auto simp: sections_ok_def\<close>)
    with ent [OF i] have "got_entry s (load32 m' (gotSecAddr s + 4 * of_nat i)) = Inr (?v i)" by (simp add: got_entry_reloc [OF s])
    then show "got_loop s (of_nat i) m' = got_loop s (of_nat i + 1) (store32 m' (relGotSecAddr s + 4 * of_nat i) (?v i))"
      using word_index(1) [OF i] by (subst got_loop.simps) simp
  qed simp_all
  moreover have "got_loop s (of_nat ?r) m' = Some (Inr m')" for m'
    using word_index(2) [of "gotSecSize s"] s by (subst got_loop.simps) (simp add: sections_ok_def)
  ultimately show ?thesis unfolding r by auto
qed

text \<open>
  The metadata lies directly before the sections and apart from RAM.  The pointers to patch lie in the initialised data, do not overlap, and hold
  offsets of code or data.
\<close>

definition patches_ok :: "sections \<Rightarrow> u32 \<Rightarrow> memory \<Rightarrow> bool" where
  "patches_ok s md m \<longleftrightarrow> (let n = unat (entryNumber md m); p = (\<lambda>i. ptrOff md m (of_nat i)) in
     unat (romSecAddr s) = unat md + 28 + 4 * n
     \<and> (unat (relGotSecAddr s) + unat (gotSecSize s) + unat (romRamSecSize s) + unat (ramSecSize s) \<le> unat md
        \<or> unat (romSecAddr s) + unat (romSecSize s) + unat (gotSecSize s) + unat (romRamSecSize s) \<le> unat (relGotSecAddr s))
     \<and> (\<forall>i < n. unat (romSecSize s) + unat (gotSecSize s) \<le> unat (p i)
          \<and> unat (p i) + 4 \<le> unat (romSecSize s) + unat (gotSecSize s) + unat (romRamSecSize s))
     \<and> (\<forall>i < n. load32 m (romSecAddr s + p i) < romSecSize s
          \<or> unat (romSecSize s) + unat (gotSecSize s) \<le> unat (load32 m (romSecAddr s + p i))
            \<and> unat (load32 m (romSecAddr s + p i)) < offset_end s)
     \<and> (\<forall>i < n. \<forall>j < n. i \<noteq> j \<longrightarrow> unat (p i) + 4 \<le> unat (p j) \<or> unat (p j) + 4 \<le> unat (p i)))"

lemma unat_reloc:
  assumes s: "sections_ok s" and off: "unat (romSecSize s) \<le> unat off" "unat off < offset_end s"
  shows "unat (reloc s off) = unat (relGotSecAddr s) + (unat off - unat (romSecSize s))"
proof -
  have n: "\<not> off < romSecSize s" using off(1) by (simp add: word_less_nat_alt)
  have d: "unat (off - romSecSize s) = unat off - unat (romSecSize s)" by (rule offset_tests(1) [OF s n])
  have "unat (relGotSecAddr s + (off - romSecSize s)) = unat (relGotSecAddr s) + unat (off - romSecSize s)"
    by (rule unat_add_u32) (use s off d in \<open>auto simp: sections_ok_def offset_end_def\<close>)
  then show ?thesis using n d by (simp add: reloc_def)
qed

lemma pointer_place:
  assumes s: "sections_ok s" and p: "patches_ok s md m" and i: "i < unat (entryNumber md m)"
  shows "unat (romSecAddr s + ptrOff md m (of_nat i)) = unat (romSecAddr s) + unat (ptrOff md m (of_nat i))"
    "unat (reloc s (ptrOff md m (of_nat i))) = unat (relGotSecAddr s) + (unat (ptrOff md m (of_nat i)) - unat (romSecSize s))"
    "pointer_addr s (ptrOff md m (of_nat i)) = Inr (reloc s (ptrOff md m (of_nat i)))"
    "pointed_addr s (load32 m (romSecAddr s + ptrOff md m (of_nat i))) = Inr (reloc s (load32 m (romSecAddr s + ptrOff md m (of_nat i))))"
proof -
  let ?p = "ptrOff md m (of_nat i)"
  have r: "unat (romSecSize s) + unat (gotSecSize s) \<le> unat ?p"
    "unat ?p + 4 \<le> unat (romSecSize s) + unat (gotSecSize s) + unat (romRamSecSize s)"
    and v: "load32 m (romSecAddr s + ?p) < romSecSize s \<or> unat (romSecSize s) + unat (gotSecSize s) \<le> unat (load32 m (romSecAddr s + ?p))
            \<and> unat (load32 m (romSecAddr s + ?p)) < offset_end s"
    using p i by (simp_all add: patches_ok_def Let_def)
  have e: "unat ?p < offset_end s" using r by (simp add: offset_end_def)
  show "unat (romSecAddr s + ?p) = unat (romSecAddr s) + unat ?p"
    by (rule unat_add_u32) (use r s in \<open>auto simp: sections_ok_def\<close>)
  show "unat (reloc s ?p) = unat (relGotSecAddr s) + (unat ?p - unat (romSecSize s))" by (rule unat_reloc [OF s _ e]) (use r in simp)
  show "pointer_addr s ?p = Inr (reloc s ?p)" by (rule pointer_addr_reloc(1) [OF s r(1) e])
  show "pointed_addr s (load32 m (romSecAddr s + ?p)) = Inr (reloc s (load32 m (romSecAddr s + ?p)))"
    using v pointer_addr_reloc(2) [OF s] pointed_addr_rom by blast
qed

text \<open>The loop reads what the binary holds, as the words it writes are apart from the binary.\<close>

lemma patch_reads:
  assumes s: "sections_ok s" and p: "patches_ok s md m0"
    and bin: "\<forall>x. unat md \<le> unat x \<and> unat x < unat (romSecAddr s) + unat (romSecSize s) + unat (gotSecSize s) + unat (romRamSecSize s)
      \<longrightarrow> m x = m0 x"
  shows "entryNumber md m = entryNumber md m0"
    "i < unat (entryNumber md m0) \<Longrightarrow> ptrOff md m (of_nat i) = ptrOff md m0 (of_nat i)"
    "i < unat (entryNumber md m0) \<Longrightarrow> load32 m (romSecAddr s + ptrOff md m0 (of_nat i)) = load32 m0 (romSecAddr s + ptrOff md m0 (of_nat i))"
proof -
  let ?n = "unat (entryNumber md m0)"
  have lay: "unat (romSecAddr s) = unat md + 28 + 4 * ?n"
    "unat (romSecAddr s) + unat (romSecSize s) + unat (gotSecSize s) + unat (romRamSecSize s) < 2 ^ 32"
    using p s by (simp_all add: patches_ok_def sections_ok_def Let_def)
  have ld: "load32 m a = load32 m0 a" if "unat md \<le> unat a"
    "unat a + 4 \<le> unat (romSecAddr s) + unat (romSecSize s) + unat (gotSecSize s) + unat (romRamSecSize s)" for a
    by (rule load32_unchanged, rule bin [rule_format]) (use that lay(2) in auto)
  have "unat (md + of_nat 24) = unat md + 24" by (rule unat_add_small) (use lay in simp)
  then show "entryNumber md m = entryNumber md m0" unfolding entryNumber_def by (intro ld) (use lay(1) in auto)
  show "ptrOff md m (of_nat i) = ptrOff md m0 (of_nat i)" if "i < ?n"
  proof -
    have "unat (md + of_nat (28 + 4 * i)) = unat md + (28 + 4 * i)" by (rule unat_add_small) (use that lay in simp)
    then have "unat (md + 28 + 4 * of_nat i) = unat md + (28 + 4 * i)" by (simp add: add.assoc)
    then show ?thesis unfolding ptrOff_def by (intro ld) (use that lay(1) in auto)
  qed
  show "load32 m (romSecAddr s + ptrOff md m0 (of_nat i)) = load32 m0 (romSecAddr s + ptrOff md m0 (of_nat i))" if "i < ?n"
  proof (rule ld)
    have "unat (ptrOff md m0 (of_nat i)) + 4 \<le> unat (romSecSize s) + unat (gotSecSize s) + unat (romRamSecSize s)"
      using p that by (simp add: patches_ok_def Let_def)
    then show "unat (romSecAddr s + ptrOff md m0 (of_nat i)) + 4
        \<le> unat (romSecAddr s) + unat (romSecSize s) + unat (gotSecSize s) + unat (romRamSecSize s)"
      "unat md \<le> unat (romSecAddr s + ptrOff md m0 (of_nat i))"
      using pointer_place(1) [OF s p that] lay(1) by simp_all
  qed
qed

definition in_word :: "u32 \<Rightarrow> u32 \<Rightarrow> bool" where
  "in_word a x \<longleftrightarrow> unat a \<le> unat x \<and> unat x < unat a + 4"

lemma patch_loop_ok:
  assumes s: "sections_ok s" and p: "patches_ok s md m0" and i: "i \<le> unat (entryNumber md m0)"
    and bin: "\<forall>x. unat md \<le> unat x \<and> unat x < unat (romSecAddr s) + unat (romSecSize s) + unat (gotSecSize s) + unat (romRamSecSize s)
      \<longrightarrow> m x = m0 x"
  shows "\<exists>m'. patch_loop md s (of_nat i) m = Some (Inr m')
     \<and> (\<forall>x. (\<forall>j. i \<le> j \<and> j < unat (entryNumber md m0) \<longrightarrow> \<not> in_word (reloc s (ptrOff md m0 (of_nat j))) x) \<longrightarrow> m' x = m x)
     \<and> (\<forall>j. i \<le> j \<and> j < unat (entryNumber md m0) \<longrightarrow>
          load32 m' (reloc s (ptrOff md m0 (of_nat j))) = reloc s (load32 m0 (romSecAddr s + ptrOff md m0 (of_nat j))))"
  using i bin
proof (induction "unat (entryNumber md m0) - i" arbitrary: i m)
  case 0
  have "i = unat (entryNumber md m0)" using 0 by simp
  then have "\<not> of_nat i < entryNumber md m" using patch_reads(1) [OF s p 0(3)] by simp
  then have "patch_loop md s (of_nat i) m = Some (Inr m)" by (subst patch_loop.simps) simp
  with 0 show ?case by auto
next
  case (Suc k)
  let ?n = "unat (entryNumber md m0)" and ?p = "\<lambda>j. ptrOff md m0 (of_nat j)"
  let ?v = "\<lambda>j. reloc s (load32 m0 (romSecAddr s + ?p j))" and ?m = "store32 m (reloc s (?p i)) (reloc s (load32 m0 (romSecAddr s + ?p i)))"
  note rd = patch_reads [OF s p Suc.prems(2)]
  have i: "i < ?n" using Suc.hyps(2) by simp
  have pr: "unat (romSecSize s) + unat (gotSecSize s) \<le> unat (?p j)"
    "unat (?p j) + 4 \<le> unat (romSecSize s) + unat (gotSecSize s) + unat (romRamSecSize s)" if "j < ?n" for j
    using p that by (simp_all add: patches_ok_def Let_def)
  have ri: "unat (reloc s (?p j)) + 4 \<le> 2 ^ 32" if "j < ?n" for j
    using pointer_place(2) [OF s p that] pr [OF that] s unfolding sections_ok_def by linarith
  have fr: "?m x = m x" if "\<not> in_word (reloc s (?p i)) x" for x
    by (rule store32_frame) (use that ri [OF i] in \<open>auto simp: in_word_def\<close>)
  have "of_nat i < entryNumber md m" using i rd(1) unat_u32_less [of "entryNumber md m0"] by (simp add: word_less_nat_alt unat_of_nat)
  then have step: "patch_loop md s (of_nat i) m = patch_loop md s (of_nat (Suc i)) ?m"
    using rd(2,3) [OF i] pointer_place(3,4) [OF s p i] by (subst patch_loop.simps) (simp add: add.commute)
  have ap: "unat (relGotSecAddr s) + unat (gotSecSize s) + unat (romRamSecSize s) + unat (ramSecSize s) \<le> unat md
      \<or> unat (romSecAddr s) + unat (romSecSize s) + unat (gotSecSize s) + unat (romRamSecSize s) \<le> unat (relGotSecAddr s)"
    using p unfolding patches_ok_def Let_def by blast
  have "\<forall>x. unat md \<le> unat x \<and> unat x < unat (romSecAddr s) + unat (romSecSize s) + unat (gotSecSize s) + unat (romRamSecSize s)
      \<longrightarrow> ?m x = m0 x"
  proof (intro allI impI)
    fix x :: u32 assume x: "unat md \<le> unat x \<and> unat x < unat (romSecAddr s) + unat (romSecSize s) + unat (gotSecSize s) + unat (romRamSecSize s)"
    then have "\<not> in_word (reloc s (?p i)) x" using ap pr [OF i] pointer_place(2) [OF s p i] by (auto simp: in_word_def)
    with fr Suc.prems(2) x show "?m x = m0 x" by metis
  qed
  moreover have "k = ?n - Suc i" "Suc i \<le> ?n" using Suc.hyps(2) by simp_all
  ultimately obtain m' where m': "patch_loop md s (of_nat (Suc i)) ?m = Some (Inr m')"
    "\<And>x. (\<forall>j. Suc i \<le> j \<and> j < ?n \<longrightarrow> \<not> in_word (reloc s (?p j)) x) \<Longrightarrow> m' x = ?m x"
    "\<And>j. Suc i \<le> j \<Longrightarrow> j < ?n \<Longrightarrow> load32 m' (reloc s (?p j)) = ?v j"
    using Suc.hyps(1) [of "Suc i" ?m] by blast
  have "load32 m' (reloc s (?p i)) = load32 ?m (reloc s (?p i))"
  proof (rule load32_unchanged, rule m'(2), intro allI impI)
    fix x :: u32 and j assume x: "unat (reloc s (?p i)) \<le> unat x" "unat x < unat (reloc s (?p i)) + 4" and j: "Suc i \<le> j \<and> j < ?n"
    have "unat (?p i) + 4 \<le> unat (?p j) \<or> unat (?p j) + 4 \<le> unat (?p i)" using p i j by (simp add: patches_ok_def Let_def)
    with x pointer_place(2) [OF s p i] pointer_place(2) [OF s p, of j] pr [OF i] pr [of j] j
    show "\<not> in_word (reloc s (?p j)) x" by (auto simp: in_word_def)
  qed (rule ri [OF i])
  then have "load32 m' (reloc s (?p j)) = ?v j" if "i \<le> j" "j < ?n" for j
    using m'(3) [of j] that by (cases "j = i") simp_all
  moreover have "m' x = m x" if x: "\<forall>j. i \<le> j \<and> j < ?n \<longrightarrow> \<not> in_word (reloc s (?p j)) x" for x
    using m'(2) [of x] fr [of x] x i by (metis Suc_leD order_refl)
  ultimately show ?case using step m'(1) by metis
qed

section \<open>The whole relocation\<close>

abbreviation binary_end :: "sections \<Rightarrow> nat" where
  "binary_end s \<equiv> unat (romSecAddr s) + unat (romSecSize s) + unat (gotSecSize s) + unat (romRamSecSize s)"

abbreviation ram_end :: "sections \<Rightarrow> nat" where
  "ram_end s \<equiv> unat (relGotSecAddr s) + unat (gotSecSize s) + unat (romRamSecSize s) + unat (ramSecSize s)"

definition image_sections :: "u32 \<Rightarrow> u32 \<Rightarrow> memory \<Rightarrow> sections" where
  "image_sections metadataOff interface m =
     layout (load32 m (interface + 20) + metadataOff) (load32 m (interface + 32)) m"

text \<open>
  A partition that can be relocated: well-formed sections, patches and offset table, enough RAM, and an interface structure apart from
  the binary and from the RAM that is filled.
\<close>

definition partition_ok :: "u32 \<Rightarrow> u32 \<Rightarrow> memory \<Rightarrow> bool" where
  "partition_ok metadataOff interface m \<longleftrightarrow>
     (let md = load32 m (interface + 20) + metadataOff; s = image_sections metadataOff interface m
      in sections_ok s \<and> patches_ok s md m \<and> ram_end s \<le> unat (load32 m (interface + 36))
       \<and> unat interface + 40 \<le> 2 ^ 32
       \<and> (unat interface + 40 \<le> unat (relGotSecAddr s) \<or> ram_end s \<le> unat interface)
       \<and> (unat interface + 40 \<le> unat md \<or> binary_end s \<le> unat interface)
       \<and> (\<forall>i < unat (gotSecSize s) div 4. unat (load32 m (gotSecAddr s + 4 * of_nat i)) < offset_end s))"

text \<open>The memory after the copy of the initialised data, and after clearing and the translation of the offset table.\<close>

lemma data_copied:
  assumes s: "sections_ok s"
    and ag: "\<forall>x. unat (romSecAddr s) \<le> unat x \<and> unat x < binary_end s \<longrightarrow> m1 x = m x"
    and m': "m' = store_bytes m1 (relRomRamSecAddr s) (bytes_at m1 (romRamSecAddr s) (unat (romRamSecSize s)))"
  shows "crt0_memcpy (relRomRamSecAddr s) (romRamSecAddr s) (romRamSecSize s) m1 = Inr (relRamSecAddr s, m')"
    "\<And>k. k < unat (romRamSecSize s) \<Longrightarrow> m' (relRomRamSecAddr s + of_nat k) = m (romRamSecAddr s + of_nat k)"
    "\<And>x. unat x < unat (relRomRamSecAddr s) \<or> unat (relRamSecAddr s) \<le> unat x \<Longrightarrow> m' x = m1 x"
proof -
  note ad = section_addrs [OF s]
  have b: "unat (relRomRamSecAddr s) + unat (romRamSecSize s) \<le> 2 ^ 32" "unat (romRamSecAddr s) + unat (romRamSecSize s) \<le> 2 ^ 32"
    using s unfolding sections_ok_def ad by linarith+
  have "unat (relRomRamSecAddr s) + unat (romRamSecSize s) \<le> unat (romRamSecAddr s)
      \<or> unat (romRamSecAddr s) + unat (romRamSecSize s) \<le> unat (relRomRamSecAddr s)"
    using s unfolding sections_ok_def ad by linarith
  then have "copy_apart (relRomRamSecAddr s) (romRamSecAddr s) (unat (romRamSecSize s))" using b by (simp add: copy_apart_def)
  moreover have "relRamSecAddr s = relRomRamSecAddr s + romRamSecSize s"
    "unat (romRamSecSize s) < 8 \<or> word_aligned (relRomRamSecAddr s) \<and> word_aligned (romRamSecAddr s)"
    using s unfolding sections_ok_def by blast+
  ultimately show "crt0_memcpy (relRomRamSecAddr s) (romRamSecAddr s) (romRamSecSize s) m1 = Inr (relRamSecAddr s, m')"
    by (simp add: m' crt0_memcpy_ok)
  show "m' x = m1 x" if "unat x < unat (relRomRamSecAddr s) \<or> unat (relRamSecAddr s) \<le> unat x" for x
    unfolding m' by (rule store_bytes_outside) (use that ad b in auto)
  fix k assume k: "k < unat (romRamSecSize s)"
  have "unat (romRamSecAddr s + of_nat k) = unat (romRamSecAddr s) + k" by (rule unat_add_small) (use k b in simp)
  then have "m1 (romRamSecAddr s + of_nat k) = m (romRamSecAddr s + of_nat k)" using k ad by (intro ag [rule_format]) simp
  then show "m' (relRomRamSecAddr s + of_nat k) = m (romRamSecAddr s + of_nat k)"
    unfolding m' using k unat_u32_less [of "romRamSecSize s"] by (subst store_bytes_inside) (simp_all add: bytes_at_nth)
qed

lemma load32_zero: "load32 m a = 0 \<Longrightarrow> j < 4 \<Longrightarrow> m (a + of_nat j) = 0"
proof -
  assume z: "load32 m a = 0" and j: "j < 4"
  have "bytes_at m a 4 = le_bytes 4 (load32 m a)" using le_bytes_le_word [of "bytes_at m a 4", where ?'a = 32] by (simp add: load32_def)
  also have "\<dots> = [0, 0, 0, 0]" by (simp add: z le_bytes_numeral)
  finally show ?thesis using j bytes_at_nth [of j 4 m a] by (auto simp: less_Suc_eq numeral_eq_Suc)
qed

lemma tables_filled:
  assumes s: "sections_ok s"
    and ag: "\<forall>x. unat (romSecAddr s) \<le> unat x \<and> unat x < binary_end s \<longrightarrow> m1 x = m x"
    and ent: "\<And>i. i < unat (gotSecSize s) div 4 \<Longrightarrow> unat (load32 m (gotSecAddr s + 4 * of_nat i)) < offset_end s"
  obtains m2 m3 where "clear_loop s 0 m1 = Some m2" "got_loop s 0 m2 = Some (Inr m3)"
    "\<And>i. i < unat (gotSecSize s) div 4 \<Longrightarrow> load32 m3 (relGotSecAddr s + 4 * of_nat i) = reloc s (load32 m (gotSecAddr s + 4 * of_nat i))"
    "\<And>k. k < unat (ramSecSize s) \<Longrightarrow> m3 (relRamSecAddr s + of_nat k) = 0"
    "\<And>x. unat x < unat (relGotSecAddr s) \<or> ram_end s \<le> unat x \<or> unat (relRomRamSecAddr s) \<le> unat x \<and> unat x < unat (relRamSecAddr s)
      \<Longrightarrow> m3 x = m1 x"
proof -
  note ad = section_addrs [OF s]
  from clear_loop_ok [OF s, of m1] obtain m2 where m2: "clear_loop s 0 m1 = Some m2"
    "\<And>x. unat x < unat (relRamSecAddr s) \<or> unat (relRamSecAddr s) + unat (ramSecSize s) \<le> unat x \<Longrightarrow> m2 x = m1 x"
    "\<And>j. j < unat (ramSecSize s) div 4 \<Longrightarrow> load32 m2 (relRamSecAddr s + 4 * of_nat j) = 0" by blast
  have g: "load32 m2 (gotSecAddr s + 4 * of_nat i) = load32 m (gotSecAddr s + 4 * of_nat i)" if i: "i < unat (gotSecSize s) div 4" for i
  proof -
    have i4: "4 * i + 4 \<le> unat (gotSecSize s)" using i by linarith
    have "unat (gotSecAddr s + of_nat (4 * i)) = unat (gotSecAddr s) + 4 * i"
      by (rule unat_add_small) (use i4 s in \<open>unfold sections_ok_def ad, linarith\<close>)
    then have a: "unat (gotSecAddr s + 4 * of_nat i) = unat (gotSecAddr s) + 4 * i" by simp
    show ?thesis
    proof (rule load32_unchanged)
      fix x :: u32 assume x: "unat (gotSecAddr s + 4 * of_nat i) \<le> unat x" "unat x < unat (gotSecAddr s + 4 * of_nat i) + 4"
      have "m2 x = m1 x" by (rule m2(2)) (use x a i4 s in \<open>unfold sections_ok_def ad, linarith\<close>)
      also have "m1 x = m x" by (rule ag [rule_format]) (use x a i4 ad in linarith)
      finally show "m2 x = m x" .
    qed (use a i4 s in \<open>unfold sections_ok_def ad, linarith\<close>)
  qed
  from got_loop_ok [OF s, of m2] ent g obtain m3 where m3: "got_loop s 0 m2 = Some (Inr m3)"
    "\<And>x. unat x < unat (relGotSecAddr s) \<or> unat (relGotSecAddr s) + unat (gotSecSize s) \<le> unat x \<Longrightarrow> m3 x = m2 x"
    "\<And>j. j < unat (gotSecSize s) div 4 \<Longrightarrow> load32 m3 (relGotSecAddr s + 4 * of_nat j) = reloc s (load32 m (gotSecAddr s + 4 * of_nat j))"
    by auto
  have fin: "ram_end s < 2 ^ 32" "4 dvd unat (ramSecSize s)" using s by (simp_all add: sections_ok_def)
  have z: "m3 (relRamSecAddr s + of_nat k) = 0" if k: "k < unat (ramSecSize s)" for k
  proof -
    have "unat (relRamSecAddr s + of_nat k) = unat (relRamSecAddr s) + k" by (rule unat_add_small) (use k ad fin in simp)
    then have "m3 (relRamSecAddr s + of_nat k) = m2 (relRamSecAddr s + of_nat k)" by (intro m3(2)) (use ad in simp)
    moreover have "k div 4 < unat (ramSecSize s) div 4" using k fin(2) by (auto elim!: dvdE simp: less_mult_imp_div_less mult.commute)
    from load32_zero [OF m2(3) [OF this], of "k mod 4"] have "m2 (relRamSecAddr s + of_nat (4 * (k div 4) + k mod 4)) = 0"
      by (simp only: of_nat_add of_nat_mult of_nat_numeral add.assoc mod_less_divisor)
    ultimately show ?thesis by simp
  qed
  show thesis
  proof (rule that [OF m2(1) m3(1) m3(3) z])
    fix x :: u32 assume x: "unat x < unat (relGotSecAddr s) \<or> ram_end s \<le> unat x
        \<or> unat (relRomRamSecAddr s) \<le> unat x \<and> unat x < unat (relRamSecAddr s)"
    have "m3 x = m2 x" by (rule m3(2)) (use x ad in linarith)
    also have "m2 x = m1 x" by (rule m2(2)) (use x ad in linarith)
    finally show "m3 x = m1 x" .
  qed simp_all
qed

text \<open>The two fields of the interface that are updated.\<close>

lemma interface_updated:
  assumes i: "unat interface + 40 \<le> 2 ^ 32"
    and m1: "m1 = store32 (store32 m (interface + 32) v) (interface + 24) w"
  shows "load32 m1 (interface + 32) = v"
    "\<And>x. \<not> in_word (interface + 24) x \<Longrightarrow> \<not> in_word (interface + 32) x \<Longrightarrow> m1 x = m x"
    "\<And>x. unat x < unat interface \<or> unat interface + 40 \<le> unat x \<Longrightarrow> m1 x = m x"
proof -
  have a: "unat (interface + 32) = unat interface + 32" "unat (interface + 24) = unat interface + 24"
    using unat_add_small [of interface 32] unat_add_small [of interface 24] i by simp_all
  show "load32 m1 (interface + 32) = v" unfolding m1 using a i by (subst load32_store32_other) simp_all
  show f: "m1 x = m x" if "\<not> in_word (interface + 24) x" "\<not> in_word (interface + 32) x" for x
  proof -
    have "m1 x = store32 m (interface + 32) v x" unfolding m1
      by (rule store32_frame) (use that a i in \<open>auto simp: in_word_def\<close>)
    also have "\<dots> = m x" by (rule store32_frame) (use that a i in \<open>auto simp: in_word_def\<close>)
    finally show ?thesis .
  qed
  show "m1 x = m x" if "unat x < unat interface \<or> unat interface + 40 \<le> unat x" for x
    by (rule f) (use that a in \<open>auto simp: in_word_def\<close>)
qed

text \<open>Everything before the patches.\<close>

lemma crt0_until_patches:
  assumes "partition_ok off interface m"
    and "md = load32 m (interface + 20) + off" and "s = image_sections off interface m"
  obtains m4 where "crt0_start off interface m = map_option (\<lambda>r. ebind r (\<lambda>m'. Inr (m', romSecAddr s + load32 m md, relGotSecAddr s)))
      (patch_loop md s 0 m4)"
    "sections_ok s" "patches_ok s md m"
    "\<And>i. i < unat (gotSecSize s) div 4 \<Longrightarrow> load32 m4 (relGotSecAddr s + 4 * of_nat i) = reloc s (load32 m (gotSecAddr s + 4 * of_nat i))"
    "\<And>k. k < unat (romRamSecSize s) \<Longrightarrow> m4 (relRomRamSecAddr s + of_nat k) = m (romRamSecAddr s + of_nat k)"
    "\<And>k. k < unat (ramSecSize s) \<Longrightarrow> m4 (relRamSecAddr s + of_nat k) = 0"
    "load32 m4 (interface + 32) = relRamSecAddr s + ramSecSize s"
    "unat (interface + 32) + 4 \<le> 2 ^ 32" "unat (interface + 32) + 4 \<le> unat (relGotSecAddr s) \<or> ram_end s \<le> unat (interface + 32)"
    "\<And>x. unat x < unat (relGotSecAddr s) \<or> ram_end s \<le> unat x \<Longrightarrow> \<not> in_word (interface + 24) x \<Longrightarrow> \<not> in_word (interface + 32) x
      \<Longrightarrow> m4 x = m x"
    "\<forall>x. unat md \<le> unat x \<and> unat x < binary_end s \<longrightarrow> m4 x = m x"
proof -
  have s: "sections_ok s" and p: "patches_ok s md m" and ram: "ram_end s \<le> unat (load32 m (interface + 36))"
    and i40: "unat interface + 40 \<le> 2 ^ 32" and iram: "unat interface + 40 \<le> unat (relGotSecAddr s) \<or> ram_end s \<le> unat interface"
    and ibin: "unat interface + 40 \<le> unat md \<or> binary_end s \<le> unat interface"
    and ent: "\<And>i. i < unat (gotSecSize s) div 4 \<Longrightarrow> unat (load32 m (gotSecAddr s + 4 * of_nat i)) < offset_end s"
    using assms unfolding partition_ok_def Let_def by blast+
  note ad = section_addrs [OF s]
  have mr: "unat md + 28 \<le> unat (romSecAddr s)" "binary_end s < 2 ^ 32" "ram_end s < 2 ^ 32"
    using p s by (simp_all add: patches_ok_def sections_ok_def Let_def)
  have mram: "ram_end s \<le> unat md \<or> binary_end s \<le> unat (relGotSecAddr s)" using p unfolding patches_ok_def Let_def by blast
  define m0 where "m0 = store32 m (interface + 32) (relRamSecAddr s + ramSecSize s)"
  define m1 where "m1 = store32 m0 (interface + 24) (load32 m0 (interface + 24) + off + sizeof_metadata_t + load32 m0 (md + 20))"
  define m2 where "m2 = store_bytes m1 (relRomRamSecAddr s) (bytes_at m1 (romRamSecAddr s) (unat (romRamSecSize s)))"
  note iu = interface_updated [OF i40 m1_def [unfolded m0_def]]
  have ag1: "m1 x = m x" if "unat md \<le> unat x" "unat x < binary_end s" for x
    by (rule iu(3)) (use that ibin in linarith)
  have ag1r: "\<forall>x. unat (romSecAddr s) \<le> unat x \<and> unat x < binary_end s \<longrightarrow> m1 x = m x" using ag1 mr(1) by simp
  note dc = data_copied [OF s ag1r m2_def]
  have ag2: "m2 x = m x" if "unat md \<le> unat x" "unat x < binary_end s" for x
  proof -
    have "m2 x = m1 x" by (rule dc(3)) (use that mram ad in linarith)
    with ag1 [OF that] show ?thesis by simp
  qed
  have ag2r: "\<forall>x. unat (romSecAddr s) \<le> unat x \<and> unat x < binary_end s \<longrightarrow> m2 x = m x" using ag2 mr(1) by simp
  obtain m3 m4 where m3: "clear_loop s 0 m2 = Some m3" and m4: "got_loop s 0 m3 = Some (Inr m4)"
    and got: "\<And>i. i < unat (gotSecSize s) div 4 \<Longrightarrow> load32 m4 (relGotSecAddr s + 4 * of_nat i) = reloc s (load32 m (gotSecAddr s + 4 * of_nat i))"
    and z: "\<And>k. k < unat (ramSecSize s) \<Longrightarrow> m4 (relRamSecAddr s + of_nat k) = 0"
    and fr4: "\<And>x. unat x < unat (relGotSecAddr s) \<or> ram_end s \<le> unat x \<or> unat (relRomRamSecAddr s) \<le> unat x \<and> unat x < unat (relRamSecAddr s)
      \<Longrightarrow> m4 x = m2 x"
    using tables_filled [OF s ag2r ent] by blast
  have a32: "unat (interface + 32) = unat interface + 32" using unat_add_small [of interface 32] i40 by simp
  have out: "m4 x = m1 x" if "unat x < unat (relGotSecAddr s) \<or> ram_end s \<le> unat x" for x
  proof -
    have "m4 x = m2 x" by (rule fr4) (use that in blast)
    also have "m2 x = m1 x" by (rule dc(3)) (use that ad in linarith)
    finally show ?thesis .
  qed
  have sums: "unat (relGotSecAddr s + gotSecSize s) = unat (relGotSecAddr s) + unat (gotSecSize s)"
    "unat (relRomRamSecAddr s + romRamSecSize s) = unat (relGotSecAddr s) + unat (gotSecSize s) + unat (romRamSecSize s)"
    "unat (relRamSecAddr s + ramSecSize s) = ram_end s"
    using unat_add_u32 [of "relGotSecAddr s" "gotSecSize s"] unat_add_u32 [of "relRomRamSecAddr s" "romRamSecSize s"]
      unat_add_u32 [of "relRamSecAddr s" "ramSecSize s"] ad mr(3) by simp_all
  have "enough_ram s (load32 m (interface + 36))" using sums ram by (simp add: enough_ram_def word_less_nat_alt)
  then have start: "crt0_start off interface m = map_option (\<lambda>r. ebind r (\<lambda>m'. Inr (m', romSecAddr s + load32 m md, relGotSecAddr s)))
      (patch_loop md s 0 m4)"
    unfolding crt0_start_def Let_def assms(2) [symmetric] assms(3) [unfolded image_sections_def assms(2) [symmetric], symmetric]
    using m3 m4 by (simp add: m0_def [symmetric] m1_def [symmetric] dc(1))
  show thesis
  proof (rule that [OF start s p got _ z])
    show "m4 (relRomRamSecAddr s + of_nat k) = m (romRamSecAddr s + of_nat k)" if k: "k < unat (romRamSecSize s)" for k
    proof -
      have "unat (relRomRamSecAddr s + of_nat k) = unat (relRomRamSecAddr s) + k" by (rule unat_add_small) (use k ad mr(3) in simp)
      then have "m4 (relRomRamSecAddr s + of_nat k) = m2 (relRomRamSecAddr s + of_nat k)" by (intro fr4) (use k ad in simp)
      with dc(2) [OF k] show ?thesis by simp
    qed
    show "load32 m4 (interface + 32) = relRamSecAddr s + ramSecSize s"
      unfolding iu(1) [symmetric] by (rule load32_unchanged, rule out) (use a32 iram i40 in auto)
    show "m4 x = m x" if "unat x < unat (relGotSecAddr s) \<or> ram_end s \<le> unat x" "\<not> in_word (interface + 24) x"
      "\<not> in_word (interface + 32) x" for x using out [OF that(1)] iu(2) [OF that(2,3)] by simp
    show "\<forall>x. unat md \<le> unat x \<and> unat x < binary_end s \<longrightarrow> m4 x = m x"
    proof (intro allI impI)
      fix x :: u32 assume x: "unat md \<le> unat x \<and> unat x < binary_end s"
      have "m4 x = m1 x" by (rule out) (use x mram in linarith)
      with ag1 [of x] x show "m4 x = m x" by simp
    qed
  qed (use a32 iram i40 in auto)
qed

text \<open>
  C39: relocation of a partition.  For a partition that can be relocated, whose initialised data of eight bytes or more start at word
  addresses in the binary and in RAM as the block copy requires, \<open>_start\<close> reaches the branch to the entry point, with the address of the
  offset table in RAM as new PIC register.  Every entry of the table in RAM is the relocated entry of the binary; every patched
  pointer holds the relocated offset; the other bytes of the initialised data are those of the binary; the uninitialised data
  is zero; the interface tells where the unused RAM starts now; and nothing but the RAM sections and two fields of the interface is changed.
\<close>

theorem crt0_relocates:
  assumes "partition_ok off interface m"
    and "md = load32 m (interface + 20) + off" and "s = image_sections off interface m"
  shows "\<exists>m'. crt0_start off interface m = Some (Inr (m', romSecAddr s + load32 m md, relGotSecAddr s))
     \<and> (\<forall>i < unat (gotSecSize s) div 4.
          load32 m' (relGotSecAddr s + 4 * of_nat i) = reloc s (load32 m (gotSecAddr s + 4 * of_nat i)))
     \<and> (\<forall>i < unat (entryNumber md m).
          load32 m' (reloc s (ptrOff md m (of_nat i))) = reloc s (load32 m (romSecAddr s + ptrOff md m (of_nat i))))
     \<and> (\<forall>k < unat (romRamSecSize s).
          (\<forall>i < unat (entryNumber md m). \<not> in_word (reloc s (ptrOff md m (of_nat i))) (relRomRamSecAddr s + of_nat k))
          \<longrightarrow> m' (relRomRamSecAddr s + of_nat k) = m (romRamSecAddr s + of_nat k))
     \<and> (\<forall>k < unat (ramSecSize s). m' (relRamSecAddr s + of_nat k) = 0)
     \<and> load32 m' (interface + 32) = relRamSecAddr s + ramSecSize s
     \<and> (\<forall>x. (unat x < unat (relGotSecAddr s) \<or> ram_end s \<le> unat x) \<and> \<not> in_word (interface + 24) x
          \<and> \<not> in_word (interface + 32) x \<longrightarrow> m' x = m x)"
proof -
  obtain m4 where st: "crt0_start off interface m = map_option (\<lambda>r. ebind r (\<lambda>m'. Inr (m', romSecAddr s + load32 m md, relGotSecAddr s)))
      (patch_loop md s 0 m4)" and s: "sections_ok s" and p: "patches_ok s md m"
    and got: "\<And>i. i < unat (gotSecSize s) div 4 \<Longrightarrow> load32 m4 (relGotSecAddr s + 4 * of_nat i) = reloc s (load32 m (gotSecAddr s + 4 * of_nat i))"
    and data: "\<And>k. k < unat (romRamSecSize s) \<Longrightarrow> m4 (relRomRamSecAddr s + of_nat k) = m (romRamSecAddr s + of_nat k)"
    and z: "\<And>k. k < unat (ramSecSize s) \<Longrightarrow> m4 (relRamSecAddr s + of_nat k) = 0"
    and int: "load32 m4 (interface + 32) = relRamSecAddr s + ramSecSize s" "unat (interface + 32) + 4 \<le> 2 ^ 32"
      "unat (interface + 32) + 4 \<le> unat (relGotSecAddr s) \<or> ram_end s \<le> unat (interface + 32)"
    and out: "\<And>x. unat x < unat (relGotSecAddr s) \<or> ram_end s \<le> unat x \<Longrightarrow> \<not> in_word (interface + 24) x \<Longrightarrow> \<not> in_word (interface + 32) x
      \<Longrightarrow> m4 x = m x"
    and bin: "\<forall>x. unat md \<le> unat x \<and> unat x < binary_end s \<longrightarrow> m4 x = m x"
    using crt0_until_patches [OF assms] by blast
  note ad = section_addrs [OF s]
  let ?n = "unat (entryNumber md m)" and ?p = "\<lambda>i. reloc s (ptrOff md m (of_nat i))"
  from patch_loop_ok [OF s p, of 0 m4] bin obtain m' where m': "patch_loop md s 0 m4 = Some (Inr m')"
    "\<And>x. (\<forall>j < ?n. \<not> in_word (?p j) x) \<Longrightarrow> m' x = m4 x"
    "\<And>j. j < ?n \<Longrightarrow> load32 m' (?p j) = reloc s (load32 m (romSecAddr s + ptrOff md m (of_nat j)))" by auto
  have pw: "m' x = m4 x" if x: "unat x < unat (relRomRamSecAddr s) \<or> unat (relRamSecAddr s) \<le> unat x" for x
  proof (rule m'(2), intro allI impI)
    fix j assume j: "j < ?n"
    have "unat (romSecSize s) + unat (gotSecSize s) \<le> unat (ptrOff md m (of_nat j))"
      "unat (ptrOff md m (of_nat j)) + 4 \<le> unat (romSecSize s) + unat (gotSecSize s) + unat (romRamSecSize s)"
      using p j by (simp_all add: patches_ok_def Let_def)
    with pointer_place(2) [OF s p j] x ad show "\<not> in_word (?p j) x" by (auto simp: in_word_def)
  qed
  have fin: "ram_end s < 2 ^ 32" "4 dvd unat (gotSecSize s)" using s by (simp_all add: sections_ok_def)
  have "crt0_start off interface m = Some (Inr (m', romSecAddr s + load32 m md, relGotSecAddr s))" using st m'(1) by simp
  moreover have "load32 m' (relGotSecAddr s + 4 * of_nat i) = reloc s (load32 m (gotSecAddr s + 4 * of_nat i))"
    if i: "i < unat (gotSecSize s) div 4" for i
  proof -
    have i4: "4 * i + 4 \<le> unat (gotSecSize s)" using i by linarith
    have "unat (relGotSecAddr s + of_nat (4 * i)) = unat (relGotSecAddr s) + 4 * i" by (rule unat_add_small) (use i4 fin in simp)
    then have a: "unat (relGotSecAddr s + 4 * of_nat i) = unat (relGotSecAddr s) + 4 * i" by simp
    have "load32 m' (relGotSecAddr s + 4 * of_nat i) = load32 m4 (relGotSecAddr s + 4 * of_nat i)"
      by (rule load32_unchanged, rule pw) (use a i4 ad fin in auto)
    with got [OF i] show ?thesis by simp
  qed
  moreover have "m' (relRamSecAddr s + of_nat k) = 0" if k: "k < unat (ramSecSize s)" for k
  proof -
    have "unat (relRamSecAddr s + of_nat k) = unat (relRamSecAddr s) + k" by (rule unat_add_small) (use k ad fin in simp)
    then have "m' (relRamSecAddr s + of_nat k) = m4 (relRamSecAddr s + of_nat k)" by (intro pw) simp
    with z [OF k] show ?thesis by simp
  qed
  moreover have "load32 m' (interface + 32) = relRamSecAddr s + ramSecSize s"
    unfolding int(1) [symmetric] by (rule load32_unchanged, rule pw) (use int(2,3) ad in auto)
  moreover have "m' x = m x" if "unat x < unat (relGotSecAddr s) \<or> ram_end s \<le> unat x" "\<not> in_word (interface + 24) x"
    "\<not> in_word (interface + 32) x" for x
  proof -
    have "m' x = m4 x" by (rule pw) (use that(1) ad in linarith)
    with out [OF that] show ?thesis by simp
  qed
  ultimately show ?thesis using m'(2,3) data by (intro exI [of _ m']) simp
qed

text \<open>
  An image with one entry in the offset table and one pointer to patch: interface at \<open>0x100\<close>, metadata at \<open>0x1010\<close>, code at \<open>0x1030\<close>, RAM from
  \<open>0x2000\<close> to \<open>0x3000\<close>.
\<close>

definition demo_image :: memory where
  "demo_image = store_bytes (store_bytes (\<lambda>_. 0) 0x114 (concat (map (le_bytes 4) [0x1000 :: u32, 0x1000, 0x2000, 0x2000, 0x3000])))
     0x1010 (concat (map (le_bytes 4) [0 :: u32, 4, 8, 4, 4, 0, 1, 8, 0, 8, 16, 0]))"

lemma demo_image_words:
  "load32 demo_image 0x114 = 0x1000" "load32 demo_image 0x120 = 0x2000" "load32 demo_image 0x124 = 0x3000"
  "load32 demo_image 0x1010 = 0" "load32 demo_image 0x1014 = 4" "load32 demo_image 0x1018 = 8" "load32 demo_image 0x101c = 4"
  "load32 demo_image 0x1020 = 4" "load32 demo_image 0x1028 = 1" "load32 demo_image 0x102c = 8" "load32 demo_image 0x1034 = 8"
  "load32 demo_image 0x1038 = 16"
  by (simp_all add: demo_image_def load32_def bytes_at_numeral le_bytes_numeral)

lemma demo_sections:
  "image_sections 0x10 0x100 demo_image = \<lparr>romSecAddr = 0x1030, romSecSize = 4, gotSecAddr = 0x1034, gotSecSize = 4, romRamSecAddr = 0x1038,
     romRamSecSize = 8, ramSecSize = 4, relGotSecAddr = 0x2000, relRomRamSecAddr = 0x2004, relRamSecAddr = 0x200c\<rparr>"
  by (simp add: image_sections_def layout_def entryNumber_def demo_image_words c_const)

lemma demo_partition: "partition_ok 0x10 0x100 demo_image"
  by (simp add: partition_ok_def demo_sections sections_ok_def word_aligned_def patches_ok_def entryNumber_def ptrOff_def offset_end_def demo_image_words)

theorem crt0_relocates_witness:
  "\<exists>m'. crt0_start 0x10 0x100 demo_image = Some (Inr (m', 0x1030, 0x2000)) \<and> load32 m' 0x2000 = 0x2004 \<and> load32 m' 0x2004 = 0x200c"
proof -
  have md: "0x1010 = load32 demo_image (0x100 + 20) + 0x10" by (simp add: demo_image_words)
  show ?thesis
    using crt0_relocates [OF demo_partition md demo_sections [symmetric]]
    by (auto simp: demo_image_words entryNumber_def ptrOff_def reloc_def)
qed

text \<open>The test for enough RAM adds in 32 bits: a size that wraps around passes it.\<close>

lemma enough_ram_wraps:
  "enough_ram \<lparr>romSecAddr = 0x1030, romSecSize = 4, gotSecAddr = 0x1034, gotSecSize = 4, romRamSecAddr = 0x1038,
     romRamSecSize = 8, ramSecSize = 0xfffff000, relGotSecAddr = 0x2000, relRomRamSecAddr = 0x2004, relRamSecAddr = 0x200c\<rparr> 0x3000"
  by (simp add: enough_ram_def)

end
