(* ===== verification/Udivmod.thy ===== *)
theory Udivmod
  imports PRR_Prelude
begin

text \<open>
  The 64-bit division \<open>__udivmoddi4\<close> of the compiler runtime (\<open>compiler-rt/lib/builtins/udivmoddi4.c\<close>), which the divisions of the
  interpreter are compiled to on a machine that divides only 32-bit words.  The union \<open>udwords\<close> is its two halves; \<open>all64\<close> reads
  them as one word.  The result is the quotient and the remainder.
\<close>

unbundle bit_operations_syntax

section \<open>The code\<close>

record udwords =
  s_high :: u32
  s_low :: u32

definition all64 :: "udwords \<Rightarrow> u64" where
  "all64 x = push_bit 32 (ucast (s_high x)) OR ucast (s_low x)"

definition udw :: "u64 \<Rightarrow> udwords" where
  "udw a = \<lparr>s_high = ucast (drop_bit 32 a), s_low = ucast a\<rparr>"

text \<open>The builtins that count leading and trailing zeros, for words that are not zero.\<close>

definition clzsi :: "u32 \<Rightarrow> nat" where
  "clzsi w = length (takeWhile (\<lambda>i. \<not> bit w (31 - i)) [0..<32])"

definition ctzsi :: "u32 \<Rightarrow> nat" where
  "ctzsi w = length (takeWhile (\<lambda>i. \<not> bit w i) [0..<32])"

fun div_loop :: "nat \<Rightarrow> u64 \<Rightarrow> udwords \<Rightarrow> udwords \<Rightarrow> u32 \<Rightarrow> udwords \<times> udwords \<times> u32" where
  "div_loop 0 d q r carry = (q, r, carry)"
| "div_loop (Suc sr) d q r carry =
     (let r = r\<lparr>s_high := push_bit 1 (s_high r) OR drop_bit 31 (s_low r)\<rparr>;
          r = r\<lparr>s_low := push_bit 1 (s_low r) OR drop_bit 31 (s_high q)\<rparr>;
          q = q\<lparr>s_high := push_bit 1 (s_high q) OR drop_bit 31 (s_low q)\<rparr>;
          q = q\<lparr>s_low := push_bit 1 (s_low q) OR carry\<rparr>;
          s = signed_drop_bit 63 (d - all64 r - 1);
          carry = ucast (s AND 1);
          r = udw (all64 r - (d AND s))
      in div_loop sr d q r carry)"

definition div_rest :: "u32 \<Rightarrow> u64 \<Rightarrow> udwords \<Rightarrow> udwords \<Rightarrow> u64 \<times> u64" where
  "div_rest sr d q r =
     (case div_loop (unat sr) d q r 0 of (q, r, carry) \<Rightarrow> (push_bit 1 (all64 q) OR ucast carry, all64 r))"

datatype div_error = DivisionByZero

definition udivmoddi4 :: "u64 \<Rightarrow> u64 \<Rightarrow> div_error + u64 \<times> u64" where
  "udivmoddi4 a b =
     (let n = udw a; d = udw b in
      if s_high n = 0 then
        if s_high d = 0 then
          if s_low d = 0 then Inl DivisionByZero
          else Inr (ucast (s_low n div s_low d), ucast (s_low n mod s_low d))
        else Inr (0, ucast (s_low n))
      else if s_low d = 0 then
        if s_high d = 0 then Inl DivisionByZero
        else if s_low n = 0 then
          Inr (ucast (s_high n div s_high d), all64 \<lparr>s_high = s_high n mod s_high d, s_low = 0\<rparr>)
        else if s_high d AND (s_high d - 1) = 0 then
          Inr (ucast (drop_bit (ctzsi (s_high d)) (s_high n)), all64 \<lparr>s_high = s_high n AND (s_high d - 1), s_low = s_low n\<rparr>)
        else
          let sr = of_nat (clzsi (s_high d)) - of_nat (clzsi (s_high n)) in
          if sr > 32 - 2 then Inr (0, a)
          else
            let sr = sr + 1;
                q = \<lparr>s_high = push_bit (unat (32 - sr)) (s_low n), s_low = 0\<rparr>;
                r = \<lparr>s_high = drop_bit (unat sr) (s_high n),
                     s_low = push_bit (unat (32 - sr)) (s_high n) OR drop_bit (unat sr) (s_low n)\<rparr>
            in Inr (div_rest sr b q r)
      else if s_high d = 0 then
        if s_low d AND (s_low d - 1) = 0 then
          let rem = ucast (s_low n AND (s_low d - 1)) in
          if s_low d = 1 then Inr (a, rem)
          else
            let sr = ctzsi (s_low d);
                q = \<lparr>s_high = drop_bit sr (s_high n),
                     s_low = push_bit (32 - sr) (s_high n) OR drop_bit sr (s_low n)\<rparr>
            in Inr (all64 q, rem)
        else
          let sr = 1 + 32 + of_nat (clzsi (s_low d)) - of_nat (clzsi (s_high n));
              (q, r) =
                (if sr = 32 then
                   (\<lparr>s_high = s_low n, s_low = 0\<rparr>, \<lparr>s_high = 0, s_low = s_high n\<rparr>)
                 else if sr < 32 then
                   (\<lparr>s_high = push_bit (unat (32 - sr)) (s_low n), s_low = 0\<rparr>,
                    \<lparr>s_high = drop_bit (unat sr) (s_high n),
                     s_low = push_bit (unat (32 - sr)) (s_high n) OR drop_bit (unat sr) (s_low n)\<rparr>)
                 else
                   (\<lparr>s_high = push_bit (unat (64 - sr)) (s_high n) OR drop_bit (unat (sr - 32)) (s_low n),
                     s_low = push_bit (unat (64 - sr)) (s_low n)\<rparr>,
                    \<lparr>s_high = 0, s_low = drop_bit (unat (sr - 32)) (s_high n)\<rparr>))
          in Inr (div_rest sr b q r)
      else
        let sr = of_nat (clzsi (s_high d)) - of_nat (clzsi (s_high n)) in
        if sr > 32 - 1 then Inr (0, a)
        else
          let sr = sr + 1;
              (q, r) =
                (if sr = 32 then (\<lparr>s_high = s_low n, s_low = 0\<rparr>, \<lparr>s_high = 0, s_low = s_high n\<rparr>)
                 else
                   (\<lparr>s_high = push_bit (unat (32 - sr)) (s_low n), s_low = 0\<rparr>,
                    \<lparr>s_high = drop_bit (unat sr) (s_high n),
                     s_low = push_bit (unat (32 - sr)) (s_high n) OR drop_bit (unat sr) (s_low n)\<rparr>))
          in Inr (div_rest sr b q r))"

section \<open>Halves\<close>

lemma bit_all64: "bit (all64 x) i \<longleftrightarrow> (if i < 32 then bit (s_low x) i else bit (s_high x) (i - 32))"
proof (cases "i < 32")
  case True
  then show ?thesis by (simp add: all64_def bit_simps)
next
  case False
  then have "\<not> bit (s_low x) i" using bit_imp_le_length [of "s_low x" i] by auto
  moreover have "bit (s_high x) (i - 32) \<Longrightarrow> i < 64" using bit_imp_le_length [of "s_high x" "i - 32"] by auto
  ultimately show ?thesis using False by (auto simp: all64_def bit_simps)
qed

lemma all64_udw [simp]: "all64 (udw a) = a"
  by (rule bit_word_eqI) (auto simp: bit_all64 udw_def bit_simps)

lemma unat_all64: "unat (all64 x) = unat (s_high x) * 2 ^ 32 + unat (s_low x)"
proof -
  have "all64 x = push_bit 32 (ucast (s_high x)) + ucast (s_low x)"
    unfolding all64_def by (rule disjunctive_add_eq_or [symmetric], rule bit_word_eqI)
      (auto simp: bit_simps dest: bit_imp_le_length)
  then have "all64 x = of_nat (unat (s_high x) * 2 ^ 32 + unat (s_low x))"
    by (simp add: push_bit_eq_mult unsigned_ucast_eq mult.commute)
  moreover have "unat (s_high x) * 2 ^ 32 + unat (s_low x) < 2 ^ 64"
    using unat_u32_less [of "s_high x"] unat_u32_less [of "s_low x"] by simp
  ultimately show ?thesis by (simp only: unat_of_nat) simp
qed

lemma unat_halves: "unat a = unat (s_high (udw a)) * 2 ^ 32 + unat (s_low (udw a))"
  using unat_all64 [of "udw a"] by simp

text \<open>Shifting by one bit and adding a bit, on naturals.\<close>

lemma unat_drop: "unat (drop_bit n (w :: 'a::len word)) = unat w div 2 ^ n"
proof -
  have "take_bit LENGTH('a) (unat w) = unat w" by (simp add: take_bit_nat_eq_self_iff)
  then show ?thesis unfolding unsigned_drop_bit_eq by (simp add: drop_bit_eq_div)
qed

lemma unat_shift_in:
  assumes "unat (y :: 'a::len word) \<le> 1" "1 < LENGTH('a)"
  shows "unat (push_bit 1 x OR y) = 2 * unat x mod 2 ^ LENGTH('a) + unat y"
proof -
  have p: "unat (push_bit 1 x) = 2 * unat x mod 2 ^ LENGTH('a)"
    by (simp add: push_bit_eq_mult unat_word_ariths mult.commute)
  have "push_bit 1 x AND y = 0"
  proof (rule bit_word_eqI)
    fix i
    have "y = 0 \<or> y = 1" using assms(1) by (metis le_numeral_extra(4) less_one linorder_le_less_linear nat_less_le unsigned_0 unsigned_1 unsigned_word_eqI)
    then show "bit (push_bit 1 x AND y) i = bit (0 :: 'a word) i" by (auto simp: bit_simps bit_0)
  qed
  then have e: "push_bit 1 x OR y = push_bit 1 x + y" by (rule disjunctive_add_eq_or [symmetric])
  have "even (2 * unat x mod 2 ^ LENGTH('a))" by (simp add: dvd_mod)
  moreover have "even ((2 :: nat) ^ LENGTH('a))" by simp
  moreover have "2 * unat x mod 2 ^ LENGTH('a) < 2 ^ LENGTH('a)" by simp
  ultimately have "2 * unat x mod 2 ^ LENGTH('a) + 1 < 2 ^ LENGTH('a)" by (metis Suc_eq_plus1 Suc_lessI even_Suc)
  then have "unat (push_bit 1 x) + unat y < 2 ^ LENGTH('a)" using assms(1) unfolding p by linarith
  then have "unat (push_bit 1 x + y) = unat (push_bit 1 x) + unat y" by (simp only: unat_word_ariths mod_less)
  then show ?thesis unfolding e p .
qed

text \<open>One step of the loop shifts the pair of remainder and quotient by one bit.\<close>

lemma top_bit: "h < 2 ^ 32 \<Longrightarrow> l < 2 ^ 32 \<Longrightarrow> (h * 2 ^ 32 + l) div 2 ^ 63 = h div 2 ^ (31 :: nat)" for h l :: nat
proof -
  assume "h < 2 ^ 32" "l < 2 ^ 32"
  have "(h * 2 ^ 32 + l) div 2 ^ 63 = (h * 2 ^ 32 + l) div 2 ^ 32 div 2 ^ 31"
    by (simp only: div_mult2_eq [symmetric]) simp
  also have "(h * 2 ^ 32 + l) div 2 ^ 32 = h" using \<open>l < 2 ^ 32\<close> by simp
  finally show ?thesis .
qed

lemma double_halves:
  fixes h l c :: nat
  assumes "h < 2 ^ 32" "l < 2 ^ 32"
  shows "(2 * h mod 2 ^ 32 + l div 2 ^ 31) * 2 ^ 32 + (2 * l mod 2 ^ 32 + c) = 2 * (h * 2 ^ 32 + l) mod 2 ^ 64 + c"
proof -
  define a b where "a = h div 2 ^ 31" and "b = l div 2 ^ 31"
  have ab: "a = 0 \<or> a = 1" "b = 0 \<or> b = 1" using assms by (auto simp: a_def b_def)
  obtain h' where h: "h = a * 2 ^ 31 + h'" "h' < 2 ^ 31" by (metis a_def div_mult_mod_eq mod_less_divisor zero_less_numeral zero_less_power)
  obtain l' where l: "l = b * 2 ^ 31 + l'" "l' < 2 ^ 31" by (metis b_def div_mult_mod_eq mod_less_divisor zero_less_numeral zero_less_power)
  have m: "2 * h mod 2 ^ 32 = 2 * h'" "2 * l mod 2 ^ 32 = 2 * l'" using h l ab by auto
  let ?x = "2 * h' * 2 ^ 32 + b * 2 ^ 32 + 2 * l'"
  have "2 * (h * 2 ^ 32 + l) = ?x + a * 2 ^ 64" by (simp add: h(1) l(1) algebra_simps)
  moreover have "?x < 2 ^ 64" using ab h(2) l(2) by auto
  ultimately have "2 * (h * 2 ^ 32 + l) mod 2 ^ 64 = ?x" by (simp only: mod_mult_self1 mod_less)
  then show ?thesis unfolding m b_def [symmetric] by (simp only: add.assoc distrib_right)
qed

lemma shift_halves:
  "unat (all64 (r\<lparr>s_high := push_bit 1 (s_high r) OR drop_bit 31 (s_low r), s_low := push_bit 1 (s_low r) OR c\<rparr>))
   = 2 * unat (all64 r) mod 2 ^ 64 + unat c" if "unat c \<le> 1" for c :: u32
proof -
  have l: "unat (drop_bit 31 (s_low r)) = unat (s_low r) div 2 ^ 31" by (rule unat_drop)
  have "unat (drop_bit 31 (s_low r)) \<le> 1" unfolding l using unat_u32_less [of "s_low r"] by simp
  from unat_shift_in [OF this, of "s_high r"] unat_shift_in [OF that, of "s_low r"] show ?thesis
    using double_halves [OF unat_u32_less unat_u32_less, of "s_high r" "s_low r" "unat c"] by (simp add: unat_all64 l)
qed

section \<open>The loop\<close>

lemma unat_u64_less: "unat (w :: u64) < 2 ^ 64"
  by (rule order_less_le_trans [OF unsigned_less]) simp

lemma bit_63: "bit (x :: u64) 63 \<longleftrightarrow> 2 ^ 63 \<le> unat x"
proof -
  have "bit (unat x) 63 \<longleftrightarrow> bit x 63" by (simp add: bit_unsigned_iff)
  then have "bit x 63 \<longleftrightarrow> odd (unat x div 2 ^ 63)" by (simp only: bit_iff_odd)
  also have "\<dots> \<longleftrightarrow> 2 ^ 63 \<le> unat x"
  proof -
    have "unat x div 2 ^ 63 < 2" using unat_u64_less [of x] by (simp add: div_less_iff_less_mult)
    then have "unat x div 2 ^ 63 = 0 \<or> unat x div 2 ^ 63 = 1" by linarith
    then show ?thesis by (auto simp: div_eq_0_iff)
  qed
  finally show ?thesis .
qed

text \<open>The subtraction decides the comparison by its sign, as the operands are never too far apart.\<close>

lemma sign_of_difference:
  assumes "unat r < 2 * unat d" "unat d \<le> 2 ^ 63 \<or> 2 ^ 63 \<le> unat r"
  shows "signed_drop_bit 63 (d - r - 1) = (if d \<le> r then -1 else (0 :: u64))"
proof -
  have "bit (d - r - 1) 63 \<longleftrightarrow> d \<le> r"
  proof (cases "d \<le> r")
    case True
    then have le: "unat d \<le> unat r" by (simp add: word_le_nat_alt)
    have "d - r - 1 = 0 - (r - d + 1)" by simp
    moreover have "unat (r - d) = unat r - unat d" using True by (simp add: unat_sub)
    moreover have small: "unat r - unat d < 2 ^ 63" using assms unat_u64_less [of r] le by (cases "unat d \<le> 2 ^ 63") auto
    ultimately have u: "unat (r - d + 1) = unat r - unat d + 1" by (simp add: unat_word_ariths)
    then have "unat (0 - (r - d + 1)) = 2 ^ 64 - (unat r - unat d + 1)"
      using le unat_u64_less [of r] by (auto simp: unat_sub_if_size word_size)
    then have "2 ^ 63 \<le> unat (d - r - 1)" unfolding \<open>d - r - 1 = 0 - (r - d + 1)\<close> using small by simp
    then show ?thesis using True by (simp add: bit_63)
  next
    case False
    then have lt: "unat r < unat d" by (simp add: word_le_nat_alt)
    then have "unat (d - r) = unat d - unat r" by (intro unat_sub) (simp add: word_le_nat_alt)
    moreover have "d - r \<noteq> 0" using False by auto
    ultimately have "unat (d - r - 1) = unat d - unat r - 1" using unat_minus_one by metis
    then have "unat (d - r - 1) < 2 ^ 63" using lt assms(2) unat_u64_less [of d] by auto
    then show ?thesis using False by (simp add: bit_63)
  qed
  moreover have "signed_drop_bit 63 x = (if bit x 63 then -1 else (0 :: u64))" for x :: u64
    by (rule bit_word_eqI) (auto simp: bit_simps Suc_le_eq)
  ultimately show ?thesis by simp
qed

text \<open>
  With \<open>k\<close> bits of the dividend \<open>n\<close> still to come, the remainder register holds the remainder of the other bits, and the
  quotient register the \<open>k\<close> bits on top of the quotient so far without its last bit, which is the carry.
\<close>

definition div_state :: "nat \<Rightarrow> nat \<Rightarrow> u64 \<Rightarrow> udwords \<Rightarrow> udwords \<Rightarrow> u32 \<Rightarrow> bool" where
  "div_state n k d q r c \<longleftrightarrow>
     unat (all64 r) = (n div 2 ^ k) mod unat d
     \<and> unat (all64 q) = (n mod 2 ^ k) * 2 ^ (64 - k) + (n div 2 ^ k) div unat d div 2
     \<and> unat c = (n div 2 ^ k) div unat d mod 2"

lemma next_bit: "n div 2 ^ k = 2 * (n div 2 ^ Suc k) + n div 2 ^ k mod 2" for n :: nat
  by (simp only: power_Suc2 div_mult2_eq mult_div_mod_eq)

lemma low_bits: "n mod 2 ^ Suc k = (n div 2 ^ k mod 2) * 2 ^ k + n mod 2 ^ k" for n :: nat
  by (simp add: mod_mult2_eq mult.commute [of 2])

text \<open>The quotient register, with the next bit of the dividend on top.\<close>

lemma quotient_top:
  fixes n k p :: nat
  assumes "k < 64" "p < 2 ^ (63 - k)"
  shows "((n mod 2 ^ Suc k) * 2 ^ (64 - Suc k) + p) div 2 ^ 63 = n div 2 ^ k mod 2"
    "2 * ((n mod 2 ^ Suc k) * 2 ^ (64 - Suc k) + p) mod 2 ^ 64 = (n mod 2 ^ k) * 2 ^ (64 - k) + 2 * p"
proof -
  define b where "b = n div 2 ^ k mod 2"
  have e: "(2 :: nat) ^ k * 2 ^ (63 - k) = 2 ^ 63" using assms(1) by (simp flip: power_add)
  have e': "(2 :: nat) ^ (64 - k) = 2 * 2 ^ (63 - k)" using assms(1) by (simp flip: power_Suc add: Suc_diff_le)
  let ?x = "(n mod 2 ^ k) * 2 ^ (63 - k) + p"
  have q: "(n mod 2 ^ Suc k) * 2 ^ (64 - Suc k) + p = b * 2 ^ 63 + ?x"
  proof -
    have "(b * 2 ^ k + n mod 2 ^ k) * 2 ^ (63 - k) = b * 2 ^ 63 + (n mod 2 ^ k) * 2 ^ (63 - k)" by (simp only: add_mult_distrib mult.assoc e)
    then show ?thesis unfolding low_bits b_def [symmetric] by simp
  qed
  have "n mod 2 ^ k < 2 ^ k" by simp
  then have "n mod 2 ^ k \<le> 2 ^ k - 1" by linarith
  then have "(n mod 2 ^ k) * 2 ^ (63 - k) \<le> (2 ^ k - 1) * 2 ^ (63 - k)" by (rule mult_le_mono1)
  also have "\<dots> = 2 ^ 63 - 2 ^ (63 - k)" using e by (simp add: diff_mult_distrib)
  finally have x: "?x < 2 ^ 63" using assms(2) power_increasing [of "63 - k" 63 "2 :: nat"] by simp
  have b: "b = 0 \<or> b = 1" by (auto simp: b_def)
  show "((n mod 2 ^ Suc k) * 2 ^ (64 - Suc k) + p) div 2 ^ 63 = b" unfolding q using x by simp
  have "2 * (b * 2 ^ 63 + ?x) = 2 * ?x + b * 2 ^ 64" by simp
  then have "2 * (b * 2 ^ 63 + ?x) mod 2 ^ 64 = 2 * ?x" using x by (simp only: mod_mult_self1) simp
  also have "\<dots> = (n mod 2 ^ k) * 2 ^ (64 - k) + 2 * p" unfolding e' by simp
  finally show "2 * ((n mod 2 ^ Suc k) * 2 ^ (64 - Suc k) + p) mod 2 ^ 64 = (n mod 2 ^ k) * 2 ^ (64 - k) + 2 * p" unfolding q .
qed

text \<open>One digit of the quotient.\<close>

lemma next_digit:
  fixes a b d :: nat
  assumes "0 < d" "b \<le> 1"
  shows "(2 * a + b) mod d = 2 * (a mod d) + b - (if d \<le> 2 * (a mod d) + b then d else 0)"
    "(2 * a + b) div d = 2 * (a div d) + (if d \<le> 2 * (a mod d) + b then 1 else 0)"
    "2 * (a mod d) + b < 2 * d"
proof -
  have m: "a mod d < d" using assms(1) by simp
  then show lt: "2 * (a mod d) + b < 2 * d" using assms(2) by simp
  have e: "2 * a + b = (2 * (a mod d) + b) + 2 * (a div d) * d"
    using mult_div_mod_eq [of d a] by (metis (no_types, lifting) add.assoc add.commute distrib_left mult.assoc mult.commute)
  have mo: "(2 * a + b) mod d = (2 * (a mod d) + b) mod d" and di: "(2 * a + b) div d = 2 * (a div d) + (2 * (a mod d) + b) div d"
    unfolding e using assms(1) by simp_all
  have "(2 * (a mod d) + b) mod d = 2 * (a mod d) + b - (if d \<le> 2 * (a mod d) + b then d else 0)"
    "(2 * (a mod d) + b) div d = (if d \<le> 2 * (a mod d) + b then 1 else 0)"
    using lt assms(1) by (simp_all add: le_mod_geq le_div_geq)
  with mo di show "(2 * a + b) mod d = 2 * (a mod d) + b - (if d \<le> 2 * (a mod d) + b then d else 0)"
    "(2 * a + b) div d = 2 * (a div d) + (if d \<le> 2 * (a mod d) + b then 1 else 0)" by simp_all
qed

lemma div_loop_ok:
  assumes d: "0 < unat d" and n: "n < 2 ^ 64" and k: "k < 64" and big: "unat d \<le> 2 ^ 63 \<or> k \<le> 1 \<and> 2 ^ 63 \<le> n"
    and st: "div_state n k d q r c"
  shows "\<exists>q' r' c'. div_loop k d q r c = (q', r', c') \<and> div_state n 0 d q' r' c'"
  using k big st
proof (induction k arbitrary: q r c)
  case (Suc k)
  let ?a = "n div 2 ^ Suc k"
  define b where "b = n div 2 ^ k mod 2"
  have b1: "b \<le> 1" by (simp add: b_def)
  have st: "unat (all64 r) = ?a mod unat d" "unat (all64 q) = (n mod 2 ^ Suc k) * 2 ^ (64 - Suc k) + ?a div unat d div 2"
    "unat c = ?a div unat d mod 2" using Suc.prems(3) by (simp_all add: div_state_def)
  have a: "n div 2 ^ k = 2 * ?a + b" unfolding b_def by (rule next_bit)
  have "?a div unat d \<le> ?a" by (rule div_le_dividend)
  also have "?a < 2 ^ (63 - k)"
  proof (rule less_mult_imp_div_less)
    have "(2 :: nat) ^ (63 - k) * 2 ^ Suc k = 2 ^ (63 - k + Suc k)" by (rule power_add [symmetric])
    also have "63 - k + Suc k = 64" using Suc.prems(1) by simp
    finally have e: "(2 :: nat) ^ (63 - k) * 2 ^ Suc k = 2 ^ 64" .
    show "n < 2 ^ (63 - k) * 2 ^ Suc k" unfolding e by (rule n)
  qed
  finally have p: "?a div unat d div 2 < 2 ^ (63 - k)" using div_le_dividend [of "?a div unat d" 2] by linarith
  note top = quotient_top [of k, OF _ p, of n]
  have k: "k < 64" using Suc.prems(1) by simp
  have tb: "unat (drop_bit 31 (s_high q)) = b"
    using top(1) [OF k] top_bit [OF unat_u32_less unat_u32_less, of "s_high q" "s_low q"] st(2)
    by (simp only: unat_drop unat_all64 b_def)
  have dg: "2 * (?a mod unat d) + b < 2 * unat d" by (rule next_digit(3) [OF d b1])
  define r1 where "r1 = r\<lparr>s_high := push_bit 1 (s_high r) OR drop_bit 31 (s_low r), s_low := push_bit 1 (s_low r) OR drop_bit 31 (s_high q)\<rparr>"
  define q1 where "q1 = q\<lparr>s_high := push_bit 1 (s_high q) OR drop_bit 31 (s_low q), s_low := push_bit 1 (s_low q) OR c\<rparr>"
  have "2 * (?a mod unat d) + b \<le> n div 2 ^ k" unfolding a using mod_less_eq_dividend [of ?a "unat d"] by simp
  also have "\<dots> \<le> n" by (rule div_le_dividend)
  finally have small: "2 * (?a mod unat d) + b \<le> n" .
  have "unat (all64 r1) = 2 * unat (all64 r) mod 2 ^ 64 + b" unfolding r1_def tb [symmetric] by (rule shift_halves) (use b1 in \<open>simp add: tb\<close>)
  then have r1: "unat (all64 r1) = 2 * (?a mod unat d) + b" using small n st(1) by simp
  have "unat (all64 q1) = 2 * unat (all64 q) mod 2 ^ 64 + unat c" unfolding q1_def by (rule shift_halves) (simp add: st(3))
  then have q1: "unat (all64 q1) = (n mod 2 ^ k) * 2 ^ (64 - k) + ?a div unat d"
    unfolding st(2) top(2) [OF k] st(3) by simp
  have "unat d \<le> 2 ^ 63 \<or> 2 ^ 63 \<le> unat (all64 r1)"
  proof (rule disjCI)
    assume "\<not> 2 ^ 63 \<le> unat (all64 r1)"
    moreover have "unat (all64 r1) = n" if "2 ^ 63 < unat d" "k = 0" using that n r1 by (simp add: b_def)
    ultimately show "unat d \<le> 2 ^ 63" using Suc.prems(2) by fastforce
  qed
  with dg have s: "signed_drop_bit 63 (d - all64 r1 - 1) = (if d \<le> all64 r1 then -1 else 0)"
    by (intro sign_of_difference) (simp_all add: r1)
  define c2 r2 where "c2 = (if d \<le> all64 r1 then 1 else 0 :: u32)" and "r2 = udw (all64 r1 - (if d \<le> all64 r1 then d else 0))"
  have step: "div_loop (Suc k) d q r c = div_loop k d q1 r2 c2"
    using s by (simp add: r1_def q1_def r2_def c2_def Let_def)
  have le: "d \<le> all64 r1 \<longleftrightarrow> unat d \<le> 2 * (?a mod unat d) + b" by (simp add: word_le_nat_alt r1)
  have "unat (all64 r2) = 2 * (?a mod unat d) + b - (if unat d \<le> 2 * (?a mod unat d) + b then unat d else 0)"
    unfolding r2_def all64_udw using le r1 by (auto simp: unat_sub)
  then have "unat (all64 r2) = (n div 2 ^ k) mod unat d" unfolding a using next_digit(1) [OF d b1, of ?a] by simp
  moreover have dv: "(n div 2 ^ k) div unat d = 2 * (?a div unat d) + unat c2"
    unfolding a using next_digit(2) [OF d b1, of ?a] le by (simp add: c2_def)
  have "unat c2 \<le> 1" by (simp add: c2_def)
  then have "(n div 2 ^ k) div unat d div 2 = ?a div unat d" "(n div 2 ^ k) div unat d mod 2 = unat c2" unfolding dv by simp_all
  ultimately have "div_state n k d q1 r2 c2" using q1 by (simp add: div_state_def)
  from Suc.IH [OF k _ this] Suc.prems(2) step show ?case by auto
qed auto

text \<open>The loop from its start: the dividend shifted by \<open>k\<close> bits.\<close>

lemma unat_push_64: "k \<le> 64 \<Longrightarrow> unat (push_bit (64 - k) (a :: u64)) = (unat a mod 2 ^ k) * 2 ^ (64 - k)"
proof -
  assume k: "k \<le> 64"
  have "unat (push_bit (64 - k) a) = unat a * 2 ^ (64 - k) mod 2 ^ 64"
    unfolding unsigned_push_bit_eq by (simp add: push_bit_eq_mult take_bit_eq_mod)
  also have "(2 :: nat) ^ 64 = 2 ^ k * 2 ^ (64 - k)" using k by (simp flip: power_add)
  also have "unat a * 2 ^ (64 - k) mod (2 ^ k * 2 ^ (64 - k)) = (unat a mod 2 ^ k) * 2 ^ (64 - k)" by (rule mult_mod_left [symmetric])
  finally show ?thesis .
qed

lemma div_rest_ok:
  assumes d: "b \<noteq> 0" and k: "0 < k" "k < 64" "unat sr = k"
    and big: "unat b \<le> 2 ^ 63 \<or> k \<le> 1 \<and> 2 ^ 63 \<le> unat a" and less: "unat a div 2 ^ k < unat b"
    and q: "all64 q = push_bit (64 - k) a" and r: "all64 r = drop_bit k a"
  shows "div_rest sr b q r = (a div b, a mod b)"
proof -
  have "div_state (unat a) k b q r 0"
    using less k(2) by (simp add: div_state_def r q unat_drop unat_push_64)
  from div_loop_ok [OF _ unat_u64_less k(2) big this] d obtain q' r' c' where
    l: "div_loop k b q r 0 = (q', r', c')" and st: "div_state (unat a) 0 b q' r' c'" by (auto simp: unat_gt_0)
  have st: "unat (all64 r') = unat a mod unat b" "unat (all64 q') = unat a div unat b div 2" "unat c' = unat a div unat b mod 2"
    using st by (simp_all add: div_state_def)
  have c: "unat (ucast c' :: u64) = unat c'" by (simp add: unsigned_ucast_eq take_bit_nat_eq_self order_less_le_trans [OF unat_u32_less])
  have "unat (push_bit 1 (all64 q') OR ucast c') = 2 * unat (all64 q') mod 2 ^ 64 + unat c'"
    using unat_shift_in [of "ucast c' :: u64" "all64 q'"] st(3) c by simp
  also have "\<dots> = unat (a div b)"
  proof -
    have "unat a div unat b < 2 ^ 64" using unat_u64_less [of a] div_le_dividend [of "unat a" "unat b"] by linarith
    then have "2 * (unat a div unat b div 2) mod 2 ^ 64 = 2 * (unat a div unat b div 2)" by simp
    then show ?thesis unfolding st unat_div by simp
  qed
  finally have "push_bit 1 (all64 q') OR ucast c' = a div b" by (rule unsigned_word_eqI)
  moreover have "all64 r' = a mod b" using st(1) unsigned_word_eqI [of "all64 r'" "a mod b"] unat_mod [of a b] by metis
  ultimately show ?thesis by (simp add: div_rest_def k(3) l)
qed

text \<open>The halves of the shifted dividend.\<close>

lemma bit_udw: "bit (s_low (udw a)) i \<longleftrightarrow> i < 32 \<and> bit a i" "bit (s_high (udw a)) i \<longleftrightarrow> bit a (i + 32)"
  using bit_imp_le_length [of a "i + 32"] by (auto simp: udw_def bit_simps add.commute)

lemma halves_below:
  assumes "0 < k" "k < 32"
  shows "all64 \<lparr>s_high = push_bit (32 - k) (s_low (udw a)), s_low = 0\<rparr> = push_bit (64 - k) a"
    "all64 \<lparr>s_high = drop_bit k (s_high (udw a)), s_low = push_bit (32 - k) (s_high (udw a)) OR drop_bit k (s_low (udw a))\<rparr> = drop_bit k a"
proof -
  show "all64 \<lparr>s_high = push_bit (32 - k) (s_low (udw a)), s_low = 0\<rparr> = push_bit (64 - k) a"
    by (rule bit_word_eqI) (use assms in \<open>auto simp: bit_all64 bit_udw bit_simps\<close>)
  show "all64 \<lparr>s_high = drop_bit k (s_high (udw a)), s_low = push_bit (32 - k) (s_high (udw a)) OR drop_bit k (s_low (udw a))\<rparr> = drop_bit k a"
  proof (rule bit_word_eqI)
    fix i assume "i < LENGTH(64)"
    have "i < 32 \<Longrightarrow> 32 - k \<le> i \<Longrightarrow> i - (32 - k) + 32 = k + i" using assms by simp
    then show "bit (all64 \<lparr>s_high = drop_bit k (s_high (udw a)), s_low = push_bit (32 - k) (s_high (udw a)) OR drop_bit k (s_low (udw a))\<rparr>) i
        = bit (drop_bit k a) i"
      using assms by (auto simp: bit_all64 bit_udw bit_simps add.commute)
  qed
qed

lemma halves_at:
  "all64 \<lparr>s_high = s_low (udw a), s_low = 0\<rparr> = push_bit 32 a"
  "all64 \<lparr>s_high = 0, s_low = s_high (udw a)\<rparr> = drop_bit 32 a"
  by (rule bit_word_eqI, auto simp: bit_all64 bit_udw bit_simps add.commute dest: bit_imp_le_length)+

lemma halves_above:
  assumes "32 < k" "k < 64"
  shows "all64 \<lparr>s_high = push_bit (64 - k) (s_high (udw a)) OR drop_bit (k - 32) (s_low (udw a)), s_low = push_bit (64 - k) (s_low (udw a))\<rparr>
       = push_bit (64 - k) a"
    "all64 \<lparr>s_high = 0, s_low = drop_bit (k - 32) (s_high (udw a))\<rparr> = drop_bit k a"
proof -
  show "all64 \<lparr>s_high = push_bit (64 - k) (s_high (udw a)) OR drop_bit (k - 32) (s_low (udw a)), s_low = push_bit (64 - k) (s_low (udw a))\<rparr>
       = push_bit (64 - k) a"
  proof (rule bit_word_eqI)
    fix i assume "i < LENGTH(64)"
    have "\<not> i < 32 \<Longrightarrow> 64 - k \<le> i - 32 \<Longrightarrow> i - 32 - (64 - k) + 32 = i - (64 - k)"
      "\<not> i < 32 \<Longrightarrow> k - 32 + (i - 32) = i - (64 - k)" "\<not> i < 32 \<Longrightarrow> \<not> 64 - k \<le> i - 32 \<longleftrightarrow> i - (64 - k) < 32" using assms by auto
    then show "bit (all64 \<lparr>s_high = push_bit (64 - k) (s_high (udw a)) OR drop_bit (k - 32) (s_low (udw a)), s_low = push_bit (64 - k) (s_low (udw a))\<rparr>) i
        = bit (push_bit (64 - k) a) i"
      using assms \<open>i < LENGTH(64)\<close> by (auto simp: bit_all64 bit_udw bit_push_bit_iff bit_drop_bit_eq bit_or_iff)
  qed
  show "all64 \<lparr>s_high = 0, s_low = drop_bit (k - 32) (s_high (udw a))\<rparr> = drop_bit k a"
    by (rule bit_word_eqI) (use assms in \<open>auto simp: bit_all64 bit_udw bit_simps add.commute add.assoc dest: bit_imp_le_length\<close>)
qed

section \<open>Leading and trailing zeros\<close>

lemma bit_unat_ge: "bit (w :: 'a::len word) i \<Longrightarrow> 2 ^ i \<le> unat w"
proof -
  assume "bit w i"
  then have "bit (unat w) i" by (simp add: bit_unsigned_iff)
  then have "unat w div 2 ^ i \<noteq> 0" unfolding bit_iff_odd by (metis even_zero)
  then show ?thesis by (simp add: div_eq_0_iff)
qed

lemma clzsi_bounds:
  assumes "w \<noteq> 0"
  shows "clzsi w < 32" "2 ^ (31 - clzsi w) \<le> unat w" "unat w < 2 ^ (32 - clzsi w)"
proof -
  let ?P = "\<lambda>i. \<not> bit w (31 - i)"
  have below: "\<not> bit w (31 - i)" if "i < clzsi w" for i
  proof -
    have "takeWhile ?P [0..<32] ! i = i"
      using that takeWhile_nth [of i ?P "[0..<32]"] length_takeWhile_le [of ?P "[0..<32]"] by (simp add: clzsi_def)
    then show ?thesis using that nth_mem [of i "takeWhile ?P [0..<32]"] by (auto simp: clzsi_def dest: set_takeWhileD)
  qed
  have le: "clzsi w \<le> 32" using length_takeWhile_le [of ?P "[0..<32]"] by (simp add: clzsi_def)
  have high: "\<not> bit w j" if "32 - clzsi w \<le> j" for j
  proof (cases "j < 32")
    case True
    with that le below [of "31 - j"] show ?thesis by simp
  next
    case False
    then show ?thesis using bit_imp_le_length [of w j] by auto
  qed
  show c: "clzsi w < 32"
  proof (rule ccontr)
    assume "\<not> clzsi w < 32"
    then have "w = 0" using high le by (intro bit_word_eqI) simp
    with assms show False by contradiction
  qed
  have "\<not> ?P ([0..<32] ! clzsi w)" using c unfolding clzsi_def by (intro nth_length_takeWhile) simp
  then have "bit w (31 - clzsi w)" using c by simp
  then show "2 ^ (31 - clzsi w) \<le> unat w" by (rule bit_unat_ge)
  have "take_bit (32 - clzsi w) w = w" by (rule bit_word_eqI) (use high in \<open>auto simp: bit_simps not_less [symmetric]\<close>)
  then have "unat w mod 2 ^ (32 - clzsi w) = unat w" by (metis unsigned_take_bit_eq take_bit_eq_mod)
  then show "unat w < 2 ^ (32 - clzsi w)" by (metis mod_less_divisor zero_less_numeral zero_less_power)
qed

lemma ctzsi_bounds:
  assumes "w \<noteq> 0"
  shows "ctzsi w < 32" "\<exists>y. unat w = 2 ^ ctzsi w * (2 * y + 1)"
proof -
  let ?P = "\<lambda>i. \<not> bit w i"
  have below: "\<not> bit w i" if "i < ctzsi w" for i
  proof -
    have "takeWhile ?P [0..<32] ! i = i"
      using that takeWhile_nth [of i ?P "[0..<32]"] length_takeWhile_le [of ?P "[0..<32]"] by (simp add: ctzsi_def)
    then show ?thesis using that nth_mem [of i "takeWhile ?P [0..<32]"] by (auto simp: ctzsi_def dest: set_takeWhileD)
  qed
  have le: "ctzsi w \<le> 32" using length_takeWhile_le [of ?P "[0..<32]"] by (simp add: ctzsi_def)
  show c: "ctzsi w < 32"
  proof (rule ccontr)
    assume "\<not> ctzsi w < 32"
    then have "w = 0" using below le by (intro bit_word_eqI) simp
    with assms show False by contradiction
  qed
  have "\<not> ?P ([0..<32] ! ctzsi w)" using c unfolding ctzsi_def by (intro nth_length_takeWhile) simp
  then have "bit (unat w) (ctzsi w)" using c by (simp add: bit_unsigned_iff)
  then have "odd (unat w div 2 ^ ctzsi w)" unfolding bit_iff_odd .
  then obtain y where y: "unat w div 2 ^ ctzsi w = 2 * y + 1" by (auto elim: oddE)
  have "take_bit (ctzsi w) w = 0" by (rule bit_word_eqI) (use below in \<open>auto simp: bit_simps\<close>)
  then have "unat w mod 2 ^ ctzsi w = 0" by (metis unsigned_take_bit_eq take_bit_eq_mod unsigned_0)
  with y have "unat w = 2 ^ ctzsi w * (2 * y + 1)" by (metis add_0_right mult_div_mod_eq)
  then show "\<exists>y. unat w = 2 ^ ctzsi w * (2 * y + 1)" ..
qed

text \<open>The test for a power of two.\<close>

lemma power_of_two:
  assumes "w \<noteq> 0" "w AND (w - 1) = 0"
  shows "unat w = 2 ^ ctzsi w"
proof -
  let ?c = "ctzsi w"
  from ctzsi_bounds(2) [OF assms(1)] obtain y where y: "unat w = 2 ^ ?c * (2 * y + 1)" by blast
  have "(2 :: nat) ^ ?c \<ge> 1" by simp
  then have "unat (w - 1) = (2 ^ ?c - 1) + y * 2 ^ Suc ?c"
    using unat_minus_one [OF assms(1)] y by (simp add: algebra_simps)
  moreover have "unat w = 2 ^ ?c + y * 2 ^ Suc ?c" using y by (simp add: algebra_simps)
  moreover have "(2 :: nat) ^ ?c - 1 < 2 ^ Suc ?c" "(2 :: nat) ^ ?c < 2 ^ Suc ?c" by (simp_all add: less_imp_diff_less)
  moreover have "(r + y * m) div m = y" if "r < m" for r m :: nat using that by simp
  ultimately have "unat (w - 1) div 2 ^ Suc ?c = y" "unat w div 2 ^ Suc ?c = y" by presburger+
  then have "drop_bit (Suc ?c) w = drop_bit (Suc ?c) (w - 1)" by (metis unat_drop unsigned_word_eqI)
  then have "drop_bit (Suc ?c) w = drop_bit (Suc ?c) (w AND (w - 1))" by (simp add: drop_bit_and)
  then have "y = 0" using assms(2) \<open>unat w div 2 ^ Suc ?c = y\<close> by (metis drop_bit_of_0 unat_drop unsigned_0)
  with y show ?thesis by simp
qed

lemma power_of_two_cases: "unat (w :: u32) = 1 \<Longrightarrow> w AND (w - 1) = 0" "unat (w :: u32) = 2 \<Longrightarrow> w AND (w - 1) = 0"
proof -
  show "w AND (w - 1) = 0" if "unat w = 1"
  proof -
    have "w = 1" using that by (metis unsigned_1 unsigned_word_eqI)
    then show ?thesis by simp
  qed
  show "w AND (w - 1) = 0" if "unat w = 2"
  proof -
    have "w = 2" using that by (intro unsigned_word_eqI) simp
    then show ?thesis by simp
  qed
qed

lemma unat_and_less: "unat (d :: u32) = 2 ^ c \<Longrightarrow> unat (w AND (d - 1)) = unat w mod 2 ^ c"
proof -
  assume d: "unat d = 2 ^ c"
  have "c < 32"
  proof (rule ccontr)
    assume "\<not> c < 32"
    then have "(2 :: nat) ^ 32 \<le> 2 ^ c" by (intro power_increasing) simp_all
    then show False using d unat_u32_less [of d] by simp
  qed
  have "of_nat (unat d) = d" by simp
  then have "d = 2 ^ c" unfolding d by simp
  then have "w AND (d - 1) = take_bit c w" by (simp add: take_bit_eq_mask mask_eq_exp_minus_1)
  then show ?thesis by (metis unsigned_take_bit_eq take_bit_eq_mod)
qed

section \<open>The quotient and the remainder\<close>

lemma quotient_remainder:
  "unat x = unat a div unat b \<Longrightarrow> unat y = unat a mod unat b \<Longrightarrow> (x, y) = (a div b, a mod b)" for a b :: u64
  by (metis unat_div unat_mod unsigned_word_eqI)

lemma unat_ucast_64: "unat (ucast (w :: u32) :: u64) = unat w"
  by (simp add: unsigned_ucast_eq take_bit_nat_eq_self order_less_le_trans [OF unat_u32_less])

lemma clz_difference:
  assumes "x < 32" "y < 32"
  shows "y \<le> x \<Longrightarrow> unat (of_nat x - of_nat y :: u32) = x - y" "x < y \<Longrightarrow> 2 ^ 31 \<le> unat (of_nat x - of_nat y :: u32)"
proof -
  have u: "unat (of_nat x :: u32) = x" "unat (of_nat y :: u32) = y" using assms by (simp_all add: unat_of_nat)
  show "unat (of_nat x - of_nat y :: u32) = x - y" if "y \<le> x"
    using that u by (simp add: unat_sub word_le_nat_alt)
  show "2 ^ 31 \<le> unat (of_nat x - of_nat y :: u32)" if "x < y"
    using that assms u unat_sub_if_size [of "of_nat x :: u32" "of_nat y"] by (simp add: word_size)
qed

text \<open>The number of steps when both high words are non-zero: the divisor, shifted, exceeds the dividend.\<close>

lemma high_bounds:
  assumes "s_high (udw a) \<noteq> 0"
  shows "2 ^ (63 - clzsi (s_high (udw a))) \<le> unat a" "unat a < 2 ^ (64 - clzsi (s_high (udw a)))"
proof -
  let ?c = "clzsi (s_high (udw a))" and ?h = "unat (s_high (udw a))" and ?l = "unat (s_low (udw a))"
  note c = clzsi_bounds [OF assms]
  have "63 - ?c = 31 - ?c + 32" "64 - ?c = 32 - ?c + 32" using c(1) by simp_all
  then have p: "(2 :: nat) ^ (63 - ?c) = 2 ^ (31 - ?c) * 2 ^ 32" "(2 :: nat) ^ (64 - ?c) = 2 ^ (32 - ?c) * 2 ^ 32" by (metis power_add)+
  have "(?h + 1) * 2 ^ 32 \<le> 2 ^ (32 - ?c) * 2 ^ 32" using c(3) by (intro mult_le_mono1) simp
  then show "unat a < 2 ^ (64 - ?c)" unfolding p unat_halves [of a] using unat_u32_less [of "s_low (udw a)"] by simp
  show "2 ^ (63 - ?c) \<le> unat a" unfolding p unat_halves [of a] using mult_le_mono1 [OF c(2), of "2 ^ 32"] by simp
qed

lemma shifted_below:
  fixes n d :: nat
  assumes "n < 2 ^ (64 - x)" "2 ^ m \<le> d" "64 - x = m + k"
  shows "n div 2 ^ k < d"
proof -
  have "n < 2 ^ m * 2 ^ k" using assms(1) unfolding assms(3) power_add .
  then have "n div 2 ^ k < 2 ^ m" by (simp add: less_mult_imp_div_less)
  with assms(2) show ?thesis by simp
qed

lemma shorter_dividend:
  assumes "s_high (udw a) \<noteq> 0" "s_high (udw b) \<noteq> 0" "clzsi (s_high (udw b)) < clzsi (s_high (udw a))"
  shows "(0, a) = (a div b, a mod b)"
proof -
  have "64 - clzsi (s_high (udw a)) \<le> 63 - clzsi (s_high (udw b))" using assms(3) by simp
  then have "(2 :: nat) ^ (64 - clzsi (s_high (udw a))) \<le> 2 ^ (63 - clzsi (s_high (udw b)))" by (rule power_increasing) simp
  then have "unat a < unat b" using high_bounds [OF assms(1)] high_bounds [OF assms(2)] by linarith
  then show ?thesis by (intro quotient_remainder) simp_all
qed

lemma longer_dividend:
  fixes a b :: u64
  assumes h: "s_high (udw a) \<noteq> 0" "s_high (udw b) \<noteq> 0" and le: "clzsi (s_high (udw a)) \<le> clzsi (s_high (udw b))"
    and k: "k = clzsi (s_high (udw b)) - clzsi (s_high (udw a)) + 1"
  shows "b \<noteq> 0" "unat a div 2 ^ k < unat b" "unat b \<le> 2 ^ 63 \<or> k \<le> 1 \<and> 2 ^ 63 \<le> unat a"
proof -
  note a = high_bounds [OF h(1)] and b = high_bounds [OF h(2)] and c = clzsi_bounds(1) [OF h(1)] clzsi_bounds(1) [OF h(2)]
  show "b \<noteq> 0"
  proof
    assume "b = 0"
    with h(2) show False by (simp add: udw_def)
  qed
  show "unat a div 2 ^ k < unat b" using c le k by (intro shifted_below [OF a(2) b(1)]) simp
  show "unat b \<le> 2 ^ 63 \<or> k \<le> 1 \<and> 2 ^ 63 \<le> unat a"
  proof (cases "clzsi (s_high (udw b)) = 0")
    case True
    with a k le show ?thesis by simp
  next
    case False
    then have "(2 :: nat) ^ (64 - clzsi (s_high (udw b))) \<le> 2 ^ 63" by (intro power_increasing) simp_all
    with b(2) show ?thesis by linarith
  qed
qed

text \<open>A divisor that fits the low word.\<close>

lemma low_divisor:
  fixes a b :: u64
  assumes h: "s_high (udw a) \<noteq> 0" "s_high (udw b) = 0" "s_low (udw b) \<noteq> 0" "s_low (udw b) AND (s_low (udw b) - 1) \<noteq> 0"
    and k: "k = 33 + clzsi (s_low (udw b)) - clzsi (s_high (udw a))"
  shows "b \<noteq> 0" "unat a div 2 ^ k < unat b" "unat b \<le> 2 ^ 63" "0 < k" "k < 64"
    "unat (1 + 32 + of_nat (clzsi (s_low (udw b))) - of_nat (clzsi (s_high (udw a))) :: u32) = k"
proof -
  let ?cd = "clzsi (s_low (udw b))" and ?cn = "clzsi (s_high (udw a))"
  note a = high_bounds [OF h(1)] and d = clzsi_bounds [OF h(3)] and c = clzsi_bounds(1) [OF h(1)]
  have b: "unat b = unat (s_low (udw b))" unfolding unat_halves [of b] using h(2) by simp
  with h(3) show "b \<noteq> 0" by (metis unsigned_0 unsigned_word_eqI)
  show "unat a div 2 ^ k < unat b" unfolding b using c d(1) k by (intro shifted_below [OF a(2) d(2)]) simp
  show "unat b \<le> 2 ^ 63" unfolding b using unat_u32_less [of "s_low (udw b)"] by simp
  have "?cd \<noteq> 31"
  proof
    assume "?cd = 31"
    with d have "unat (s_low (udw b)) = 1" by simp
    with power_of_two_cases h(4) show False by blast
  qed
  with c d(1) k show "0 < k" "k < 64" by simp_all
  have "1 + 32 + of_nat ?cd = (of_nat (33 + ?cd) :: u32)" by simp
  moreover have "unat (of_nat (33 + ?cd) :: u32) = 33 + ?cd" "unat (of_nat ?cn :: u32) = ?cn"
    using d(1) c unfolding unat_of_nat by simp_all
  ultimately show "unat (1 + 32 + of_nat ?cd - of_nat ?cn :: u32) = k" using c k by (simp add: unat_sub word_le_nat_alt)
qed

text \<open>The branches of \<open>udivmoddi4\<close>, in the order of the code.\<close>

lemma short_dividend:
  assumes "b \<noteq> 0" "s_high (udw a) = 0"
  shows "udivmoddi4 a b = Inr (a div b, a mod b)"
proof (cases "s_high (udw b) = 0")
  case True
  have u: "unat a = unat (s_low (udw a))" "unat b = unat (s_low (udw b))"
    unfolding unat_halves [of a] unat_halves [of b] using assms(2) True by simp_all
  with assms(1) have "s_low (udw b) \<noteq> 0" by (metis unat_eq_zero)
  then have "udivmoddi4 a b = Inr (ucast (s_low (udw a) div s_low (udw b)), ucast (s_low (udw a) mod s_low (udw b)))"
    using assms(2) True by (simp add: udivmoddi4_def Let_def)
  also have "\<dots> = Inr (a div b, a mod b)"
    by (rule arg_cong [where f = Inr], rule quotient_remainder) (simp_all add: unat_ucast_64 unat_div unat_mod u)
  finally show ?thesis .
next
  case False
  then have "1 \<le> unat (s_high (udw b))" by (simp add: Suc_le_eq unat_gt_0)
  then have "unat a < unat b" unfolding unat_halves [of a] unat_halves [of b]
    using assms(2) unat_u32_less [of "s_low (udw a)"] by simp
  then have "(0, a) = (a div b, a mod b)" by (intro quotient_remainder) simp_all
  moreover have "(ucast (s_low (udw a)) :: u64) = a"
    using assms(2) unat_halves [of a] by (simp add: word_unat_eq_iff unat_ucast_64)
  ultimately show ?thesis using assms(2) False by (simp add: udivmoddi4_def Let_def)
qed

lemma high_divisor:
  assumes "s_high (udw a) \<noteq> 0" "s_low (udw b) = 0" "s_high (udw b) \<noteq> 0"
  shows "s_low (udw a) = 0 \<Longrightarrow> (ucast (s_high (udw a) div s_high (udw b)), all64 \<lparr>s_high = s_high (udw a) mod s_high (udw b), s_low = 0\<rparr>)
        = (a div b, a mod b)"
    "s_high (udw b) AND (s_high (udw b) - 1) = 0 \<Longrightarrow>
      (ucast (drop_bit (ctzsi (s_high (udw b))) (s_high (udw a))),
        all64 \<lparr>s_high = s_high (udw a) AND (s_high (udw b) - 1), s_low = s_low (udw a)\<rparr>) = (a div b, a mod b)"
proof -
  let ?h = "unat (s_high (udw a))" and ?l = "unat (s_low (udw a))" and ?d = "unat (s_high (udw b))"
  have a: "unat a = ?h * 2 ^ 32 + ?l" by (rule unat_halves)
  have b: "unat b = ?d * 2 ^ 32" using assms(2) unat_halves [of b] by simp
  have dv: "(h * 2 ^ 32 + l) div (d * 2 ^ 32) = h div d" "(h * 2 ^ 32 + l) mod (d * 2 ^ 32) = h mod d * 2 ^ 32 + l"
    if "l < 2 ^ 32" for h l d :: nat
  proof -
    have q: "(h * 2 ^ 32 + l) div 2 ^ 32 = h" "(h * 2 ^ 32 + l) mod 2 ^ 32 = l" using that by simp_all
    show "(h * 2 ^ 32 + l) div (d * 2 ^ 32) = h div d" unfolding mult.commute [of d] div_mult2_eq q(1) ..
    show "(h * 2 ^ 32 + l) mod (d * 2 ^ 32) = h mod d * 2 ^ 32 + l" unfolding mult.commute [of d] mod_mult2_eq q by simp
  qed
  note dv = dv [OF unat_u32_less [of "s_low (udw a)"], of ?h ?d]
  show "(ucast (s_high (udw a) div s_high (udw b)), all64 \<lparr>s_high = s_high (udw a) mod s_high (udw b), s_low = 0\<rparr>)
        = (a div b, a mod b)" if "s_low (udw a) = 0"
    using that by (intro quotient_remainder) (simp_all only: a b dv unat_ucast_64 unat_all64 unat_div unat_mod udwords.simps, simp_all)
  show "(ucast (drop_bit (ctzsi (s_high (udw b))) (s_high (udw a))),
        all64 \<lparr>s_high = s_high (udw a) AND (s_high (udw b) - 1), s_low = s_low (udw a)\<rparr>) = (a div b, a mod b)"
    if "s_high (udw b) AND (s_high (udw b) - 1) = 0"
  proof -
    note p = power_of_two [OF assms(3) that]
    show ?thesis
      by (rule quotient_remainder)
        (simp_all only: a b p dv [unfolded p] unat_ucast_64 unat_all64 unat_drop unat_and_less [OF p] udwords.simps)
  qed
qed

lemma low_power:
  fixes a b :: u64
  assumes "s_high (udw b) = 0" "s_low (udw b) \<noteq> 0" "s_low (udw b) AND (s_low (udw b) - 1) = 0"
  defines "r \<equiv> (ucast (s_low (udw a) AND (s_low (udw b) - 1)) :: u64)"
  shows "s_low (udw b) = 1 \<Longrightarrow> (a, r) = (a div b, a mod b)"
    "s_low (udw b) \<noteq> 1 \<Longrightarrow>
      (all64 \<lparr>s_high = drop_bit (ctzsi (s_low (udw b))) (s_high (udw a)),
         s_low = push_bit (32 - ctzsi (s_low (udw b))) (s_high (udw a)) OR drop_bit (ctzsi (s_low (udw b))) (s_low (udw a))\<rparr>, r)
        = (a div b, a mod b)"
proof -
  let ?c = "ctzsi (s_low (udw b))"
  note p = power_of_two [OF assms(2,3)] and c = ctzsi_bounds(1) [OF assms(2)]
  have b: "unat b = 2 ^ ?c" using assms(1) unat_halves [of b] p by simp
  have "(2 :: nat) ^ ?c dvd 2 ^ 32" using c by (intro le_imp_power_dvd) simp
  then have "unat a mod 2 ^ ?c = unat (s_low (udw a)) mod 2 ^ ?c" unfolding unat_halves [of a] by (metis dvd_mult mod_add_left_eq add_0 dvd_eq_mod_eq_0)
  then have r: "unat r = unat a mod unat b" unfolding r_def b by (simp add: unat_ucast_64 unat_and_less [OF p])
  show "(a, r) = (a div b, a mod b)" if "s_low (udw b) = 1"
    using r that by (intro quotient_remainder) (simp_all add: unat_halves [of b] assms(1))
  show "(all64 \<lparr>s_high = drop_bit ?c (s_high (udw a)), s_low = push_bit (32 - ?c) (s_high (udw a)) OR drop_bit ?c (s_low (udw a))\<rparr>, r)
        = (a div b, a mod b)" if "s_low (udw b) \<noteq> 1"
  proof (rule quotient_remainder [OF _ r])
    have "?c \<noteq> 0" using that p by (metis power_0 unsigned_1 unsigned_word_eqI)
    with c have "all64 \<lparr>s_high = drop_bit ?c (s_high (udw a)), s_low = push_bit (32 - ?c) (s_high (udw a)) OR drop_bit ?c (s_low (udw a))\<rparr>
        = drop_bit ?c a" by (intro halves_below) simp_all
    then show "unat (all64 \<lparr>s_high = drop_bit ?c (s_high (udw a)), s_low = push_bit (32 - ?c) (s_high (udw a)) OR drop_bit ?c (s_low (udw a))\<rparr>)
        = unat a div unat b"
      unfolding b unat_drop [symmetric] by (rule arg_cong)
  qed
qed

text \<open>The shared tail of the two branches that divide by a divisor with a high word.\<close>

lemma high_loop:
  fixes a b :: u64
  assumes h: "s_high (udw a) \<noteq> 0" "s_high (udw b) \<noteq> 0"
  defines "sr \<equiv> (of_nat (clzsi (s_high (udw b))) - of_nat (clzsi (s_high (udw a))) :: u32)"
  shows "2 ^ 31 \<le> unat sr \<Longrightarrow> (0, a) = (a div b, a mod b)"
    "unat sr \<le> 31 \<or> 2 ^ 31 \<le> unat sr"
    "unat sr = 31 \<Longrightarrow> s_high (udw b) AND (s_high (udw b) - 1) = 0"
    "unat sr = 31 \<Longrightarrow> div_rest (sr + 1) b \<lparr>s_high = s_low (udw a), s_low = 0\<rparr> \<lparr>s_high = 0, s_low = s_high (udw a)\<rparr> = (a div b, a mod b)"
    "unat sr < 31 \<Longrightarrow> div_rest (sr + 1) b \<lparr>s_high = push_bit (unat (32 - (sr + 1))) (s_low (udw a)), s_low = 0\<rparr>
        \<lparr>s_high = drop_bit (unat (sr + 1)) (s_high (udw a)),
         s_low = push_bit (unat (32 - (sr + 1))) (s_high (udw a)) OR drop_bit (unat (sr + 1)) (s_low (udw a))\<rparr> = (a div b, a mod b)"
proof -
  let ?cn = "clzsi (s_high (udw a))" and ?cd = "clzsi (s_high (udw b))"
  note c = clzsi_bounds(1) [OF h(2)] clzsi_bounds(1) [OF h(1)]
  note sr = clz_difference [OF c, folded sr_def]
  show "unat sr \<le> 31 \<or> 2 ^ 31 \<le> unat sr" 
  proof (cases "?cn \<le> ?cd")
    case True
    then have "unat sr = ?cd - ?cn" by (rule sr(1))
    with c show ?thesis by linarith
  qed (use sr(2) in simp)
  show "(0, a) = (a div b, a mod b)" if "2 ^ 31 \<le> unat sr"
    using that sr(1) c by (intro shorter_dividend [OF h]) (rule ccontr, simp)
  have small: "?cn \<le> ?cd" "unat (sr + 1) = ?cd - ?cn + 1" "unat sr = ?cd - ?cn" if "unat sr \<le> 31"
  proof -
    show "?cn \<le> ?cd" using that sr(2) by (rule_tac ccontr) simp
    then show "unat sr = ?cd - ?cn" by (rule sr(1))
    with that show "unat (sr + 1) = ?cd - ?cn + 1" by (simp add: unat_word_ariths)
  qed
  have top: "?cd = 31" "?cn = 0" if "unat sr = 31" using that small c by simp_all
  show "s_high (udw b) AND (s_high (udw b) - 1) = 0" if "unat sr = 31"
    using clzsi_bounds [OF h(2)] top [OF that] by (intro power_of_two_cases(1)) simp
  note l = longer_dividend [OF h _ refl]
  show "div_rest (sr + 1) b \<lparr>s_high = s_low (udw a), s_low = 0\<rparr> \<lparr>s_high = 0, s_low = s_high (udw a)\<rparr> = (a div b, a mod b)"
    if "unat sr = 31"
    using l small that top by (intro div_rest_ok [where k = 32]) (simp_all add: halves_at)
  show "div_rest (sr + 1) b \<lparr>s_high = push_bit (unat (32 - (sr + 1))) (s_low (udw a)), s_low = 0\<rparr>
        \<lparr>s_high = drop_bit (unat (sr + 1)) (s_high (udw a)),
         s_low = push_bit (unat (32 - (sr + 1))) (s_high (udw a)) OR drop_bit (unat (sr + 1)) (s_low (udw a))\<rparr> = (a div b, a mod b)"
    if lt: "unat sr < 31"
  proof -
    define k where "k = ?cd - ?cn + 1"
    have k: "unat (sr + 1) = k" "k < 32" "0 < k" using small lt by (simp_all add: k_def)
    have k': "unat (32 - (sr + 1)) = 32 - k" using k by (subst unat_sub) (simp_all add: word_le_nat_alt)
    show ?thesis unfolding k' k(1)
      using l small lt k by (intro div_rest_ok [where k = k]) (simp_all only: halves_below, simp_all add: k_def)
  qed
qed

lemma low_loop:
  fixes a b :: u64
  assumes h: "s_high (udw a) \<noteq> 0" "s_high (udw b) = 0" "s_low (udw b) \<noteq> 0" "s_low (udw b) AND (s_low (udw b) - 1) \<noteq> 0"
  shows "udivmoddi4 a b = Inr (a div b, a mod b)"
proof -
  define sr where "sr = (1 + 32 + of_nat (clzsi (s_low (udw b))) - of_nat (clzsi (s_high (udw a))) :: u32)"
  define k where "k = unat sr"
  have l: "b \<noteq> 0" "unat a div 2 ^ k < unat b" "unat b \<le> 2 ^ 63" "0 < k" "k < 64"
    using low_divisor [OF h refl] unfolding k_def sr_def by simp_all
  note ok = div_rest_ok [OF l(1,4,5) k_def [symmetric] disjI1 [OF l(3)] l(2)]
  have eq: "udivmoddi4 a b = (case (if sr = 32 then
                   (\<lparr>s_high = s_low (udw a), s_low = 0\<rparr>, \<lparr>s_high = 0, s_low = s_high (udw a)\<rparr>)
                 else if sr < 32 then
                   (\<lparr>s_high = push_bit (unat (32 - sr)) (s_low (udw a)), s_low = 0\<rparr>,
                    \<lparr>s_high = drop_bit (unat sr) (s_high (udw a)),
                     s_low = push_bit (unat (32 - sr)) (s_high (udw a)) OR drop_bit (unat sr) (s_low (udw a))\<rparr>)
                 else
                   (\<lparr>s_high = push_bit (unat (64 - sr)) (s_high (udw a)) OR drop_bit (unat (sr - 32)) (s_low (udw a)),
                     s_low = push_bit (unat (64 - sr)) (s_low (udw a))\<rparr>,
                    \<lparr>s_high = 0, s_low = drop_bit (unat (sr - 32)) (s_high (udw a))\<rparr>)) of
        (q, r) \<Rightarrow> Inr (div_rest sr b q r))"
    using h by (simp only: udivmoddi4_def Let_def sr_def if_False if_True simp_thms)
  consider "k = 32" | "k < 32" | "32 < k" by linarith
  then show ?thesis
  proof cases
    case 1
    then have "sr = 32" unfolding k_def by (intro unsigned_word_eqI) simp
    moreover have "div_rest sr b \<lparr>s_high = s_low (udw a), s_low = 0\<rparr> \<lparr>s_high = 0, s_low = s_high (udw a)\<rparr> = (a div b, a mod b)"
      by (rule ok) (simp_all add: 1 halves_at)
    ultimately show ?thesis using eq by simp
  next
    case 2
    then have "unat (32 - sr) = 32 - k" unfolding k_def by (subst unat_sub) (simp_all add: word_le_nat_alt)
    moreover have "sr \<noteq> 32" "sr < 32" using 2 unfolding k_def by (auto simp: word_less_nat_alt)
    ultimately show ?thesis using eq ok [OF halves_below, OF l(4) 2 l(4) 2] by (simp add: k_def)
  next
    case 3
    then have "unat (64 - sr) = 64 - k" "unat (sr - 32) = k - 32"
      using l(5) unfolding k_def by (subst unat_sub, simp_all add: word_le_nat_alt)+
    moreover have "sr \<noteq> 32" "\<not> sr < 32" using 3 unfolding k_def by (auto simp: word_less_nat_alt)
    ultimately show ?thesis using eq ok [OF halves_above, OF 3 l(5) 3 l(5)] by simp
  qed
qed

lemma high_low_empty:
  assumes n: "s_high (udw a) \<noteq> 0" and d: "s_high (udw b) \<noteq> 0" and low: "s_low (udw b) = 0"
  shows "udivmoddi4 a b = Inr (a div b, a mod b)"
proof -
  define sr where "sr = (of_nat (clzsi (s_high (udw b))) - of_nat (clzsi (s_high (udw a))) :: u32)"
  note l = high_loop [OF n d, folded sr_def] and z = high_divisor [OF n low d]
  have cmp: "30 < sr \<longleftrightarrow> 31 \<le> unat sr" by (auto simp: word_less_nat_alt)
  consider "s_low (udw a) = 0" | "s_low (udw a) \<noteq> 0" "s_high (udw b) AND (s_high (udw b) - 1) = 0"
    | "s_low (udw a) \<noteq> 0" "s_high (udw b) AND (s_high (udw b) - 1) \<noteq> 0" "30 < sr"
    | "s_low (udw a) \<noteq> 0" "s_high (udw b) AND (s_high (udw b) - 1) \<noteq> 0" "\<not> 30 < sr" by blast
  then show ?thesis
  proof cases
    case 1
    with n d low z(1) show ?thesis by (simp add: udivmoddi4_def Let_def)
  next
    case 2
    with n d low z(2) show ?thesis by (simp add: udivmoddi4_def Let_def)
  next
    case 3
    then have "2 ^ 31 \<le> unat sr" using l(2,3) cmp by linarith
    with 3 n d low l(1) show ?thesis by (simp add: udivmoddi4_def Let_def flip: sr_def)
  next
    case 4
    then have "unat sr < 31" using cmp by simp
    with 4 n d low l(5) show ?thesis by (simp add: udivmoddi4_def Let_def flip: sr_def)
  qed
qed

lemma both_words:
  assumes n: "s_high (udw a) \<noteq> 0" and d: "s_high (udw b) \<noteq> 0" and low: "s_low (udw b) \<noteq> 0"
  shows "udivmoddi4 a b = Inr (a div b, a mod b)"
proof -
  define sr where "sr = (of_nat (clzsi (s_high (udw b))) - of_nat (clzsi (s_high (udw a))) :: u32)"
  note l = high_loop [OF n d, folded sr_def]
  have cmp: "31 < sr \<longleftrightarrow> 32 \<le> unat sr" by (auto simp: word_less_nat_alt)
  have last_step: "sr + 1 = 32 \<longleftrightarrow> sr = 31"
    by (metis add_right_cancel one_plus_numeral_commute one_plus_numeral numeral_plus_one semiring_norm(2,4,8,10))
  consider "31 < sr" | "sr = 31" | "\<not> 31 < sr" "sr \<noteq> 31" by blast
  then show ?thesis
  proof cases
    case 1
    then have "2 ^ 31 \<le> unat sr" using l(2) cmp by linarith
    with 1 n d low l(1) show ?thesis by (simp add: udivmoddi4_def Let_def flip: sr_def)
  next
    case 2
    with n d low l(4) show ?thesis by (simp add: udivmoddi4_def Let_def flip: sr_def)
  next
    case 3
    then have "unat sr < 31" using cmp by (simp add: word_unat_eq_iff)
    with 3 n d low l(5) last_step show ?thesis by (simp add: udivmoddi4_def Let_def flip: sr_def)
  qed
qed

text \<open>C40: for every dividend and every non-zero divisor, the shift-and-subtract division of two 32-bit halves returns the
quotient and the remainder of the 64-bit division, through each of the special cases the code singles out (a dividend of one
word, a divisor with an empty low or high word, a power of two, a divisor longer than the dividend) and for each number of
steps of the loop; a zero divisor reaches the division by zero.\<close>

theorem udivmoddi4_correct:
  "(b \<noteq> 0 \<longrightarrow> udivmoddi4 a b = Inr (a div b, a mod b)) \<and> udivmoddi4 a 0 = Inl DivisionByZero"
proof (intro conjI impI)
  show "udivmoddi4 a 0 = Inl DivisionByZero" by (simp add: udivmoddi4_def udw_def Let_def)
  assume b: "b \<noteq> 0"
  show "udivmoddi4 a b = Inr (a div b, a mod b)"
  proof (cases "s_high (udw a) = 0")
    case True
    with b show ?thesis by (rule short_dividend)
  next
    case n: False
    show ?thesis
    proof (cases "s_high (udw b) = 0")
      case True
      with b have "s_low (udw b) \<noteq> 0" using unat_halves [of b] by (auto simp: unat_eq_zero)
      with n True low_loop [OF n True] low_power [OF True] show ?thesis
        by (cases "s_low (udw b) AND (s_low (udw b) - 1) = 0") (simp_all add: udivmoddi4_def Let_def)
    next
      case d: False
      then show ?thesis using high_low_empty [OF n d] both_words [OF n d] by blast
    qed
  qed
qed

theorem udivmoddi4_correct_witness:
  "(0x300000007 :: u64) \<noteq> 0 \<and> udivmoddi4 0xFFFFFFFF00000010 0x300000007 = Inr (0x55555554, 0xaaaaaac4)"
  using udivmoddi4_correct [of "0x300000007" "0xFFFFFFFF00000010"] by simp

end
