(* ===== verification/Spec2Isabelle.thy ===== *)
theory Spec2Isabelle
  imports Rbpf_Properties Fletcher32 Xipfs_Shell Core_Lib_Properties Core_Mbox_Properties Core_Stack Crt0 Udivmod
begin

text \<open>
  A verification library for the PRR repository: a system that runs eBPF programs and native binaries on a small
  microcontroller (nRF52832, Cortex-M4) under the operating system RIOT and the Pip hypervisor.

  \<^bold>\<open>The system.\<close>  Files are stored in flash by the execute-in-place file system XiPFS and are uploaded through shell commands.
  A native binary (a partition) is relocated by its start-up code and then runs in place.  One such binary is the
  benchmark, which contains an interpreter for eBPF: a pre-flight verifier accepts or rejects a program, and the interpreter
  checks every memory access against the regions the program was given.  All of this runs on the
  RIOT kernel: a priority scheduler with run queues, mutexes, condition variables, thread flags, messages and mailboxes.

  \<^bold>\<open>Conventions.\<close>  The target is a 32-bit little-endian machine.  Memory is a function from 32-bit addresses to bytes
  (\<open>PRR_Prelude\<close>, words in \<open>PRR_Words\<close>); machine integers are words of their width, and arithmetic wraps as in C.  C that may fail returns
  a sum type whose left values are the failed assertions, the null dereferences and the other undefined
  operations the code can reach.  A pointer is an address or a node identity, \<open>NULL\<close> is \<open>None\<close>.  Preprocessor constants carry
  their C names and are collected in \<open>c_const\<close>.

  \<^bold>\<open>rBPF\<close> (\<open>06-rbpf-bench/src/RIOT/sys\<close>).
  \<^item> \<open>Rbpf_Instruction\<close>: \<open>include/rbpf/instruction.h\<close>, the opcodes and the packed instruction format, with the round trip through memory (C14).
  \<^item> \<open>Rbpf_Application\<close>: \<open>include/rbpf.h\<close> and \<open>rbpf/rbpf.c\<close>, the application object, its set-up and regions, and the permission check of
    \<open>rbpf/engine.c\<close>, characterised exactly (C4, C5, C13).
  \<^item> \<open>Rbpf_Verify\<close>: \<open>rbpf/verify.c\<close>, the verifier, characterised exactly (C6, C7).
  \<^item> \<open>Rbpf_Engine\<close>: the interpreter of \<open>rbpf/engine.c\<close>, every instruction.
    \<open>Rbpf_Safety\<close>, \<open>Rbpf_Termination\<close>, \<open>Rbpf_Noninterference\<close> and \<open>Rbpf_Run\<close> carry the facts about one
    instruction to whole runs; the contract between verifier and interpreter is the locale \<open>text_verifier\<close>.
  \<^item> \<open>Rbpf_Properties\<close>: a run writes only to writable regions (C1), depends only on readable memory (C3), and ends (C2); a
    rejected program is not run (C9); what single instructions compute (C10 to C12); and a gap in the verifier (C8).
  \<^item> \<open>Udivmod\<close>: the 64-bit division of the compiler runtime the interpreter is linked with (\<open>udivmoddi4.c\<close>) is the
    division (C40).
  \<^item> \<open>Fletcher32\<close>: the checksum program \<open>08-fletcher32/fletcher32.c\<close> computes the Fletcher checksum (C15).

  \<^bold>\<open>Files and partitions.\<close>
  \<^item> \<open>Xipfs_Flash\<close> and \<open>Xipfs\<close>: the flash page driver (\<open>flashpage.h\<close>, \<open>flashpage.c\<close>) and the file system (\<open>gnrc_xipfs.c\<close>).  The
    memory controller is hardware: a record of two functions with the documented behaviour \<open>nvmc_spec\<close> as hypothesis, programming clears
    bits and erasing sets a page to ones.  \<open>Xipfs_Write\<close>, \<open>Xipfs_Chain\<close> and \<open>Xipfs_Erase\<close> relate the code to the abstract list of files.
  \<^item> \<open>Xipfs_Properties\<close>: creating, searching, writing, status changes and formatting (C16, C17, C20 to C22), and two ways to lose data (C19, C23).
  \<^item> \<open>Xipfs_Shell\<close>: the shell commands \<open>mkbin\<close>, \<open>ldbin\<close>, \<open>rm\<close>, \<open>cp\<close>, \<open>ls\<close>, \<open>df\<close>, \<open>cat\<close>, \<open>fmtbin\<close> (\<open>RIOT/sys/shell/cmds\<close>); a file
    that is uploaded in base 64 is what was sent (C18).
  \<^item> \<open>Crt0\<close>: the start-up code \<open>06-rbpf-bench/crt0/crt0.c\<close> relocates a partition (C39).

  \<^bold>\<open>The kernel\<close> (\<open>RIOT/core\<close>).
  \<^item> \<open>Core_Clist\<close>, \<open>Core_Clist_Sort\<close>, \<open>Core_Queue\<close>, \<open>Core_Bitarithm\<close>: linked lists, their merge sort, the ring buffer and the circular index
    buffer, which share the contract \<open>bounded_fifo\<close>, and the bit arithmetic.  \<open>Core_Lib_Properties\<close>: they refine sequences and bounded
    queues, the sort is the stable sort, and the variants of the bit functions agree (C24 to C28).
  \<^item> \<open>Core_Sched\<close>, \<open>Core_Mutex\<close>, \<open>Core_Msg\<close>, \<open>Core_Mbox\<close>: the functions of \<open>sched.c\<close>, \<open>thread.c\<close>, \<open>mutex.c\<close>, \<open>rmutex.c\<close>, \<open>cond.c\<close>,
    \<open>thread_flags.c\<close>, \<open>msg.c\<close>, \<open>mbox.c\<close>, \<open>msg_bus.c\<close> and \<open>priority_queue.c\<close> on one kernel state: the thread control blocks, the links of
    all queues, the bit cache of the run queues, the active thread, and the messages in memory.
  \<^item> \<open>Core_Sched_Inv\<close>, \<open>Core_Kernel_Inv\<close>, \<open>Core_Kernel_Ops\<close>, \<open>Core_Kernel_Msg\<close>: the invariant and its preservation by every operation.
    \<open>Core_Kernel\<close> and \<open>Core_Kernel_Steps\<close>: the kernel as a transition system of calls, interrupts and scheduler runs from \<open>kernel_init\<close> of
    \<open>init.c\<close>.  A call is one step, as the code disables interrupts around its changes; a call that blocks ends its step.
  \<^item> \<open>Core_Properties\<close>, \<open>Core_Msg_Properties\<close>, \<open>Core_Mbox_Properties\<close>: calls end without a fault in every reachable state (C29), the
    scheduler runs the best thread (C30, C31), yielding threads take turns (C32), and the contracts of mutexes, messages and mailboxes
    (C33 to C35) with two runs that break what a caller expects (C36, C37).
  \<^item> \<open>Core_Stack\<close>: the stack a new thread starts with (\<open>thread_arch.c\<close>), and its measurement (C38).

  \<^bold>\<open>Loops.\<close>  Structural loops are recursive functions; loops bounded by a machine integer are functions with a measure.  Loops over linked
  structures, and the relocation loops with wrapping counters, are \<open>partial_function (option)\<close>, where \<open>None\<close> is a loop that does not end,
  and the theorems state that they end.  The walks over the file chain take a number of steps, and more steps than there are files
  are enough (C16 to C18).  A run of the interpreter takes fuel; C2 gives an amount that is enough for every accepted program.

  \<^bold>\<open>Not modelled.\<close>  The Pip hypervisor, which the repository holds as a binary; the commands \<open>exec\<close> and \<open>safe_exec\<close>, which
  consist of stack switches in assembly and of calls of that hypervisor (their file system calls are modelled); the context switch, which is
  assembly; the benchmark's \<open>main.c\<close> and its system-call stubs, which parse arguments and print; messages the shell commands print; the
  host-side scripts; and the parts of RIOT that this system does not use: other processors, drivers, the network stack and packages.
  Compile-time options that are off in this system (priority inheritance, scheduler callbacks, thread names) are left out.
\<close>

end
